(* ===== verification/Prelude.thy ===== *)
theory Prelude
  imports Main "HOL-Library.Word"
begin

text \<open>
  The vocabulary every component shares: the machine types of \<^verbatim>\<open>include/types.h\<close>, the result
  type of kernel code that may panic or block, the collections the component proofs draw on,
  and the generic facts about words, lists and results that are not specific to one component.
\<close>

unbundle bit_operations_syntax

section \<open>Machine types (include/types.h)\<close>

type_synonym u8 = "8 word"
type_synonym u16 = "16 word"
type_synonym u32 = "32 word"
type_synonym u64 = "64 word"

text \<open>Physical memory, byte addressed: the kernel runs on a direct map.\<close>

type_synonym memory = "u64 \<Rightarrow> u8"

section \<open>Results of kernel code\<close>

text \<open>
  A kernel routine either returns, or ends in one of the ways below.  \<open>Panic msg\<close> is
  \<^verbatim>\<open>panic(msg)\<close>, which never returns.  \<open>Block\<close> is a path that reaches \<^verbatim>\<open>sleep()\<close>: the calling
  thread is suspended and the routine goes on only after another thread has run.  \<open>NoFuel\<close>
  marks a loop whose iteration bound was too small; the component theories prove that the
  bounds they use are enough.  \<open>BadAccess\<close> is a C array access out of its bounds.
\<close>

datatype err = Panic string | Block | NoFuel | BadAccess

type_synonym 'a res = "err + 'a"

definition rbind :: "'a res \<Rightarrow> ('a \<Rightarrow> 'b res) \<Rightarrow> 'b res" where
  "rbind r f = (case r of Inl e \<Rightarrow> Inl e | Inr x \<Rightarrow> f x)"

lemma rbind_simps [simp]:
  "rbind (Inl e) f = Inl e"
  "rbind (Inr x) f = f x"
  by (simp_all add: rbind_def)

lemma rbind_Inr_iff: "rbind r f = Inr y \<longleftrightarrow> (\<exists>x. r = Inr x \<and> f x = Inr y)"
  by (cases r) auto

lemma rbind_Inl_iff: "rbind r f = Inl e \<longleftrightarrow> r = Inl e \<or> (\<exists>x. r = Inr x \<and> f x = Inl e)"
  by (cases r) auto

lemma rbind_assoc: "rbind (rbind r f) g = rbind r (\<lambda>x. rbind (f x) g)"
  by (cases r) auto

lemma rbind_cong [fundef_cong]:
  "r = r' \<Longrightarrow> (\<And>x. r' = Inr x \<Longrightarrow> f x = f' x) \<Longrightarrow> rbind r f = rbind r' f'"
  by (cases r') auto

text \<open>A counted loop whose body may fail.\<close>

primrec rfold :: "('x \<Rightarrow> 's \<Rightarrow> 's res) \<Rightarrow> 'x list \<Rightarrow> 's \<Rightarrow> 's res" where
  "rfold f [] s = Inr s"
| "rfold f (x # xs) s = rbind (f x s) (rfold f xs)"

lemma rfold_append: "rfold f (xs @ ys) s = rbind (rfold f xs s) (rfold f ys)"
  by (induction xs arbitrary: s) (auto simp: rbind_assoc intro!: rbind_cong)

lemma rfold_cong [fundef_cong]:
  "xs = ys \<Longrightarrow> s = t \<Longrightarrow> (\<And>x s. x \<in> set ys \<Longrightarrow> f x s = g x s) \<Longrightarrow> rfold f xs s = rfold g ys t"
proof (induction ys arbitrary: xs s t)
  case Nil
  then show ?case by simp
next
  case (Cons y ys)
  then show ?case by (auto intro!: rbind_cong)
qed

section \<open>Collections\<close>

named_theorems unat_simps \<open>word operations of the kernel read as arithmetic on naturals\<close>
named_theorems mem_simps \<open>what a store leaves at an address\<close>
named_theorems frame_simps \<open>state components an operation leaves alone\<close>

section \<open>Words\<close>

lemma unat_lt64: "unat (a :: u64) < 18446744073709551616"
  using unsigned_less [of a] by simp

lemma unat_lt32: "unat (a :: u32) < 4294967296"
  using unsigned_less [of a] by simp

lemma unat_add64:
  "unat (a + b :: u64) = (unat a + unat b) mod 18446744073709551616"
  by (simp add: unat_word_ariths)

lemma unat_add_nowrap:
  "unat a + unat b < 18446744073709551616 \<Longrightarrow> unat (a + b :: u64) = unat a + unat b"
  by (simp add: unat_add64)

lemma unat_of_nat64: "n < 18446744073709551616 \<Longrightarrow> unat (of_nat n :: u64) = n"
  by (simp add: unat_of_nat)

lemma unat_of_nat32: "n < 4294967296 \<Longrightarrow> unat (of_nat n :: u32) = n"
  by (simp add: unat_of_nat)

lemma word_eq_of_unat: "unat a = unat b \<Longrightarrow> a = (b :: 'a :: len word)"
  by (simp only: word_unat_eq_iff)

lemma unat_drop_bit_div: "unat (drop_bit n (w :: 'a :: len word)) = unat w div 2 ^ n"
  by (simp only: unat_drop_bit_eq) (simp only: drop_bit_eq_div)

lemma unat_ucast_32_64: "unat (ucast (n :: u32) :: u64) = unat n"
proof -
  have "unat n < 2 ^ 64" using unat_lt32 [of n] by simp
  then show ?thesis by (simp add: unsigned_ucast_eq take_bit_nat_eq_self)
qed

lemma unat_lt8: "unat (a :: u8) < 256"
  using unsigned_less [of a] by simp

lemma unat_ucast_8_64: "unat (ucast (n :: u8) :: u64) = unat n"
proof -
  have "unat n < 2 ^ 64" using unat_lt8 [of n] by simp
  then show ?thesis by (simp add: unsigned_ucast_eq take_bit_nat_eq_self)
qed

lemma ucast_ucast_8_64 [simp]: "(ucast (ucast (b :: u8) :: u64) :: u8) = b"
  by (rule bit_word_eqI) (simp add: bit_simps)

lemma ucast_ucast_32_64 [simp]: "(ucast (ucast (b :: u32) :: u64) :: u32) = b"
  by (rule bit_word_eqI) (simp add: bit_simps)

lemma ucast_32_64_nat: "(ucast (b :: u32) :: u64) = of_nat (unat b)"
  using unat_lt32 [of b] by (intro word_eq_of_unat) (simp add: unat_ucast_32_64 unat_of_nat64)

lemma unat_sub_self_add: "unat ((a :: u64) + of_nat n - a) = n mod 18446744073709551616"
  by (simp add: unat_of_nat)

lemma unat_diff_lt_iff:
  fixes x a :: u64
  assumes "unat a + n \<le> 18446744073709551616"
  shows "unat (x - a) < n \<longleftrightarrow> unat a \<le> unat x \<and> unat x < unat a + n"
  using assms unat_lt64 [of x] unat_lt64 [of a] by (auto simp: unat_sub_if')

lemma add_diff_word: "(a :: u64) + (x - a) = x"
  by simp

text \<open>
  Bytes of a word: byte \<open>i\<close> of \<open>v\<close> is \<open>ucast (drop_bit (8 * i) v)\<close>; rebuilding a word from
  its low byte and the rest is the step of every little-endian load.
\<close>

lemma low_byte_or_rest:
  "(ucast (ucast (v :: u64) :: u8) :: u64) OR push_bit 8 (take_bit n (drop_bit 8 v))
     = take_bit (n + 8) v"
  by (rule bit_word_eqI) (auto simp: bit_simps not_less le_diff_conv less_diff_conv2 add.commute)

section \<open>Lists\<close>

lemma list_eq_nthI:
  "length xs = length ys \<Longrightarrow> (\<And>i. i < length xs \<Longrightarrow> xs ! i = ys ! i) \<Longrightarrow> xs = ys"
  by (simp add: list_eq_iff_nth_eq)

lemma distinct_concat_disjoint:
  assumes "distinct (concat xss)" "i < length xss" "j < length xss" "i \<noteq> j"
  shows "set (xss ! i) \<inter> set (xss ! j) = {}"
  using assms
proof (induction xss arbitrary: i j)
  case Nil
  then show ?case by simp
next
  case (Cons xs xss)
  have sub: "set (xss ! k) \<subseteq> set (concat xss)" if "k < length xss" for k
    using that nth_mem [OF that] by (auto simp del: nth_mem)
  have dis: "set xs \<inter> set (concat xss) = {}" and tail: "distinct (concat xss)"
    using Cons.prems(1) by (simp_all del: set_concat)
  have step: "set xs \<inter> set (xss ! k) = {}" if "k < length xss" for k
    using sub [OF that] dis by blast
  show ?case
  proof (cases i)
    case 0
    with Cons.prems obtain k where k: "j = Suc k" "k < length xss" by (cases j) auto
    with 0 show ?thesis using step [OF k(2)] by simp
  next
    case (Suc a)
    then have a: "a < length xss" using Cons.prems by simp
    show ?thesis
    proof (cases j)
      case 0
      with Suc show ?thesis using step [OF a] by (simp add: Int_commute)
    next
      case (Suc b)
      with \<open>i = Suc a\<close> Cons.prems have "b < length xss" "a \<noteq> b" by auto
      with Cons.IH [OF tail a] show ?thesis using Suc \<open>i = Suc a\<close> by simp
    qed
  qed
qed

lemma distinct_concat_nth:
  "distinct (concat xss) \<Longrightarrow> i < length xss \<Longrightarrow> distinct (xss ! i)"
  by (induction xss arbitrary: i) (auto simp: nth_Cons split: nat.splits)

end
