(* ===== verification/Riscv.thy ===== *)
theory Riscv
  imports Prelude
begin

text \<open>
  The constants and macros of \<^verbatim>\<open>kernel/riscv/riscv.h\<close> and \<^verbatim>\<open>kernel/include/memlayout.h\<close> that the
  kernel computes with: page size and rounding, page-table entry bits and fields, the Sv39
  index of a virtual address, and the fixed places of the address space.  The lemmas read them
  as arithmetic on naturals, which is how the component proofs use them.
\<close>

section \<open>Pages (riscv.h)\<close>

definition PGSIZE :: u64 where "PGSIZE = 4096"

definition PGROUNDUP :: "u64 \<Rightarrow> u64" where
  "PGROUNDUP sz = (sz + PGSIZE - 1) AND NOT (PGSIZE - 1)"

definition PGROUNDDOWN :: "u64 \<Rightarrow> u64" where
  "PGROUNDDOWN a = a AND NOT (PGSIZE - 1)"

section \<open>Page-table entries (riscv.h)\<close>

definition PTE_V :: u64 where "PTE_V = push_bit 0 1"
definition PTE_R :: u64 where "PTE_R = push_bit 1 1"
definition PTE_W :: u64 where "PTE_W = push_bit 2 1"
definition PTE_X :: u64 where "PTE_X = push_bit 3 1"
definition PTE_U :: u64 where "PTE_U = push_bit 4 1"

definition PA2PTE :: "u64 \<Rightarrow> u64" where
  "PA2PTE pa = push_bit 10 (drop_bit 12 pa)"

definition PTE2PA :: "u64 \<Rightarrow> u64" where
  "PTE2PA pte = push_bit 12 (drop_bit 10 pte)"

definition PTE_FLAGS :: "u64 \<Rightarrow> u64" where
  "PTE_FLAGS pte = pte AND 0x3FF"

definition PXMASK :: u64 where "PXMASK = 0x1FF"

definition PXSHIFT :: "nat \<Rightarrow> nat" where
  "PXSHIFT level = 12 + 9 * level"

definition PX :: "nat \<Rightarrow> u64 \<Rightarrow> u64" where
  "PX level va = drop_bit (PXSHIFT level) va AND PXMASK"

definition MAXVA :: u64 where "MAXVA = push_bit (9 + 9 + 9 + 12 - 1) 1"

definition SATP_SV39 :: u64 where "SATP_SV39 = push_bit 60 8"

definition MAKE_SATP :: "u64 \<Rightarrow> u64" where
  "MAKE_SATP pagetable = SATP_SV39 OR drop_bit 12 pagetable"

section \<open>The address space (memlayout.h)\<close>

definition KERNBASE :: u64 where "KERNBASE = 0x80000000"
definition PHYSTOP :: u64 where "PHYSTOP = KERNBASE + 128 * 1024 * 1024"
definition TRAMPOLINE :: u64 where "TRAMPOLINE = MAXVA - PGSIZE"
definition TRAPFRAME :: u64 where "TRAPFRAME = TRAMPOLINE - PGSIZE"

definition KSTACK :: "nat \<Rightarrow> u64" where
  "KSTACK p = TRAMPOLINE - (of_nat p + 1) * 2 * PGSIZE"

section \<open>Rounding and indexing as arithmetic\<close>

lemmas pte_bit_defs = PTE_V_def PTE_R_def PTE_W_def PTE_X_def PTE_U_def

lemma unat_PGSIZE [simp, unat_simps]: "unat PGSIZE = 4096"
  by (simp add: PGSIZE_def)

lemma unat_MAXVA [simp, unat_simps]: "unat MAXVA = 274877906944"
  by (simp add: MAXVA_def)

lemma unat_TRAMPOLINE [simp, unat_simps]: "unat TRAMPOLINE = 274877902848"
  by (simp add: TRAMPOLINE_def MAXVA_def PGSIZE_def)

lemma unat_TRAPFRAME [simp, unat_simps]: "unat TRAPFRAME = 274877898752"
  by (simp add: TRAPFRAME_def TRAMPOLINE_def MAXVA_def PGSIZE_def)

lemma PGSIZE_minus_1: "PGSIZE - 1 = mask 12"
  by (simp add: PGSIZE_def mask_eq_exp_minus_1)

lemma PGROUNDDOWN_shift: "PGROUNDDOWN a = push_bit 12 (drop_bit 12 a)"
  unfolding PGROUNDDOWN_def PGSIZE_minus_1
  by (rule bit_word_eqI) (auto simp: bit_simps)

lemma unat_pow2_64:
  assumes "n < 64"
  shows "unat (2 ^ n :: u64) = 2 ^ n"
proof -
  have "(2 :: nat) ^ n < 2 ^ 64" using assms by (rule power_strict_increasing) simp
  then have "unat (of_nat (2 ^ n) :: u64) = 2 ^ n" by (intro unat_of_nat64) simp
  then show ?thesis by simp
qed

lemma unat_push_drop:
  assumes "n < 64"
  shows "unat (push_bit n (drop_bit n (a :: u64))) = unat a div 2 ^ n * 2 ^ n"
proof -
  have "unat a div 2 ^ n * 2 ^ n \<le> unat a" by simp
  moreover have "unat a < 2 ^ 64" using unat_lt64 [of a] by simp
  ultimately have lt: "unat a div 2 ^ n * 2 ^ n < 2 ^ 64" by (rule le_less_trans)
  have "push_bit n (drop_bit n a) = drop_bit n a * 2 ^ n"
    by (simp add: push_bit_eq_mult)
  then have "unat (push_bit n (drop_bit n a)) = unat (drop_bit n a) * unat (2 ^ n :: u64) mod 2 ^ 64"
    by (simp add: unat_word_ariths)
  also have "unat (2 ^ n :: u64) = 2 ^ n"
    using assms by (rule unat_pow2_64)
  also have "unat (drop_bit n a) = unat a div 2 ^ n"
    by (rule unat_drop_bit_div)
  finally show ?thesis using lt by simp
qed

lemma unat_PGROUNDDOWN [unat_simps]: "unat (PGROUNDDOWN a) = unat a div 4096 * 4096"
  using unat_push_drop [of 12 a] by (simp add: PGROUNDDOWN_shift)

lemma PGROUNDUP_down: "PGROUNDUP sz = PGROUNDDOWN (sz + 4095)"
  by (simp add: PGROUNDUP_def PGROUNDDOWN_def PGSIZE_def add.commute)

lemma unat_PGROUNDUP:
  assumes "unat sz \<le> 18446744073709547520"
  shows "unat (PGROUNDUP sz) = (unat sz + 4095) div 4096 * 4096"
proof -
  have "unat (sz + 4095) = unat sz + 4095"
    using assms by (simp add: unat_add64)
  then show ?thesis by (simp add: PGROUNDUP_down unat_PGROUNDDOWN)
qed

text \<open>\<open>a mod PGSIZE\<close> is the source's \<^verbatim>\<open>a % PGSIZE\<close>.\<close>

lemma unat_mod_PGSIZE [unat_simps]: "unat (a mod PGSIZE) = unat a mod 4096"
  by (simp add: unat_mod_distrib)

lemma mod_PGSIZE_0: "a mod PGSIZE = 0 \<longleftrightarrow> unat a mod 4096 = 0"
  by (metis unat_mod_PGSIZE unat_eq_0)

lemma unat_PX [unat_simps]: "unat (PX level va) = unat va div 2 ^ (12 + 9 * level) mod 512"
proof -
  have "PX level va = take_bit 9 (drop_bit (PXSHIFT level) va)"
    by (simp add: PX_def PXMASK_def take_bit_eq_mask mask_eq_exp_minus_1)
  then have "unat (PX level va) = take_bit 9 (drop_bit (PXSHIFT level) (unat va))"
    by (simp add: unsigned_take_bit_eq unat_drop_bit_eq)
  then show ?thesis
    by (simp add: PXSHIFT_def take_bit_eq_mod drop_bit_eq_div)
qed

lemma PX_lt_512: "unat (PX level va) < 512"
  by (simp add: unat_PX)

text \<open>The three Sv39 indices and the offset determine a virtual address below \<open>MAXVA\<close>.\<close>

lemma base512: "q * 512 + r = n \<Longrightarrow> p * 512 + t = q \<Longrightarrow> n = p * 262144 + t * 512 + (r :: nat)"
  by (drule sym, drule sym) (simp add: algebra_simps)

lemma va_decompose:
  assumes "unat va < 549755813888"
  shows "unat va div 4096 = unat (PX 2 va) * 262144 + unat (PX 1 va) * 512 + unat (PX 0 va)"
proof -
  define n where "n = unat va div 4096"
  define q where "q = n div 512"
  have n: "n < 134217728" using assms by (simp add: n_def)
  have px: "unat (PX 0 va) = n mod 512" "unat (PX 1 va) = q mod 512"
      "unat (PX 2 va) = q div 512 mod 512"
    by (simp_all add: unat_PX n_def q_def div_mult2_eq [symmetric])
  have "q div 512 mod 512 = q div 512"
    using n by (simp add: q_def div_mult2_eq [symmetric])
  moreover have "q * 512 + n mod 512 = n" unfolding q_def by (rule div_mult_mod_eq)
  moreover have "q div 512 * 512 + q mod 512 = q" by (rule div_mult_mod_eq)
  ultimately have "n = q div 512 * 262144 + q mod 512 * 512 + n mod 512"
    by (intro base512)
  then show ?thesis
    unfolding px \<open>q div 512 mod 512 = q div 512\<close> n_def [symmetric] .
qed

lemma PX_inject:
  assumes "unat a < 549755813888" "unat b < 549755813888"
    and "PX 0 a = PX 0 b" "PX 1 a = PX 1 b" "PX 2 a = PX 2 b"
  shows "PGROUNDDOWN a = PGROUNDDOWN b"
proof -
  have "unat a div 4096 = unat b div 4096"
    using va_decompose [OF assms(1)] va_decompose [OF assms(2)] assms(3-5) by simp
  then show ?thesis by (simp add: word_unat_eq_iff unat_PGROUNDDOWN)
qed

section \<open>Fields of a page-table entry\<close>

text \<open>A page-table entry built from a page address and permission bits gives both back.\<close>

lemma PTE2PA_PA2PTE:
  assumes "unat perm < 1024"
  shows "PTE2PA (PA2PTE pa OR perm) = PGROUNDDOWN pa"
proof -
  have "unat (drop_bit 10 perm) = 0"
    using assms by (simp only: unat_drop_bit_div) simp
  then have "drop_bit 10 perm = 0" by (simp only: unat_eq_0)
  then have "\<not> bit (drop_bit 10 perm) n" for n by (simp only: bit_0_eq bot_apply) simp
  then have perm: "\<not> bit perm (10 + n)" for n by (simp only: bit_drop_bit_eq comp_apply) simp
  show ?thesis
    unfolding PTE2PA_def PA2PTE_def PGROUNDDOWN_shift
  proof (rule bit_word_eqI)
    fix n assume "n < LENGTH(64)"
    then show "bit (push_bit 12 (drop_bit 10 (push_bit 10 (drop_bit 12 pa) OR perm))) n
        = bit (push_bit 12 (drop_bit 12 pa)) n"
      using perm [of "n - 12"] by (auto simp: bit_simps)
  qed
qed

lemma PTE_FLAGS_PA2PTE: "PTE_FLAGS (PA2PTE pa OR perm) = perm AND 0x3FF"
proof -
  have m: "(0x3FF :: u64) = mask 10" by (simp add: mask_eq_exp_minus_1)
  show ?thesis
    unfolding PTE_FLAGS_def PA2PTE_def m
    by (rule bit_word_eqI) (auto simp: bit_simps)
qed

end
