(* ===== verification/Cstring.thy ===== *)
theory Cstring
  imports Riscv
begin

text \<open>
  Memory accesses of C on the byte-addressed memory, and the routines of
  \<^verbatim>\<open>kernel/core/string.c\<close>.  A pointer into memory is a \<open>u64\<close>; a routine that only reads through
  a pointer takes the bytes it points to as a function from offsets (\<open>\<lambda>i. m (p + of_nat i)\<close> for
  memory, \<open>nth xs\<close> for a local array \<open>xs\<close>); a routine that fills a local array takes and returns
  the array as a list, and a store past its end is \<open>BadAccess\<close>.

  The lemmas give each loop its closed form: what every address holds afterwards.
\<close>

section \<open>Little-endian loads and stores\<close>

fun ld_le :: "nat \<Rightarrow> memory \<Rightarrow> u64 \<Rightarrow> u64" where
  "ld_le 0 m a = 0"
| "ld_le (Suc n) m a = ucast (m a) OR push_bit 8 (ld_le n m (a + 1))"

fun st_le :: "nat \<Rightarrow> memory \<Rightarrow> u64 \<Rightarrow> u64 \<Rightarrow> memory" where
  "st_le 0 m a v = m"
| "st_le (Suc n) m a v = st_le n (m(a := ucast v)) (a + 1) (drop_bit 8 v)"

definition ld64 :: "memory \<Rightarrow> u64 \<Rightarrow> u64" where "ld64 m a = ld_le 8 m a"
definition st64 :: "memory \<Rightarrow> u64 \<Rightarrow> u64 \<Rightarrow> memory" where "st64 m a v = st_le 8 m a v"
definition ld32 :: "memory \<Rightarrow> u64 \<Rightarrow> u32" where "ld32 m a = ucast (ld_le 4 m a)"
definition st32 :: "memory \<Rightarrow> u64 \<Rightarrow> u32 \<Rightarrow> memory" where "st32 m a v = st_le 4 m a (ucast v)"
definition ld16 :: "memory \<Rightarrow> u64 \<Rightarrow> u16" where "ld16 m a = ucast (ld_le 2 m a)"

text \<open>The bytes from \<open>a\<close> on, and a store of a byte list.\<close>

definition ld_bytes :: "memory \<Rightarrow> u64 \<Rightarrow> nat \<Rightarrow> u8 list" where
  "ld_bytes m a n = map (\<lambda>i. m (a + of_nat i)) [0..<n]"

definition st_bytes :: "memory \<Rightarrow> u64 \<Rightarrow> u8 list \<Rightarrow> memory" where
  "st_bytes m a bs = fold (\<lambda>i m. m(a + of_nat i := bs ! i)) [0..<length bs] m"

section \<open>string.c\<close>

definition memset :: "memory \<Rightarrow> u64 \<Rightarrow> u32 \<Rightarrow> u32 \<Rightarrow> memory" where
  "memset m dst c n = fold (\<lambda>i m. m(dst + of_nat i := ucast c)) [0..<unat n] m"

fun memcmp :: "(nat \<Rightarrow> u8) \<Rightarrow> (nat \<Rightarrow> u8) \<Rightarrow> nat \<Rightarrow> int" where
  "memcmp s1 s2 0 = 0"
| "memcmp s1 s2 (Suc n) =
     (if s1 0 \<noteq> s2 0 then uint (s1 0) - uint (s2 0)
      else memcmp (\<lambda>i. s1 (Suc i)) (\<lambda>i. s2 (Suc i)) n)"

text \<open>The two loops of \<^verbatim>\<open>memmove\<close>: \<^verbatim>\<open>*d++ = *s++\<close>, and \<^verbatim>\<open>*--d = *--s\<close> from the end.\<close>

fun copy_up :: "nat \<Rightarrow> memory \<Rightarrow> u64 \<Rightarrow> u64 \<Rightarrow> memory" where
  "copy_up 0 m d s = m"
| "copy_up (Suc n) m d s = copy_up n (m(d := m s)) (d + 1) (s + 1)"

fun copy_down :: "nat \<Rightarrow> memory \<Rightarrow> u64 \<Rightarrow> u64 \<Rightarrow> memory" where
  "copy_down 0 m d s = m"
| "copy_down (Suc n) m d s = copy_down n (m(d - 1 := m (s - 1))) (d - 1) (s - 1)"

definition memmove :: "memory \<Rightarrow> u64 \<Rightarrow> u64 \<Rightarrow> u32 \<Rightarrow> memory" where
  "memmove m dst src n =
     (if n = 0 then m
      else if src < dst \<and> src + ucast n > dst
      then copy_down (unat n) m (dst + ucast n) (src + ucast n)
      else copy_up (unat n) m dst src)"

definition memcpy :: "memory \<Rightarrow> u64 \<Rightarrow> u64 \<Rightarrow> u32 \<Rightarrow> memory" where
  "memcpy m dst src n = memmove m dst src n"

fun strncmp :: "(nat \<Rightarrow> u8) \<Rightarrow> (nat \<Rightarrow> u8) \<Rightarrow> nat \<Rightarrow> int" where
  "strncmp p q 0 = 0"
| "strncmp p q (Suc n) =
     (if p 0 \<noteq> 0 \<and> p 0 = q 0 then strncmp (\<lambda>i. p (Suc i)) (\<lambda>i. q (Suc i)) n
      else uint (p 0) - uint (q 0))"

definition wr :: "u8 list \<Rightarrow> nat \<Rightarrow> u8 \<Rightarrow> u8 list res" where
  "wr s i v = (if i < length s then Inr (s[i := v]) else Inl BadAccess)"

text \<open>
  \<^verbatim>\<open>strncpy\<close>: the first loop copies up to and including a NUL, the second fills with zeros.
  \<open>i\<close> is \<^verbatim>\<open>s - os\<close>, which is also the number of bytes taken from \<open>t\<close> in the first loop.
\<close>

fun strncpy_fill :: "nat \<Rightarrow> nat \<Rightarrow> u8 list \<Rightarrow> u8 list res" where
  "strncpy_fill 0 i s = Inr s"
| "strncpy_fill (Suc n) i s = rbind (wr s i 0) (strncpy_fill n (Suc i))"

fun strncpy_loop :: "nat \<Rightarrow> nat \<Rightarrow> u8 list \<Rightarrow> (nat \<Rightarrow> u8) \<Rightarrow> u8 list res" where
  "strncpy_loop 0 i s t = Inr s"
| "strncpy_loop (Suc n) i s t =
     rbind (wr s i (t i))
       (\<lambda>s. if t i \<noteq> 0 then strncpy_loop n (Suc i) s t else strncpy_fill n (Suc i) s)"

definition strncpy :: "u8 list \<Rightarrow> (nat \<Rightarrow> u8) \<Rightarrow> int \<Rightarrow> u8 list res" where
  "strncpy s t n = strncpy_loop (nat n) 0 s t"

text \<open>
  \<^verbatim>\<open>safestrcpy\<close>: \<^verbatim>\<open>while (--n > 0 && (*s++ = *t++) != 0); *s = 0;\<close> with \<open>Suc n\<close> the value of \<^verbatim>\<open>n\<close>
  before the decrement.
\<close>

fun safestrcpy_loop :: "nat \<Rightarrow> nat \<Rightarrow> u8 list \<Rightarrow> (nat \<Rightarrow> u8) \<Rightarrow> u8 list res" where
  "safestrcpy_loop 0 i s t = wr s i 0"
| "safestrcpy_loop (Suc n) i s t =
     (if n > 0
      then rbind (wr s i (t i))
             (\<lambda>s. if t i \<noteq> 0 then safestrcpy_loop n (Suc i) s t else wr s (Suc i) 0)
      else wr s i 0)"

definition safestrcpy :: "u8 list \<Rightarrow> (nat \<Rightarrow> u8) \<Rightarrow> int \<Rightarrow> u8 list res" where
  "safestrcpy s t n = (if n \<le> 0 then Inr s else safestrcpy_loop (nat n) 0 s t)"

text \<open>\<^verbatim>\<open>strlen\<close> of a string held in an array: running past the array's end is \<open>BadAccess\<close>.\<close>

fun strlen :: "u8 list \<Rightarrow> nat res" where
  "strlen [] = Inl BadAccess"
| "strlen (c # cs) = (if c = 0 then Inr 0 else rbind (strlen cs) (\<lambda>n. Inr (Suc n)))"

section \<open>Loads and stores: closed forms and separation\<close>

lemma st_le_apply:
  assumes "n \<le> 8"
  shows "st_le n m a v x
     = (if unat (x - a) < n then ucast (drop_bit (8 * unat (x - a)) v) else m x)"
  using assms
proof (induction n arbitrary: m a v)
  case 0
  then show ?case by simp
next
  case (Suc n)
  let ?y = "x - (a + 1)"
  have n: "n \<le> 8" using Suc.prems by simp
  have IH: "st_le (Suc n) m a v x
     = (if unat ?y < n then ucast (drop_bit (8 * unat ?y) (drop_bit 8 v))
        else (m(a := ucast v)) x)"
    by (simp only: st_le.simps Suc.IH [OF n])
  show ?case
  proof (cases "x = a")
    case True
    have "unat (- 1 :: u64) = 18446744073709551615"
      by (simp add: unsigned_minus_1_eq_mask mask_eq_exp_minus_1)
    then show ?thesis using IH True Suc.prems by simp
  next
    case False
    then have ne: "x - a \<noteq> 0" by simp
    have "?y = (x - a) - 1" by simp
    then have y: "unat ?y = unat (x - a) - 1"
      by (simp only: unat_minus_one [OF ne])
    have pos: "0 < unat (x - a)" using ne unat_gt_0 by blast
    have "drop_bit (8 * unat ?y) (drop_bit 8 v) = drop_bit (8 * unat (x - a)) v"
      using y pos by (simp add: diff_mult_distrib2)
    moreover have "unat ?y < n \<longleftrightarrow> unat (x - a) < Suc n" using y pos by arith
    ultimately show ?thesis using IH False by simp
  qed
qed

lemma ld_le_cong:
  assumes "\<And>i. i < n \<Longrightarrow> m (a + of_nat i) = m' (a + of_nat i)"
  shows "ld_le n m a = ld_le n m' a"
  using assms
proof (induction n arbitrary: a)
  case 0
  then show ?case by simp
next
  case (Suc n)
  have "m (a + 1 + of_nat i) = m' (a + 1 + of_nat i)" if "i < n" for i
    using Suc.prems [of "Suc i"] that by (simp add: add.assoc)
  then have "ld_le n m (a + 1) = ld_le n m' (a + 1)" by (rule Suc.IH)
  moreover have "m a = m' a" using Suc.prems [of 0] by simp
  ultimately show ?case by simp
qed

lemma ld_le_bytes:
  assumes "n \<le> 8" and "\<And>i. i < n \<Longrightarrow> m (a + of_nat i) = ucast (drop_bit (8 * i) v)"
  shows "ld_le n m a = take_bit (8 * n) v"
  using assms
proof (induction n arbitrary: a v)
  case 0
  then show ?case by simp
next
  case (Suc n)
  have "m (a + 1 + of_nat i) = ucast (drop_bit (8 * i) (drop_bit 8 v))" if "i < n" for i
    using Suc.prems(2) [of "Suc i"] that by (simp add: ac_simps)
  then have "ld_le n m (a + 1) = take_bit (8 * n) (drop_bit 8 v)"
    using Suc.prems(1) by (intro Suc.IH) simp_all
  moreover have "m a = ucast v" using Suc.prems(2) [of 0] by simp
  ultimately show ?case
    using low_byte_or_rest [of v "8 * n"] by (simp add: add.commute)
qed

lemma ld_st_le: "n \<le> 8 \<Longrightarrow> ld_le n (st_le n m a v) a = take_bit (8 * n) v"
  by (rule ld_le_bytes) (simp_all add: st_le_apply unat_of_nat)

lemma ld64_st64 [simp, mem_simps]: "ld64 (st64 m a v) a = v"
  by (simp add: ld64_def st64_def ld_st_le take_bit_word_eq_self)

lemma st64_apply [mem_simps]:
  "st64 m a v x = (if unat (x - a) < 8 then ucast (drop_bit (8 * unat (x - a)) v) else m x)"
  by (simp add: st64_def st_le_apply)

lemma ld64_cong: "(\<And>i. i < 8 \<Longrightarrow> m (a + of_nat i) = m' (a + of_nat i)) \<Longrightarrow> ld64 m a = ld64 m' a"
  unfolding ld64_def by (rule ld_le_cong)

lemma ld64_zero: "(\<And>i. i < 8 \<Longrightarrow> m (a + of_nat i) = 0) \<Longrightarrow> ld64 m a = 0"
  using ld_le_bytes [of 8 m a 0] by (simp add: ld64_def)

section \<open>memset\<close>

lemma fold_upd_apply:
  assumes "n \<le> 18446744073709551616"
  shows "fold (\<lambda>i m. m(a + of_nat i := f i)) [0..<n] m x
     = (if unat (x - a) < n then f (unat (x - a)) else (m :: memory) x)"
  using assms
proof (induction n)
  case 0
  then show ?case by simp
next
  case (Suc n)
  have "a + of_nat n = x \<longleftrightarrow> unat (x - a) = n"
  proof
    assume "a + of_nat n = x"
    then have "unat (x - a) = n mod 18446744073709551616"
      using unat_sub_self_add [of a n] by simp
    then show "unat (x - a) = n" using Suc.prems by simp
  next
    assume "unat (x - a) = n"
    then have "of_nat n = x - a" by (metis of_nat_unat ucast_id)
    then show "a + of_nat n = x" by simp
  qed
  then show ?case using Suc by auto
qed

lemma memset_apply [mem_simps]:
  "memset m dst c n x = (if unat (x - dst) < unat n then ucast c else m x)"
  using fold_upd_apply [of "unat n" dst "\<lambda>_. ucast c" m x] unat_lt32 [of n]
  by (simp add: memset_def)

lemma st_bytes_apply:
  assumes "length bs \<le> 18446744073709551616"
  shows "st_bytes m a bs x = (if unat (x - a) < length bs then bs ! unat (x - a) else m x)"
  using fold_upd_apply [of "length bs" a "nth bs" m x] assms by (simp add: st_bytes_def)

lemma length_ld_bytes [simp]: "length (ld_bytes m a n) = n"
  by (simp add: ld_bytes_def)

lemma nth_ld_bytes [simp]: "i < n \<Longrightarrow> ld_bytes m a n ! i = m (a + of_nat i)"
  by (simp add: ld_bytes_def)

lemma ld_st_bytes:
  assumes "length bs \<le> 18446744073709551616"
  shows "ld_bytes (st_bytes m a bs) a (length bs) = bs"
  by (rule list_eq_nthI) (use assms in \<open>simp_all add: st_bytes_apply unat_of_nat\<close>)

section \<open>memmove\<close>

text \<open>
  The reference: every destination byte gets the byte its source held before the call.
\<close>

definition move_spec :: "memory \<Rightarrow> u64 \<Rightarrow> u64 \<Rightarrow> nat \<Rightarrow> memory" where
  "move_spec m d s n = (\<lambda>x. if unat (x - d) < n then m (s + (x - d)) else m x)"

text \<open>
  Copying upwards is right when no byte is read after it was overwritten: the source is not
  below the destination within reach.  In offsets, \<open>unat (s - d)\<close> is zero or at least \<open>n\<close>
  away from wrapping round into the bytes already written.
\<close>

lemma copy_up_spec:
  assumes "n \<le> unat (d - s) \<or> d = s" and "n < 18446744073709551616"
  shows "copy_up n m d s = move_spec m d s n"
  using assms
proof (induction n arbitrary: m d s)
  case 0
  then show ?case by (simp add: move_spec_def)
next
  case (Suc n)
  have IH: "copy_up n (m(d := m s)) (d + 1) (s + 1) = move_spec (m(d := m s)) (d + 1) (s + 1) n"
    using Suc.prems by (intro Suc.IH) auto
  show ?case
  proof (rule ext)
    fix x
    show "copy_up (Suc n) m d s x = move_spec m d s (Suc n) x"
    proof (cases "x = d")
      case True
      have "unat (- 1 :: u64) = 18446744073709551615"
        by (simp add: unsigned_minus_1_eq_mask mask_eq_exp_minus_1)
      then show ?thesis using IH True Suc.prems(2) by (simp add: move_spec_def)
    next
      case False
      then have ne: "x - d \<noteq> 0" by simp
      have "x - (d + 1) = (x - d) - 1" by simp
      then have y: "unat (x - (d + 1)) = unat (x - d) - 1"
        by (simp only: unat_minus_one [OF ne])
      have pos: "0 < unat (x - d)" using ne unat_gt_0 by blast
      have iff: "unat (x - (d + 1)) < n \<longleftrightarrow> unat (x - d) < Suc n" using y pos by arith
      have src: "s + 1 + (x - (d + 1)) = s + (x - d)" by simp
      have "s + (x - d) \<noteq> d" if "unat (x - d) < Suc n"
      proof
        assume "s + (x - d) = d"
        then have "x - d = d - s" by (simp add: algebra_simps)
        with that pos Suc.prems(1) ne show False by auto
      qed
      then show ?thesis
        using IH False unfolding move_spec_def copy_up.simps by (simp add: iff src)
    qed
  qed
qed

lemma copy_down_spec:
  assumes "n \<le> unat (s - d) \<or> d = s" and "n < 18446744073709551616"
  shows "copy_down n m (d + of_nat n) (s + of_nat n) = move_spec m d s n"
  using assms
proof (induction n arbitrary: m)
  case 0
  then show ?case by (simp add: move_spec_def)
next
  case (Suc n)
  let ?m = "m(d + of_nat n := m (s + of_nat n))"
  have n: "unat (of_nat n :: u64) = n" using Suc.prems(2) by (simp add: unat_of_nat)
  have "copy_down (Suc n) m (d + of_nat (Suc n)) (s + of_nat (Suc n))
      = copy_down n ?m (d + of_nat n) (s + of_nat n)"
    by (simp add: algebra_simps)
  also have "\<dots> = move_spec ?m d s n"
    using Suc.prems by (intro Suc.IH) auto
  also have "\<dots> = move_spec m d s (Suc n)"
  proof (rule ext)
    fix x
    show "move_spec ?m d s n x = move_spec m d s (Suc n) x"
    proof (cases "x = d + of_nat n")
      case True
      then show ?thesis by (simp add: move_spec_def n)
    next
      case False
      have "unat (x - d) \<noteq> n"
      proof
        assume "unat (x - d) = n"
        then have "of_nat n = x - d" by (metis of_nat_unat ucast_id)
        with False show False by simp
      qed
      then have iff: "unat (x - d) < Suc n \<longleftrightarrow> unat (x - d) < n" by arith
      have "s + (x - d) \<noteq> d + of_nat n" if lt: "unat (x - d) < n"
      proof
        assume eq: "s + (x - d) = d + of_nat n"
        then have sd: "s - d = of_nat n - (x - d)" by (simp add: algebra_simps)
        have "x - d \<le> of_nat n" using lt by (simp add: word_le_nat_alt n)
        then have "unat (s - d) = n - unat (x - d)"
          unfolding sd by (subst unat_sub) (simp_all add: n)
        moreover have "s \<noteq> d" using eq False by auto
        ultimately show False using Suc.prems(1) by auto
      qed
      then show ?thesis using False by (simp add: move_spec_def iff)
    qed
  qed
  finally show ?case .
qed

text \<open>\<^verbatim>\<open>memmove\<close> picks the direction for which the copy is right.\<close>

lemma memmove_spec:
  assumes "unat src + unat n < 18446744073709551616" "unat dst + unat n < 18446744073709551616"
  shows "memmove m dst src n = move_spec m dst src (unat n)"
proof (cases "n = 0")
  case True
  then show ?thesis by (simp add: memmove_def move_spec_def)
next
  case False
  have un: "unat (ucast n :: u64) = unat n" by (rule unat_ucast_32_64)
  have sn: "unat (src + ucast n) = unat src + unat n"
    using assms(1) by (simp add: unat_add64 un)
  have lt: "unat n < 18446744073709551616" using unat_lt32 [of n] by simp
  show ?thesis
  proof (cases "src < dst \<and> src + ucast n > dst")
    case True
    then have "unat src < unat dst" "unat dst < unat src + unat n"
      using sn by (simp_all add: word_less_nat_alt)
    then have "unat n \<le> unat (src - dst)"
      using assms by (simp add: unat_sub_if')
    then show ?thesis
      using True False copy_down_spec [of "unat n" src dst m] lt by (simp add: memmove_def)
  next
    case other: False
    then have "\<not> (unat src < unat dst \<and> unat dst < unat src + unat n)"
      using sn by (simp add: word_less_nat_alt)
    moreover have "dst = src" if "unat dst = unat src" using that by (simp only: word_unat_eq_iff)
    ultimately have "unat n \<le> unat (dst - src) \<or> dst = src"
      using assms unat_lt64 [of dst] by (auto simp: unat_sub_if' not_less)
    then show ?thesis
      using other False copy_up_spec [of "unat n" dst src m] lt by (auto simp: memmove_def)
  qed
qed

section \<open>String comparison and copying\<close>

text \<open>\<^verbatim>\<open>strncmp\<close> is zero exactly on strings that agree up to the first NUL or \<open>n\<close> bytes.\<close>

lemma strncmp_eq_0:
  "strncmp p q n = 0 \<longleftrightarrow> (\<forall>i < n. (\<forall>j < i. p j \<noteq> 0) \<longrightarrow> p i = q i)"
proof (induction n arbitrary: p q)
  case 0
  then show ?case by simp
next
  case (Suc n)
  have split: "(\<forall>i < Suc n. P i) \<longleftrightarrow> P 0 \<and> (\<forall>i < n. P (Suc i))" for P
    by (metis less_Suc_eq_0_disj not_less_eq zero_less_Suc)
  have pre: "(\<forall>j < Suc i. p j \<noteq> 0) \<longleftrightarrow> p 0 \<noteq> 0 \<and> (\<forall>j < i. p (Suc j) \<noteq> 0)" for i
    by (metis less_Suc_eq_0_disj not_less_eq zero_less_Suc)
  show ?case
    unfolding split pre using Suc.IH [of "\<lambda>i. p (Suc i)" "\<lambda>i. q (Suc i)"]
    by (auto simp: word_uint_eq_iff)
qed

lemma strncmp_cong:
  "(\<And>i. i < n \<Longrightarrow> p i = p' i) \<Longrightarrow> (\<And>i. i < n \<Longrightarrow> q i = q' i) \<Longrightarrow> strncmp p q n = strncmp p' q' n"
proof (induction n arbitrary: p q p' q')
  case 0
  then show ?case by simp
next
  case (Suc n)
  have "strncmp (\<lambda>i. p (Suc i)) (\<lambda>i. q (Suc i)) n = strncmp (\<lambda>i. p' (Suc i)) (\<lambda>i. q' (Suc i)) n"
    using Suc.prems by (intro Suc.IH) auto
  then show ?case using Suc.prems(1) [of 0] Suc.prems(2) [of 0] by simp
qed

text \<open>
  \<^verbatim>\<open>safestrcpy\<close> stays within its \<open>n\<close> bytes and always ends with a NUL: the result is a prefix
  of the source, cut at the source's NUL or at \<open>n - 1\<close> bytes.
\<close>

definition copied_upto :: "nat \<Rightarrow> nat \<Rightarrow> u8 list \<Rightarrow> u8 list \<Rightarrow> (nat \<Rightarrow> u8) \<Rightarrow> bool" where
  "copied_upto i n s s' t \<longleftrightarrow> length s' = length s
     \<and> (\<forall>j. j < i \<or> i + n \<le> j \<longrightarrow> s' ! j = s ! j)
     \<and> (\<exists>k. i \<le> k \<and> k < i + n \<and> s' ! k = 0 \<and> (k = i + n - 1 \<or> t k = 0)
          \<and> (\<forall>j. i \<le> j \<and> j < k \<longrightarrow> s' ! j = t j \<and> t j \<noteq> 0))"

lemma safestrcpy_loop_ok:
  "0 < n \<Longrightarrow> i + n \<le> length s \<Longrightarrow> \<exists>s'. safestrcpy_loop n i s t = Inr s' \<and> copied_upto i n s s' t"
proof (induction n arbitrary: i s)
  case 0
  then show ?case by simp
next
  case (Suc n)
  show ?case
  proof (cases "n = 0")
    case True
    then show ?thesis
      using Suc.prems by (auto simp: wr_def copied_upto_def nth_list_update intro!: exI [of _ i])
  next
    case False
    let ?s = "s[i := t i]"
    show ?thesis
    proof (cases "t i = 0")
      case True
      then have "safestrcpy_loop (Suc n) i s t = Inr (?s[Suc i := 0])"
        using False Suc.prems by (simp add: wr_def)
      moreover have "copied_upto i (Suc n) s (?s[Suc i := 0]) t"
        using False True Suc.prems
        by (auto simp: copied_upto_def nth_list_update intro!: exI [of _ i])
      ultimately show ?thesis by blast
    next
      case nz: False
      have "\<exists>s'. safestrcpy_loop n (Suc i) ?s t = Inr s' \<and> copied_upto (Suc i) n ?s s' t"
        using False Suc.prems by (intro Suc.IH) auto
      then obtain s' where s': "safestrcpy_loop n (Suc i) ?s t = Inr s'"
          and up: "copied_upto (Suc i) n ?s s' t" by blast
      from up obtain k where len: "length s' = length s"
        and out: "\<forall>j. j < Suc i \<or> Suc i + n \<le> j \<longrightarrow> s' ! j = ?s ! j"
        and k: "Suc i \<le> k" "k < Suc i + n" "s' ! k = 0" "k = Suc i + n - 1 \<or> t k = 0"
          "\<forall>j. Suc i \<le> j \<and> j < k \<longrightarrow> s' ! j = t j \<and> t j \<noteq> 0"
        by (auto simp: copied_upto_def)
      have "s' ! i = t i" using out Suc.prems by simp
      then have "\<forall>j. i \<le> j \<and> j < k \<longrightarrow> s' ! j = t j \<and> t j \<noteq> 0"
        using k(5) nz by (metis le_neq_implies_less not_less_eq_eq not_le)
      moreover have "\<forall>j. j < i \<or> i + Suc n \<le> j \<longrightarrow> s' ! j = s ! j"
        using out by (auto simp: nth_list_update)
      ultimately have "copied_upto i (Suc n) s s' t"
        using len k(1-4) unfolding copied_upto_def by (intro conjI exI [of _ k]) auto
      moreover have "safestrcpy_loop (Suc n) i s t = Inr s'"
        using s' nz False Suc.prems by (simp add: wr_def)
      ultimately show ?thesis by blast
    qed
  qed
qed

text \<open>\<^verbatim>\<open>strlen\<close> of an array that holds a NUL finds the first one.\<close>

lemma strlen_first_nul:
  "k < length cs \<Longrightarrow> cs ! k = 0 \<Longrightarrow> (\<And>j. j < k \<Longrightarrow> cs ! j \<noteq> 0) \<Longrightarrow> strlen cs = Inr k"
proof (induction cs arbitrary: k)
  case Nil
  then show ?case by simp
next
  case (Cons c cs)
  show ?case
  proof (cases k)
    case 0
    with Cons.prems show ?thesis by simp
  next
    case (Suc k')
    have "c \<noteq> 0" using Cons.prems(3) [of 0] Suc by simp
    moreover have "strlen cs = Inr k'"
      using Cons.prems(1,2) Cons.prems(3) [of "Suc _"] Suc by (intro Cons.IH) auto
    ultimately show ?thesis using Suc by simp
  qed
qed

section \<open>Properties\<close>

text \<open>
  C8: \<^verbatim>\<open>memmove\<close> is right for overlapping buffers: when neither buffer wraps round the end of
  the address space, every byte of the destination holds what the matching source byte held
  before the call, whichever way the two overlap, and no other byte changes.
\<close>

theorem memmove_correct:
  assumes "unat src + unat n < 2 ^ 64" "unat dst + unat n < 2 ^ 64"
  shows "memmove m dst src n
    = (\<lambda>x. if unat (x - dst) < unat n then m (src + (x - dst)) else m x)"
  using memmove_spec [of src n dst m] assms by (simp add: move_spec_def)

theorem memmove_correct_witness:
  "unat (3 :: u64) + unat (4 :: u32) < 2 ^ 64 \<and> unat (5 :: u64) + unat (4 :: u32) < 2 ^ 64
   \<and> memmove ucast 5 3 4 7 = 5"
  using memmove_correct [of 3 4 5 ucast] by simp

text \<open>
  C9: \<^verbatim>\<open>safestrcpy(s, t, n)\<close> with \<open>n\<close> at most the size of \<open>s\<close> stays inside \<open>s\<close> and always leaves a
  NUL-terminated string: the bytes up to some \<open>k < n\<close> are those of \<open>t\<close>, the byte at \<open>k\<close> is NUL,
  and the copy was cut short only by the NUL of \<open>t\<close> or by the size.
\<close>

theorem safestrcpy_correct:
  assumes "0 < n" "nat n \<le> length s"
  shows "\<exists>s' k. safestrcpy s t n = Inr s' \<and> length s' = length s \<and> k < nat n \<and> s' ! k = 0
    \<and> (k = nat n - 1 \<or> t k = 0) \<and> (\<forall>j < k. s' ! j = t j \<and> t j \<noteq> 0)
    \<and> (\<forall>j \<ge> nat n. s' ! j = s ! j)"
proof -
  obtain s' where s': "safestrcpy_loop (nat n) 0 s t = Inr s'" "copied_upto 0 (nat n) s s' t"
    using safestrcpy_loop_ok [of "nat n" 0 s t] assms by auto
  then show ?thesis using assms(1) by (auto simp: safestrcpy_def copied_upto_def)
qed

theorem safestrcpy_correct_witness:
  "(0 :: int) < 3 \<and> nat 3 \<le> length [7, 7, 7, 7 :: u8]
   \<and> (\<exists>s' k. safestrcpy [7, 7, 7, 7] (nth [1, 2, 3, 4, 0]) 3 = Inr s' \<and> length s' = 4 \<and> k < 3 \<and> s' ! k = 0)"
  using safestrcpy_correct [of 3 "[7, 7, 7, 7]" "nth [1, 2, 3, 4, 0]"] by auto

end
