(* ===== verification/Pages.thy ===== *)
theory Pages
  imports Cstring
begin

text \<open>
  Pages of physical memory: which addresses a page holds, that a store into one page leaves
  every other page alone, and the 512 eight-byte slots of a page used as a page table.  These
  are the separation facts of the allocator and of the page-table proofs.
\<close>

definition page_aligned :: "u64 \<Rightarrow> bool" where
  "page_aligned p \<longleftrightarrow> unat p mod 4096 = 0"

definition agree_page :: "memory \<Rightarrow> memory \<Rightarrow> u64 \<Rightarrow> bool" where
  "agree_page m m' p \<longleftrightarrow> (\<forall>a. PGROUNDDOWN a = p \<longrightarrow> m a = m' a)"

text \<open>\<^verbatim>\<open>&pagetable[i]\<close> for a table of eight-byte entries.\<close>

definition slot :: "u64 \<Rightarrow> u64 \<Rightarrow> u64" where
  "slot p i = p + 8 * i"

section \<open>Addresses of a page\<close>

lemma page_aligned_0 [simp]: "page_aligned 0"
  by (simp add: page_aligned_def)

lemma page_aligned_max:
  assumes "page_aligned p"
  shows "unat p + 4096 \<le> 18446744073709551616"
proof -
  from assms obtain k where k: "unat p = 4096 * k"
    unfolding page_aligned_def by (auto simp: mod_eq_0_iff_dvd)
  then have "4096 * k < 4096 * 4503599627370496" using unat_lt64 [of p] by simp
  then have "k < 4503599627370496" by simp
  then show ?thesis using k by simp
qed

lemma page_aligned_add:
  assumes "page_aligned a" "page_aligned b"
  shows "page_aligned (a + b)"
proof -
  have "(unat a + unat b) mod 18446744073709551616 mod 4096 = (unat a + unat b) mod 4096"
    by (rule mod_mod_cancel) (simp add: dvd_def exI [of _ "4503599627370496"])
  also have "\<dots> = 0" using assms by (simp add: page_aligned_def mod_add_eq [symmetric])
  finally show ?thesis by (simp add: page_aligned_def unat_add64)
qed

lemma page_aligned_PGROUNDDOWN [simp]: "page_aligned (PGROUNDDOWN a)"
  by (simp add: page_aligned_def unat_PGROUNDDOWN)

lemma PGROUNDDOWN_idem: "page_aligned p \<Longrightarrow> PGROUNDDOWN p = p"
proof -
  assume "page_aligned p"
  then have "unat p div 4096 * 4096 = unat p"
    unfolding page_aligned_def by (metis add.right_neutral div_mult_mod_eq)
  then show ?thesis by (simp add: word_unat_eq_iff unat_PGROUNDDOWN)
qed

lemma unat_page_off:
  "page_aligned p \<Longrightarrow> unat off < 4096 \<Longrightarrow> unat (p + off) = unat p + unat off"
  using page_aligned_max [of p] by (intro unat_add_nowrap) simp

lemma PGROUNDDOWN_off:
  assumes "page_aligned p" "unat off < 4096"
  shows "PGROUNDDOWN (p + off) = p"
proof -
  from assms(1) obtain k where k: "unat p = 4096 * k"
    unfolding page_aligned_def by (auto simp: mod_eq_0_iff_dvd)
  have "unat (p + off) div 4096 = k"
    using assms k by (simp add: unat_page_off)
  then show ?thesis using k by (simp add: word_unat_eq_iff unat_PGROUNDDOWN)
qed

lemma in_page_iff:
  assumes "page_aligned p"
  shows "PGROUNDDOWN a = p \<longleftrightarrow> unat (a - p) < 4096"
proof
  assume "PGROUNDDOWN a = p"
  then have p: "unat p = unat a div 4096 * 4096" by (simp add: unat_PGROUNDDOWN [symmetric])
  have le: "unat p \<le> unat a" unfolding p by simp
  have "unat a div 4096 * 4096 + unat a mod 4096 = unat a" by (rule div_mult_mod_eq)
  then have "unat a - unat p = unat a mod 4096" using p by linarith
  then have "unat a - unat p < 4096" by simp
  then show "unat (a - p) < 4096" using le by (simp add: unat_sub_if')
next
  assume "unat (a - p) < 4096"
  then have "PGROUNDDOWN (p + (a - p)) = p" using assms by (intro PGROUNDDOWN_off)
  then show "PGROUNDDOWN a = p" by simp
qed

section \<open>Stores within one page\<close>

lemma agree_page_refl [simp, intro]: "agree_page m m p"
  by (simp add: agree_page_def)

lemma agree_page_sym: "agree_page m m' p \<Longrightarrow> agree_page m' m p"
  by (simp add: agree_page_def)

lemma agree_page_trans: "agree_page m m' p \<Longrightarrow> agree_page m' m'' p \<Longrightarrow> agree_page m m'' p"
  by (simp add: agree_page_def)

lemma memset_page_apply:
  "page_aligned p \<Longrightarrow> memset m p c 4096 x = (if PGROUNDDOWN x = p then ucast c else m x)"
  by (simp add: memset_apply in_page_iff)

lemma agree_page_memset [intro]:
  "page_aligned p \<Longrightarrow> p \<noteq> q \<Longrightarrow> agree_page (memset m p c 4096) m q"
  by (auto simp: agree_page_def memset_page_apply)

lemma ld64_page_cong:
  assumes "agree_page m m' p" "page_aligned p" "unat off \<le> 4088"
  shows "ld64 m (p + off) = ld64 m' (p + off)"
proof (rule ld64_cong)
  fix i :: nat assume i: "i < 8"
  have "unat (off + of_nat i) = unat off + i"
    using assms(3) i by (subst unat_add_nowrap) (simp_all add: unat_of_nat)
  then have "PGROUNDDOWN (p + (off + of_nat i)) = p"
    using assms i by (intro PGROUNDDOWN_off) simp_all
  then show "m (p + off + of_nat i) = m' (p + off + of_nat i)"
    using assms(1) by (simp add: agree_page_def add.assoc)
qed

lemma st64_other_page:
  assumes "page_aligned p" "unat off \<le> 4088" "PGROUNDDOWN x \<noteq> p"
  shows "st64 m (p + off) v x = m x"
proof -
  have "\<not> unat (x - (p + off)) < 8"
  proof
    assume lt: "unat (x - (p + off)) < 8"
    have x: "x = p + (off + (x - (p + off)))" by simp
    have "unat (off + (x - (p + off))) = unat off + unat (x - (p + off))"
      using assms(2) lt by (intro unat_add_nowrap) simp
    then have "PGROUNDDOWN (p + (off + (x - (p + off)))) = p"
      using assms(1,2) lt by (intro PGROUNDDOWN_off) simp_all
    then show False using assms(3) x by simp
  qed
  then show ?thesis by (simp add: st64_apply)
qed

lemma agree_page_st64 [intro]:
  "page_aligned p \<Longrightarrow> unat off \<le> 4088 \<Longrightarrow> p \<noteq> q \<Longrightarrow> agree_page (st64 m (p + off) v) m q"
  by (auto simp: agree_page_def st64_other_page)

section \<open>Page-table slots\<close>

lemma unat_8_times: "unat i < 512 \<Longrightarrow> unat (8 * i :: u64) = 8 * unat i"
  by (simp add: unat_word_ariths)

lemma slot_off: "unat i < 512 \<Longrightarrow> unat (8 * i :: u64) \<le> 4088"
  by (simp add: unat_8_times)

lemma PGROUNDDOWN_slot [simp]: "page_aligned p \<Longrightarrow> unat i < 512 \<Longrightarrow> PGROUNDDOWN (slot p i) = p"
  unfolding slot_def by (rule PGROUNDDOWN_off) (simp_all add: unat_8_times)

lemma ld64_slot_cong:
  "agree_page m m' p \<Longrightarrow> page_aligned p \<Longrightarrow> unat i < 512 \<Longrightarrow> ld64 m (slot p i) = ld64 m' (slot p i)"
  unfolding slot_def by (rule ld64_page_cong) (simp_all add: slot_off)

lemma agree_page_st_slot [intro]:
  "page_aligned p \<Longrightarrow> unat i < 512 \<Longrightarrow> p \<noteq> q \<Longrightarrow> agree_page (st64 m (slot p i) v) m q"
  unfolding slot_def by (rule agree_page_st64) (simp_all add: slot_off)

lemma ld64_memset_slot:
  assumes "page_aligned p" "unat i < 512"
  shows "ld64 (memset m p 0 4096) (slot p i) = 0"
proof (rule ld64_zero)
  fix k :: nat assume k: "k < 8"
  have "unat (8 * i + of_nat k) = 8 * unat i + k"
    using assms(2) k by (subst unat_add_nowrap) (simp_all add: unat_8_times unat_of_nat)
  then have "PGROUNDDOWN (p + (8 * i + of_nat k)) = p"
    using assms k by (intro PGROUNDDOWN_off) simp_all
  then show "memset m p 0 4096 (slot p i + of_nat k) = 0"
    using assms(1) by (simp add: memset_page_apply slot_def add.assoc)
qed

lemma ld64_st64_slot:
  assumes "page_aligned p" "unat i < 512" "unat j < 512"
  shows "ld64 (st64 m (slot p i) v) (slot p j) = (if i = j then v else ld64 m (slot p j))"
proof (cases "i = j")
  case True
  then show ?thesis by simp
next
  case False
  then have ne: "unat i \<noteq> unat j" by (metis word_unat_eq_iff)
  have "ld64 (st64 m (slot p i) v) (slot p j) = ld64 m (slot p j)"
  proof (rule ld64_cong)
    fix k :: nat assume k: "k < 8"
    have si: "unat (slot p i) = unat p + 8 * unat i"
      unfolding slot_def using assms by (subst unat_page_off) (simp_all add: unat_8_times)
    have "unat (8 * j + of_nat k) = 8 * unat j + k"
      using assms(3) k by (subst unat_add_nowrap) (simp_all add: unat_8_times unat_of_nat)
    then have sj: "unat (slot p j + of_nat k) = unat p + 8 * unat j + k"
      unfolding slot_def add.assoc using assms k by (subst unat_page_off) simp_all
    have "unat (slot p i) + 8 \<le> 18446744073709551616"
      using si assms(2) page_aligned_max [OF assms(1)] by simp
    moreover have "\<not> (unat (slot p i) \<le> unat (slot p j + of_nat k) \<and>
        unat (slot p j + of_nat k) < unat (slot p i) + 8)"
      unfolding si sj using ne k by presburger
    ultimately have "\<not> unat (slot p j + of_nat k - slot p i) < 8"
      by (simp only: unat_diff_lt_iff simp_thms)
    then show "st64 m (slot p i) v (slot p j + of_nat k) = m (slot p j + of_nat k)"
      by (simp add: st64_apply)
  qed
  with False show ?thesis by simp
qed

end
