(* ===== verification/Kalloc.thy ===== *)
theory Kalloc
  imports Pages Fdt
begin

text \<open>
  The physical page allocator, \<^verbatim>\<open>kernel/mm/kalloc.c\<close>.  The free list is threaded through the
  free pages themselves, so \<open>freelist\<close> is a pointer into \<open>mem\<close> and \<^verbatim>\<open>r->next\<close> is a load.
  \<open>kmem_inv\<close> says that the chain is a list of distinct, aligned pages of the managed range.
  The locale \<open>page_allocator\<close> is the contract the virtual-memory code relies on; it is
  interpreted here on \<open>kalloc\<close> and \<open>kfree\<close>.
\<close>

record mm_state =
  mem :: memory
  freelist :: u64
  phys_top :: u64
  kernel_end :: u64

section \<open>Operations\<close>

definition kfree :: "'a mm_state_scheme \<Rightarrow> u64 \<Rightarrow> 'a mm_state_scheme res" where
  "kfree s pa =
     (if pa mod PGSIZE \<noteq> 0 \<or> pa < kernel_end s \<or> pa \<ge> phys_top s then Inl (Panic ''kfree'')
      else let m = memset (mem s) pa 1 4096
           in Inr (s\<lparr>mem := st64 m pa (freelist s), freelist := pa\<rparr>))"

definition kalloc :: "'a mm_state_scheme \<Rightarrow> u64 \<times> 'a mm_state_scheme" where
  "kalloc s =
     (let r = freelist s in
      if r \<noteq> 0
      then let s1 = s\<lparr>freelist := ld64 (mem s) r\<rparr> in (r, s1\<lparr>mem := memset (mem s1) r 5 4096\<rparr>)
      else (r, s))"

fun freerange_loop :: "nat \<Rightarrow> 'a mm_state_scheme \<Rightarrow> u64 \<Rightarrow> u64 \<Rightarrow> 'a mm_state_scheme res" where
  "freerange_loop 0 s p pa_end = (if p + PGSIZE \<le> pa_end then Inl NoFuel else Inr s)"
| "freerange_loop (Suc f) s p pa_end =
     (if p + PGSIZE \<le> pa_end
      then rbind (kfree s p) (\<lambda>s. freerange_loop f s (p + PGSIZE) pa_end)
      else Inr s)"

definition freerange :: "'a mm_state_scheme \<Rightarrow> u64 \<Rightarrow> u64 \<Rightarrow> 'a mm_state_scheme res" where
  "freerange s pa_start pa_end =
     freerange_loop (unat pa_end div 4096) s (PGROUNDUP pa_start) pa_end"

definition kinit :: "nat \<Rightarrow> 'a mm_state_scheme \<Rightarrow> u64 \<Rightarrow> 'a mm_state_scheme res" where
  "kinit fdt_fuel s dtb_addr =
     rbind (fdt_get_memory_size fdt_fuel (mem s) dtb_addr)
       (\<lambda>top. let s = s\<lparr>phys_top := if top = 0 then PHYSTOP else top\<rparr>
              in freerange s (kernel_end s) (phys_top s))"

definition kphys_top :: "'a mm_state_scheme \<Rightarrow> u64" where
  "kphys_top s = phys_top s"

fun kfreemem_loop :: "nat \<Rightarrow> memory \<Rightarrow> u64 \<Rightarrow> u64 \<Rightarrow> u64 res" where
  "kfreemem_loop 0 m r pages = (if r \<noteq> 0 then Inl NoFuel else Inr pages)"
| "kfreemem_loop (Suc f) m r pages =
     (if r \<noteq> 0 then kfreemem_loop f m (ld64 m r) (pages + 1) else Inr pages)"

definition max_pages :: "'a mm_state_scheme \<Rightarrow> nat" where
  "max_pages s = unat (phys_top s) div 4096 + 1"

definition kfreemem :: "'a mm_state_scheme \<Rightarrow> u64 res" where
  "kfreemem s = rbind (kfreemem_loop (max_pages s) (mem s) (freelist s) 0) (\<lambda>pages. Inr (pages * PGSIZE))"

section \<open>Invariant\<close>

fun flist :: "memory \<Rightarrow> u64 \<Rightarrow> u64 list \<Rightarrow> bool" where
  "flist m p [] \<longleftrightarrow> p = 0"
| "flist m p (x # xs) \<longleftrightarrow> p = x \<and> x \<noteq> 0 \<and> flist m (ld64 m x) xs"

text \<open>The pages a chain from \<open>p\<close> visits in at most \<open>n\<close> steps.\<close>

fun chain :: "nat \<Rightarrow> memory \<Rightarrow> u64 \<Rightarrow> u64 list" where
  "chain 0 m p = []"
| "chain (Suc n) m p = (if p = 0 then [] else p # chain n m (ld64 m p))"

definition free_pages :: "'a mm_state_scheme \<Rightarrow> u64 list" where
  "free_pages s = chain (max_pages s) (mem s) (freelist s)"

definition valid_page :: "'a mm_state_scheme \<Rightarrow> u64 \<Rightarrow> bool" where
  "valid_page s p \<longleftrightarrow> page_aligned p \<and> kernel_end s \<le> p \<and> p < phys_top s"

definition kmem_inv :: "'a mm_state_scheme \<Rightarrow> bool" where
  "kmem_inv s \<longleftrightarrow> 0 < kernel_end s \<and> flist (mem s) (freelist s) (free_pages s)
     \<and> distinct (free_pages s) \<and> (\<forall>p \<in> set (free_pages s). valid_page s p)"

definition avail :: "'a mm_state_scheme \<Rightarrow> u64 set" where
  "avail s = set (free_pages s)"

lemma valid_page_aligned: "valid_page s p \<Longrightarrow> page_aligned p"
  by (simp add: valid_page_def)

lemma valid_page_nz: "kmem_inv s \<Longrightarrow> valid_page s p \<Longrightarrow> p \<noteq> 0"
  by (auto simp: kmem_inv_def valid_page_def)

lemma avail_valid: "kmem_inv s \<Longrightarrow> p \<in> avail s \<Longrightarrow> valid_page s p"
  by (simp add: kmem_inv_def avail_def)

lemma flist_unique: "flist m p xs \<Longrightarrow> flist m p ys \<Longrightarrow> xs = ys"
proof (induction xs arbitrary: p ys)
  case Nil
  then show ?case by (cases ys) auto
next
  case (Cons x xs)
  then show ?case by (cases ys) auto
qed

lemma flist_cong:
  "flist m p xs \<Longrightarrow> (\<And>x. x \<in> set xs \<Longrightarrow> ld64 m x = ld64 m' x) \<Longrightarrow> flist m' p xs"
  by (induction xs arbitrary: p) auto

lemma chain_flist: "flist m p xs \<Longrightarrow> length xs \<le> n \<Longrightarrow> chain n m p = xs"
proof (induction n arbitrary: p xs)
  case 0
  then show ?case by simp
next
  case (Suc n)
  then show ?case by (cases xs) auto
qed

text \<open>Distinct aligned pages below \<open>phys_top\<close> are fewer than the fuel of the loops.\<close>

lemma valid_pages_bound:
  assumes "distinct xs" "\<forall>p \<in> set xs. valid_page s p"
  shows "length xs \<le> max_pages s"
proof -
  let ?f = "\<lambda>p :: u64. unat p div 4096"
  have inj: "inj_on ?f (set xs)"
  proof (rule inj_onI)
    fix p q assume "p \<in> set xs" "q \<in> set xs" and eq: "?f p = ?f q"
    then have "page_aligned p" "page_aligned q" using assms(2) by (auto simp: valid_page_def)
    then have "PGROUNDDOWN p = p" "PGROUNDDOWN q = q" by (auto simp: PGROUNDDOWN_idem)
    moreover have "PGROUNDDOWN p = PGROUNDDOWN q"
      by (rule word_eq_of_unat) (simp add: unat_PGROUNDDOWN eq)
    ultimately show "p = q" by metis
  qed
  have "?f ` set xs \<subseteq> {..<max_pages s}"
    using assms(2) by (auto simp: valid_page_def max_pages_def word_less_nat_alt less_Suc_eq_le
        intro: div_le_mono)
  then have "card (?f ` set xs) \<le> max_pages s"
    using card_mono [of "{..<max_pages s}" "?f ` set xs"] by simp
  then show ?thesis using assms(1) inj by (simp add: card_image distinct_card)
qed

text \<open>The way in and out of the invariant: exhibit the list.\<close>

lemma kmem_invI:
  assumes "0 < kernel_end s" "flist (mem s) (freelist s) xs" "distinct xs"
    "\<forall>p \<in> set xs. valid_page s p"
  shows "kmem_inv s" "free_pages s = xs"
proof -
  show "free_pages s = xs"
    unfolding free_pages_def using assms by (intro chain_flist valid_pages_bound)
  with assms show "kmem_inv s" by (simp add: kmem_inv_def)
qed

lemma flist_same_pages:
  assumes "flist m p xs" "\<forall>x \<in> set xs. page_aligned x \<and> agree_page m m' x"
  shows "flist m' p xs"
proof (rule flist_cong [OF assms(1)])
  fix x assume "x \<in> set xs"
  then show "ld64 m x = ld64 m' x"
    using assms(2) ld64_page_cong [of m m' x 0] by simp
qed

lemma kmem_inv_frame:
  assumes "kmem_inv s" "\<And>p. p \<in> avail s \<Longrightarrow> agree_page (mem s) m p"
  shows "kmem_inv (s\<lparr>mem := m\<rparr>)" "free_pages (s\<lparr>mem := m\<rparr>) = free_pages s"
proof -
  let ?s = "s\<lparr>mem := m\<rparr>"
  have f: "flist m (freelist s) (free_pages s)"
  proof (rule flist_same_pages)
    show "flist (mem s) (freelist s) (free_pages s)" using assms(1) by (simp add: kmem_inv_def)
    show "\<forall>x \<in> set (free_pages s). page_aligned x \<and> agree_page (mem s) m x"
      using assms(2) avail_valid [OF assms(1)] by (simp add: avail_def valid_page_def)
  qed
  have "0 < kernel_end ?s" "flist (mem ?s) (freelist ?s) (free_pages s)"
      "distinct (free_pages s)" "\<forall>p \<in> set (free_pages s). valid_page ?s p"
    using assms(1) f by (simp_all add: kmem_inv_def valid_page_def)
  from kmem_invI [OF this]
  show "kmem_inv (s\<lparr>mem := m\<rparr>)" "free_pages (s\<lparr>mem := m\<rparr>) = free_pages s" .
qed

lemma kmem_frame:
  assumes "kmem_inv s" "\<forall>p \<in> avail s. agree_page (mem s) m p"
  shows "kmem_inv (s\<lparr>mem := m\<rparr>)" "avail (s\<lparr>mem := m\<rparr>) = avail s"
  using kmem_inv_frame [OF assms(1), of m] assms(2) by (simp_all add: avail_def)

section \<open>kalloc and kfree on the list of free pages\<close>

lemma free_pages_head:
  assumes "kmem_inv s" "freelist s \<noteq> 0"
  obtains xs where "free_pages s = freelist s # xs" "flist (mem s) (ld64 (mem s) (freelist s)) xs"
proof -
  have "flist (mem s) (freelist s) (free_pages s)" using assms(1) by (simp add: kmem_inv_def)
  with assms(2) that show thesis by (cases "free_pages s") auto
qed

lemma free_pages_empty: "kmem_inv s \<Longrightarrow> freelist s = 0 \<longleftrightarrow> free_pages s = []"
  by (cases "free_pages s") (auto simp: kmem_inv_def)

lemma kalloc_none: "kmem_inv s \<Longrightarrow> free_pages s = [] \<Longrightarrow> kalloc s = (0, s)"
  by (simp add: kalloc_def free_pages_empty [symmetric])

lemma kalloc_some:
  assumes "kmem_inv s" "free_pages s = x # xs"
  obtains s' where "kalloc s = (x, s')" "kmem_inv s'" "free_pages s' = xs"
    "s' = s\<lparr>freelist := ld64 (mem s) x, mem := memset (mem s) x 5 4096\<rparr>"
proof -
  have fl: "flist (mem s) (freelist s) (x # xs)" "distinct (x # xs)"
      "\<forall>p \<in> set (x # xs). valid_page s p" and end_pos: "0 < kernel_end s"
    using assms unfolding kmem_inv_def by simp_all
  then have x: "freelist s = x" "x \<noteq> 0" and tail: "flist (mem s) (ld64 (mem s) x) xs" by auto
  let ?s = "s\<lparr>freelist := ld64 (mem s) x, mem := memset (mem s) x 5 4096\<rparr>"
  have "agree_page (mem s) (memset (mem s) x 5 4096) p" if "p \<in> set xs" for p
    using that fl(2,3) by (intro agree_page_sym [OF agree_page_memset]) (auto simp: valid_page_def)
  then have "flist (mem ?s) (freelist ?s) xs"
    using fl(3) by (simp add: flist_same_pages [OF tail] valid_page_def)
  moreover have "0 < kernel_end ?s" "distinct xs" "\<forall>p \<in> set xs. valid_page ?s p"
    using fl end_pos by (simp_all add: valid_page_def)
  ultimately have "kmem_inv ?s" "free_pages ?s = xs" using kmem_invI [of ?s xs] by blast+
  moreover have "kalloc s = (x, ?s)" using x by (simp add: kalloc_def)
  ultimately show thesis using that by blast
qed

lemma kfree_ok:
  assumes "kmem_inv s" "valid_page s p" "p \<notin> avail s"
  obtains s' where "kfree s p = Inr s'" "kmem_inv s'" "free_pages s' = p # free_pages s"
    "s' = s\<lparr>mem := st64 (memset (mem s) p 1 4096) p (freelist s), freelist := p\<rparr>"
proof -
  let ?m = "st64 (memset (mem s) p 1 4096) p (freelist s)"
  let ?s = "s\<lparr>mem := ?m, freelist := p\<rparr>"
  have al: "page_aligned p" using assms(2) by (rule valid_page_aligned)
  have "agree_page (mem s) ?m q" if "q \<in> avail s" for q
  proof -
    have ne: "p \<noteq> q" using that assms(3) by auto
    have "agree_page ?m (memset (mem s) p 1 4096) q"
      using agree_page_st64 [OF al _ ne, of 0] by simp
    moreover have "agree_page (memset (mem s) p 1 4096) (mem s) q"
      using al ne by (rule agree_page_memset)
    ultimately show ?thesis using agree_page_sym agree_page_trans by blast
  qed
  then have "free_pages (s\<lparr>mem := ?m\<rparr>) = free_pages s" "kmem_inv (s\<lparr>mem := ?m\<rparr>)"
    using kmem_inv_frame [OF assms(1), of ?m] by simp_all
  then have "flist ?m (freelist s) (free_pages s)" unfolding kmem_inv_def by simp
  moreover have "p \<noteq> 0" using assms(1,2) by (rule valid_page_nz)
  ultimately have "flist (mem ?s) (freelist ?s) (p # free_pages s)" by simp
  moreover have "0 < kernel_end ?s" "distinct (p # free_pages s)"
      "\<forall>q \<in> set (p # free_pages s). valid_page ?s q"
    using assms by (simp_all add: kmem_inv_def avail_def valid_page_def)
  ultimately have "kmem_inv ?s" "free_pages ?s = p # free_pages s"
    using kmem_invI [of ?s "p # free_pages s"] by blast+
  moreover have "kfree s p = Inr ?s"
    using assms(2) al
    by (simp add: kfree_def valid_page_def mod_PGSIZE_0 page_aligned_def not_less not_le Let_def)
  ultimately show thesis using that by blast
qed

lemma kfree_panics:
  "\<not> valid_page s p \<Longrightarrow> kfree s p = Inl (Panic ''kfree'')"
  by (auto simp: kfree_def valid_page_def mod_PGSIZE_0 page_aligned_def not_less not_le)

text \<open>Both operations touch only the memory and the head of the free list.\<close>

definition mm_frame :: "'a mm_state_scheme \<Rightarrow> 'a mm_state_scheme \<Rightarrow> bool" where
  "mm_frame s s' \<longleftrightarrow> s' = s\<lparr>mem := mem s', freelist := freelist s'\<rparr>"

lemma mm_frame_refl [simp, intro]: "mm_frame s s"
  by (simp add: mm_frame_def)

lemma mm_frame_trans: "mm_frame s s' \<Longrightarrow> mm_frame s' s'' \<Longrightarrow> mm_frame s s''"
  by (cases s; cases s'; cases s'') (simp add: mm_frame_def)

lemma mm_frame_mem [simp, intro]: "mm_frame s s' \<Longrightarrow> mm_frame s (s'\<lparr>mem := m\<rparr>)"
  by (cases s; cases s') (simp add: mm_frame_def)

lemma mm_frame_valid: "mm_frame s s' \<Longrightarrow> valid_page s' = valid_page s"
  by (cases s; cases s') (simp add: mm_frame_def valid_page_def fun_eq_iff)

lemma kalloc_mm_frame: "kalloc s = (p, s') \<Longrightarrow> mm_frame s s'"
  by (auto simp: kalloc_def mm_frame_def Let_def split: if_splits)

lemma kfree_mm_frame: "kfree s p = Inr s' \<Longrightarrow> mm_frame s s'"
  by (auto simp: kfree_def mm_frame_def Let_def split: if_splits)

section \<open>The allocator's contract\<close>

locale page_allocator =
  fixes alloc :: "'s \<Rightarrow> u64 \<times> 's"
    and free :: "'s \<Rightarrow> u64 \<Rightarrow> 's res"
    and free_set :: "'s \<Rightarrow> u64 set"
    and usable :: "'s \<Rightarrow> u64 \<Rightarrow> bool"
    and contents :: "'s \<Rightarrow> memory"
    and inv :: "'s \<Rightarrow> bool"
  assumes free_usable: "inv s \<Longrightarrow> p \<in> free_set s \<Longrightarrow> usable s p"
    and usable_nz: "inv s \<Longrightarrow> usable s p \<Longrightarrow> p \<noteq> 0"
    and alloc_empty: "inv s \<Longrightarrow> free_set s = {} \<Longrightarrow> alloc s = (0, s)"
    and alloc_page: "inv s \<Longrightarrow> free_set s \<noteq> {} \<Longrightarrow> \<exists>p s'. alloc s = (p, s') \<and> p \<in> free_set s
      \<and> inv s' \<and> free_set s' = free_set s - {p} \<and> usable s' = usable s
      \<and> (\<forall>q. q \<noteq> p \<longrightarrow> agree_page (contents s) (contents s') q)"
    and free_page: "inv s \<Longrightarrow> usable s p \<Longrightarrow> p \<notin> free_set s \<Longrightarrow> \<exists>s'. free s p = Inr s'
      \<and> inv s' \<and> free_set s' = insert p (free_set s) \<and> usable s' = usable s
      \<and> (\<forall>q. q \<noteq> p \<longrightarrow> agree_page (contents s) (contents s') q)"
begin

text \<open>A page in use is never handed out, and its contents survive any allocation.\<close>

lemma alloc_result:
  assumes "inv s" "alloc s = (p, s')"
  shows "inv s' \<and> usable s' = usable s \<and> (if p = 0 then s' = s \<and> free_set s = {}
    else p \<in> free_set s \<and> usable s p \<and> free_set s' = free_set s - {p}
      \<and> (\<forall>q. q \<noteq> p \<longrightarrow> agree_page (contents s) (contents s') q))"
proof (cases "free_set s = {}")
  case True
  with assms alloc_empty show ?thesis by auto
next
  case False
  with assms alloc_page [OF assms(1)] free_usable usable_nz show ?thesis by auto
qed

lemma alloc_frame:
  "inv s \<Longrightarrow> alloc s = (p, s') \<Longrightarrow> q \<notin> free_set s \<Longrightarrow> agree_page (contents s) (contents s') q"
  using alloc_result [of s p s'] by (cases "p = 0") auto

lemma free_alloc_disjoint:
  assumes "inv s" "alloc s = (p, s')" "p \<noteq> 0" "free s' p = Inr s''"
  shows "inv s'' \<and> free_set s'' = free_set s"
proof -
  have r: "inv s'" "usable s' p" "p \<in> free_set s" "free_set s' = free_set s - {p}"
    using alloc_result [OF assms(1,2)] assms(3) by auto
  then show ?thesis using free_page [of s' p] assms(4) by auto
qed

end

lemma avail_Nil: "avail s = {} \<longleftrightarrow> free_pages s = []"
  by (simp add: avail_def)

interpretation kmem: page_allocator kalloc kfree avail valid_page mem kmem_inv
proof
  fix s :: "'a mm_state_scheme" and p
  show "kmem_inv s \<Longrightarrow> p \<in> avail s \<Longrightarrow> valid_page s p" by (rule avail_valid)
  show "kmem_inv s \<Longrightarrow> valid_page s p \<Longrightarrow> p \<noteq> 0" by (rule valid_page_nz)
  show "kmem_inv s \<Longrightarrow> avail s = {} \<Longrightarrow> kalloc s = (0, s)" by (simp add: avail_Nil kalloc_none)
next
  fix s :: "'a mm_state_scheme"
  assume inv: "kmem_inv s" and "avail s \<noteq> {}"
  then obtain x xs where xs: "free_pages s = x # xs" by (cases "free_pages s") (auto simp: avail_Nil)
  from kalloc_some [OF inv xs] obtain s' where s': "kalloc s = (x, s')" "kmem_inv s'"
    "free_pages s' = xs" "s' = s\<lparr>freelist := ld64 (mem s) x, mem := memset (mem s) x 5 4096\<rparr>" .
  have x: "valid_page s x" "distinct (x # xs)" using inv xs by (auto simp: kmem_inv_def)
  have "x \<in> avail s" "avail s' = avail s - {x}" using xs s'(3) x(2) by (auto simp: avail_def)
  moreover have "valid_page s' = valid_page s" by (simp add: s'(4) valid_page_def fun_eq_iff)
  moreover have "agree_page (mem s) (mem s') q" if "q \<noteq> x" for q
    using that valid_page_aligned [OF x(1)] by (simp add: s'(4) agree_page_sym agree_page_memset)
  ultimately show "\<exists>p s'. kalloc s = (p, s') \<and> p \<in> avail s \<and> kmem_inv s' \<and> avail s' = avail s - {p}
      \<and> valid_page s' = valid_page s \<and> (\<forall>q. q \<noteq> p \<longrightarrow> agree_page (mem s) (mem s') q)"
    using s'(1,2) by blast
next
  fix s :: "'a mm_state_scheme" and p
  assume a: "kmem_inv s" "valid_page s p" "p \<notin> avail s"
  from kfree_ok [OF a] obtain s' where s': "kfree s p = Inr s'" "kmem_inv s'"
    "free_pages s' = p # free_pages s"
    "s' = s\<lparr>mem := st64 (memset (mem s) p 1 4096) p (freelist s), freelist := p\<rparr>" .
  have al: "page_aligned p" using a(2) by (rule valid_page_aligned)
  have "agree_page (mem s) (mem s') q" if "q \<noteq> p" for q
    using that al agree_page_st64 [OF al, of 0 q "memset (mem s) p 1 4096" "freelist s"]
      agree_page_memset [OF al, of q "mem s" 1]
    by (auto simp: s'(4) agree_page_def)
  moreover have "valid_page s' = valid_page s" by (simp add: s'(4) valid_page_def fun_eq_iff)
  ultimately show "\<exists>s'. kfree s p = Inr s' \<and> kmem_inv s' \<and> avail s' = insert p (avail s)
      \<and> valid_page s' = valid_page s \<and> (\<forall>q. q \<noteq> p \<longrightarrow> agree_page (mem s) (mem s') q)"
    using s'(1-3) by (auto simp: avail_def)
qed

section \<open>Counting and initialising the free pages\<close>

lemma kfreemem_loop_flist:
  "flist m r xs \<Longrightarrow> length xs \<le> f \<Longrightarrow> kfreemem_loop f m r n = Inr (n + of_nat (length xs))"
proof (induction f arbitrary: r xs n)
  case 0
  then show ?case by simp
next
  case (Suc f)
  then show ?case by (cases xs) (auto simp: ac_simps)
qed

lemma kfreemem_flist:
  assumes "kmem_inv s"
  shows "kfreemem s = Inr (of_nat (length (free_pages s)) * PGSIZE)"
proof -
  have "length (free_pages s) \<le> max_pages s"
    using assms by (intro valid_pages_bound) (simp_all add: kmem_inv_def)
  then show ?thesis
    using assms kfreemem_loop_flist [of "mem s" "freelist s" "free_pages s" "max_pages s" 0]
    by (simp add: kfreemem_def kmem_inv_def)
qed

definition pages_from :: "u64 \<Rightarrow> nat \<Rightarrow> u64 list" where
  "pages_from p n = map (\<lambda>i. p + of_nat (4096 * i)) [0..<n]"

lemma pages_from_Suc: "pages_from p (Suc n) = p # pages_from (p + PGSIZE) n"
  by (simp add: pages_from_def upt_conv_Cons del: upt_Suc flip: map_Suc_upt)
     (simp add: PGSIZE_def algebra_simps)

lemma page_aligned_next:
  assumes "page_aligned p" "unat p + 4096 < 18446744073709551616"
  shows "unat (p + PGSIZE) = unat p + 4096" "page_aligned (p + PGSIZE)"
proof -
  show "unat (p + PGSIZE) = unat p + 4096"
    using assms(2) by (subst unat_add_nowrap) (simp_all add: unat_PGSIZE)
  then show "page_aligned (p + PGSIZE)" using assms(1) by (simp add: page_aligned_def)
qed

lemma freerange_loop_pages:
  assumes "kmem_inv s" "page_aligned p" "kernel_end s \<le> p" "e \<le> phys_top s"
    "unat e + 8192 \<le> 18446744073709551616" "unat p \<le> unat e + 4095"
    "n = (unat e - unat p) div 4096" "n \<le> f" "\<forall>q \<in> avail s. q < p"
  shows "\<exists>s'. freerange_loop f s p e = Inr s' \<and> kmem_inv s' \<and> phys_top s' = phys_top s
    \<and> kernel_end s' = kernel_end s \<and> free_pages s' = rev (pages_from p n) @ free_pages s"
  using assms
proof (induction n arbitrary: f s p)
  case 0
  have "unat (p + PGSIZE) = unat p + 4096"
    using 0 by (intro page_aligned_next) auto
  moreover have "unat e - unat p < 4096"
    using 0(7) by (simp add: div_eq_0_iff)
  ultimately have "\<not> p + PGSIZE \<le> e" using 0(6) by (simp add: word_le_nat_alt)
  then show ?case using 0 by (cases f) (simp_all add: pages_from_def)
next
  case (Suc n)
  obtain g where g: "f = Suc g" using Suc.prems(8) by (cases f) auto
  have room: "unat p + 4096 \<le> unat e"
  proof (rule ccontr)
    assume "\<not> ?thesis"
    then have "unat e - unat p < 4096" by linarith
    with Suc.prems(7) show False by simp
  qed
  have np: "unat (p + PGSIZE) = unat p + 4096" "page_aligned (p + PGSIZE)"
    using Suc.prems(2,5) room by (intro page_aligned_next; simp)+
  have v: "valid_page s p"
    using Suc.prems(2,3,4) room by (simp add: valid_page_def word_less_nat_alt word_le_nat_alt)
  have fresh: "p \<notin> avail s" using Suc.prems(9) by auto
  obtain s1 where s1: "kfree s p = Inr s1" "kmem_inv s1" "free_pages s1 = p # free_pages s"
    "s1 = s\<lparr>mem := st64 (memset (mem s) p 1 4096) p (freelist s), freelist := p\<rparr>"
    using kfree_ok [OF Suc.prems(1) v fresh] .
  have "unat e - unat p = (unat e - unat (p + PGSIZE)) + 4096" using room np by simp
  then have n: "n = (unat e - unat (p + PGSIZE)) div 4096" using Suc.prems(7) by simp
  have below: "\<forall>q \<in> avail s1. q < p + PGSIZE"
    using Suc.prems(9) np(1) s1(3) by (auto simp: avail_def word_less_nat_alt)
  have "\<exists>s'. freerange_loop g s1 (p + PGSIZE) e = Inr s' \<and> kmem_inv s' \<and> phys_top s' = phys_top s1
    \<and> kernel_end s' = kernel_end s1 \<and> free_pages s' = rev (pages_from (p + PGSIZE) n) @ free_pages s1"
  proof (rule Suc.IH)
    show "kernel_end s1 \<le> p + PGSIZE"
      using Suc.prems(3) np(1) s1(4) by (simp add: word_le_nat_alt)
    show "unat (p + PGSIZE) \<le> unat e + 4095" using room np by simp
    show "n \<le> g" using Suc.prems(8) g by simp
    show "e \<le> phys_top s1" using Suc.prems(4) s1(4) by simp
  qed (use s1(2) np(2) n below Suc.prems(5) in simp_all)
  moreover have "p + PGSIZE \<le> e" using room np by (simp add: word_le_nat_alt)
  ultimately show ?case using g s1 by (simp add: pages_from_Suc)
qed

lemma set_pages_from:
  fixes p e :: u64
  assumes "page_aligned p" "unat e + 8192 \<le> 18446744073709551616"
  shows "set (pages_from p ((unat e - unat p) div 4096))
    = {q. page_aligned q \<and> p \<le> q \<and> unat q + 4096 \<le> unat e}"
proof -
  let ?n = "(unat e - unat p) div 4096"
  have un: "unat (p + of_nat (4096 * i)) = unat p + 4096 * i" if "i < ?n" for i
  proof -
    have "4096 * i < unat e - unat p" using that by (simp add: less_mult_imp_div_less)
    moreover from this have "unat (of_nat (4096 * i) :: u64) = 4096 * i"
      using unat_lt64 [of e] by (intro unat_of_nat64) linarith
    ultimately show ?thesis using assms(2) by (simp only: unat_add64) simp
  qed
  show ?thesis
  proof (intro set_eqI iffI)
    fix q assume "q \<in> set (pages_from p ?n)"
    then obtain i where i: "i < ?n" "q = p + of_nat (4096 * i)" by (auto simp: pages_from_def)
    have "unat q = unat p + 4096 * i" using un [OF i(1)] i(2) by simp
    moreover have "4096 * i + 4096 \<le> unat e - unat p" using i(1) by linarith
    ultimately show "q \<in> {q. page_aligned q \<and> p \<le> q \<and> unat q + 4096 \<le> unat e}"
      using assms(1) by (auto simp: page_aligned_def word_le_nat_alt)
  next
    fix q assume "q \<in> {q. page_aligned q \<and> p \<le> q \<and> unat q + 4096 \<le> unat e}"
    then have q: "page_aligned q" "unat p \<le> unat q" "unat q + 4096 \<le> unat e"
      by (auto simp: word_le_nat_alt)
    obtain a b where ab: "unat p = 4096 * a" "unat q = 4096 * b"
      using assms(1) q(1) unfolding page_aligned_def by (auto simp: mod_eq_0_iff_dvd elim!: dvdE)
    have i: "b - a < ?n" using ab q(2,3) by linarith
    have "unat (p + of_nat (4096 * (b - a))) = unat q"
      using un [OF i] ab q(2) by simp
    then have "q = p + of_nat (4096 * (b - a))" by (metis word_unat_eq_iff)
    then show "q \<in> set (pages_from p ?n)" using i by (auto simp: pages_from_def)
  qed
qed

lemma PGROUNDUP_nowrap:
  assumes "unat a + 8192 \<le> 18446744073709551616"
  shows "page_aligned (PGROUNDUP a)" "unat (PGROUNDUP a) \<le> unat a + 4095" "a \<le> PGROUNDUP a"
    "page_aligned q \<Longrightarrow> PGROUNDUP a \<le> q \<longleftrightarrow> a \<le> q"
proof -
  have u: "unat (PGROUNDUP a) = (unat a + 4095) div 4096 * 4096"
    using assms by (intro unat_PGROUNDUP) simp
  show al: "page_aligned (PGROUNDUP a)" by (simp add: page_aligned_def u)
  show "unat (PGROUNDUP a) \<le> unat a + 4095" "a \<le> PGROUNDUP a"
    by (simp_all add: u word_le_nat_alt)
  assume "page_aligned q"
  then obtain b where b: "unat q = 4096 * b"
    unfolding page_aligned_def by (auto simp: mod_eq_0_iff_dvd)
  have "(unat a + 4095) div 4096 < Suc b \<longleftrightarrow> unat a + 4095 < Suc b * 4096"
    by (rule div_less_iff_less_mult) simp
  then show "PGROUNDUP a \<le> q \<longleftrightarrow> a \<le> q"
    by (auto simp: word_le_nat_alt u b)
qed

lemma kinit_pages:
  assumes "freelist s = 0" "0 < kernel_end s" "kernel_end s \<le> ptop"
    "fdt_get_memory_size f (mem s) dtb = Inr t" "ptop = (if t = 0 then PHYSTOP else t)"
    "unat ptop + 8192 \<le> 18446744073709551616"
  shows "\<exists>s'. kinit f s dtb = Inr s' \<and> kmem_inv s' \<and> phys_top s' = ptop \<and> kernel_end s' = kernel_end s
    \<and> avail s' = {p. page_aligned p \<and> kernel_end s \<le> p \<and> unat p + 4096 \<le> unat ptop}"
proof -
  let ?s = "s\<lparr>phys_top := ptop\<rparr>" and ?p = "PGROUNDUP (kernel_end s)"
  let ?n = "(unat ptop - unat ?p) div 4096"
  have end_top: "unat (kernel_end s) \<le> unat ptop" using assms(3) by (simp add: word_le_nat_alt)
  then have b: "unat (kernel_end s) + 8192 \<le> 18446744073709551616" using assms(6) by linarith
  note up = PGROUNDUP_nowrap [OF b]
  have nil: "free_pages ?s = []" "kmem_inv ?s"
    using kmem_invI [of ?s "[]"] assms(1,2) by simp_all
  have "\<exists>s'. freerange_loop (unat ptop div 4096) ?s ?p ptop = Inr s' \<and> kmem_inv s'
      \<and> phys_top s' = phys_top ?s \<and> kernel_end s' = kernel_end ?s
      \<and> free_pages s' = rev (pages_from ?p ?n) @ free_pages ?s"
    using up(1-3) nil end_top assms(6)
    by (intro freerange_loop_pages) (simp_all add: avail_def div_le_mono)
  then obtain s' where s': "freerange_loop (unat ptop div 4096) ?s ?p ptop = Inr s'" "kmem_inv s'"
      "phys_top s' = ptop" "kernel_end s' = kernel_end s" "free_pages s' = rev (pages_from ?p ?n)"
    using nil by auto
  have "avail s' = {q. page_aligned q \<and> ?p \<le> q \<and> unat q + 4096 \<le> unat ptop}"
    using set_pages_from [OF up(1) assms(6)] s'(5) by (simp add: avail_def)
  also have "\<dots> = {q. page_aligned q \<and> kernel_end s \<le> q \<and> unat q + 4096 \<le> unat ptop}"
    using up(4) by blast
  finally show ?thesis
    using s' assms(4,5) by (simp add: kinit_def freerange_def Let_def)
qed

section \<open>Clients of the allocator\<close>

text \<open>
  Every way the rest of the kernel may use physical pages: take one with \<^verbatim>\<open>kalloc\<close>, give back
  one it owns with \<^verbatim>\<open>kfree\<close>, and store into the pages it owns.  \<open>U\<close> is the set of owned pages.
\<close>

inductive mm_step :: "'a mm_state_scheme \<times> u64 set \<Rightarrow> 'a mm_state_scheme \<times> u64 set \<Rightarrow> bool" where
  take_page: "kalloc s = (p, s') \<Longrightarrow> p \<noteq> 0 \<Longrightarrow> mm_step (s, U) (s', insert p U)"
| take_fails: "kalloc s = (p, s') \<Longrightarrow> p = 0 \<Longrightarrow> mm_step (s, U) (s', U)"
| give_back: "p \<in> U \<Longrightarrow> kfree s p = Inr s' \<Longrightarrow> mm_step (s, U) (s', U - {p})"
| store: "(\<And>q. q \<notin> U \<Longrightarrow> agree_page (mem s) m q) \<Longrightarrow> mm_step (s, U) (s\<lparr>mem := m\<rparr>, U)"

definition mm_ok :: "'a mm_state_scheme \<Rightarrow> u64 set \<Rightarrow> bool" where
  "mm_ok s U \<longleftrightarrow> kmem_inv s \<and> U \<inter> avail s = {} \<and> (\<forall>p \<in> U. valid_page s p)"

lemma mm_step_ok:
  assumes "mm_step (s, U) (s', U')" "mm_ok s U"
  shows "mm_ok s' U'" "U' \<union> avail s' = U \<union> avail s"
proof -
  have ok: "kmem_inv s" "U \<inter> avail s = {}" "\<forall>p \<in> U. valid_page s p"
    using assms(2) by (simp_all add: mm_ok_def)
  from assms(1) have "mm_ok s' U' \<and> U' \<union> avail s' = U \<union> avail s"
  proof cases
    case (take_page p)
    with kmem.alloc_result [OF ok(1) take_page(2)] ok show ?thesis by (auto simp: mm_ok_def)
  next
    case (take_fails p)
    with kmem.alloc_result [OF ok(1) take_fails(2)] assms(2) show ?thesis by simp
  next
    case (give_back p)
    have v: "valid_page s p" "p \<notin> avail s" using give_back ok by auto
    with kmem.free_page [OF ok(1) v] give_back ok show ?thesis by (auto simp: mm_ok_def)
  next
    case (store m)
    have "agree_page (mem s) m p" if "p \<in> avail s" for p using store ok(2) that by auto
    note f = kmem_inv_frame [OF ok(1) this]
    show ?thesis using store ok f by (simp add: mm_ok_def avail_def valid_page_def)
  qed
  then show "mm_ok s' U'" "U' \<union> avail s' = U \<union> avail s" by simp_all
qed

lemma mm_steps_ok:
  assumes "mm_step\<^sup>*\<^sup>* (s, U) (s', U')" "mm_ok s U"
  shows "mm_ok s' U' \<and> U' \<union> avail s' = U \<union> avail s"
  using assms
proof (induction "(s', U')" arbitrary: s' U' rule: rtranclp_induct)
  case base
  then show ?case by simp
next
  case (step y)
  obtain s1 U1 where y: "y = (s1, U1)" by (cases y)
  with step mm_step_ok [of s1 U1 s' U'] show ?case by auto
qed

section \<open>Properties\<close>

definition empty_mm :: mm_state where
  "empty_mm = \<lparr>mem = (\<lambda>_. 0), freelist = 0, phys_top = 0x80004000, kernel_end = 0x80001000\<rparr>"

lemma empty_mm_ok: "kmem_inv empty_mm" "free_pages empty_mm = []" "avail empty_mm = {}"
  using kmem_invI [of empty_mm "[]"] by (simp_all add: empty_mm_def avail_def)

text \<open>
  C5: no client sequence of \<^verbatim>\<open>kalloc\<close>, \<^verbatim>\<open>kfree\<close> and stores to owned pages breaks the allocator.
  Starting from a well-formed free list and a set of owned pages that are not on it, after any
  such sequence the free list is well formed, no owned page is on it (no page is handed out
  twice), the owned and the free pages together are the same set as before (no page is lost or
  invented), and giving back any owned page succeeds without a panic.
\<close>

theorem kalloc_kfree_safe:
  assumes "kmem_inv s" "U \<inter> avail s = {}" "\<forall>p \<in> U. valid_page s p" "mm_step\<^sup>*\<^sup>* (s, U) (s', U')"
  shows "kmem_inv s' \<and> U' \<inter> avail s' = {} \<and> U' \<union> avail s' = U \<union> avail s
    \<and> (\<forall>p \<in> U'. valid_page s' p \<and> (\<exists>s''. kfree s' p = Inr s''))"
proof -
  have ok: "mm_ok s' U'" "U' \<union> avail s' = U \<union> avail s"
    using mm_steps_ok [OF assms(4)] assms(1-3) by (simp_all add: mm_ok_def)
  then have "\<exists>s''. kfree s' p = Inr s''" if "p \<in> U'" for p
    using that kmem.free_page [of s' p] by (fastforce simp: mm_ok_def)
  with ok show ?thesis by (simp add: mm_ok_def)
qed

theorem kalloc_kfree_safe_witness:
  "\<exists>s'. kfree empty_mm 0x80002000 = Inr s' \<and> mm_step\<^sup>*\<^sup>* (empty_mm, {0x80002000}) (s', {})
     \<and> kmem_inv s' \<and> avail s' = {0x80002000}"
proof -
  have v: "valid_page empty_mm 0x80002000"
    by (simp add: valid_page_def empty_mm_def page_aligned_def)
  obtain s' where s': "kfree empty_mm 0x80002000 = Inr s'"
    using kfree_ok [OF empty_mm_ok(1) v] empty_mm_ok(3) by auto
  have "mm_step (empty_mm, {0x80002000}) (s', {0x80002000} - {0x80002000})"
    by (rule give_back) (simp_all add: s')
  then have r: "mm_step\<^sup>*\<^sup>* (empty_mm, {0x80002000}) (s', {})" by auto
  then show ?thesis
    using kalloc_kfree_safe [OF empty_mm_ok(1) _ _ r] s' v empty_mm_ok(3) by auto
qed

text \<open>
  C6: \<^verbatim>\<open>kinit\<close> puts exactly the whole pages between the end of the kernel and the top of memory
  on the free list: when the device tree scan answers \<open>t\<close> (0 meaning the compiled-in \<open>PHYSTOP\<close>),
  \<^verbatim>\<open>kinit\<close> returns without a panic, its loop bound is enough, and the free list is well formed.
\<close>

theorem kinit_free_list:
  assumes "freelist s = 0" "0 < kernel_end s" "kernel_end s \<le> ptop"
    "fdt_get_memory_size f (mem s) dtb = Inr t" "ptop = (if t = 0 then PHYSTOP else t)"
    "unat ptop + 2 * 4096 \<le> 2 ^ 64"
  shows "\<exists>s'. kinit f s dtb = Inr s' \<and> kmem_inv s' \<and> phys_top s' = ptop
    \<and> avail s' = {p. page_aligned p \<and> kernel_end s \<le> p \<and> unat p + 4096 \<le> unat ptop}"
  using kinit_pages [OF assms(1-5)] assms(6) by auto

theorem kinit_free_list_witness:
  "\<exists>s'. kinit 0 empty_mm 0 = Inr s' \<and> kmem_inv s' \<and> 0x80001000 \<in> avail s' \<and> 0x80000000 \<notin> avail s'"
proof -
  have "fdt_get_memory_size 0 (mem empty_mm) 0 = Inr 0"
    by (simp add: fdt_get_memory_size_def)
  then have "\<exists>s'. kinit 0 empty_mm 0 = Inr s' \<and> kmem_inv s' \<and> phys_top s' = PHYSTOP
    \<and> avail s' = {p. page_aligned p \<and> kernel_end empty_mm \<le> p \<and> unat p + 4096 \<le> unat PHYSTOP}"
    using kinit_free_list [of empty_mm PHYSTOP 0 0 0]
    by (simp add: empty_mm_def PHYSTOP_def KERNBASE_def)
  then show ?thesis
    by (auto simp: empty_mm_def PHYSTOP_def KERNBASE_def page_aligned_def)
qed

text \<open>
  C7: \<^verbatim>\<open>kfreemem\<close> walks the whole free list, ends, and returns the page size times the number of
  free pages; \<^verbatim>\<open>kalloc\<close> returns 0 exactly when there is none, and otherwise a free page.
\<close>

theorem kalloc_kfreemem:
  assumes "kmem_inv s" "kalloc s = (p, s')"
  shows "kfreemem s = Inr (of_nat (card (avail s)) * PGSIZE)
    \<and> (if p = 0 then avail s = {} \<and> s' = s
       else p \<in> avail s \<and> kfreemem s' = Inr (of_nat (card (avail s) - 1) * PGSIZE))"
proof -
  have c: "card (avail t) = length (free_pages t)" if "kmem_inv t" for t :: "'a mm_state_scheme"
    using that by (simp add: avail_def distinct_card kmem_inv_def)
  have r: "kmem_inv s'" using kmem.alloc_result [OF assms] by simp
  have "card (avail s') = card (avail s) - 1" if "p \<noteq> 0"
    using kmem.alloc_result [OF assms] that by (auto simp: avail_def)
  then show ?thesis
    using kmem.alloc_result [OF assms] kfreemem_flist [OF assms(1)] kfreemem_flist [OF r] c [OF assms(1)] c [OF r]
    by auto
qed

theorem kalloc_kfreemem_witness:
  "kmem_inv empty_mm \<and> kalloc empty_mm = (0, empty_mm) \<and> kfreemem empty_mm = Inr 0"
proof -
  have k: "kalloc empty_mm = (0, empty_mm)" by (rule kalloc_none) (simp_all add: empty_mm_ok)
  show ?thesis using kalloc_kfreemem [OF empty_mm_ok(1) k] k by (simp add: empty_mm_ok)
qed

end
