(* ===== verification/Walk.thy ===== *)
theory Walk
  imports Kalloc
begin

text \<open>
  The three-level page table of \<^verbatim>\<open>kernel/mm/vm.c\<close> as a tree in memory, and \<^verbatim>\<open>walk\<close>, the routine that
  every other operation on address spaces goes through.  \<open>pt_pages\<close> are the table pages of a tree,
  \<open>pt_wf\<close> says that they are aligned and that the tree does not share or revisit a page, and
  \<open>lookup\<close> is the abstraction: the leaf entry of a virtual address.  The lemmas show that a tree
  depends only on its own pages, that writing a leaf entry changes one translation and nothing
  else, and that the table pages \<^verbatim>\<open>walk\<close> adds change no translation at all.
\<close>

section \<open>walk\<close>

text \<open>The loop of \<^verbatim>\<open>walk\<close>, from level \<open>l\<close> down to 1.  A null pointer is 0.\<close>

fun walk_loop :: "nat \<Rightarrow> 'a mm_state_scheme \<Rightarrow> u64 \<Rightarrow> u64 \<Rightarrow> bool \<Rightarrow> u64 \<times> 'a mm_state_scheme" where
  "walk_loop 0 s pagetable va alloc = (slot pagetable (PX 0 va), s)"
| "walk_loop (Suc l) s pagetable va alloc =
     (let pte = slot pagetable (PX (Suc l) va); v = ld64 (mem s) pte in
      if v AND PTE_V \<noteq> 0 then walk_loop l s (PTE2PA v) va alloc
      else if \<not> alloc then (0, s)
      else let (pg, s1) = kalloc s in
        if pg = 0 then (0, s1)
        else let s2 = s1\<lparr>mem := memset (mem s1) pg 0 4096\<rparr>;
                 s3 = s2\<lparr>mem := st64 (mem s2) pte (PA2PTE pg OR PTE_V)\<rparr>
             in walk_loop l s3 pg va alloc)"

definition walk :: "'a mm_state_scheme \<Rightarrow> u64 \<Rightarrow> u64 \<Rightarrow> bool \<Rightarrow> (u64 \<times> 'a mm_state_scheme) res" where
  "walk s pagetable va alloc =
     (if va \<ge> MAXVA then Inl (Panic ''walk'') else Inr (walk_loop 2 s pagetable va alloc))"

section \<open>The tree\<close>

definition child :: "memory \<Rightarrow> u64 \<Rightarrow> u64 \<Rightarrow> u64 option" where
  "child m p i = (let v = ld64 m (slot p i) in if v AND PTE_V \<noteq> 0 then Some (PTE2PA v) else None)"

definition PTE_RWX :: u64 where "PTE_RWX = PTE_R OR PTE_W OR PTE_X"

fun pt_pages :: "nat \<Rightarrow> memory \<Rightarrow> u64 \<Rightarrow> u64 set" where
  "pt_pages 0 m p = {p}"
| "pt_pages (Suc l) m p = insert p {q. \<exists>i c. unat i < 512 \<and> child m p i = Some c \<and> q \<in> pt_pages l m c}"

fun pt_wf :: "nat \<Rightarrow> memory \<Rightarrow> u64 \<Rightarrow> bool" where
  "pt_wf 0 m p \<longleftrightarrow> page_aligned p"
| "pt_wf (Suc l) m p \<longleftrightarrow> page_aligned p
     \<and> (\<forall>i c. unat i < 512 \<and> child m p i = Some c \<longrightarrow>
          pt_wf l m c \<and> p \<notin> pt_pages l m c \<and> ld64 m (slot p i) AND PTE_RWX = 0)
     \<and> (\<forall>i j c d. unat i < 512 \<and> unat j < 512 \<and> i \<noteq> j \<and> child m p i = Some c \<and> child m p j = Some d
          \<longrightarrow> pt_pages l m c \<inter> pt_pages l m d = {})"

text \<open>The slot of the leaf entry of \<open>va\<close>, if the tables down to it exist.\<close>

fun leaf_slot :: "nat \<Rightarrow> memory \<Rightarrow> u64 \<Rightarrow> u64 \<Rightarrow> u64 option" where
  "leaf_slot 0 m p va = Some (slot p (PX 0 va))"
| "leaf_slot (Suc l) m p va =
     (case child m p (PX (Suc l) va) of None \<Rightarrow> None | Some c \<Rightarrow> leaf_slot l m c va)"

definition lookup_at :: "nat \<Rightarrow> memory \<Rightarrow> u64 \<Rightarrow> u64 \<Rightarrow> u64 option" where
  "lookup_at l m p va =
     (case leaf_slot l m p va of None \<Rightarrow> None
      | Some a \<Rightarrow> if ld64 m a AND PTE_V \<noteq> 0 then Some (ld64 m a) else None)"

definition lookup :: "memory \<Rightarrow> u64 \<Rightarrow> u64 \<Rightarrow> u64 option" where
  "lookup m p va = lookup_at 2 m p va"

lemma lookup_at_Suc:
  "lookup_at (Suc l) m p va =
     (case child m p (PX (Suc l) va) of None \<Rightarrow> None | Some c \<Rightarrow> lookup_at l m c va)"
  by (simp add: lookup_at_def split: option.splits)

section \<open>A tree depends on its own pages\<close>

lemma pt_wf_aligned: "pt_wf l m p \<Longrightarrow> page_aligned p"
  by (cases l) auto

lemma pt_wf_child:
  assumes "pt_wf (Suc l) m p" "unat i < 512" "child m p i = Some c"
  shows "pt_wf l m c" "p \<notin> pt_pages l m c" "ld64 m (slot p i) AND PTE_RWX = 0"
  using assms unfolding pt_wf.simps by blast+

lemma pt_wf_disjoint:
  "pt_wf (Suc l) m p \<Longrightarrow> unat i < 512 \<Longrightarrow> unat j < 512 \<Longrightarrow> i \<noteq> j \<Longrightarrow> child m p i = Some c
    \<Longrightarrow> child m p j = Some d \<Longrightarrow> pt_pages l m c \<inter> pt_pages l m d = {}"
  unfolding pt_wf.simps by blast

lemma pt_wf_SucI:
  assumes "page_aligned p"
    and "\<And>i c. unat i < 512 \<Longrightarrow> child m p i = Some c \<Longrightarrow> pt_wf l m c"
    and "\<And>i c. unat i < 512 \<Longrightarrow> child m p i = Some c \<Longrightarrow> p \<notin> pt_pages l m c"
    and "\<And>i c. unat i < 512 \<Longrightarrow> child m p i = Some c \<Longrightarrow> ld64 m (slot p i) AND PTE_RWX = 0"
    and "\<And>i j c d. unat i < 512 \<Longrightarrow> unat j < 512 \<Longrightarrow> i \<noteq> j \<Longrightarrow> child m p i = Some c
      \<Longrightarrow> child m p j = Some d \<Longrightarrow> pt_pages l m c \<inter> pt_pages l m d = {}"
  shows "pt_wf (Suc l) m p"
  unfolding pt_wf.simps using assms by blast

lemma leaf_slot_PX: "\<forall>k \<le> l. PX k va = PX k va' \<Longrightarrow> leaf_slot l m p va = leaf_slot l m p va'"
  by (induction l arbitrary: p) (auto split: option.splits)

lemma root_in_pages [simp]: "p \<in> pt_pages l m p"
  by (cases l) auto

lemma child_page_cong:
  "agree_page m m' p \<Longrightarrow> page_aligned p \<Longrightarrow> unat i < 512 \<Longrightarrow> child m p i = child m' p i"
  using ld64_slot_cong [of m m' p i] by (simp add: child_def)

lemma pt_pages_child:
  "unat i < 512 \<Longrightarrow> child m p i = Some c \<Longrightarrow> q \<in> pt_pages l m c \<Longrightarrow> q \<in> pt_pages (Suc l) m p"
  by auto

lemma pt_pages_cong:
  assumes "pt_wf l m p" "\<And>q. q \<in> pt_pages l m p \<Longrightarrow> agree_page m m' q"
  shows "pt_pages l m' p = pt_pages l m p"
  using assms
proof (induction l arbitrary: p)
  case 0
  then show ?case by simp
next
  case (Suc l)
  have al: "page_aligned p" using Suc.prems(1) by simp
  have ch: "child m' p i = child m p i" if "unat i < 512" for i
    using child_page_cong [of m m' p i] Suc.prems(2) [of p] al that by simp
  have "pt_pages l m' c = pt_pages l m c" if "unat i < 512" "child m p i = Some c" for i c
  proof (rule Suc.IH)
    show "pt_wf l m c" using Suc.prems(1) that by auto
    show "agree_page m m' q" if "q \<in> pt_pages l m c" for q
      using Suc.prems(2) pt_pages_child \<open>unat i < 512\<close> \<open>child m p i = Some c\<close> that by blast
  qed
  then show ?case using ch by auto
qed

lemma pt_wf_cong:
  assumes "pt_wf l m p" "\<And>q. q \<in> pt_pages l m p \<Longrightarrow> agree_page m m' q"
  shows "pt_wf l m' p"
  using assms
proof (induction l arbitrary: p)
  case 0
  then show ?case by simp
next
  case (Suc l)
  have al: "page_aligned p" using Suc.prems(1) by simp
  have ag: "agree_page m m' p" using Suc.prems(2) by simp
  have ch: "child m' p i = child m p i" "ld64 m' (slot p i) = ld64 m (slot p i)" if "unat i < 512" for i
    using child_page_cong [OF ag al that] ld64_slot_cong [OF ag al that] by simp_all
  have sub: "agree_page m m' q" if "unat i < 512" "child m p i = Some c" "q \<in> pt_pages l m c" for i c q
    using Suc.prems(2) pt_pages_child that by blast
  have wf: "pt_wf l m c" if "unat i < 512" "child m p i = Some c" for i c
    using Suc.prems(1) that by auto
  have pg: "pt_pages l m' c = pt_pages l m c" if "unat i < 512" "child m p i = Some c" for i c
    using pt_pages_cong [OF wf [OF that]] sub [OF that] by blast
  have wf': "pt_wf l m' c" if "unat i < 512" "child m p i = Some c" for i c
    using Suc.IH [OF wf [OF that]] sub [OF that] by blast
  show ?case
  proof (rule pt_wf_SucI [OF al])
    fix i c assume i: "unat i < 512" "child m' p i = Some c"
    then have c: "child m p i = Some c" using ch by simp
    show "pt_wf l m' c" using wf' [OF i(1) c] .
    show "p \<notin> pt_pages l m' c" using pt_wf_child(2) [OF Suc.prems(1) i(1) c] pg [OF i(1) c] by simp
    show "ld64 m' (slot p i) AND PTE_RWX = 0"
      using pt_wf_child(3) [OF Suc.prems(1) i(1) c] ch(2) [OF i(1)] by simp
  next
    fix i j c d
    assume i: "unat i < 512" "unat j < 512" "i \<noteq> j" "child m' p i = Some c" "child m' p j = Some d"
    then have c: "child m p i = Some c" "child m p j = Some d" using ch by simp_all
    show "pt_pages l m' c \<inter> pt_pages l m' d = {}"
      using pt_wf_disjoint [OF Suc.prems(1) i(1-3) c] pg i c by simp
  qed
qed

lemma leaf_slot_cong:
  assumes "pt_wf l m p" "\<And>q. q \<in> pt_pages l m p \<Longrightarrow> agree_page m m' q"
  shows "leaf_slot l m' p va = leaf_slot l m p va"
  using assms
proof (induction l arbitrary: p)
  case 0
  then show ?case by simp
next
  case (Suc l)
  have al: "page_aligned p" using Suc.prems(1) by simp
  have ag: "agree_page m m' p" using Suc.prems(2) by simp
  have px: "unat (PX (Suc l) va) < 512" by (rule PX_lt_512)
  have ch: "child m' p (PX (Suc l) va) = child m p (PX (Suc l) va)"
    using child_page_cong [OF ag al px] by simp
  show ?case
  proof (cases "child m p (PX (Suc l) va)")
    case None
    then show ?thesis using ch by simp
  next
    case (Some c)
    have "leaf_slot l m' c va = leaf_slot l m c va"
    proof (rule Suc.IH)
      show "pt_wf l m c" using Suc.prems(1) Some px by auto
      show "agree_page m m' q" if "q \<in> pt_pages l m c" for q
        using Suc.prems(2) pt_pages_child [OF px Some that] by blast
    qed
    then show ?thesis using ch Some by simp
  qed
qed

lemma leaf_slot_page:
  "pt_wf l m p \<Longrightarrow> leaf_slot l m p va = Some a \<Longrightarrow>
    \<exists>q. q \<in> pt_pages l m p \<and> page_aligned q \<and> a = slot q (PX 0 va)"
proof (induction l arbitrary: p)
  case 0
  then show ?case by auto
next
  case (Suc l)
  have px: "unat (PX (Suc l) va) < 512" by (rule PX_lt_512)
  from Suc.prems(2) obtain c where c: "child m p (PX (Suc l) va) = Some c" "leaf_slot l m c va = Some a"
    by (auto split: option.splits)
  have "pt_wf l m c" using Suc.prems(1) c(1) px by auto
  from Suc.IH [OF this c(2)] show ?case using pt_pages_child [OF px c(1)] by blast
qed

lemma lookup_at_cong:
  assumes "pt_wf l m p" "\<And>q. q \<in> pt_pages l m p \<Longrightarrow> agree_page m m' q"
  shows "lookup_at l m' p va = lookup_at l m p va"
proof (cases "leaf_slot l m p va")
  case None
  then show ?thesis using leaf_slot_cong [OF assms, of va] by (simp add: lookup_at_def)
next
  case (Some a)
  from leaf_slot_page [OF assms(1) Some] obtain q where
    q: "q \<in> pt_pages l m p" "page_aligned q" "a = slot q (PX 0 va)" by blast
  then have "ld64 m' a = ld64 m a"
    using ld64_slot_cong [OF agree_page_sym [OF assms(2)], of q "PX 0 va"] PX_lt_512 by simp
  then show ?thesis using leaf_slot_cong [OF assms, of va] Some by (simp add: lookup_at_def)
qed

section \<open>Writing a leaf entry\<close>

text \<open>The same slot is reached only by addresses with the same indices.\<close>

lemma slot_inj:
  assumes "page_aligned p" "page_aligned q" "unat i < 512" "unat j < 512" "slot p i = slot q j"
  shows "p = q" "i = j"
proof -
  show "p = q" using assms PGROUNDDOWN_slot [of p i] PGROUNDDOWN_slot [of q j] by simp
  with assms(5) have "8 * i = 8 * j" by (simp add: slot_def)
  then have "8 * unat i = 8 * unat j"
    using unat_8_times [OF assms(3)] unat_8_times [OF assms(4)] by metis
  then show "i = j" by (simp add: word_eq_of_unat)
qed

lemma leaf_slot_inj:
  assumes "pt_wf l m p" "leaf_slot l m p va = Some a" "leaf_slot l m p va' = Some a" "k \<le> l"
  shows "PX k va = PX k va'"
  using assms
proof (induction l arbitrary: p)
  case 0
  then have "slot p (PX 0 va) = slot p (PX 0 va')" by simp
  with 0 show ?case using slot_inj(2) [of p p] PX_lt_512 by simp
next
  case (Suc l)
  let ?i = "PX (Suc l) va" and ?j = "PX (Suc l) va'"
  have px: "unat ?i < 512" "unat ?j < 512" by (rule PX_lt_512)+
  from Suc.prems obtain c d where c: "child m p ?i = Some c" "leaf_slot l m c va = Some a"
    and d: "child m p ?j = Some d" "leaf_slot l m d va' = Some a"
    by (auto split: option.splits)
  have wf: "pt_wf l m c" "pt_wf l m d" using Suc.prems(1) c d px by auto
  from leaf_slot_page [OF wf(1) c(2)] obtain q where
    q: "q \<in> pt_pages l m c" "page_aligned q" "a = slot q (PX 0 va)" by blast
  from leaf_slot_page [OF wf(2) d(2)] obtain r where
    r: "r \<in> pt_pages l m d" "page_aligned r" "a = slot r (PX 0 va')" by blast
  have "q = r" using slot_inj(1) [of q r] q r PX_lt_512 by metis
  have ij: "?i = ?j"
  proof (rule ccontr)
    assume "?i \<noteq> ?j"
    then have "pt_pages l m c \<inter> pt_pages l m d = {}"
      using pt_wf_disjoint [OF Suc.prems(1) px _ c(1) d(1)] by blast
    then show False using q(1) r(1) \<open>q = r\<close> by blast
  qed
  show ?case
  proof (cases "k = Suc l")
    case True
    then show ?thesis using ij by simp
  next
    case False
    then have "k \<le> l" using Suc.prems(4) by simp
    moreover have "c = d" using ij c(1) d(1) by simp
    ultimately show ?thesis using Suc.IH [OF wf(1) c(2)] d(2) by simp
  qed
qed

text \<open>Writing the leaf entry of one address keeps the tree.\<close>

lemma leaf_write_tree:
  assumes "pt_wf l m p" "leaf_slot l m p va = Some a"
  shows "pt_pages l (st64 m a v) p = pt_pages l m p" (is ?pages)
    and "pt_wf l (st64 m a v) p" (is ?wf)
    and "leaf_slot l (st64 m a v) p va' = leaf_slot l m p va'" (is ?leaf)
proof -
  let ?m = "st64 m a v"
  have "pt_pages l ?m p = pt_pages l m p \<and> pt_wf l ?m p \<and> leaf_slot l ?m p va' = leaf_slot l m p va'"
    using assms
  proof (induction l arbitrary: p)
    case 0
    then show ?case by simp
  next
    case (Suc l)
    let ?i = "PX (Suc l) va"
    have al: "page_aligned p" using Suc.prems(1) by simp
    have px: "unat ?i < 512" by (rule PX_lt_512)
    from Suc.prems(2) obtain c where c: "child m p ?i = Some c" "leaf_slot l m c va = Some a"
      by (auto split: option.splits)
    have wfc: "pt_wf l m d" if "unat j < 512" "child m p j = Some d" for j d
      using Suc.prems(1) that by auto
    from leaf_slot_page [OF wfc [OF px c(1)] c(2)] obtain q where
      q: "q \<in> pt_pages l m c" "page_aligned q" "a = slot q (PX 0 va)" by blast
    have ag: "agree_page ?m m r" if "q \<noteq> r" for r
      unfolding q(3) using q(2) PX_lt_512 that by (rule agree_page_st_slot)
    have "q \<noteq> p" using Suc.prems(1) px c(1) q(1) by auto
    then have ch: "child ?m p j = child m p j" "ld64 ?m (slot p j) = ld64 m (slot p j)"
      if "unat j < 512" for j
      using child_page_cong [OF ag al that] ld64_slot_cong [OF ag al that] by simp_all
    have sub: "pt_pages l ?m d = pt_pages l m d \<and> pt_wf l ?m d
        \<and> leaf_slot l ?m d va' = leaf_slot l m d va'" if j: "unat j < 512" "child m p j = Some d" for j d
    proof (cases "j = ?i")
      case True
      then show ?thesis using Suc.IH [OF wfc [OF px c(1)] c(2)] c(1) j by simp
    next
      case False
      then have "pt_pages l m c \<inter> pt_pages l m d = {}"
        using pt_wf_disjoint [OF Suc.prems(1) px j(1) _ c(1) j(2)] by blast
      then have "agree_page m ?m r" if "r \<in> pt_pages l m d" for r
        using ag [of r] q(1) that agree_page_sym by blast
      note cong = this
      show ?thesis
        using pt_pages_cong [OF wfc [OF j] cong] pt_wf_cong [OF wfc [OF j] cong]
          leaf_slot_cong [OF wfc [OF j] cong] by simp
    qed
    have wf: "pt_wf (Suc l) ?m p"
    proof (rule pt_wf_SucI [OF al])
      fix i c assume i: "unat i < 512" "child ?m p i = Some c"
      then have c: "child m p i = Some c" using ch by simp
      show "pt_wf l ?m c" using sub [OF i(1) c] by simp
      show "p \<notin> pt_pages l ?m c" using pt_wf_child(2) [OF Suc.prems(1) i(1) c] sub [OF i(1) c] by simp
      show "ld64 ?m (slot p i) AND PTE_RWX = 0"
        using pt_wf_child(3) [OF Suc.prems(1) i(1) c] ch(2) [OF i(1)] by simp
    next
      fix i j c d
      assume i: "unat i < 512" "unat j < 512" "i \<noteq> j" "child ?m p i = Some c" "child ?m p j = Some d"
      then have c: "child m p i = Some c" "child m p j = Some d" using ch by simp_all
      show "pt_pages l ?m c \<inter> pt_pages l ?m d = {}"
        using pt_wf_disjoint [OF Suc.prems(1) i(1-3) c] sub i c by simp
    qed
    have "pt_pages (Suc l) ?m p = pt_pages (Suc l) m p" using ch sub by auto
    moreover have "leaf_slot (Suc l) ?m p va' = leaf_slot (Suc l) m p va'"
      using ch(1) [OF PX_lt_512] sub [OF PX_lt_512] by (simp split: option.split)
    ultimately show ?case using wf by blast
  qed
  then show ?pages ?wf ?leaf by blast+
qed

lemma leaf_write_lookup:
  assumes "pt_wf l m p" "leaf_slot l m p va = Some a"
  shows "lookup_at l (st64 m a v) p va'
    = (if \<forall>k \<le> l. PX k va = PX k va' then (if v AND PTE_V \<noteq> 0 then Some v else None)
       else lookup_at l m p va')"
proof (cases "leaf_slot l m p va'")
  case None
  moreover have "\<not> (\<forall>k \<le> l. PX k va = PX k va')"
    using leaf_slot_PX [of l va va' m p] None assms(2) by auto
  ultimately show ?thesis
    unfolding lookup_at_def leaf_write_tree(3) [OF assms] by auto
next
  case (Some b)
  show ?thesis
  proof (cases "a = b")
    case True
    then have "\<forall>k \<le> l. PX k va = PX k va'" using leaf_slot_inj [OF assms(1)] assms(2) Some by blast
    then show ?thesis
      using Some True leaf_write_tree(3) [OF assms, of v va'] by (simp add: lookup_at_def)
  next
    case False
    obtain q where q: "page_aligned q" "a = slot q (PX 0 va)" using leaf_slot_page [OF assms] by blast
    obtain r where r: "page_aligned r" "b = slot r (PX 0 va')" using leaf_slot_page [OF assms(1) Some] by blast
    have "ld64 (st64 m a v) b = ld64 m b"
    proof (cases "q = r")
      case True
      then have "PX 0 va \<noteq> PX 0 va'" using False q r by auto
      then show ?thesis using True q r ld64_st64_slot [of r "PX 0 va" "PX 0 va'"] PX_lt_512 by simp
    next
      case ne: False
      have "agree_page (st64 m a v) m r" unfolding q(2) using q(1) PX_lt_512 ne by (rule agree_page_st_slot)
      then show ?thesis unfolding r(2) using r(1) PX_lt_512 by (rule ld64_slot_cong)
    qed
    moreover have "\<not> (\<forall>k \<le> l. PX k va = PX k va')"
      using leaf_slot_PX [of l va va' m p] Some assms(2) False by auto
    ultimately show ?thesis
      using Some by (auto simp: lookup_at_def leaf_write_tree(3) [OF assms])
  qed
qed

section \<open>walk without allocation\<close>

lemma walk_loop_read:
  "walk_loop l s p va False = (case leaf_slot l (mem s) p va of None \<Rightarrow> 0 | Some a \<Rightarrow> a, s)"
  by (induction l arbitrary: p) (auto simp: child_def Let_def split: option.splits)

lemma walk_read:
  "va < MAXVA \<Longrightarrow> walk s p va False = Inr (case leaf_slot 2 (mem s) p va of None \<Rightarrow> 0 | Some a \<Rightarrow> a, s)"
  by (simp add: walk_def walk_loop_read not_le)

lemma leaf_slot_nz:
  assumes "pt_wf l m p" "leaf_slot l m p va = Some a" "0 \<notin> pt_pages l m p"
  shows "a \<noteq> 0"
proof
  assume "a = 0"
  obtain q where q: "q \<in> pt_pages l m p" "page_aligned q" "a = slot q (PX 0 va)"
    using leaf_slot_page [OF assms(1,2)] by blast
  then have "PGROUNDDOWN (0 :: u64) = q" using \<open>a = 0\<close> PGROUNDDOWN_slot [of q "PX 0 va"] PX_lt_512 by simp
  then have "q = 0" by (simp add: PGROUNDDOWN_idem)
  with q(1) assms(3) show False by simp
qed

section \<open>walk with allocation\<close>

text \<open>
  \<open>pt_grown l s p s'\<close>: from \<open>s\<close> to \<open>s'\<close> the tree at \<open>p\<close> was extended by pages from the free list,
  with every translation and every page outside the tree unchanged.
\<close>

definition pt_grown :: "nat \<Rightarrow> 'a mm_state_scheme \<Rightarrow> u64 \<Rightarrow> 'a mm_state_scheme \<Rightarrow> bool" where
  "pt_grown l s p s' \<longleftrightarrow> mm_frame s s' \<and> kmem_inv s' \<and> pt_wf l (mem s') p
     \<and> pt_pages l (mem s) p \<subseteq> pt_pages l (mem s') p
     \<and> pt_pages l (mem s') p \<subseteq> pt_pages l (mem s) p \<union> avail s
     \<and> avail s' = avail s - pt_pages l (mem s') p
     \<and> (\<forall>q. q \<notin> pt_pages l (mem s') p \<longrightarrow> agree_page (mem s) (mem s') q)
     \<and> (\<forall>va. lookup_at l (mem s') p va = lookup_at l (mem s) p va)"

lemma pt_grownD:
  assumes "pt_grown l s p s'"
  shows "mm_frame s s'" "kmem_inv s'" "pt_wf l (mem s') p"
    "pt_pages l (mem s) p \<subseteq> pt_pages l (mem s') p"
    "pt_pages l (mem s') p \<subseteq> pt_pages l (mem s) p \<union> avail s"
    "avail s' = avail s - pt_pages l (mem s') p"
    "q \<notin> pt_pages l (mem s') p \<Longrightarrow> agree_page (mem s) (mem s') q"
    "lookup_at l (mem s') p va = lookup_at l (mem s) p va"
  using assms unfolding pt_grown_def by blast+

text \<open>The part of the invariant a tree and the free list share.\<close>

definition pt_owned :: "nat \<Rightarrow> 'a mm_state_scheme \<Rightarrow> u64 \<Rightarrow> bool" where
  "pt_owned l s p \<longleftrightarrow> kmem_inv s \<and> pt_wf l (mem s) p
     \<and> (\<forall>q \<in> pt_pages l (mem s) p. valid_page s q \<and> q \<notin> avail s)"

lemma pt_ownedD:
  assumes "pt_owned l s p"
  shows "kmem_inv s" "pt_wf l (mem s) p" "q \<in> pt_pages l (mem s) p \<Longrightarrow> valid_page s q"
    "q \<in> pt_pages l (mem s) p \<Longrightarrow> q \<notin> avail s" "0 \<notin> pt_pages l (mem s) p"
  using assms valid_page_nz unfolding pt_owned_def by blast+

lemma pt_grown_owned:
  assumes "pt_owned l s p" "pt_grown l s p s'"
  shows "pt_owned l s' p"
proof -
  note g = pt_grownD [OF assms(2)]
  have "valid_page s q" if "q \<in> pt_pages l (mem s') p" for q
    using g(5) that pt_ownedD(1,3) [OF assms(1)] avail_valid by blast
  then show ?thesis using g(2,3,6) mm_frame_valid [OF g(1)] by (simp add: pt_owned_def)
qed

lemma pt_grown_refl: "pt_owned l s p \<Longrightarrow> pt_grown l s p s"
  unfolding pt_owned_def pt_grown_def by auto

lemma pt_grown_trans:
  assumes "pt_grown l s p s'" "pt_grown l s' p s''"
  shows "pt_grown l s p s''"
  unfolding pt_grown_def
proof (intro conjI allI impI)
  note a = pt_grownD [OF assms(1)] and b = pt_grownD [OF assms(2)]
  show "mm_frame s s''" using a(1) b(1) by (rule mm_frame_trans)
  show "kmem_inv s''" "pt_wf l (mem s'') p" using b by blast+
  show "pt_pages l (mem s) p \<subseteq> pt_pages l (mem s'') p" using a(4) b(4) by blast
  show "pt_pages l (mem s'') p \<subseteq> pt_pages l (mem s) p \<union> avail s" using a(5,6) b(5) by blast
  show "avail s'' = avail s - pt_pages l (mem s'') p" using a(6) b(4,6) by blast
  show "agree_page (mem s) (mem s'') q" if "q \<notin> pt_pages l (mem s'') p" for q
    using a(7) b(4,7) that agree_page_trans by blast
  show "lookup_at l (mem s'') p va = lookup_at l (mem s) p va" for va using a(8) b(8) by simp
qed

lemma pt_owned_child:
  assumes "pt_owned (Suc l) s p" "unat i < 512" "child (mem s) p i = Some c"
  shows "pt_owned l s c"
  using assms pt_wf_child(1) pt_pages_child unfolding pt_owned_def by blast

text \<open>Growing one subtree grows the tree.\<close>

lemma pt_grown_child:
  assumes own: "pt_owned (Suc l) s p" and i: "unat i < 512" "child (mem s) p i = Some c"
    and g: "pt_grown l s c s'"
  shows "pt_grown (Suc l) s p s'" "child (mem s') p i = Some c"
proof -
  note o = pt_ownedD [OF own] and gr = pt_grownD [OF g]
  let ?m = "mem s" and ?m' = "mem s'"
  have al: "page_aligned p" using o(2) by (rule pt_wf_aligned)
  have p_out: "p \<notin> pt_pages l ?m' c"
    using gr(5) pt_wf_child(2) [OF o(2) i] o(4) [of p] by auto
  have ch: "child ?m' p j = child ?m p j" "ld64 ?m' (slot p j) = ld64 ?m (slot p j)" if "unat j < 512" for j
    using child_page_cong [OF gr(7) [OF p_out] al that] ld64_slot_cong [OF gr(7) [OF p_out] al that]
    by simp_all
  then show "child ?m' p i = Some c" using i by simp
  have other: "pt_pages l ?m d \<inter> pt_pages l ?m' c = {}"
    if "unat j < 512" "j \<noteq> i" "child ?m p j = Some d" for j d
    using gr(5) o(4) pt_wf_disjoint [OF o(2) that(1) i(1) that(2,3) i(2)] pt_pages_child [OF that(1,3)]
    by blast
  have ag: "agree_page ?m ?m' q"
    if "unat j < 512" "j \<noteq> i" "child ?m p j = Some d" "q \<in> pt_pages l ?m d" for j d q
    using gr(7) other [OF that(1-3)] that(4) by blast
  have wf_ch: "pt_wf l ?m d" if "unat j < 512" "child ?m p j = Some d" for j d
    using pt_wf_child(1) [OF o(2) that] .
  have sub: "pt_pages l ?m' d = pt_pages l ?m d" "pt_wf l ?m' d"
      "lookup_at l ?m' d va = lookup_at l ?m d va"
    if "unat j < 512" "j \<noteq> i" "child ?m p j = Some d" for j d va
    using pt_pages_cong [OF wf_ch [OF that(1,3)] ag [OF that]]
      pt_wf_cong [OF wf_ch [OF that(1,3)] ag [OF that]]
      lookup_at_cong [OF wf_ch [OF that(1,3)] ag [OF that]] by simp_all
  have pages: "pt_pages (Suc l) ?m' p = pt_pages (Suc l) ?m p \<union> pt_pages l ?m' c"
  proof (intro equalityI subsetI)
    fix q assume "q \<in> pt_pages (Suc l) ?m' p"
    then consider "q = p" | j d where "unat j < 512" "child ?m' p j = Some d" "q \<in> pt_pages l ?m' d" by auto
    then show "q \<in> pt_pages (Suc l) ?m p \<union> pt_pages l ?m' c"
    proof cases
      case 1
      then show ?thesis by simp
    next
      case (2 j d)
      then have d: "child ?m p j = Some d" using ch by simp
      show ?thesis
        using 2 d i(2) sub(1) [OF 2(1) _ d] pt_pages_child [OF 2(1) d] by (cases "j = i") auto
    qed
  next
    fix q assume "q \<in> pt_pages (Suc l) ?m p \<union> pt_pages l ?m' c"
    then consider "q = p" | "q \<in> pt_pages l ?m' c"
      | j d where "unat j < 512" "child ?m p j = Some d" "q \<in> pt_pages l ?m d" by auto
    then show "q \<in> pt_pages (Suc l) ?m' p"
    proof cases
      case 1
      then show ?thesis by simp
    next
      case 2
      then show ?thesis using pt_pages_child [of i ?m' p c] i ch by simp
    next
      case (3 j d)
      have "q \<in> pt_pages l ?m' d"
        using 3 i(2) gr(4) sub(1) [OF 3(1) _ 3(2)] by (cases "j = i") auto
      then show ?thesis using pt_pages_child [of j ?m' p d] 3 ch by simp
    qed
  qed
  have wf: "pt_wf (Suc l) ?m' p"
  proof (rule pt_wf_SucI [OF al])
    fix j d assume j: "unat j < 512" "child ?m' p j = Some d"
    then have d: "child ?m p j = Some d" using ch by simp
    show "pt_wf l ?m' d" using sub(2) [OF j(1) _ d] gr(3) i(2) d by (cases "j = i") auto
    show "p \<notin> pt_pages l ?m' d"
      using sub(1) [OF j(1) _ d] p_out i(2) d pt_wf_child(2) [OF o(2) j(1) d] by (cases "j = i") auto
    show "ld64 ?m' (slot p j) AND PTE_RWX = 0"
      using pt_wf_child(3) [OF o(2) j(1) d] ch(2) [OF j(1)] by simp
  next
    fix j k d e
    assume j: "unat j < 512" "unat k < 512" "j \<noteq> k" "child ?m' p j = Some d" "child ?m' p k = Some e"
    then have d: "child ?m p j = Some d" "child ?m p k = Some e" using ch by simp_all
    consider "j = i" | "k = i" | "j \<noteq> i" "k \<noteq> i" by blast
    then show "pt_pages l ?m' d \<inter> pt_pages l ?m' e = {}"
    proof cases
      case 1
      then show ?thesis using other [OF j(2) _ d(2)] sub(1) [OF j(2) _ d(2)] j(3) d(1) i(2) by auto
    next
      case 2
      then show ?thesis using other [OF j(1) _ d(1)] sub(1) [OF j(1) _ d(1)] j(3) d(2) i(2) by auto
    next
      case 3
      then show ?thesis
        using sub(1) [OF j(1) _ d(1)] sub(1) [OF j(2) _ d(2)] pt_wf_disjoint [OF o(2) j(1-3) d] by simp
    qed
  qed
  have look: "lookup_at (Suc l) ?m' p va = lookup_at (Suc l) ?m p va" for va
  proof -
    have px: "unat (PX (Suc l) va) < 512" by (rule PX_lt_512)
    show ?thesis
    proof (cases "child ?m p (PX (Suc l) va)")
      case None
      then show ?thesis using ch [OF px] by (simp add: lookup_at_def)
    next
      case (Some d)
      have "lookup_at l ?m' d va = lookup_at l ?m d va"
        using sub(3) [OF px _ Some] gr(8) i(2) Some by (cases "PX (Suc l) va = i") auto
      then show ?thesis using Some ch [OF px] by (simp add: lookup_at_def)
    qed
  qed
  show "pt_grown (Suc l) s p s'"
    unfolding pt_grown_def
  proof (intro conjI allI impI)
    show "mm_frame s s'" "kmem_inv s'" "pt_wf (Suc l) ?m' p" using gr(1,2) wf by blast+
    show "pt_pages (Suc l) ?m p \<subseteq> pt_pages (Suc l) ?m' p" using pages by blast
    show "pt_pages (Suc l) ?m' p \<subseteq> pt_pages (Suc l) ?m p \<union> avail s"
      using pages gr(5) pt_pages_child [OF i] by blast
    show "avail s' = avail s - pt_pages (Suc l) ?m' p" using pages gr(6) o(4) by blast
    show "agree_page ?m ?m' q" if "q \<notin> pt_pages (Suc l) ?m' p" for q
      using that pages gr(7) by blast
    show "lookup_at (Suc l) ?m' p va = lookup_at (Suc l) ?m p va" for va by (rule look)
  qed
qed

text \<open>A table of zeros has no children and translates nothing.\<close>

lemma zero_table:
  assumes "page_aligned p" "\<And>i. unat i < 512 \<Longrightarrow> ld64 m (slot p i) = 0"
  shows "unat i < 512 \<Longrightarrow> child m p i = None" "pt_pages l m p = {p}" "pt_wf l m p"
    "lookup_at l m p va = None"
proof -
  have ch: "child m p i = None" if "unat i < 512" for i using assms(2) [OF that] by (simp add: child_def)
  then show "unat i < 512 \<Longrightarrow> child m p i = None" .
  show "pt_pages l m p = {p}" using ch by (cases l) auto
  show "pt_wf l m p"
  proof (cases l)
    case (Suc k)
    then show ?thesis using pt_wf_SucI [OF assms(1), of m k] ch by simp
  qed (simp add: assms(1))
  show "lookup_at l m p va = None"
    using ch [OF PX_lt_512] assms(2) [OF PX_lt_512] by (cases l) (simp_all add: lookup_at_def)
qed

lemma table_pte:
  assumes "page_aligned pg"
  shows "(PA2PTE pg OR PTE_V) AND PTE_V \<noteq> 0" "PTE2PA (PA2PTE pg OR PTE_V) = pg"
    "(PA2PTE pg OR PTE_V) AND PTE_RWX = 0"
proof -
  have "bit ((PA2PTE pg OR PTE_V) AND PTE_V) 0" by (simp add: PTE_V_def bit_simps)
  then show "(PA2PTE pg OR PTE_V) AND PTE_V \<noteq> 0" by (metis bit_0_eq bot_apply bot_bool_def)
  show "PTE2PA (PA2PTE pg OR PTE_V) = pg"
    using PTE2PA_PA2PTE [of PTE_V pg] PGROUNDDOWN_idem [OF assms] by (simp add: PTE_V_def)
  have rwx: "PTE_RWX = 14" by (simp add: PTE_RWX_def pte_bit_defs)
  have pa: "PA2PTE pg AND 14 = 0"
  proof -
    have "(14 :: u64) = mask 10 AND 14" by (simp add: mask_eq_exp_minus_1)
    then have "PA2PTE pg AND 14 = (PA2PTE pg AND mask 10) AND 14" by (simp add: and.assoc)
    also have "PA2PTE pg AND mask 10 = 0"
      unfolding PA2PTE_def by (rule bit_word_eqI) (auto simp: bit_simps)
    finally show ?thesis by simp
  qed
  have "PTE_V AND 14 = 0" by (simp add: PTE_V_def)
  then show "(PA2PTE pg OR PTE_V) AND PTE_RWX = 0"
    unfolding rwx bit.conj_disj_distrib2 by (simp add: pa)
qed

text \<open>One step of \<^verbatim>\<open>walk\<close>: a fresh page is zeroed and linked at an empty slot.\<close>

definition link_table :: "'a mm_state_scheme \<Rightarrow> u64 \<Rightarrow> u64 \<Rightarrow> u64 \<Rightarrow> 'a mm_state_scheme" where
  "link_table s p i pg = s\<lparr>mem := st64 (memset (mem s) pg 0 4096) (slot p i) (PA2PTE pg OR PTE_V)\<rparr>"

lemma link_table_grown:
  assumes own: "pt_owned (Suc l) s p" and i: "unat i < 512" "child (mem s) p i = None"
    and k: "kalloc s = (pg, s1)" "pg \<noteq> 0"
  defines "s3 \<equiv> link_table s1 p i pg"
  shows "pt_grown (Suc l) s p s3" "child (mem s3) p i = Some pg" "pt_owned l s3 pg" "avail s3 = avail s - {pg}"
proof -
  note o = pt_ownedD [OF own]
  let ?m = "mem s" and ?m3 = "mem s3" and ?mz = "memset (mem s1) pg 0 4096"
  have ka: "kmem_inv s1" "pg \<in> avail s" "valid_page s pg" "avail s1 = avail s - {pg}"
      "\<And>q. q \<noteq> pg \<Longrightarrow> agree_page ?m (mem s1) q"
    using kmem.alloc_result [OF o(1) k(1)] k(2) by auto
  have al: "page_aligned p" "page_aligned pg"
    using o(2) ka(3) by (auto dest: pt_wf_aligned valid_page_aligned)
  have ne: "p \<noteq> pg" using o(4) [of p] ka(2) by auto
  have m3: "?m3 = st64 ?mz (slot p i) (PA2PTE pg OR PTE_V)" by (simp add: s3_def link_table_def)
  have ag_z: "agree_page ?m ?mz q" if "q \<noteq> pg" for q
    using ka(5) [OF that] agree_page_memset [OF al(2), of q "mem s1" 0] that
    by (metis agree_page_sym agree_page_trans)
  have ag: "agree_page ?m ?m3 q" if "q \<noteq> pg" "q \<noteq> p" for q
    unfolding m3 using agree_page_trans [OF ag_z [OF that(1)]
        agree_page_sym [OF agree_page_st_slot [OF al(1) i(1)]]] that(2) by blast
  have zero: "ld64 ?m3 (slot pg j) = 0" if "unat j < 512" for j
    using ld64_slot_cong [OF agree_page_st_slot [OF al(1) i(1) ne], of j] al(2) that
      ld64_memset_slot [OF al(2) that, of "mem s1"] m3 by simp
  note zt = zero_table [OF al(2) zero]
  have ld_p: "ld64 ?m3 (slot p j) = (if i = j then PA2PTE pg OR PTE_V else ld64 ?m (slot p j))"
    if "unat j < 512" for j
    using ld64_st64_slot [OF al(1) i(1) that, of ?mz] ld64_slot_cong [OF ag_z al(1) that] ne m3 by simp
  have ch_i: "child ?m3 p i = Some pg"
    using ld_p [OF i(1)] table_pte [OF al(2)] by (simp add: child_def)
  then show "child ?m3 p i = Some pg" .
  have ch: "child ?m3 p j = child ?m p j" if "unat j < 512" "j \<noteq> i" for j
    using ld_p [OF that(1)] that(2) by (simp add: child_def)
  have sub: "pt_pages l ?m3 d = pt_pages l ?m d" "pt_wf l ?m3 d" "lookup_at l ?m3 d va = lookup_at l ?m d va"
    if "unat j < 512" "child ?m p j = Some d" for j d va
  proof -
    have a: "agree_page ?m ?m3 q" if "q \<in> pt_pages l ?m d" for q
    proof (rule ag)
      show "q \<noteq> pg" using o(4) pt_pages_child [OF \<open>unat j < 512\<close> \<open>child ?m p j = Some d\<close> that] ka(2) by blast
      show "q \<noteq> p" using pt_wf_child(2) [OF o(2) \<open>unat j < 512\<close> \<open>child ?m p j = Some d\<close>] that by blast
    qed
    have w: "pt_wf l ?m d" using pt_wf_child(1) [OF o(2) that] .
    show "pt_pages l ?m3 d = pt_pages l ?m d" using pt_pages_cong [OF w a] .
    show "pt_wf l ?m3 d" using pt_wf_cong [OF w a] .
    show "lookup_at l ?m3 d va = lookup_at l ?m d va" using lookup_at_cong [OF w a] .
  qed
  have old: "d = pg \<or> child ?m p j = Some d \<and> j \<noteq> i" if "unat j < 512" "child ?m3 p j = Some d" for j d
    using that ch [OF that(1)] ch_i by (cases "j = i") auto
  have pg_out: "pg \<notin> pt_pages l ?m d" if "unat j < 512" "child ?m p j = Some d" for j d
    using o(4) pt_pages_child [OF that] ka(2) by blast
  have pages: "pt_pages (Suc l) ?m3 p = insert pg (pt_pages (Suc l) ?m p)"
  proof (intro equalityI subsetI)
    fix q assume "q \<in> pt_pages (Suc l) ?m3 p"
    then consider "q = p" | j d where "unat j < 512" "child ?m3 p j = Some d" "q \<in> pt_pages l ?m3 d" by auto
    then show "q \<in> insert pg (pt_pages (Suc l) ?m p)"
    proof cases
      case 1
      then show ?thesis by simp
    next
      case (2 j d)
      then show ?thesis using old [OF 2(1,2)] zt(2) sub(1) [OF 2(1)] pt_pages_child [OF 2(1)] by blast
    qed
  next
    fix q assume "q \<in> insert pg (pt_pages (Suc l) ?m p)"
    then consider "q = pg" | "q = p" | j d where "unat j < 512" "child ?m p j = Some d" "q \<in> pt_pages l ?m d" by auto
    then show "q \<in> pt_pages (Suc l) ?m3 p"
    proof cases
      case 1
      then show ?thesis using pt_pages_child [OF i(1) ch_i] zt(2) by blast
    next
      case 2
      then show ?thesis by simp
    next
      case (3 j d)
      then have "j \<noteq> i" using i(2) by auto
      then have "child ?m3 p j = Some d" using ch 3 by simp
      from pt_pages_child [OF 3(1) this] show ?thesis using sub(1) [OF 3(1,2)] 3(3) by blast
    qed
  qed
  have wf: "pt_wf (Suc l) ?m3 p"
  proof (rule pt_wf_SucI [OF al(1)])
    fix j d assume j: "unat j < 512" "child ?m3 p j = Some d"
    note od = old [OF j]
    show "pt_wf l ?m3 d" using od zt(3) sub(2) [OF j(1)] by blast
    show "p \<notin> pt_pages l ?m3 d"
      using od zt(2) ne sub(1) [OF j(1)] pt_wf_child(2) [OF o(2) j(1)] by blast
    show "ld64 ?m3 (slot p j) AND PTE_RWX = 0"
    proof (cases "j = i")
      case True
      then show ?thesis using ld_p [OF j(1)] table_pte(3) [OF al(2)] by simp
    next
      case False
      then have "child ?m p j = Some d" using ch j by simp
      then show ?thesis using False ld_p [OF j(1)] pt_wf_child(3) [OF o(2) j(1)] by simp
    qed
  next
    fix j k d e
    assume j: "unat j < 512" "unat k < 512" "j \<noteq> k" "child ?m3 p j = Some d" "child ?m3 p k = Some e"
    consider "j = i" | "k = i" | "j \<noteq> i" "k \<noteq> i" by blast
    then show "pt_pages l ?m3 d \<inter> pt_pages l ?m3 e = {}"
    proof cases
      case 1
      then have "d = pg" "child ?m p k = Some e" using j ch_i ch by auto
      then show ?thesis using zt(2) sub(1) [OF j(2)] pg_out [OF j(2)] by simp
    next
      case 2
      then have "e = pg" "child ?m p j = Some d" using j ch_i ch by auto
      then show ?thesis using zt(2) sub(1) [OF j(1)] pg_out [OF j(1)] by simp
    next
      case 3
      then have "child ?m p j = Some d" "child ?m p k = Some e" using j ch by auto
      then show ?thesis using sub(1) j(1,2) pt_wf_disjoint [OF o(2) j(1-3)] by simp
    qed
  qed
  have look: "lookup_at (Suc l) ?m3 p va = lookup_at (Suc l) ?m p va" for va
  proof (cases "PX (Suc l) va = i")
    case True
    then show ?thesis using ch_i i(2) zt(4) [of l va] by (simp add: lookup_at_def)
  next
    case False
    then show ?thesis
      using ch [OF PX_lt_512 False] sub(3) [OF PX_lt_512, of "Suc l" va]
      by (simp add: lookup_at_Suc split: option.splits)
  qed
  have av: "\<And>q. q \<in> avail s1 \<Longrightarrow> agree_page (mem s1) ?m3 q"
    using agree_page_trans [OF agree_page_sym [OF ka(5)] ag] ka(4) o(4) [of p] by auto
  have inv: "kmem_inv s3" "avail s3 = avail s1"
    using kmem_inv_frame [OF ka(1) av] by (simp_all add: s3_def link_table_def avail_def)
  have fr: "mm_frame s s3"
    using kalloc_mm_frame [OF k(1)] by (simp add: s3_def link_table_def)
  show "pt_grown (Suc l) s p s3"
    unfolding pt_grown_def
  proof (intro conjI allI impI)
    show "avail s3 = avail s - pt_pages (Suc l) ?m3 p" using pages inv(2) ka(4) o(4) by blast
    show "agree_page ?m ?m3 q" if "q \<notin> pt_pages (Suc l) ?m3 p" for q using that pages ag by auto
  qed (use fr inv wf pages ka(2) look in auto)
  show "pt_owned l s3 pg"
    using inv zt(2,3) ka(3,4) mm_frame_valid [OF fr] by (simp add: pt_owned_def)
  show "avail s3 = avail s - {pg}" using inv(2) ka(4) by simp
qed

text \<open>\<^verbatim>\<open>walk(..., 1)\<close>: the tree grows, and the result is the leaf slot, or 0 with no page left.\<close>

lemma walk_loop_alloc:
  assumes "pt_owned l s p" "walk_loop l s p va True = (a, s')"
  shows "pt_grown l s p s' \<and> (if a = 0 then avail s' = {} else leaf_slot l (mem s') p va = Some a)"
  using assms
proof (induction l arbitrary: s p)
  case 0
  then show ?case
    using pt_grown_refl [OF 0(1)] leaf_slot_nz [of 0 "mem s" p va a] pt_ownedD [OF 0(1)] by auto
next
  case (Suc l)
  let ?i = "PX (Suc l) va"
  have px: "unat ?i < 512" by (rule PX_lt_512)
  show ?case
  proof (cases "child (mem s) p ?i")
    case (Some c)
    then have "walk_loop l s c va True = (a, s')"
      using Suc.prems(2) by (auto simp: child_def Let_def split: if_splits)
    from Suc.IH [OF pt_owned_child [OF Suc.prems(1) px Some] this]
    show ?thesis using pt_grown_child [OF Suc.prems(1) px Some] by (auto split: if_splits)
  next
    case None
    then have inv: "ld64 (mem s) (slot p ?i) AND PTE_V = 0" by (simp add: child_def Let_def split: if_splits)
    obtain pg s1 where k: "kalloc s = (pg, s1)" by (cases "kalloc s")
    show ?thesis
    proof (cases "pg = 0")
      case True
      then have "a = 0" "s' = s1" using Suc.prems(2) inv k by (auto simp: Let_def)
      then show ?thesis
        using kmem.alloc_result [OF pt_ownedD(1) [OF Suc.prems(1)] k] True pt_grown_refl [OF Suc.prems(1)] by auto
    next
      case False
      let ?s3 = "link_table s1 p ?i pg"
      note ln = link_table_grown [OF Suc.prems(1) px None k False]
      have "walk_loop l ?s3 pg va True = (a, s')"
        using Suc.prems(2) inv k False by (simp add: Let_def link_table_def)
      note ih = Suc.IH [OF ln(3) this]
      note gc = pt_grown_child [OF pt_grown_owned [OF Suc.prems(1) ln(1)] px ln(2)]
      show ?thesis
        using ih gc pt_grown_trans [OF ln(1)] by (auto split: if_splits)
    qed
  qed
qed

text \<open>\<^verbatim>\<open>walk\<close> takes at most one page per level, and fails only on an exhausted free list.\<close>

lemma finite_avail [simp]: "finite (avail s)"
  by (simp add: avail_def)

lemma walk_loop_count:
  assumes "pt_owned l s p" "walk_loop l s p va True = (a, s')"
  shows "card (avail s) \<le> card (avail s') + l \<and> (a = 0 \<longrightarrow> card (avail s) < l)"
  using assms
proof (induction l arbitrary: s p)
  case 0
  then show ?case using leaf_slot_nz [of 0 "mem s" p va a] pt_ownedD [OF 0(1)] by auto
next
  case (Suc l)
  let ?i = "PX (Suc l) va"
  have px: "unat ?i < 512" by (rule PX_lt_512)
  show ?case
  proof (cases "child (mem s) p ?i")
    case (Some c)
    then have "walk_loop l s c va True = (a, s')"
      using Suc.prems(2) by (auto simp: child_def Let_def split: if_splits)
    from Suc.IH [OF pt_owned_child [OF Suc.prems(1) px Some] this] show ?thesis by auto
  next
    case None
    then have inv: "ld64 (mem s) (slot p ?i) AND PTE_V = 0" by (simp add: child_def Let_def split: if_splits)
    obtain pg s1 where k: "kalloc s = (pg, s1)" by (cases "kalloc s")
    note ka = kmem.alloc_result [OF pt_ownedD(1) [OF Suc.prems(1)] k]
    show ?thesis
    proof (cases "pg = 0")
      case True
      then have "a = 0" "s' = s1" using Suc.prems(2) inv k by (auto simp: Let_def)
      then show ?thesis using ka True by auto
    next
      case False
      let ?s3 = "link_table s1 p ?i pg"
      note ln = link_table_grown [OF Suc.prems(1) px None k False]
      have w: "walk_loop l ?s3 pg va True = (a, s')"
        using Suc.prems(2) inv k False by (simp add: Let_def link_table_def)
      have "card (avail s) = Suc (card (avail ?s3))"
        using ln(4) ka False card.remove [OF finite_avail, of pg s] by simp
      then show ?thesis using Suc.IH [OF ln(3) w] by auto
    qed
  qed
qed

end
