(* ===== verification/Vm.thy ===== *)
theory Vm
  imports Walk
begin

text \<open>
  The operations of \<^verbatim>\<open>kernel/mm/vm.c\<close> on address spaces, each written over \<open>walk\<close>, \<open>kalloc\<close> and
  \<open>kfree\<close> as the source has it.  A loop over pages carries the number of iterations it may make.
  Return codes are integers (0 and -1), sizes and pointers 64-bit words.
\<close>

section \<open>Mapping and unmapping\<close>

definition walkaddr :: "'a mm_state_scheme \<Rightarrow> u64 \<Rightarrow> u64 \<Rightarrow> u64 res" where
  "walkaddr s pagetable va =
     (if va \<ge> MAXVA then Inr 0
      else rbind (walk s pagetable va False) (\<lambda>(pte, _).
        if pte = 0 then Inr 0
        else let v = ld64 (mem s) pte in
          if v AND PTE_V = 0 then Inr 0
          else if v AND PTE_U = 0 then Inr 0
          else Inr (PTE2PA v)))"

fun mappages_loop ::
  "nat \<Rightarrow> 'a mm_state_scheme \<Rightarrow> u64 \<Rightarrow> u64 \<Rightarrow> u64 \<Rightarrow> u64 \<Rightarrow> u64 \<Rightarrow> (int \<times> 'a mm_state_scheme) res" where
  "mappages_loop 0 s pagetable a lst pa perm = Inl NoFuel"
| "mappages_loop (Suc n) s pagetable a lst pa perm =
     rbind (walk s pagetable a True) (\<lambda>(pte, s).
       if pte = 0 then Inr (-1, s)
       else if ld64 (mem s) pte AND PTE_V \<noteq> 0 then Inl (Panic ''mappages: remap'')
       else let s = s\<lparr>mem := st64 (mem s) pte (PA2PTE pa OR perm OR PTE_V)\<rparr> in
         if a = lst then Inr (0, s)
         else mappages_loop n s pagetable (a + PGSIZE) lst (pa + PGSIZE) perm)"

definition mappages ::
  "'a mm_state_scheme \<Rightarrow> u64 \<Rightarrow> u64 \<Rightarrow> u64 \<Rightarrow> u64 \<Rightarrow> u64 \<Rightarrow> (int \<times> 'a mm_state_scheme) res" where
  "mappages s pagetable va sz pa perm =
     (if va mod PGSIZE \<noteq> 0 then Inl (Panic ''mappages: va not aligned'')
      else if sz mod PGSIZE \<noteq> 0 then Inl (Panic ''mappages: size not aligned'')
      else if sz = 0 then Inl (Panic ''mappages: size'')
      else mappages_loop (unat sz div 4096) s pagetable va (va + sz - PGSIZE) pa perm)"

definition kvmmap ::
  "'a mm_state_scheme \<Rightarrow> u64 \<Rightarrow> u64 \<Rightarrow> u64 \<Rightarrow> u64 \<Rightarrow> u64 \<Rightarrow> 'a mm_state_scheme res" where
  "kvmmap s kpgtbl va pa sz perm =
     rbind (mappages s kpgtbl va sz pa perm)
       (\<lambda>(r, s). if r \<noteq> 0 then Inl (Panic ''kvmmap'') else Inr s)"

definition uvmcreate :: "'a mm_state_scheme \<Rightarrow> u64 \<times> 'a mm_state_scheme" where
  "uvmcreate s =
     (let (pagetable, s) = kalloc s in
      if pagetable = 0 then (0, s)
      else (pagetable, s\<lparr>mem := memset (mem s) pagetable 0 4096\<rparr>))"

fun uvmunmap_loop ::
  "nat \<Rightarrow> 'a mm_state_scheme \<Rightarrow> u64 \<Rightarrow> u64 \<Rightarrow> u64 \<Rightarrow> bool \<Rightarrow> 'a mm_state_scheme res" where
  "uvmunmap_loop 0 s pagetable a lim do_free = (if a < lim then Inl NoFuel else Inr s)"
| "uvmunmap_loop (Suc n) s pagetable a lim do_free =
     (if \<not> a < lim then Inr s
      else rbind (walk s pagetable a False) (\<lambda>(pte, s).
        if pte = 0 then uvmunmap_loop n s pagetable (a + PGSIZE) lim do_free
        else if ld64 (mem s) pte AND PTE_V = 0 then uvmunmap_loop n s pagetable (a + PGSIZE) lim do_free
        else rbind (if do_free then kfree s (PTE2PA (ld64 (mem s) pte)) else Inr s) (\<lambda>s.
          uvmunmap_loop n (s\<lparr>mem := st64 (mem s) pte 0\<rparr>) pagetable (a + PGSIZE) lim do_free)))"

definition uvmunmap ::
  "'a mm_state_scheme \<Rightarrow> u64 \<Rightarrow> u64 \<Rightarrow> u64 \<Rightarrow> bool \<Rightarrow> 'a mm_state_scheme res" where
  "uvmunmap s pagetable va npages do_free =
     (if va mod PGSIZE \<noteq> 0 then Inl (Panic ''uvmunmap: not aligned'')
      else uvmunmap_loop (unat npages) s pagetable va (va + npages * PGSIZE) do_free)"

text \<open>\<^verbatim>\<open>int npages\<close>: the page count passes through a signed 32-bit variable.\<close>

definition uvmdealloc ::
  "'a mm_state_scheme \<Rightarrow> u64 \<Rightarrow> u64 \<Rightarrow> u64 \<Rightarrow> (u64 \<times> 'a mm_state_scheme) res" where
  "uvmdealloc s pagetable oldsz newsz =
     (if newsz \<ge> oldsz then Inr (oldsz, s)
      else if PGROUNDUP newsz < PGROUNDUP oldsz
      then let npages = ucast ((PGROUNDUP oldsz - PGROUNDUP newsz) div PGSIZE) :: u32
           in rbind (uvmunmap s pagetable (PGROUNDUP newsz) (scast npages) True) (\<lambda>s. Inr (newsz, s))
      else Inr (newsz, s))"

fun uvmalloc_loop ::
  "nat \<Rightarrow> 'a mm_state_scheme \<Rightarrow> u64 \<Rightarrow> u64 \<Rightarrow> u64 \<Rightarrow> u64 \<Rightarrow> u64 \<Rightarrow> (u64 \<times> 'a mm_state_scheme) res" where
  "uvmalloc_loop 0 s pagetable a oldsz newsz xperm = (if a < newsz then Inl NoFuel else Inr (newsz, s))"
| "uvmalloc_loop (Suc n) s pagetable a oldsz newsz xperm =
     (if \<not> a < newsz then Inr (newsz, s)
      else let (pg, s) = kalloc s in
        if pg = 0 then rbind (uvmdealloc s pagetable a oldsz) (\<lambda>(_, s). Inr (0, s))
        else let s = s\<lparr>mem := memset (mem s) pg 0 4096\<rparr> in
          rbind (mappages s pagetable a PGSIZE pg (PTE_R OR PTE_U OR xperm)) (\<lambda>(r, s).
            if r \<noteq> 0
            then rbind (kfree s pg) (\<lambda>s. rbind (uvmdealloc s pagetable a oldsz) (\<lambda>(_, s). Inr (0, s)))
            else uvmalloc_loop n s pagetable (a + PGSIZE) oldsz newsz xperm))"

definition uvmalloc ::
  "'a mm_state_scheme \<Rightarrow> u64 \<Rightarrow> u64 \<Rightarrow> u64 \<Rightarrow> u64 \<Rightarrow> (u64 \<times> 'a mm_state_scheme) res" where
  "uvmalloc s pagetable oldsz newsz xperm =
     (if newsz < oldsz then Inr (oldsz, s)
      else let oldsz = PGROUNDUP oldsz
           in uvmalloc_loop (unat newsz div 4096 + 1) s pagetable oldsz oldsz newsz xperm)"

section \<open>Freeing and copying address spaces\<close>

text \<open>
  The recursion of \<^verbatim>\<open>freewalk\<close> goes down one table level per call; the depth is the number of
  levels still allowed.
\<close>

fun freewalk :: "nat \<Rightarrow> 'a mm_state_scheme \<Rightarrow> u64 \<Rightarrow> 'a mm_state_scheme res" where
  "freewalk 0 s pagetable = Inl NoFuel"
| "freewalk (Suc d) s pagetable =
     rbind (rfold (\<lambda>i s.
         let pte = ld64 (mem s) (slot pagetable (of_nat i)) in
         if pte AND PTE_V \<noteq> 0 \<and> pte AND (PTE_R OR PTE_W OR PTE_X) = 0
         then rbind (freewalk d s (PTE2PA pte))
                (\<lambda>s. Inr (s\<lparr>mem := st64 (mem s) (slot pagetable (of_nat i)) 0\<rparr>))
         else if pte AND PTE_V \<noteq> 0 then Inl (Panic ''freewalk: leaf'')
         else Inr s) [0..<512] s)
       (\<lambda>s. kfree s pagetable)"

definition uvmfree :: "'a mm_state_scheme \<Rightarrow> u64 \<Rightarrow> u64 \<Rightarrow> 'a mm_state_scheme res" where
  "uvmfree s pagetable sz =
     rbind (if sz > 0 then uvmunmap s pagetable 0 (PGROUNDUP sz div PGSIZE) True else Inr s)
       (\<lambda>s. freewalk 3 s pagetable)"

fun uvmcopy_loop ::
  "nat \<Rightarrow> 'a mm_state_scheme \<Rightarrow> u64 \<Rightarrow> u64 \<Rightarrow> u64 \<Rightarrow> u64 \<Rightarrow> (int \<times> 'a mm_state_scheme) res" where
  "uvmcopy_loop 0 s old new i sz = (if i < sz then Inl NoFuel else Inr (0, s))"
| "uvmcopy_loop (Suc n) s old new i sz =
     (if \<not> i < sz then Inr (0, s)
      else rbind (walk s old i False) (\<lambda>(pte, s).
        if pte = 0 then uvmcopy_loop n s old new (i + PGSIZE) sz
        else if ld64 (mem s) pte AND PTE_V = 0 then uvmcopy_loop n s old new (i + PGSIZE) sz
        else let pa = PTE2PA (ld64 (mem s) pte); flags = PTE_FLAGS (ld64 (mem s) pte);
                 (pg, s) = kalloc s in
          if pg = 0 then rbind (uvmunmap s new 0 (i div PGSIZE) True) (\<lambda>s. Inr (-1, s))
          else let s = s\<lparr>mem := memmove (mem s) pg pa 4096\<rparr> in
            rbind (mappages s new i PGSIZE pg flags) (\<lambda>(r, s).
              if r \<noteq> 0
              then rbind (kfree s pg) (\<lambda>s. rbind (uvmunmap s new 0 (i div PGSIZE) True) (\<lambda>s. Inr (-1, s)))
              else uvmcopy_loop n s old new (i + PGSIZE) sz)))"

definition uvmcopy ::
  "'a mm_state_scheme \<Rightarrow> u64 \<Rightarrow> u64 \<Rightarrow> u64 \<Rightarrow> (int \<times> 'a mm_state_scheme) res" where
  "uvmcopy s old new sz = uvmcopy_loop (unat sz div 4096 + 1) s old new 0 sz"

definition uvmclear :: "'a mm_state_scheme \<Rightarrow> u64 \<Rightarrow> u64 \<Rightarrow> 'a mm_state_scheme res" where
  "uvmclear s pagetable va =
     rbind (walk s pagetable va False) (\<lambda>(pte, s).
       if pte = 0 then Inl (Panic ''uvmclear'')
       else Inr (s\<lparr>mem := st64 (mem s) pte (ld64 (mem s) pte AND NOT PTE_U)\<rparr>))"

section \<open>Copying between kernel and user memory\<close>

fun copyout_loop ::
  "nat \<Rightarrow> 'a mm_state_scheme \<Rightarrow> u64 \<Rightarrow> u64 \<Rightarrow> u64 \<Rightarrow> u64 \<Rightarrow> (int \<times> 'a mm_state_scheme) res" where
  "copyout_loop 0 s pagetable dstva src len = (if len > 0 then Inl NoFuel else Inr (0, s))"
| "copyout_loop (Suc k) s pagetable dstva src len =
     (if \<not> len > 0 then Inr (0, s)
      else let va0 = PGROUNDDOWN dstva in
        if va0 \<ge> MAXVA then Inr (-1, s)
        else rbind (walkaddr s pagetable va0) (\<lambda>pa0.
          if pa0 = 0 then Inr (-1, s)
          else rbind (walk s pagetable va0 False) (\<lambda>(pte, s).
            if ld64 (mem s) pte AND PTE_W = 0 then Inr (-1, s)
            else let n = PGSIZE - (dstva - va0); n = (if n > len then len else n) in
              copyout_loop k (s\<lparr>mem := memmove (mem s) (pa0 + (dstva - va0)) src (ucast n)\<rparr>)
                pagetable (va0 + PGSIZE) (src + n) (len - n))))"

definition copyout ::
  "'a mm_state_scheme \<Rightarrow> u64 \<Rightarrow> u64 \<Rightarrow> u64 \<Rightarrow> u64 \<Rightarrow> (int \<times> 'a mm_state_scheme) res" where
  "copyout s pagetable dstva src len = copyout_loop (unat len div 4096 + 2) s pagetable dstva src len"

fun copyin_loop ::
  "nat \<Rightarrow> 'a mm_state_scheme \<Rightarrow> u64 \<Rightarrow> u64 \<Rightarrow> u64 \<Rightarrow> u64 \<Rightarrow> (int \<times> 'a mm_state_scheme) res" where
  "copyin_loop 0 s pagetable dst srcva len = (if len > 0 then Inl NoFuel else Inr (0, s))"
| "copyin_loop (Suc k) s pagetable dst srcva len =
     (if \<not> len > 0 then Inr (0, s)
      else let va0 = PGROUNDDOWN srcva in
        rbind (walkaddr s pagetable va0) (\<lambda>pa0.
          if pa0 = 0 then Inr (-1, s)
          else let n = PGSIZE - (srcva - va0); n = (if n > len then len else n) in
            copyin_loop k (s\<lparr>mem := memmove (mem s) dst (pa0 + (srcva - va0)) (ucast n)\<rparr>)
              pagetable (dst + n) (va0 + PGSIZE) (len - n)))"

definition copyin ::
  "'a mm_state_scheme \<Rightarrow> u64 \<Rightarrow> u64 \<Rightarrow> u64 \<Rightarrow> u64 \<Rightarrow> (int \<times> 'a mm_state_scheme) res" where
  "copyin s pagetable dst srcva len = copyin_loop (unat len div 4096 + 2) s pagetable dst srcva len"

text \<open>
  The inner loop of \<^verbatim>\<open>copyinstr\<close>: up to \<open>n\<close> bytes of one page; the result is the memory and
  whether the NUL was copied.
\<close>

fun copystr_page :: "nat \<Rightarrow> memory \<Rightarrow> u64 \<Rightarrow> u64 \<Rightarrow> memory \<times> bool" where
  "copystr_page 0 m p dst = (m, False)"
| "copystr_page (Suc n) m p dst =
     (if m p = 0 then (m(dst := 0), True) else copystr_page n (m(dst := m p)) (p + 1) (dst + 1))"

fun copyinstr_loop ::
  "nat \<Rightarrow> 'a mm_state_scheme \<Rightarrow> u64 \<Rightarrow> u64 \<Rightarrow> u64 \<Rightarrow> u64 \<Rightarrow> (int \<times> 'a mm_state_scheme) res" where
  "copyinstr_loop 0 s pagetable dst srcva mx = (if mx > 0 then Inl NoFuel else Inr (-1, s))"
| "copyinstr_loop (Suc k) s pagetable dst srcva mx =
     (if \<not> mx > 0 then Inr (-1, s)
      else let va0 = PGROUNDDOWN srcva in
        rbind (walkaddr s pagetable va0) (\<lambda>pa0.
          if pa0 = 0 then Inr (-1, s)
          else let n = PGSIZE - (srcva - va0); n = (if n > mx then mx else n);
                   (m, got_null) = copystr_page (unat n) (mem s) (pa0 + (srcva - va0)) dst;
                   s = s\<lparr>mem := m\<rparr> in
            if got_null then Inr (0, s)
            else copyinstr_loop k s pagetable (dst + n) (va0 + PGSIZE) (mx - n)))"

definition copyinstr ::
  "'a mm_state_scheme \<Rightarrow> u64 \<Rightarrow> u64 \<Rightarrow> u64 \<Rightarrow> u64 \<Rightarrow> (int \<times> 'a mm_state_scheme) res" where
  "copyinstr s pagetable dst srcva mx = copyinstr_loop (unat mx div 4096 + 2) s pagetable dst srcva mx"

definition vmfault :: "'a mm_state_scheme \<Rightarrow> u64 \<Rightarrow> u64 \<Rightarrow> bool \<Rightarrow> u64 \<times> 'a mm_state_scheme" where
  "vmfault s pagetable va read = (0, s)"

section \<open>The kernel's own page table\<close>

definition UART0 :: u64 where "UART0 = 0x10000000"
definition VIRT_TEST :: u64 where "VIRT_TEST = 0x100000"
definition VIRTIO0 :: u64 where "VIRTIO0 = 0x10001000"
definition PLIC :: u64 where "PLIC = 0x0c000000"
definition NPROC :: nat where "NPROC = 64"

text \<open>\<^verbatim>\<open>etext\<close> and \<^verbatim>\<open>trampoline\<close> are symbols of the linker script.\<close>

definition proc_mapstacks :: "'a mm_state_scheme \<Rightarrow> u64 \<Rightarrow> 'a mm_state_scheme res" where
  "proc_mapstacks s kpgtbl =
     rfold (\<lambda>i s. let (pa, s) = kalloc s in
       if pa = 0 then Inl (Panic ''kalloc'')
       else kvmmap s kpgtbl (KSTACK i) pa PGSIZE (PTE_R OR PTE_W)) [0..<NPROC] s"

definition kvmmake :: "'a mm_state_scheme \<Rightarrow> u64 \<Rightarrow> u64 \<Rightarrow> (u64 \<times> 'a mm_state_scheme) res" where
  "kvmmake s etext trampoline =
     (let (kpgtbl, s) = kalloc s; s = s\<lparr>mem := memset (mem s) kpgtbl 0 4096\<rparr> in
      rbind (kvmmap s kpgtbl UART0 UART0 PGSIZE (PTE_R OR PTE_W)) (\<lambda>s.
      rbind (kvmmap s kpgtbl VIRT_TEST VIRT_TEST PGSIZE (PTE_R OR PTE_W)) (\<lambda>s.
      rbind (kvmmap s kpgtbl VIRTIO0 VIRTIO0 PGSIZE (PTE_R OR PTE_W)) (\<lambda>s.
      rbind (kvmmap s kpgtbl PLIC PLIC 0x4000000 (PTE_R OR PTE_W)) (\<lambda>s.
      rbind (kvmmap s kpgtbl KERNBASE KERNBASE (etext - KERNBASE) (PTE_R OR PTE_X)) (\<lambda>s.
      rbind (kvmmap s kpgtbl etext etext (kphys_top s - etext) (PTE_R OR PTE_W)) (\<lambda>s.
      rbind (kvmmap s kpgtbl TRAMPOLINE trampoline PGSIZE (PTE_R OR PTE_X)) (\<lambda>s.
      rbind (proc_mapstacks s kpgtbl) (\<lambda>s. Inr (kpgtbl, s))))))))))"

end
