(* ===== verification/Aspace.thy ===== *)
theory Aspace
  imports Vm
begin

text \<open>
  What the operations of \<open>Vm\<close> do to the translations of an address space.  \<open>pt_ext\<close> is the frame of
  every operation that maps: the tree takes pages from the free list and touches nothing else.
  Each operation is then described by the new \<open>lookup\<close>.
\<close>

section \<open>Virtual pages\<close>

lemma PX_page:
  assumes "PGROUNDDOWN a = PGROUNDDOWN b"
  shows "PX k a = PX k b"
proof (rule word_eq_of_unat)
  have "unat a div 4096 * 4096 = unat b div 4096 * 4096"
    using assms by (metis unat_PGROUNDDOWN)
  then have "unat a div 4096 = unat b div 4096" by simp
  then show "unat (PX k a) = unat (PX k b)"
    by (simp add: unat_PX power_add div_mult2_eq)
qed

text \<open>
  The addresses a three-level table can tell apart are 39 bits wide; \<open>MAXVA\<close> is one bit less.
\<close>

definition va39 :: "u64 \<Rightarrow> bool" where
  "va39 va \<longleftrightarrow> unat va < 549755813888"

lemma va39_MAXVA: "va < MAXVA \<Longrightarrow> va39 va"
  by (simp add: va39_def word_less_nat_alt)

lemma same_indices:
  assumes "va39 a" "va39 b"
  shows "(\<forall>k \<le> 2. PX k a = PX k b) \<longleftrightarrow> PGROUNDDOWN a = PGROUNDDOWN b"
proof
  assume "\<forall>k \<le> 2. PX k a = PX k b"
  then show "PGROUNDDOWN a = PGROUNDDOWN b" using assms by (intro PX_inject) (simp_all add: va39_def)
qed (blast intro: PX_page)

lemma lookup_page: "PGROUNDDOWN a = PGROUNDDOWN b \<Longrightarrow> lookup m p a = lookup m p b"
  using leaf_slot_PX [of 2 a b m p] PX_page [of a b] by (simp add: lookup_def lookup_at_def)

section \<open>The frame of an operation that maps\<close>

definition ptp :: "'a mm_state_scheme \<Rightarrow> u64 \<Rightarrow> u64 set" where
  "ptp s p = pt_pages 2 (mem s) p"

definition pt_ext :: "'a mm_state_scheme \<Rightarrow> u64 \<Rightarrow> 'a mm_state_scheme \<Rightarrow> bool" where
  "pt_ext s p s' \<longleftrightarrow> mm_frame s s' \<and> pt_owned 2 s' p \<and> ptp s p \<subseteq> ptp s' p
     \<and> ptp s' p \<subseteq> ptp s p \<union> avail s \<and> avail s' = avail s - ptp s' p
     \<and> (\<forall>q. q \<notin> ptp s' p \<longrightarrow> agree_page (mem s) (mem s') q)"

lemma pt_extD:
  assumes "pt_ext s p s'"
  shows "mm_frame s s'" "pt_owned 2 s' p" "ptp s p \<subseteq> ptp s' p" "ptp s' p \<subseteq> ptp s p \<union> avail s"
    "avail s' = avail s - ptp s' p" "q \<notin> ptp s' p \<Longrightarrow> agree_page (mem s) (mem s') q"
  using assms unfolding pt_ext_def by blast+

lemma pt_ext_refl: "pt_owned 2 s p \<Longrightarrow> pt_ext s p s"
  by (auto simp: pt_ext_def ptp_def dest: pt_ownedD)

lemma pt_ext_trans:
  assumes "pt_ext s p s'" "pt_ext s' p s''"
  shows "pt_ext s p s''"
proof -
  note a = pt_extD [OF assms(1)] and b = pt_extD [OF assms(2)]
  have "agree_page (mem s) (mem s'') q" if "q \<notin> ptp s'' p" for q
    using agree_page_trans [OF a(6) b(6)] that b(3) by blast
  moreover have "avail s'' = avail s - ptp s'' p" using a(5) b(3,5) by blast
  moreover have "ptp s'' p \<subseteq> ptp s p \<union> avail s" using a(4,5) b(4) by blast
  ultimately show ?thesis
    using mm_frame_trans [OF a(1) b(1)] a(3) b(2,3) unfolding pt_ext_def by blast
qed

lemma pt_grown_ext:
  assumes "pt_owned 2 s p" "pt_grown 2 s p s'"
  shows "pt_ext s p s'" "lookup (mem s') p va = lookup (mem s) p va"
  using pt_grownD [OF assms(2)] pt_grown_owned [OF assms]
  by (auto simp: pt_ext_def ptp_def lookup_def)

lemma walk_alloc:
  assumes "pt_owned 2 s p" "va < MAXVA" "walk s p va True = Inr (a, s')"
  shows "pt_ext s p s'" "lookup (mem s') p va' = lookup (mem s) p va'"
    "a = 0 \<Longrightarrow> avail s' = {}" "a \<noteq> 0 \<Longrightarrow> leaf_slot 2 (mem s') p va = Some a"
proof -
  have "walk_loop 2 s p va True = (a, s')" using assms(2,3) by (auto simp: walk_def split: if_splits)
  note w = walk_loop_alloc [OF assms(1) this]
  then have g: "pt_grown 2 s p s'" by simp
  show "pt_ext s p s'" "lookup (mem s') p va' = lookup (mem s) p va'"
    using pt_grown_ext [OF assms(1) g] by simp_all
  show "a = 0 \<Longrightarrow> avail s' = {}" "a \<noteq> 0 \<Longrightarrow> leaf_slot 2 (mem s') p va = Some a" using w by auto
qed

lemma lookup_leaf:
  "leaf_slot 2 m p va = Some a \<Longrightarrow> lookup m p va = (if ld64 m a AND PTE_V \<noteq> 0 then Some (ld64 m a) else None)"
  by (simp add: lookup_def lookup_at_def)

lemma leaf_write_ext:
  fixes s :: "'a mm_state_scheme" and v :: u64
  assumes own: "pt_owned 2 s p" and leaf: "leaf_slot 2 (mem s) p va = Some a" and va: "va < MAXVA"
  defines "s' \<equiv> s\<lparr>mem := st64 (mem s) a v\<rparr>"
  shows "pt_ext s p s'" "ptp s' p = ptp s p" "avail s' = avail s"
    "va39 va' \<Longrightarrow> lookup (mem s') p va' = (if PGROUNDDOWN va' = PGROUNDDOWN va
       then (if v AND PTE_V \<noteq> 0 then Some v else None) else lookup (mem s) p va')"
proof -
  note o = pt_ownedD [OF own]
  note t = leaf_write_tree [OF o(2) leaf, of v]
  obtain q where q: "q \<in> ptp s p" "page_aligned q" "a = slot q (PX 0 va)"
    using leaf_slot_page [OF o(2) leaf] by (auto simp: ptp_def)
  have ag: "agree_page (mem s) (st64 (mem s) a v) r" if "r \<notin> ptp s p" for r
  proof -
    have "q \<noteq> r" using that q(1) by auto
    from agree_page_st_slot [OF q(2) PX_lt_512 this] show ?thesis
      unfolding q(3) by (rule agree_page_sym)
  qed
  then have "\<forall>r \<in> avail s. agree_page (mem s) (st64 (mem s) a v) r"
    using o(4) unfolding ptp_def by blast
  from kmem_frame [OF o(1) this] have inv: "kmem_inv s'" "avail s' = avail s"
    by (simp_all add: s'_def)
  then show "avail s' = avail s" by simp
  show pages: "ptp s' p = ptp s p" using t(1) by (simp add: ptp_def s'_def)
  have fr: "mm_frame s s'" by (simp add: s'_def)
  have "pt_owned 2 s' p"
    using own inv pages t(2) mm_frame_valid [OF fr] by (simp add: pt_owned_def ptp_def s'_def)
  then show "pt_ext s p s'"
    using fr pages inv(2) ag o(4) unfolding pt_ext_def by (auto simp: ptp_def s'_def)
  assume va': "va39 va'"
  show "lookup (mem s') p va' = (if PGROUNDDOWN va' = PGROUNDDOWN va
       then (if v AND PTE_V \<noteq> 0 then Some v else None) else lookup (mem s) p va')"
    using leaf_write_lookup [OF o(2) leaf, of v va'] same_indices [OF va39_MAXVA [OF va] va']
    by (auto simp: lookup_def s'_def)
qed

section \<open>mappages\<close>

lemma PA2PTE_valid: "(PA2PTE pa OR perm OR PTE_V) AND PTE_V \<noteq> 0"
proof -
  have "bit ((PA2PTE pa OR perm OR PTE_V) AND PTE_V) 0" by (simp add: PTE_V_def bit_simps)
  then show ?thesis by (metis bit_0_eq bot_apply bot_bool_def)
qed

text \<open>The range of \<open>n\<close> pages from \<open>a\<close>, and the entry \<^verbatim>\<open>mappages\<close> puts at an address in it.\<close>

definition vrange :: "u64 \<Rightarrow> nat \<Rightarrow> u64 \<Rightarrow> bool" where
  "vrange a n va \<longleftrightarrow> unat a \<le> unat va \<and> unat va < unat a + 4096 * n"

definition map_entry :: "u64 \<Rightarrow> u64 \<Rightarrow> u64 \<Rightarrow> u64 \<Rightarrow> u64" where
  "map_entry a pa perm va = PA2PTE (pa + (PGROUNDDOWN va - a)) OR perm OR PTE_V"

lemma vrange_Suc:
  assumes "page_aligned a" "unat a + 4096 < 18446744073709551616"
  shows "vrange a (Suc n) va \<longleftrightarrow> PGROUNDDOWN va = a \<or> vrange (a + PGSIZE) n va"
proof -
  have "PGROUNDDOWN va = a \<longleftrightarrow> unat a \<le> unat va \<and> unat va < unat a + 4096"
    using in_page_iff [OF assms(1), of va] unat_diff_lt_iff [of a 4096 va] assms(2) by simp
  then show ?thesis
    using page_aligned_next(1) [OF assms] by (auto simp: vrange_def)
qed

lemma mappages_loop_spec:
  assumes "pt_owned 2 s p" "page_aligned a" "unat a + 4096 * n \<le> unat MAXVA" "0 < n"
    "lst = a + of_nat (4096 * (n - 1))"
    "\<And>va. vrange a n va \<Longrightarrow> lookup (mem s) p va = None"
  shows "\<exists>r s' k. mappages_loop n s p a lst pa perm = Inr (r, s') \<and> pt_ext s p s'
    \<and> (\<forall>va. va39 va \<longrightarrow> lookup (mem s') p va
         = (if vrange a k va then Some (map_entry a pa perm va) else lookup (mem s) p va))
    \<and> (r = 0 \<and> k = n \<or> r = -1 \<and> k < n \<and> avail s' = {})"
  using assms
proof (induction n arbitrary: s a pa)
  case 0
  then show ?case by simp
next
  case (Suc n)
  have a: "a < MAXVA" "unat a + 4096 \<le> 274877906944"
    using Suc.prems(3) by (simp_all add: word_less_nat_alt)
  have b: "unat a + 4096 < 18446744073709551616" using a(2) by simp
  note nx = page_aligned_next [OF Suc.prems(2) b]
  obtain pte s1 where w: "walk s p a True = Inr (pte, s1)"
    using a(1) by (cases "walk_loop 2 s p a True") (simp add: walk_def not_le)
  note wa = walk_alloc [OF Suc.prems(1) a(1) w]
  show ?case
  proof (cases "pte = 0")
    case True
    then have "mappages_loop (Suc n) s p a lst pa perm = Inr (-1, s1)" using w by simp
    moreover have "\<not> vrange a 0 va" for va by (simp add: vrange_def)
    ultimately show ?thesis using wa(1,2,3) True by (intro exI [of _ "-1"] exI [of _ s1] exI [of _ 0]) simp
  next
    case False
    note leaf = wa(4) [OF False]
    have "vrange a (Suc n) a" by (simp add: vrange_def)
    then have "lookup (mem s1) p a = None" using Suc.prems(6) wa(2) by simp
    then have inv: "ld64 (mem s1) pte AND PTE_V = 0"
      using lookup_leaf [OF leaf] by (auto split: if_splits)
    let ?s2 = "s1\<lparr>mem := st64 (mem s1) pte (PA2PTE pa OR perm OR PTE_V)\<rparr>"
    note lw = leaf_write_ext [OF pt_extD(2) [OF wa(1)] leaf a(1), where v = "PA2PTE pa OR perm OR PTE_V"]
    have ext: "pt_ext s p ?s2" using pt_ext_trans [OF wa(1) lw(1)] .
    have al: "PGROUNDDOWN a = a" using Suc.prems(2) by (rule PGROUNDDOWN_idem)
    have look2: "lookup (mem ?s2) p va = (if PGROUNDDOWN va = a then Some (map_entry a pa perm va)
        else lookup (mem s) p va)" if "va39 va" for va
      using lw(4) [OF that] wa(2) al PA2PTE_valid by (simp add: map_entry_def)
    show ?thesis
    proof (cases "n = 0")
      case True
      then have "mappages_loop (Suc n) s p a lst pa perm = Inr (0, ?s2)"
        using w False inv Suc.prems(5) by simp
      moreover have "vrange a 1 va \<longleftrightarrow> PGROUNDDOWN va = a" for va
        using vrange_Suc [OF Suc.prems(2) b, of 0 va] by (auto simp: vrange_def)
      ultimately show ?thesis
        using ext look2 True by (intro exI [of _ 0] exI [of _ ?s2] exI [of _ 1]) simp
    next
      case nz: False
      have ne: "a \<noteq> lst"
      proof
        assume "a = lst"
        then have "(of_nat (4096 * n) :: u64) = 0" using Suc.prems(5) by simp
        then have "unat (of_nat (4096 * n) :: u64) = 0" by simp
        moreover have "unat (of_nat (4096 * n) :: u64) = 4096 * n"
          using Suc.prems(3) by (intro unat_of_nat64) simp
        ultimately show False using nz by simp
      qed
      have loop: "mappages_loop (Suc n) s p a lst pa perm
          = mappages_loop n ?s2 p (a + PGSIZE) lst (pa + PGSIZE) perm"
        using w False inv ne by (simp add: Let_def)
      have none: "lookup (mem ?s2) p va = None" if "vrange (a + PGSIZE) n va" for va
      proof -
        have va: "va39 va" using that Suc.prems(3) nx(1) by (simp add: vrange_def va39_def)
        have "vrange a (Suc n) va" using vrange_Suc [OF Suc.prems(2) b] that by blast
        moreover have "PGROUNDDOWN va \<noteq> a"
        proof
          assume "PGROUNDDOWN va = a"
          then have "unat (va - a) < 4096" using in_page_iff [OF Suc.prems(2)] by simp
          then show False using unat_diff_lt_iff [of a 4096 va] that nx(1) b by (simp add: vrange_def)
        qed
        ultimately show ?thesis using look2 [OF va] Suc.prems(6) by simp
      qed
      have "\<exists>r s' k. mappages_loop n ?s2 p (a + PGSIZE) lst (pa + PGSIZE) perm = Inr (r, s') \<and> pt_ext ?s2 p s'
        \<and> (\<forall>va. va39 va \<longrightarrow> lookup (mem s') p va = (if vrange (a + PGSIZE) k va
             then Some (map_entry (a + PGSIZE) (pa + PGSIZE) perm va) else lookup (mem ?s2) p va))
        \<and> (r = 0 \<and> k = n \<or> r = -1 \<and> k < n \<and> avail s' = {})"
      proof (rule Suc.IH)
        show "lst = a + PGSIZE + of_nat (4096 * (n - 1))"
          using Suc.prems(5) nz by (cases n) (simp_all add: PGSIZE_def)
      qed (use pt_extD(2) [OF lw(1)] nx Suc.prems(3) nz none in simp_all)
      then obtain r s' k where r: "mappages_loop n ?s2 p (a + PGSIZE) lst (pa + PGSIZE) perm = Inr (r, s')"
        "pt_ext ?s2 p s'" "\<And>va. va39 va \<Longrightarrow> lookup (mem s') p va = (if vrange (a + PGSIZE) k va
             then Some (map_entry (a + PGSIZE) (pa + PGSIZE) perm va) else lookup (mem ?s2) p va)"
        "r = 0 \<and> k = n \<or> r = -1 \<and> k < n \<and> avail s' = {}" by blast
      have entry: "map_entry (a + PGSIZE) (pa + PGSIZE) perm va = map_entry a pa perm va" for va
        by (simp add: map_entry_def algebra_simps)
      have "lookup (mem s') p va = (if vrange a (Suc k) va then Some (map_entry a pa perm va)
          else lookup (mem s) p va)" if "va39 va" for va
        using r(3) [OF that] look2 [OF that] vrange_Suc [OF Suc.prems(2) b, of k va] entry by simp
      moreover have "pt_ext s p s'" using pt_ext_trans [OF ext r(2)] .
      ultimately show ?thesis using r(1,4) loop
        by (intro exI [of _ r] exI [of _ s'] exI [of _ "Suc k"]) auto
    qed
  qed
qed

text \<open>Mapping one page takes at most two table pages, and fails only when that many are not free.\<close>

lemma mappages_count:
  assumes own: "pt_owned 2 s p" and a: "page_aligned a" "a < MAXVA"
    and r: "mappages s p a PGSIZE pa perm = Inr (r, s')"
  shows "card (avail s) \<le> card (avail s') + 2 \<and> (r \<noteq> 0 \<longrightarrow> card (avail s) < 2)"
proof -
  have "a mod PGSIZE = 0" using a(1) by (simp add: mod_PGSIZE_0 page_aligned_def)
  moreover have "PGSIZE \<noteq> 0" "unat PGSIZE div 4096 = Suc 0" "a + PGSIZE - PGSIZE = a"
    by (simp_all add: PGSIZE_def)
  ultimately have m: "mappages_loop (Suc 0) s p a a pa perm = Inr (r, s')"
    using r by (simp add: mappages_def del: mappages_loop.simps)
  obtain pte s1 where wl: "walk_loop 2 s p a True = (pte, s1)" by (cases "walk_loop 2 s p a True")
  then have w: "walk s p a True = Inr (pte, s1)" using a(2) by (simp add: walk_def not_le)
  note wa = walk_alloc [OF own a(2) w] and c = walk_loop_count [OF own wl]
  show ?thesis
  proof (cases "pte = 0")
    case True
    then show ?thesis using m w c by auto
  next
    case False
    let ?v = "PA2PTE pa OR perm OR PTE_V"
    have "r = 0" "s' = s1\<lparr>mem := st64 (mem s1) pte ?v\<rparr>"
      using m w False by (auto simp: Let_def split: if_splits)
    then show ?thesis
      using leaf_write_ext(3) [OF pt_extD(2) [OF wa(1)] wa(4) [OF False] a(2), of ?v] c by simp
  qed
qed

section \<open>User address spaces\<close>

text \<open>
  The part of a process's table below \<open>TRAPFRAME\<close>: each leaf page there is owned by the process.
  \<open>as_inv\<close> says that these pages are valid, not free, not tables of the tree, and pairwise distinct.
\<close>

definition uleaf :: "memory \<Rightarrow> u64 \<Rightarrow> u64 \<Rightarrow> u64 option" where
  "uleaf m p va = (if page_aligned va \<and> va < TRAPFRAME then lookup m p va else None)"

definition upages :: "'a mm_state_scheme \<Rightarrow> u64 \<Rightarrow> u64 set" where
  "upages s p = {q. \<exists>va v. uleaf (mem s) p va = Some v \<and> q = PTE2PA v}"

definition as_inv :: "'a mm_state_scheme \<Rightarrow> u64 \<Rightarrow> bool" where
  "as_inv s p \<longleftrightarrow> pt_owned 2 s p \<and> upages s p \<inter> ptp s p = {} \<and> upages s p \<inter> avail s = {}
     \<and> (\<forall>q \<in> upages s p. valid_page s q)
     \<and> (\<forall>va va' v v'. uleaf (mem s) p va = Some v \<and> uleaf (mem s) p va' = Some v'
          \<and> PTE2PA v = PTE2PA v' \<longrightarrow> va = va')"

lemma as_invD:
  assumes "as_inv s p"
  shows "pt_owned 2 s p" "q \<in> upages s p \<Longrightarrow> q \<notin> ptp s p" "q \<in> upages s p \<Longrightarrow> q \<notin> avail s"
    "q \<in> upages s p \<Longrightarrow> valid_page s q" "kmem_inv s" "q \<in> ptp s p \<Longrightarrow> q \<notin> avail s"
    "q \<in> ptp s p \<Longrightarrow> valid_page s q"
  using assms pt_ownedD [of 2 s p] unfolding as_inv_def ptp_def by blast+

lemma as_inv_inj:
  "as_inv s p \<Longrightarrow> uleaf (mem s) p va = Some v \<Longrightarrow> uleaf (mem s) p va' = Some v'
    \<Longrightarrow> PTE2PA v = PTE2PA v' \<Longrightarrow> va = va'"
  unfolding as_inv_def by blast

lemma as_invI:
  assumes "pt_owned 2 s p" "\<And>q. q \<in> upages s p \<Longrightarrow> q \<notin> ptp s p"
    "\<And>q. q \<in> upages s p \<Longrightarrow> q \<notin> avail s" "\<And>q. q \<in> upages s p \<Longrightarrow> valid_page s q"
    "\<And>va va' v v'. uleaf (mem s) p va = Some v \<Longrightarrow> uleaf (mem s) p va' = Some v'
      \<Longrightarrow> PTE2PA v = PTE2PA v' \<Longrightarrow> va = va'"
  shows "as_inv s p"
  unfolding as_inv_def using assms by blast

lemma upagesI: "uleaf (mem s) p va = Some v \<Longrightarrow> PTE2PA v \<in> upages s p"
  unfolding upages_def by blast

lemma uleaf_lookup:
  "uleaf m p va = Some v \<Longrightarrow> page_aligned va \<and> va < TRAPFRAME \<and> va39 va \<and> lookup m p va = Some v"
  by (auto simp: uleaf_def va39_def word_less_nat_alt split: if_splits)

lemma ld_bytes_page_cong:
  assumes "agree_page m m' p" "page_aligned p"
  shows "ld_bytes m p 4096 = ld_bytes m' p 4096"
proof (rule list_eq_nthI)
  fix i assume "i < length (ld_bytes m p 4096)"
  then have i: "i < 4096" by simp
  then have "PGROUNDDOWN (p + of_nat i) = p"
    using assms(2) by (intro PGROUNDDOWN_off) (simp_all add: unat_of_nat)
  then show "ld_bytes m p 4096 ! i = ld_bytes m' p 4096 ! i"
    using assms(1) i by (simp add: agree_page_def)
qed simp

text \<open>The abstract address space: permission bits and contents of every mapped user page.\<close>

definition aspace :: "memory \<Rightarrow> u64 \<Rightarrow> u64 \<Rightarrow> (u64 \<times> u8 list) option" where
  "aspace m p va = map_option (\<lambda>v. (PTE_FLAGS v, ld_bytes m (PTE2PA v) 4096)) (uleaf m p va)"

text \<open>An address space is unchanged by whatever leaves its pages alone and off the free list.\<close>

lemma as_frame:
  assumes inv: "as_inv s p" and k: "kmem_inv s'" "mm_frame s s'"
    and ag: "\<forall>q \<in> ptp s p \<union> upages s p. agree_page (mem s) (mem s') q \<and> q \<notin> avail s'"
  shows "as_inv s' p" "ptp s' p = ptp s p" "upages s' p = upages s p"
    "lookup (mem s') p va = lookup (mem s) p va" "aspace (mem s') p = aspace (mem s) p"
proof -
  note o = pt_ownedD [OF as_invD(1) [OF inv]]
  have a: "\<And>q. q \<in> pt_pages 2 (mem s) p \<Longrightarrow> agree_page (mem s) (mem s') q"
    using ag by (simp add: ptp_def)
  show pt: "ptp s' p = ptp s p" using pt_pages_cong [OF o(2) a] by (simp add: ptp_def)
  have look: "lookup (mem s') p va = lookup (mem s) p va" for va
    using lookup_at_cong [OF o(2) a] by (simp add: lookup_def)
  then show "lookup (mem s') p va = lookup (mem s) p va" .
  have ul: "uleaf (mem s') p = uleaf (mem s) p" by (simp add: uleaf_def look fun_eq_iff)
  then show up: "upages s' p = upages s p" by (simp add: upages_def)
  have own: "pt_owned 2 s' p"
    using k(1) pt_wf_cong [OF o(2) a] pt ag o(3) mm_frame_valid [OF k(2)]
    unfolding pt_owned_def ptp_def by simp
  show "as_inv s' p"
  proof (rule as_invI [OF own])
    fix q assume "q \<in> upages s' p"
    then have q: "q \<in> upages s p" by (simp add: up)
    show "q \<notin> ptp s' p" using as_invD(2) [OF inv q] pt by simp
    show "q \<notin> avail s'" using ag q by blast
    show "valid_page s' q" using as_invD(4) [OF inv q] mm_frame_valid [OF k(2)] by simp
  next
    fix va va' v v'
    assume "uleaf (mem s') p va = Some v" "uleaf (mem s') p va' = Some v'" "PTE2PA v = PTE2PA v'"
    then show "va = va'" using as_inv_inj [OF inv] by (simp only: ul)
  qed
  have bytes: "ld_bytes (mem s') (PTE2PA v) 4096 = ld_bytes (mem s) (PTE2PA v) 4096"
    if "uleaf (mem s) p va = Some v" for va v
  proof -
    have u: "PTE2PA v \<in> upages s p" using that by (rule upagesI)
    then have "agree_page (mem s) (mem s') (PTE2PA v)" using ag by blast
    from ld_bytes_page_cong [OF this valid_page_aligned [OF as_invD(4) [OF inv u]]]
    show ?thesis by simp
  qed
  show "aspace (mem s') p = aspace (mem s) p"
  proof (rule ext)
    fix va
    show "aspace (mem s') p va = aspace (mem s) p va"
      using bytes by (cases "uleaf (mem s) p va") (simp_all add: aspace_def ul)
  qed
qed

end
