(* ===== verification/Uvm.thy ===== *)
theory Uvm
  imports Aspace
begin

text \<open>
  The user half of \<^verbatim>\<open>kernel/mm/vm.c\<close> against the abstract address space: unmapping, growing,
  copying and freeing.  Each operation keeps \<open>as_inv\<close>, is described by the new \<open>aspace\<close>, and accounts
  for every physical page it takes or gives back.
\<close>

section \<open>Unmapping\<close>

lemma pt_owned_frame:
  assumes own: "pt_owned 2 s p" and k: "kmem_inv s'" "mm_frame s s'"
    and ag: "\<forall>q \<in> ptp s p. agree_page (mem s) (mem s') q \<and> q \<notin> avail s'"
  shows "pt_owned 2 s' p" "ptp s' p = ptp s p" "lookup (mem s') p va = lookup (mem s) p va"
    "leaf_slot 2 (mem s') p va = leaf_slot 2 (mem s) p va"
proof -
  note o = pt_ownedD [OF own]
  have a: "\<And>q. q \<in> pt_pages 2 (mem s) p \<Longrightarrow> agree_page (mem s) (mem s') q"
    using ag by (simp add: ptp_def)
  show pt: "ptp s' p = ptp s p" using pt_pages_cong [OF o(2) a] by (simp add: ptp_def)
  show "pt_owned 2 s' p"
    using k(1) pt_wf_cong [OF o(2) a] pt ag o(3) mm_frame_valid [OF k(2)]
    unfolding pt_owned_def ptp_def by simp
  show "lookup (mem s') p va = lookup (mem s) p va"
    using lookup_at_cong [OF o(2) a] by (simp add: lookup_def)
  show "leaf_slot 2 (mem s') p va = leaf_slot 2 (mem s) p va"
    using leaf_slot_cong [OF o(2) a] .
qed

lemma as_inv_sub:
  assumes "as_inv s p" "pt_owned 2 s' p" "ptp s' p = ptp s p" "mm_frame s s'"
    and sub: "\<And>va v. uleaf (mem s') p va = Some v \<Longrightarrow> uleaf (mem s) p va = Some v \<and> PTE2PA v \<notin> avail s'"
  shows "as_inv s' p"
proof (rule as_invI [OF assms(2)])
  fix q assume "q \<in> upages s' p"
  then obtain va v where v: "uleaf (mem s') p va = Some v" "q = PTE2PA v" by (auto simp: upages_def)
  with sub have q: "q \<in> upages s p" "q \<notin> avail s'" using upagesI by blast+
  show "q \<notin> ptp s' p" using as_invD(2) [OF assms(1) q(1)] assms(3) by simp
  show "q \<notin> avail s'" by (rule q(2))
  show "valid_page s' q" using as_invD(4) [OF assms(1) q(1)] mm_frame_valid [OF assms(4)] by simp
next
  fix va va' v v'
  assume "uleaf (mem s') p va = Some v" "uleaf (mem s') p va' = Some v'" "PTE2PA v = PTE2PA v'"
  then show "va = va'" using sub as_inv_inj [OF assms(1)] by blast
qed

lemma unmap_step:
  assumes inv: "as_inv s p" and a: "page_aligned a" "a < MAXVA" "do_free \<longrightarrow> a < TRAPFRAME"
    and leaf: "leaf_slot 2 (mem s) p a = Some pte" and v: "lookup (mem s) p a = Some v"
  shows "\<exists>s1 s2. (if do_free then kfree s (PTE2PA v) else Inr s) = Inr s1
    \<and> s2 = s1\<lparr>mem := st64 (mem s1) pte 0\<rparr> \<and> mm_frame s s2 \<and> as_inv s2 p \<and> ptp s2 p = ptp s p
    \<and> avail s2 = avail s \<union> (if do_free then {PTE2PA v} else {})
    \<and> (\<forall>va. va39 va \<longrightarrow> lookup (mem s2) p va = (if PGROUNDDOWN va = a then None else lookup (mem s) p va))
    \<and> (\<forall>q. q \<notin> ptp s p \<and> (do_free \<longrightarrow> q \<noteq> PTE2PA v) \<longrightarrow> agree_page (mem s) (mem s2) q)"
proof -
  let ?pa = "PTE2PA v"
  note I = as_invD [OF inv]
  have ua: "do_free \<Longrightarrow> uleaf (mem s) p a = Some v" using a v by (simp add: uleaf_def)
  have "\<exists>s1. (if do_free then kfree s ?pa else Inr s) = Inr s1 \<and> mm_frame s s1 \<and> kmem_inv s1
      \<and> avail s1 = avail s \<union> (if do_free then {?pa} else {})
      \<and> (\<forall>q. (do_free \<longrightarrow> q \<noteq> ?pa) \<longrightarrow> agree_page (mem s) (mem s1) q)"
  proof (cases do_free)
    case True
    then have u: "?pa \<in> upages s p" using upagesI ua by blast
    then obtain s1 where s1: "kfree s ?pa = Inr s1" "kmem_inv s1" "avail s1 = insert ?pa (avail s)"
      "\<forall>q. q \<noteq> ?pa \<longrightarrow> agree_page (mem s) (mem s1) q"
      using kmem.free_page [OF I(5) I(4) [OF u] I(3) [OF u]] by blast
    then show ?thesis using True kfree_mm_frame [OF s1(1)] by auto
  next
    case False
    then show ?thesis using I(5) by auto
  qed
  then obtain s1 where s1: "(if do_free then kfree s ?pa else Inr s) = Inr s1" "mm_frame s s1" "kmem_inv s1"
      "avail s1 = avail s \<union> (if do_free then {?pa} else {})"
      "\<And>q. (do_free \<longrightarrow> q \<noteq> ?pa) \<Longrightarrow> agree_page (mem s) (mem s1) q" by blast
  have pa_out: "do_free \<Longrightarrow> ?pa \<notin> ptp s p" using I(2) upagesI ua by blast
  have "\<forall>q \<in> ptp s p. agree_page (mem s) (mem s1) q \<and> q \<notin> avail s1"
  proof
    fix q assume q: "q \<in> ptp s p"
    then have "do_free \<longrightarrow> q \<noteq> ?pa" using pa_out by blast
    then show "agree_page (mem s) (mem s1) q \<and> q \<notin> avail s1" using s1(4,5) I(6) [OF q] by auto
  qed
  note o1 = pt_owned_frame [OF I(1) s1(3,2) this]
  let ?s2 = "s1\<lparr>mem := st64 (mem s1) pte 0\<rparr>"
  have leaf1: "leaf_slot 2 (mem s1) p a = Some pte" using o1(4) leaf by simp
  note w = leaf_write_ext [OF o1(1) leaf1 a(2), where v = 0]
  have al: "PGROUNDDOWN a = a" using a(1) by (rule PGROUNDDOWN_idem)
  have look: "lookup (mem ?s2) p va = (if PGROUNDDOWN va = a then None else lookup (mem s) p va)"
    if "va39 va" for va using w(4) [OF that] o1(3) al by simp
  have fr: "mm_frame s ?s2" using s1(2) by simp
  have ag: "agree_page (mem s) (mem ?s2) q" if "q \<notin> ptp s p" "do_free \<longrightarrow> q \<noteq> ?pa" for q
    using agree_page_trans [OF s1(5) [OF that(2)] pt_extD(6) [OF w(1)]] w(2) o1(2) that(1) by simp
  have "as_inv ?s2 p"
  proof (rule as_inv_sub [OF inv pt_extD(2) [OF w(1)] _ fr])
    show "ptp ?s2 p = ptp s p" using w(2) o1(2) by simp
    fix va v' assume u: "uleaf (mem ?s2) p va = Some v'"
    note ul = uleaf_lookup [OF u]
    then have "PGROUNDDOWN va = va" using PGROUNDDOWN_idem by blast
    then have l: "lookup (mem s) p va = Some v'" "va \<noteq> a" using look ul by (auto split: if_splits)
    then have u0: "uleaf (mem s) p va = Some v'" using ul by (simp add: uleaf_def)
    have "PTE2PA v' \<noteq> ?pa" if do_free using as_inv_inj [OF inv u0 ua [OF that]] l(2) by blast
    then show "uleaf (mem s) p va = Some v' \<and> PTE2PA v' \<notin> avail ?s2"
      using u0 w(3) s1(4) I(3) [OF upagesI [OF u0]] by (cases do_free) auto
  qed
  then show ?thesis using s1(1,4) fr w(2,3) o1(2) look ag by (intro exI [of _ s1] exI [of _ ?s2]) simp
qed

definition freed :: "'a mm_state_scheme \<Rightarrow> u64 \<Rightarrow> u64 \<Rightarrow> nat \<Rightarrow> u64 set" where
  "freed s p a n = {q. \<exists>va v. vrange a n va \<and> uleaf (mem s) p va = Some v \<and> q = PTE2PA v}"

lemma freed_upages: "freed s p a n \<subseteq> upages s p"
  by (auto simp: freed_def upages_def)

text \<open>An iteration that finds nothing mapped leaves the state as it is.\<close>

lemma uvmunmap_loop_skip:
  assumes "pt_owned 2 s p" "a < lim" "a < MAXVA" "lookup (mem s) p a = None"
  shows "uvmunmap_loop (Suc n) s p a lim df = uvmunmap_loop n s p (a + PGSIZE) lim df"
proof (cases "leaf_slot 2 (mem s) p a")
  case None
  then show ?thesis using assms by (simp add: walk_read)
next
  case (Some pte)
  have "pte \<noteq> 0" using leaf_slot_nz [OF _ Some] pt_ownedD [OF assms(1)] by blast
  moreover have "ld64 (mem s) pte AND PTE_V = 0"
    using lookup_leaf [OF Some] assms(4) by (auto split: if_splits)
  ultimately show ?thesis using assms Some by (simp add: walk_read)
qed

lemma uvmunmap_loop_hit:
  assumes "pt_owned 2 s p" "a < lim" "a < MAXVA" "lookup (mem s) p a = Some v"
    "leaf_slot 2 (mem s) p a = Some pte"
    "(if df then kfree s (PTE2PA v) else Inr s) = Inr s1"
  shows "uvmunmap_loop (Suc n) s p a lim df
    = uvmunmap_loop n (s1\<lparr>mem := st64 (mem s1) pte 0\<rparr>) p (a + PGSIZE) lim df"
proof -
  have "pte \<noteq> 0" using leaf_slot_nz [OF _ assms(5)] pt_ownedD [OF assms(1)] by blast
  moreover have "ld64 (mem s) pte AND PTE_V \<noteq> 0" "ld64 (mem s) pte = v"
    using lookup_leaf [OF assms(5)] assms(4) by (auto split: if_splits)
  ultimately show ?thesis using assms by (cases df) (simp_all add: walk_read)
qed

lemma lookup_Some_leaf: "lookup m p va = Some v \<Longrightarrow> \<exists>a. leaf_slot 2 m p va = Some a"
  by (auto simp: lookup_def lookup_at_def split: option.splits)

lemma uvmunmap_loop_spec:
  assumes "as_inv s p" "page_aligned a" "unat a + 4096 * n \<le> unat MAXVA"
    "df \<longrightarrow> unat a + 4096 * n \<le> unat TRAPFRAME" "lim = a + of_nat (4096 * n)"
  shows "\<exists>s'. uvmunmap_loop n s p a lim df = Inr s' \<and> mm_frame s s' \<and> as_inv s' p \<and> ptp s' p = ptp s p
    \<and> avail s' = avail s \<union> (if df then freed s p a n else {})
    \<and> (\<forall>va. va39 va \<longrightarrow> lookup (mem s') p va = (if vrange a n va then None else lookup (mem s) p va))
    \<and> (\<forall>q. q \<notin> ptp s p \<and> (df \<longrightarrow> q \<notin> freed s p a n) \<longrightarrow> agree_page (mem s) (mem s') q)"
  using assms
proof (induction n arbitrary: s a)
  case 0
  have no: "\<not> vrange a 0 va" for va by (simp add: vrange_def)
  have "\<not> a < lim" using 0 by simp
  then show ?case using 0 no by (intro exI [of _ s]) (simp add: freed_def)
next
  case (Suc n)
  note I = as_invD [OF Suc.prems(1)]
  have a: "a < MAXVA" "unat a + 4096 \<le> 274877906944"
    using Suc.prems(3) by (simp_all add: word_less_nat_alt)
  have b: "unat a + 4096 < 18446744073709551616" using a(2) by simp
  note nx = page_aligned_next [OF Suc.prems(2) b]
  have alim: "a < lim"
  proof -
    have "unat (of_nat (4096 * Suc n) :: u64) = 4096 * Suc n"
      using Suc.prems(3) by (intro unat_of_nat64) simp
    then have "unat lim = unat a + 4096 * Suc n"
      using Suc.prems(3,5) unat_add_nowrap [of a "of_nat (4096 * Suc n)"] by simp
    then show ?thesis by (simp add: word_less_nat_alt)
  qed
  have lim: "lim = a + PGSIZE + of_nat (4096 * n)" using Suc.prems(5) by (simp add: PGSIZE_def)
  have al: "PGROUNDDOWN a = a" using Suc.prems(2) by (rule PGROUNDDOWN_idem)
  have tf: "df \<longrightarrow> a < TRAPFRAME" using Suc.prems(4) by (auto simp: word_less_nat_alt)
  have vr: "vrange a (Suc n) va \<longleftrightarrow> PGROUNDDOWN va = a \<or> vrange (a + PGSIZE) n va" for va
    using vrange_Suc [OF Suc.prems(2) b] .
  have ih: "\<exists>s'. uvmunmap_loop n t p (a + PGSIZE) lim df = Inr s' \<and> mm_frame t s' \<and> as_inv s' p \<and> ptp s' p = ptp t p
    \<and> avail s' = avail t \<union> (if df then freed t p (a + PGSIZE) n else {})
    \<and> (\<forall>va. va39 va \<longrightarrow> lookup (mem s') p va = (if vrange (a + PGSIZE) n va then None else lookup (mem t) p va))
    \<and> (\<forall>q. q \<notin> ptp t p \<and> (df \<longrightarrow> q \<notin> freed t p (a + PGSIZE) n) \<longrightarrow> agree_page (mem t) (mem s') q)"
    if "as_inv t p" for t :: "'a mm_state_scheme"
    using Suc.prems(3,4) nx lim that by (intro Suc.IH) simp_all
  show ?case
  proof (cases "lookup (mem s) p a")
    case None
    obtain s' where s': "uvmunmap_loop n s p (a + PGSIZE) lim df = Inr s'" "mm_frame s s'" "as_inv s' p"
      "ptp s' p = ptp s p" "avail s' = avail s \<union> (if df then freed s p (a + PGSIZE) n else {})"
      "\<And>va. va39 va \<Longrightarrow> lookup (mem s') p va = (if vrange (a + PGSIZE) n va then None else lookup (mem s) p va)"
      "\<And>q. q \<notin> ptp s p \<and> (df \<longrightarrow> q \<notin> freed s p (a + PGSIZE) n) \<Longrightarrow> agree_page (mem s) (mem s') q"
      using ih [OF Suc.prems(1)] by blast
    have pg: "lookup (mem s) p va = None" if "PGROUNDDOWN va = a" for va
      using lookup_page [of va a] that al None by simp
    have fr: "freed s p a (Suc n) = freed s p (a + PGSIZE) n"
    proof -
      have "vrange (a + PGSIZE) n va" if "vrange a (Suc n) va" "uleaf (mem s) p va = Some v" for va v
        using that vr [of va] uleaf_lookup [OF that(2)] pg by auto
      then show ?thesis using vr unfolding freed_def by blast
    qed
    have look: "lookup (mem s') p va = (if vrange a (Suc n) va then None else lookup (mem s) p va)"
      if "va39 va" for va using s'(6) [OF that] vr [of va] pg [of va] by auto
    show ?thesis
      using s' fr look uvmunmap_loop_skip [OF I(1) alim a(1) None]
      by (intro exI [of _ s']) simp
  next
    case (Some v)
    then obtain pte where leaf: "leaf_slot 2 (mem s) p a = Some pte" using lookup_Some_leaf by blast
    obtain s1 s2 where st: "(if df then kfree s (PTE2PA v) else Inr s) = Inr s1"
        "s2 = s1\<lparr>mem := st64 (mem s1) pte 0\<rparr>" "mm_frame s s2" "as_inv s2 p" "ptp s2 p = ptp s p"
        "avail s2 = avail s \<union> (if df then {PTE2PA v} else {})"
        "\<And>va. va39 va \<Longrightarrow> lookup (mem s2) p va = (if PGROUNDDOWN va = a then None else lookup (mem s) p va)"
        "\<And>q. q \<notin> ptp s p \<and> (df \<longrightarrow> q \<noteq> PTE2PA v) \<Longrightarrow> agree_page (mem s) (mem s2) q"
      using unmap_step [OF Suc.prems(1,2) a(1) tf leaf Some] by blast
    obtain s' where s': "uvmunmap_loop n s2 p (a + PGSIZE) lim df = Inr s'" "mm_frame s2 s'" "as_inv s' p"
      "ptp s' p = ptp s2 p" "avail s' = avail s2 \<union> (if df then freed s2 p (a + PGSIZE) n else {})"
      "\<And>va. va39 va \<Longrightarrow> lookup (mem s') p va = (if vrange (a + PGSIZE) n va then None else lookup (mem s2) p va)"
      "\<And>q. q \<notin> ptp s2 p \<and> (df \<longrightarrow> q \<notin> freed s2 p (a + PGSIZE) n) \<Longrightarrow> agree_page (mem s2) (mem s') q"
      using ih [OF st(4)] by blast
    have out: "\<not> vrange (a + PGSIZE) n a" using nx by (simp add: vrange_def)
    have ul: "uleaf (mem s2) p va = (if va = a then None else uleaf (mem s) p va)" for va
      using st(7) [of va] PGROUNDDOWN_idem [of va] al
      by (auto simp: uleaf_def va39_def word_less_nat_alt)
    have fr: "freed s p a (Suc n) = insert (PTE2PA v) (freed s2 p (a + PGSIZE) n)" if df
    proof (intro equalityI subsetI)
      fix q assume "q \<in> freed s p a (Suc n)"
      then obtain va w where q: "vrange a (Suc n) va" "uleaf (mem s) p va = Some w" "q = PTE2PA w"
        by (auto simp: freed_def)
      have "va = a \<or> vrange (a + PGSIZE) n va"
        using vr [of va] q(1) uleaf_lookup [OF q(2)] PGROUNDDOWN_idem [of va] by auto
      then show "q \<in> insert (PTE2PA v) (freed s2 p (a + PGSIZE) n)"
        using q uleaf_lookup [OF q(2)] Some ul [of va] out by (auto simp: freed_def)
    next
      fix q assume "q \<in> insert (PTE2PA v) (freed s2 p (a + PGSIZE) n)"
      then consider "q = PTE2PA v"
        | va w where "vrange (a + PGSIZE) n va" "uleaf (mem s2) p va = Some w" "q = PTE2PA w"
        by (auto simp: freed_def)
      then show "q \<in> freed s p a (Suc n)"
      proof cases
        case 1
        have "uleaf (mem s) p a = Some v" using Some Suc.prems(2) tf that by (simp add: uleaf_def)
        then show ?thesis using 1 vr [of a] al unfolding freed_def by blast
      next
        case 2
        have "uleaf (mem s) p va = Some w" using 2(2) ul [of va] by (auto split: if_splits)
        then show ?thesis using 2 vr [of va] unfolding freed_def by blast
      qed
    qed
    have look: "lookup (mem s') p va = (if vrange a (Suc n) va then None else lookup (mem s) p va)"
      if "va39 va" for va using s'(6) [OF that] st(7) [OF that] vr [of va] by auto
    have ag: "agree_page (mem s) (mem s') q" if "q \<notin> ptp s p \<and> (df \<longrightarrow> q \<notin> freed s p a (Suc n))" for q
      using agree_page_trans [OF st(8) s'(7)] that fr st(5) by auto
    have av: "avail s' = avail s \<union> (if df then freed s p a (Suc n) else {})"
      using s'(5) st(6) fr by auto
    show ?thesis
      using s'(1,3,4) st(2,5) look ag av mm_frame_trans [OF st(3) s'(2)]
        uvmunmap_loop_hit [OF I(1) alim a(1) Some leaf st(1)]
      by (intro exI [of _ s']) simp
  qed
qed

section \<open>Steps of the abstract address space\<close>

text \<open>
  \<open>as_step s p s' f\<close>: the address space at \<open>p\<close> becomes \<open>f\<close>, every page outside the free list and
  \<open>p\<close>'s own pages keeps its contents, no page is lost, and the entries at and above \<open>TRAPFRAME\<close> stay.
\<close>

definition as_total :: "'a mm_state_scheme \<Rightarrow> u64 \<Rightarrow> u64 set" where
  "as_total s p = avail s \<union> ptp s p \<union> upages s p"

definition as_step ::
  "'a mm_state_scheme \<Rightarrow> u64 \<Rightarrow> 'a mm_state_scheme \<Rightarrow> (u64 \<Rightarrow> (u64 \<times> u8 list) option) \<Rightarrow> bool" where
  "as_step s p s' f \<longleftrightarrow> mm_frame s s' \<and> as_inv s' p \<and> as_total s' p = as_total s p
     \<and> (\<forall>q. q \<notin> as_total s p \<longrightarrow> agree_page (mem s) (mem s') q)
     \<and> (\<forall>va. va39 va \<and> TRAPFRAME \<le> va \<longrightarrow> lookup (mem s') p va = lookup (mem s) p va)
     \<and> aspace (mem s') p = f"

lemma as_stepD:
  assumes "as_step s p s' f"
  shows "mm_frame s s'" "as_inv s' p" "as_total s' p = as_total s p"
    "q \<notin> as_total s p \<Longrightarrow> agree_page (mem s) (mem s') q"
    "va39 va \<Longrightarrow> TRAPFRAME \<le> va \<Longrightarrow> lookup (mem s') p va = lookup (mem s) p va"
    "aspace (mem s') p = f"
  using assms unfolding as_step_def by blast+

lemma as_step_refl: "as_inv s p \<Longrightarrow> as_step s p s (aspace (mem s) p)"
  by (simp add: as_step_def)

lemma as_step_trans:
  assumes "as_step s p s1 f" "as_step s1 p s2 g"
  shows "as_step s p s2 g"
proof -
  note a = as_stepD [OF assms(1)] and b = as_stepD [OF assms(2)]
  have "agree_page (mem s) (mem s2) q" if "q \<notin> as_total s p" for q
    using agree_page_trans [OF a(4) b(4)] a(3) that by simp
  then show ?thesis
    using mm_frame_trans [OF a(1) b(1)] a(3,5) b(2,3,5,6) unfolding as_step_def by simp
qed

lemma aspace_None: "aspace m p va = None \<longleftrightarrow> uleaf m p va = None"
  by (simp add: aspace_def)

lemma aspace_eqI:
  assumes "as_inv s p" "uleaf (mem s') p va = uleaf (mem s) p va"
    "\<And>v. uleaf (mem s) p va = Some v \<Longrightarrow> agree_page (mem s) (mem s') (PTE2PA v)"
  shows "aspace (mem s') p va = aspace (mem s) p va"
proof (cases "uleaf (mem s) p va")
  case None
  then show ?thesis using assms(2) by (simp add: aspace_def)
next
  case (Some v)
  have "page_aligned (PTE2PA v)"
    using as_invD(4) [OF assms(1) upagesI [OF Some]] valid_page_aligned by blast
  then show ?thesis
    using Some assms(2) ld_bytes_page_cong [OF assms(3) [OF Some]] by (simp add: aspace_def)
qed

lemma uvmunmap_spec:
  assumes inv: "as_inv s p" and a: "page_aligned a" "unat a + 4096 * unat n \<le> unat TRAPFRAME"
  shows "\<exists>s'. uvmunmap s p a n True = Inr s'
    \<and> as_step s p s' (\<lambda>va. if vrange a (unat n) va then None else aspace (mem s) p va)
    \<and> ptp s' p = ptp s p \<and> avail s' = avail s \<union> freed s p a (unat n)
    \<and> (\<forall>va. va39 va \<longrightarrow> lookup (mem s') p va = (if vrange a (unat n) va then None else lookup (mem s) p va))"
proof -
  let ?n = "unat n"
  have lim: "a + n * PGSIZE = a + of_nat (4096 * ?n)"
    by (simp add: PGSIZE_def mult.commute)
  have "\<exists>s'. uvmunmap_loop ?n s p a (a + n * PGSIZE) True = Inr s' \<and> mm_frame s s' \<and> as_inv s' p \<and> ptp s' p = ptp s p
    \<and> avail s' = avail s \<union> (if True then freed s p a ?n else {})
    \<and> (\<forall>va. va39 va \<longrightarrow> lookup (mem s') p va = (if vrange a ?n va then None else lookup (mem s) p va))
    \<and> (\<forall>q. q \<notin> ptp s p \<and> (True \<longrightarrow> q \<notin> freed s p a ?n) \<longrightarrow> agree_page (mem s) (mem s') q)"
    using assms lim by (intro uvmunmap_loop_spec) simp_all
  then obtain s' where s': "uvmunmap_loop ?n s p a (a + n * PGSIZE) True = Inr s'" "mm_frame s s'"
    "as_inv s' p" "ptp s' p = ptp s p" "avail s' = avail s \<union> freed s p a ?n"
    "\<And>va. va39 va \<Longrightarrow> lookup (mem s') p va = (if vrange a ?n va then None else lookup (mem s) p va)"
    "\<And>q. q \<notin> ptp s p \<Longrightarrow> q \<notin> freed s p a ?n \<Longrightarrow> agree_page (mem s) (mem s') q" by auto
  have ul: "uleaf (mem s') p va = (if vrange a ?n va then None else uleaf (mem s) p va)" for va
    using s'(6) [of va] by (auto simp: uleaf_def va39_def word_less_nat_alt)
  have keep: "PTE2PA v \<notin> freed s p a ?n" if "uleaf (mem s) p va = Some v" "\<not> vrange a ?n va" for va v
    using that as_inv_inj [OF inv that(1)] unfolding freed_def by blast
  have asp: "aspace (mem s') p va = (if vrange a ?n va then None else aspace (mem s) p va)" for va
  proof (cases "vrange a ?n va")
    case True
    then show ?thesis using ul by (simp add: aspace_None)
  next
    case False
    have "aspace (mem s') p va = aspace (mem s) p va"
      using ul [of va] False keep as_invD(2) [OF inv upagesI]
      by (intro aspace_eqI [OF inv] s'(7)) auto
    then show ?thesis using False by simp
  qed
  have "as_total s' p = as_total s p"
  proof -
    have "upages s p \<subseteq> freed s p a ?n \<union> upages s' p"
      using ul unfolding upages_def freed_def by fastforce
    moreover have "upages s' p \<subseteq> upages s p" using ul unfolding upages_def by (auto split: if_splits)
    ultimately show ?thesis using s'(4,5) freed_upages [of s p a ?n] unfolding as_total_def by blast
  qed
  moreover have "vrange a ?n va \<Longrightarrow> \<not> TRAPFRAME \<le> va" for va
    using a(2) by (simp add: vrange_def word_le_nat_alt)
  ultimately have "as_step s p s' (\<lambda>va. if vrange a ?n va then None else aspace (mem s) p va)"
    unfolding as_step_def using s' asp freed_upages [of s p a ?n]
    by (auto simp: fun_eq_iff as_total_def)
  then show ?thesis
    using s'(1,4,5,6) a(1) by (simp add: uvmunmap_def mod_PGSIZE_0 page_aligned_def)
qed

section \<open>Shrinking\<close>

text \<open>\<open>npg sz\<close> is the number of pages \<open>sz\<close> bytes take.\<close>

definition npg :: "u64 \<Rightarrow> nat" where
  "npg sz = (unat sz + 4095) div 4096"

lemma unat_PGROUNDUP_npg: "unat sz \<le> unat TRAPFRAME \<Longrightarrow> unat (PGROUNDUP sz) = 4096 * npg sz"
  by (subst unat_PGROUNDUP) (simp_all add: npg_def)

lemma npg_le: "unat sz \<le> unat TRAPFRAME \<Longrightarrow> 4096 * npg sz \<le> unat TRAPFRAME"
proof -
  assume "unat sz \<le> unat TRAPFRAME"
  then have "npg sz \<le> (274877898752 + 4095) div 4096"
    unfolding npg_def by (intro div_le_mono) simp
  then have "npg sz \<le> 67108862" by simp
  then show ?thesis by simp
qed

lemma scast_ucast_small:
  assumes "unat x < 2147483648"
  shows "(scast (ucast (x :: u64) :: u32) :: u64) = x"
proof -
  have "unat (drop_bit 31 x) = 0" using assms by (simp only: unat_drop_bit_div) simp
  then have "drop_bit 31 x = 0" by (simp only: unat_eq_0)
  then have "\<not> bit (drop_bit 31 x) n" for n by (simp only: bit_0_eq bot_apply) simp
  then have b: "\<not> bit x (31 + n)" for n by (simp only: bit_drop_bit_eq comp_apply) simp
  show ?thesis
  proof (rule bit_word_eqI)
    fix n assume "n < LENGTH(64)"
    then show "bit (scast (ucast x :: u32) :: u64) n = bit x n"
      using b [of "n - 31"] b [of 0] by (auto simp: bit_simps min_def not_less)
  qed
qed

lemma vrange_0 [simp]: "\<not> vrange a 0 va"
  by (simp add: vrange_def)

lemma freed_0 [simp]: "freed s p a 0 = {}"
  by (simp add: freed_def)

lemma uvmdealloc_spec:
  fixes s :: "'a mm_state_scheme" and newsz :: u64
  assumes inv: "as_inv s p" and sz: "unat oldsz \<le> unat TRAPFRAME"
  defines "n \<equiv> npg oldsz - npg newsz"
  shows "\<exists>s'. uvmdealloc s p oldsz newsz = Inr (if newsz \<ge> oldsz then oldsz else newsz, s')
    \<and> as_step s p s' (\<lambda>va. if vrange (PGROUNDUP newsz) n va then None else aspace (mem s) p va)
    \<and> ptp s' p = ptp s p \<and> avail s' = avail s \<union> freed s p (PGROUNDUP newsz) n
    \<and> (\<forall>va. va39 va \<longrightarrow> lookup (mem s') p va
          = (if vrange (PGROUNDUP newsz) n va then None else lookup (mem s) p va))"
proof (cases "newsz \<ge> oldsz")
  case True
  then have "npg oldsz \<le> npg newsz"
    unfolding npg_def by (intro div_le_mono) (simp add: word_le_nat_alt)
  then have "n = 0" by (simp add: n_def)
  then show ?thesis using True as_step_refl [OF inv] by (intro exI [of _ s]) (simp add: uvmdealloc_def)
next
  case False
  then have ns: "unat newsz \<le> unat TRAPFRAME" using sz by (simp add: word_le_nat_alt)
  note up = unat_PGROUNDUP_npg [OF sz] unat_PGROUNDUP_npg [OF ns]
  show ?thesis
  proof (cases "PGROUNDUP newsz < PGROUNDUP oldsz")
    case f: False
    then have "n = 0" using up by (simp add: n_def word_less_nat_alt)
    then show ?thesis
      using False f as_step_refl [OF inv] by (intro exI [of _ s]) (simp add: uvmdealloc_def)
  next
    case True
    let ?np = "(PGROUNDUP oldsz - PGROUNDUP newsz) div PGSIZE"
    have "unat (PGROUNDUP oldsz - PGROUNDUP newsz) = 4096 * npg oldsz - 4096 * npg newsz"
      using True up by (simp add: unat_sub_if' word_less_nat_alt)
    then have np: "unat ?np = n"
      by (simp add: unat_div_distrib n_def flip: diff_mult_distrib2)
    have "n \<le> npg oldsz" by (simp add: n_def)
    then have "n < 2147483648" using npg_le [OF sz] by simp
    then have cast: "scast (ucast ?np :: u32) = ?np" using np by (intro scast_ucast_small) simp
    have al: "page_aligned (PGROUNDUP newsz)" by (simp add: page_aligned_def up)
    have "4096 * npg newsz + 4096 * n = 4096 * npg oldsz"
      using True up by (simp add: n_def word_less_nat_alt)
    then have lim: "unat (PGROUNDUP newsz) + 4096 * unat ?np \<le> unat TRAPFRAME"
      using up(2) np npg_le [OF sz] by simp
    show ?thesis
      using uvmunmap_spec [OF inv al lim] False True cast
      by (auto simp: uvmdealloc_def np)
  qed
qed

section \<open>Mapping a fresh page\<close>

definition perm10 :: "u64 \<Rightarrow> bool" where
  "perm10 perm \<longleftrightarrow> take_bit 10 perm = perm"

lemma user_pte:
  assumes "page_aligned pg" "perm10 perm"
  shows "PTE2PA (PA2PTE pg OR perm OR PTE_V) = pg" "PTE_FLAGS (PA2PTE pg OR perm OR PTE_V) = perm OR PTE_V"
proof -
  have t: "take_bit 10 (perm OR PTE_V) = perm OR PTE_V"
    using assms(2) by (simp add: perm10_def PTE_V_def)
  have "unat (take_bit 10 w) < 1024" for w :: u64
    using take_bit_nat_less_exp [of 10 "unat w"] by (simp add: unsigned_take_bit_eq)
  from this [of "perm OR PTE_V"] have "unat (perm OR PTE_V) < 1024" by (simp only: t)
  from PTE2PA_PA2PTE [OF this] show "PTE2PA (PA2PTE pg OR perm OR PTE_V) = pg"
    using PGROUNDDOWN_idem [OF assms(1)] by (simp add: or.assoc)
  have "PTE_FLAGS (PA2PTE pg OR perm OR PTE_V) = (perm OR PTE_V) AND mask 10"
    using PTE_FLAGS_PA2PTE [of pg "perm OR PTE_V"] by (simp add: or.assoc mask_eq_exp_minus_1)
  then show "PTE_FLAGS (PA2PTE pg OR perm OR PTE_V) = perm OR PTE_V"
    using t by (simp only: take_bit_eq_mask)
qed

text \<open>A page from \<^verbatim>\<open>kalloc\<close>, filled by its new owner.\<close>

lemma fresh_page:
  fixes s :: "'a mm_state_scheme" and m :: memory
  assumes "kmem_inv s" "kalloc s = (pg, s1)" "pg \<noteq> 0" "\<forall>q. q \<noteq> pg \<longrightarrow> agree_page (mem s1) m q"
  defines "s2 \<equiv> s1\<lparr>mem := m\<rparr>"
  shows "kmem_inv s2" "mm_frame s s2" "avail s2 = avail s - {pg}" "pg \<in> avail s" "valid_page s pg"
    "q \<noteq> pg \<Longrightarrow> agree_page (mem s) (mem s2) q"
proof -
  have a: "kmem_inv s1" "pg \<in> avail s" "valid_page s pg" "avail s1 = avail s - {pg}"
      "\<And>q. q \<noteq> pg \<Longrightarrow> agree_page (mem s) (mem s1) q"
    using kmem.alloc_result [OF assms(1,2)] assms(3) by auto
  have "\<forall>q \<in> avail s1. agree_page (mem s1) m q" using assms(4) a(4) by blast
  from kmem_frame [OF a(1) this] show "kmem_inv s2" "avail s2 = avail s - {pg}"
    using a(4) by (simp_all add: s2_def)
  show "mm_frame s s2" using kalloc_mm_frame [OF assms(2)] by (simp add: s2_def)
  show "pg \<in> avail s" "valid_page s pg" by (rule a)+
  show "q \<noteq> pg \<Longrightarrow> agree_page (mem s) (mem s2) q"
    using agree_page_trans [OF a(5)] assms(4) by (simp add: s2_def)
qed

text \<open>\<^verbatim>\<open>mappages\<close> of one page the caller owns.\<close>

lemma map_user_page:
  assumes inv: "as_inv s p" and a: "page_aligned a" "a < TRAPFRAME" "lookup (mem s) p a = None"
    and pg: "valid_page s pg" "pg \<notin> avail s" "pg \<notin> ptp s p" "pg \<notin> upages s p" and perm: "perm10 perm"
  shows "\<exists>r s'. mappages s p a PGSIZE pg perm = Inr (r, s') \<and> pt_ext s p s' \<and> as_inv s' p
    \<and> (r = 0 \<and> (\<forall>va. va39 va \<longrightarrow> lookup (mem s') p va
          = (if PGROUNDDOWN va = a then Some (PA2PTE pg OR perm OR PTE_V) else lookup (mem s) p va))
       \<or> r = -1 \<and> avail s' = {} \<and> (\<forall>va. va39 va \<longrightarrow> lookup (mem s') p va = lookup (mem s) p va))"
proof -
  let ?v = "PA2PTE pg OR perm OR PTE_V"
  note I = as_invD [OF inv]
  have b: "unat a + 4096 < 18446744073709551616" "unat a + 4096 * 1 \<le> unat MAXVA"
    using a(1,2) page_aligned_max [OF a(1)] by (simp_all add: word_less_nat_alt)
  have vr: "vrange a 1 va \<longleftrightarrow> PGROUNDDOWN va = a" for va
    using vrange_Suc [OF a(1) b(1), of 0 va] by simp
  have al: "PGROUNDDOWN a = a" using a(1) by (rule PGROUNDDOWN_idem)
  have none: "lookup (mem s) p va = None" if "vrange a 1 va" for va
    using that vr lookup_page [of va a] al a(3) by simp
  have "\<exists>r s' k. mappages_loop 1 s p a a pg perm = Inr (r, s') \<and> pt_ext s p s'
    \<and> (\<forall>va. va39 va \<longrightarrow> lookup (mem s') p va
         = (if vrange a k va then Some (map_entry a pg perm va) else lookup (mem s) p va))
    \<and> (r = 0 \<and> k = 1 \<or> r = -1 \<and> k < 1 \<and> avail s' = {})"
    using mappages_loop_spec [OF I(1) a(1) b(2), of a pg perm] none by simp
  then obtain r s' k where r: "mappages_loop 1 s p a a pg perm = Inr (r, s')" and ext: "pt_ext s p s'"
    and look: "\<And>va. va39 va \<Longrightarrow> lookup (mem s') p va
         = (if vrange a k va then Some (map_entry a pg perm va) else lookup (mem s) p va)"
    and rk: "r = 0 \<and> k = 1 \<or> r = -1 \<and> k = 0 \<and> avail s' = {}" by auto
  note E = pt_extD [OF ext]
  have eq: "mappages s p a PGSIZE pg perm = Inr (r, s')"
  proof -
    have "a mod PGSIZE = 0" using a(1) by (simp add: mod_PGSIZE_0 page_aligned_def)
    moreover have "PGSIZE \<noteq> 0" "unat PGSIZE div 4096 = 1" "a + PGSIZE - PGSIZE = a"
      by (simp_all add: PGSIZE_def)
    ultimately show ?thesis using r by (simp add: mappages_def del: One_nat_def mappages_loop.simps)
  qed
  have entry: "map_entry a pg perm va = ?v" if "PGROUNDDOWN va = a" for va
    using that by (simp add: map_entry_def)
  have look': "lookup (mem s') p va = (if r = 0 \<and> PGROUNDDOWN va = a then Some ?v else lookup (mem s) p va)"
    if "va39 va" for va using look [OF that] rk vr [of va] entry [of va] by auto
  have al_pg: "page_aligned pg" using pg(1) by (rule valid_page_aligned)
  have ul: "uleaf (mem s') p va = (if r = 0 \<and> va = a then Some ?v else uleaf (mem s) p va)" for va
    using look' [of va] PGROUNDDOWN_idem [of va] a(1,2) al
    by (auto simp: uleaf_def va39_def word_less_nat_alt)
  have up: "upages s' p \<subseteq> insert pg (upages s p)"
    using ul user_pte(1) [OF al_pg perm] unfolding upages_def by (fastforce split: if_splits)
  have "as_inv s' p"
  proof (rule as_invI [OF E(2)])
    fix q assume "q \<in> upages s' p"
    then have q: "q = pg \<or> q \<in> upages s p" using up by blast
    show "q \<notin> ptp s' p" using q E(4) pg(2,3) I(2,3) by blast
    show "q \<notin> avail s'" using q E(5) pg(2) I(3) by blast
    show "valid_page s' q" using q pg(1) I(4) mm_frame_valid [OF E(1)] by auto
  next
    fix va va' v v'
    assume u: "uleaf (mem s') p va = Some v" "uleaf (mem s') p va' = Some v'" "PTE2PA v = PTE2PA v'"
    show "va = va'"
      using u ul [of va] ul [of va'] user_pte(1) [OF al_pg perm] pg(4)
        upagesI [of s p va v] upagesI [of s p va' v'] as_inv_inj [OF inv]
      by (metis option.inject)
  qed
  then show ?thesis using eq ext rk look' by (intro exI [of _ r] exI [of _ s']) auto
qed

lemma pt_ext_aspace:
  assumes inv: "as_inv s p" and ext: "pt_ext s p s'" and u: "uleaf (mem s') p va = uleaf (mem s) p va"
  shows "aspace (mem s') p va = aspace (mem s) p va"
proof (rule aspace_eqI [OF inv u])
  fix v assume "uleaf (mem s) p va = Some v"
  then have "PTE2PA v \<in> upages s p" by (rule upagesI)
  then have "PTE2PA v \<notin> ptp s' p" using pt_extD(4) [OF ext] as_invD(2,3) [OF inv] by blast
  then show "agree_page (mem s) (mem s') (PTE2PA v)" by (rule pt_extD(6) [OF ext])
qed

lemma upages_upd:
  assumes "\<And>va. uleaf (mem s') p va = (if va = a then Some v else uleaf (mem s) p va)"
    "uleaf (mem s) p a = None"
  shows "upages s' p = insert (PTE2PA v) (upages s p)"
proof (intro equalityI subsetI)
  fix q assume "q \<in> upages s' p"
  then obtain va w where q: "uleaf (mem s') p va = Some w" "q = PTE2PA w" by (auto simp: upages_def)
  then show "q \<in> insert (PTE2PA v) (upages s p)"
    using assms(1) [of va] upagesI [of s p va w] by (auto split: if_splits)
next
  fix q assume "q \<in> insert (PTE2PA v) (upages s p)"
  then consider "q = PTE2PA v" | va w where "uleaf (mem s) p va = Some w" "q = PTE2PA w"
    by (auto simp: upages_def)
  then show "q \<in> upages s' p"
  proof cases
    case 1
    then show ?thesis using assms(1) [of a] upagesI [of s' p a v] by simp
  next
    case 2
    then have "va \<noteq> a" using assms(2) by auto
    then show ?thesis using 2 assms(1) [of va] upagesI [of s' p va w] by simp
  qed
qed

text \<open>
  The common step of \<^verbatim>\<open>uvmalloc\<close> and \<^verbatim>\<open>uvmcopy\<close>: take a page, fill it with \<open>m\<close>, map it at \<open>a\<close>, and
  give it back when the tables cannot be extended.
\<close>

lemma alloc_map_page:
  fixes s :: "'a mm_state_scheme" and m :: memory
  assumes inv: "as_inv s p" and a: "page_aligned a" "a < TRAPFRAME" "uleaf (mem s) p a = None"
    and k: "kalloc s = (pg, s1)" "pg \<noteq> 0" "\<forall>q. q \<noteq> pg \<longrightarrow> agree_page (mem s1) m q" and perm: "perm10 perm"
  defines "s2 \<equiv> s1\<lparr>mem := m\<rparr>"
  shows "\<exists>r s3. mappages s2 p a PGSIZE pg perm = Inr (r, s3)
    \<and> (r = 0 \<and> as_step s p s3 ((aspace (mem s) p)(a \<mapsto> (perm OR PTE_V, ld_bytes m pg 4096)))
         \<and> card (avail s) \<le> card (avail s3) + 3
       \<or> r = -1 \<and> card (avail s) < 3 \<and> (\<exists>s4. kfree s3 pg = Inr s4 \<and> as_step s p s4 (aspace (mem s) p)))"
proof -
  let ?v = "PA2PTE pg OR perm OR PTE_V"
  note I = as_invD [OF inv]
  note F = fresh_page [OF I(5) k, folded s2_def]
  have al_pg: "page_aligned pg" using F(5) by (rule valid_page_aligned)
  have pg_out: "pg \<notin> ptp s p" "pg \<notin> upages s p" using F(4) I(3,6) by blast+
  have "\<forall>q \<in> ptp s p \<union> upages s p. agree_page (mem s) (mem s2) q \<and> q \<notin> avail s2"
  proof
    fix q assume q: "q \<in> ptp s p \<union> upages s p"
    then have "q \<noteq> pg" "q \<notin> avail s" using pg_out I(3,6) by blast+
    then show "agree_page (mem s) (mem s2) q \<and> q \<notin> avail s2" using F(3,6) by blast
  qed
  note S2 = as_frame [OF inv F(1,2) this]
  have none: "lookup (mem s2) p a = None" using S2(4) a by (simp add: uleaf_def)
  have pg2: "valid_page s2 pg" "pg \<notin> avail s2" "pg \<notin> ptp s2 p" "pg \<notin> upages s2 p"
    using F(3,5) mm_frame_valid [OF F(2)] pg_out S2(2,3) by simp_all
  obtain r s3 where M: "mappages s2 p a PGSIZE pg perm = Inr (r, s3)" "pt_ext s2 p s3" "as_inv s3 p"
    and R: "r = 0 \<and> (\<forall>va. va39 va \<longrightarrow> lookup (mem s3) p va
          = (if PGROUNDDOWN va = a then Some ?v else lookup (mem s2) p va))
       \<or> r = -1 \<and> avail s3 = {} \<and> (\<forall>va. va39 va \<longrightarrow> lookup (mem s3) p va = lookup (mem s2) p va)"
    using map_user_page [OF S2(1) a(1,2) none pg2 perm] by blast
  note E = pt_extD [OF M(2)]
  have "a < MAXVA" using a(2) by (simp add: word_less_nat_alt)
  note cnt = mappages_count [OF as_invD(1) [OF S2(1)] a(1) this M(1)]
  have "card (avail s) = Suc (card (avail s2))" using F(3) card.remove [OF finite_avail F(4)] by simp
  then have cnt3: "card (avail s) \<le> card (avail s3) + 3" "r \<noteq> 0 \<Longrightarrow> card (avail s) < 3" using cnt by auto
  have pg3: "pg \<notin> ptp s3 p" "pg \<notin> avail s3" using E(4,5) pg2 by blast+
  have tot2: "avail s3 \<union> ptp s3 p \<union> insert pg (upages s p) = as_total s p"
    using E(3,4,5) S2(2) F(3,4) unfolding as_total_def by blast
  have fr: "mm_frame s s3" using mm_frame_trans [OF F(2) E(1)] .
  have ag: "agree_page (mem s) (mem s3) q" if "q \<notin> as_total s p" for q
    using that tot2 agree_page_trans [OF F(6) E(6)] by blast
  from R show ?thesis
  proof
    assume R0: "r = 0 \<and> (\<forall>va. va39 va \<longrightarrow> lookup (mem s3) p va
          = (if PGROUNDDOWN va = a then Some ?v else lookup (mem s2) p va))"
    have look: "lookup (mem s3) p va = (if PGROUNDDOWN va = a then Some ?v else lookup (mem s) p va)"
      if "va39 va" for va using R0 that S2(4) by simp
    have ul: "uleaf (mem s3) p va = (if va = a then Some ?v else uleaf (mem s) p va)" for va
      using look [of va] PGROUNDDOWN_idem [of va] PGROUNDDOWN_idem [OF a(1)] a(1,2)
      by (auto simp: uleaf_def va39_def word_less_nat_alt)
    have up: "upages s3 p = insert pg (upages s p)"
      using upages_upd [OF ul a(3)] user_pte(1) [OF al_pg perm] by simp
    have ul2: "uleaf (mem s2) p va = uleaf (mem s) p va" for va using S2(4) by (simp add: uleaf_def)
    have bytes: "ld_bytes (mem s3) pg 4096 = ld_bytes m pg 4096"
      using ld_bytes_page_cong [OF E(6) [OF pg3(1)] al_pg] by (simp add: s2_def)
    have "aspace (mem s3) p va = ((aspace (mem s) p)(a \<mapsto> (perm OR PTE_V, ld_bytes m pg 4096))) va" for va
    proof (cases "va = a")
      case True
      then show ?thesis using ul user_pte [OF al_pg perm] bytes by (simp add: aspace_def)
    next
      case False
      then have "uleaf (mem s3) p va = uleaf (mem s2) p va" using ul [of va] ul2 [of va] by metis
      then have "aspace (mem s3) p va = aspace (mem s2) p va" by (rule pt_ext_aspace [OF S2(1) M(2)])
      then show ?thesis using False S2(5) by simp
    qed
    moreover have "lookup (mem s3) p va = lookup (mem s) p va" if "va39 va" "TRAPFRAME \<le> va" for va
    proof -
      have "unat a + 4096 \<le> unat TRAPFRAME"
      proof -
        obtain k where k: "unat a = 4096 * k" using a(1) unfolding page_aligned_def by (auto simp: mod_eq_0_iff_dvd)
        have "4096 * k < 4096 * 67108862" using a(2) k by (simp add: word_less_nat_alt)
        then show ?thesis using k by simp
      qed
      moreover have "unat (PGROUNDDOWN va) \<ge> unat TRAPFRAME"
      proof -
        have "unat TRAPFRAME div 4096 \<le> unat va div 4096" using that(2) by (intro div_le_mono) (simp add: word_le_nat_alt)
        then show ?thesis by (simp add: unat_PGROUNDDOWN)
      qed
      ultimately have "PGROUNDDOWN va \<noteq> a" by auto
      then show ?thesis using look [OF that(1)] by simp
    qed
    ultimately have "as_step s p s3 ((aspace (mem s) p)(a \<mapsto> (perm OR PTE_V, ld_bytes m pg 4096)))"
      using fr M(3) tot2 up ag unfolding as_step_def as_total_def by (auto simp: fun_eq_iff)
    then show ?thesis using M(1) R0 cnt3(1) by blast
  next
    assume R1: "r = -1 \<and> avail s3 = {} \<and> (\<forall>va. va39 va \<longrightarrow> lookup (mem s3) p va = lookup (mem s2) p va)"
    have look: "lookup (mem s3) p va = lookup (mem s) p va" if "va39 va" for va using R1 that S2(4) by simp
    have ul: "uleaf (mem s3) p = uleaf (mem s) p" "uleaf (mem s2) p = uleaf (mem s) p"
      using look S2(4) by (auto simp: uleaf_def va39_def word_less_nat_alt fun_eq_iff)
    then have up: "upages s3 p = upages s p" by (simp add: upages_def)
    have asp: "aspace (mem s3) p = aspace (mem s) p"
      using pt_ext_aspace [OF S2(1) M(2)] ul S2(5) by (simp add: fun_eq_iff)
    have v3: "valid_page s3 pg" using F(5) mm_frame_valid [OF fr] by simp
    obtain s4 where s4: "kfree s3 pg = Inr s4" "kmem_inv s4" "avail s4 = insert pg (avail s3)"
      "\<And>q. q \<noteq> pg \<Longrightarrow> agree_page (mem s3) (mem s4) q"
      using kmem.free_page [OF as_invD(5) [OF M(3)] v3 pg3(2)] by blast
    have "\<forall>q \<in> ptp s3 p \<union> upages s3 p. agree_page (mem s3) (mem s4) q \<and> q \<notin> avail s4"
    proof
      fix q assume q: "q \<in> ptp s3 p \<union> upages s3 p"
      then have "q \<noteq> pg" using pg3(1) pg_out up by blast
      then show "agree_page (mem s3) (mem s4) q \<and> q \<notin> avail s4"
        using s4(3,4) q as_invD(3,6) [OF M(3)] by blast
    qed
    note S4 = as_frame [OF M(3) s4(2) kfree_mm_frame [OF s4(1)] this]
    have "agree_page (mem s) (mem s4) q" if "q \<notin> as_total s p" for q
      using that tot2 agree_page_trans [OF ag s4(4)] by blast
    moreover have "as_total s4 p = as_total s p" using tot2 S4(2,3) s4(3) up unfolding as_total_def by blast
    ultimately have "as_step s p s4 (aspace (mem s) p)"
      using mm_frame_trans [OF fr kfree_mm_frame [OF s4(1)]] S4 asp look unfolding as_step_def by simp
    then show ?thesis using M(1) R1 s4(1) cnt3(2) by auto
  qed
qed

section \<open>Growing\<close>

lemma PGROUNDUP_aligned:
  assumes "page_aligned a" "unat a \<le> unat TRAPFRAME"
  shows "PGROUNDUP a = a" "4096 * npg a = unat a"
proof -
  obtain k where k: "unat a = 4096 * k"
    using assms(1) unfolding page_aligned_def by (auto simp: mod_eq_0_iff_dvd)
  then show n: "4096 * npg a = unat a" by (simp add: npg_def)
  then show "PGROUNDUP a = a" using unat_PGROUNDUP_npg [OF assms(2)] by (simp add: word_eq_of_unat)
qed

lemma uvmdealloc_aligned:
  assumes inv: "as_inv s p" and a: "page_aligned a" "page_aligned old" "old \<le> a" "unat a \<le> unat TRAPFRAME"
  shows "\<exists>x s'. uvmdealloc s p a old = Inr (x, s')
    \<and> as_step s p s' (\<lambda>va. if old \<le> va \<and> va < a then None else aspace (mem s) p va)"
proof -
  have old: "unat old \<le> unat TRAPFRAME" using a(3,4) by (simp add: word_le_nat_alt)
  note A = PGROUNDUP_aligned [OF a(1,4)] and O' = PGROUNDUP_aligned [OF a(2) old]
  have "4096 * (npg a - npg old) = unat a - unat old" using A(2) O'(2) by (simp add: diff_mult_distrib2)
  moreover have "unat old \<le> unat a" using a(3) by (simp add: word_le_nat_alt)
  ultimately have "vrange (PGROUNDUP old) (npg a - npg old) va \<longleftrightarrow> old \<le> va \<and> va < a" for va
    by (simp add: vrange_def O'(1) word_le_nat_alt word_less_nat_alt)
  then show ?thesis using uvmdealloc_spec [OF inv a(4), of old] by auto
qed

lemma ld_bytes_zero:
  assumes "page_aligned pg"
  shows "ld_bytes (memset m pg 0 4096) pg 4096 = replicate 4096 0"
proof (rule list_eq_nthI)
  fix i assume "i < length (ld_bytes (memset m pg 0 4096) pg 4096)"
  then have i: "i < 4096" by simp
  then have "PGROUNDDOWN (pg + of_nat i) = pg"
    using assms by (intro PGROUNDDOWN_off) (simp_all add: unat_of_nat)
  then show "ld_bytes (memset m pg 0 4096) pg 4096 ! i = replicate 4096 0 ! i"
    using i assms by (simp add: memset_page_apply)
qed simp

lemma perm10_user: "perm10 xperm \<Longrightarrow> perm10 (PTE_R OR PTE_U OR xperm)"
  by (simp add: perm10_def PTE_R_def PTE_U_def)

lemma next_page_le:
  assumes "page_aligned a" "a < TRAPFRAME"
  shows "unat (a + PGSIZE) = unat a + 4096" "page_aligned (a + PGSIZE)" "unat a + 4096 \<le> unat TRAPFRAME"
proof -
  obtain k where k: "unat a = 4096 * k"
    using assms(1) unfolding page_aligned_def by (auto simp: mod_eq_0_iff_dvd)
  have "4096 * k < 4096 * 67108862" using assms(2) k by (simp add: word_less_nat_alt)
  then show le: "unat a + 4096 \<le> unat TRAPFRAME" using k by simp
  then show "unat (a + PGSIZE) = unat a + 4096" "page_aligned (a + PGSIZE)"
    using assms(1) by (intro page_aligned_next; simp)+
qed

text \<open>Pages at or after the next one are those strictly above the page itself.\<close>

lemma next_page_iff:
  assumes "page_aligned a" "a < TRAPFRAME" "page_aligned va"
  shows "a + PGSIZE \<le> va \<longleftrightarrow> a < va"
proof -
  obtain k j where k: "unat a = 4096 * k" "unat va = 4096 * j"
    using assms(1,3) unfolding page_aligned_def by (auto simp: mod_eq_0_iff_dvd elim!: dvdE)
  then show ?thesis using next_page_le(1) [OF assms(1,2)] by (simp add: word_le_nat_alt word_less_nat_alt) linarith
qed

lemma aspace_unaligned: "\<not> page_aligned va \<Longrightarrow> aspace m p va = None"
  by (simp add: aspace_None uleaf_def)

lemma no_growth:
  assumes "\<not> a < (newsz :: u64)"
  shows "(\<lambda>va. if page_aligned va \<and> a \<le> va \<and> va < newsz then X else f va) = f"
proof
  fix va
  have "\<not> (a \<le> va \<and> va < newsz)" using assms le_less_trans by blast
  then show "(if page_aligned va \<and> a \<le> va \<and> va < newsz then X else f va) = f va" by auto
qed

lemma uvmalloc_loop_spec:
  assumes "as_inv s p" "page_aligned a" "page_aligned old" "old \<le> a" "unat newsz \<le> unat TRAPFRAME"
    "perm10 xperm" "\<And>va. a \<le> va \<Longrightarrow> va < newsz \<Longrightarrow> aspace (mem s) p va = None"
    "unat newsz \<le> unat a + 4096 * n"
  shows "\<exists>r s'. uvmalloc_loop n s p a old newsz xperm = Inr (r, s')
    \<and> (r = newsz \<and> as_step s p s' (\<lambda>va. if page_aligned va \<and> a \<le> va \<and> va < newsz
           then Some ((PTE_R OR PTE_U OR xperm) OR PTE_V, replicate 4096 0) else aspace (mem s) p va)
       \<or> r = 0 \<and> a < newsz \<and> as_step s p s' (\<lambda>va. if old \<le> va \<and> va < a then None else aspace (mem s) p va)
         \<and> (\<forall>k. unat newsz \<le> unat a + 4096 * k \<longrightarrow> card (avail s) < 3 * k))"
  using assms
proof (induction n arbitrary: s a)
  case 0
  then have "\<not> a < newsz" by (simp add: word_less_nat_alt)
  then show ?case using as_step_refl [OF 0(1)] by (simp add: no_growth)
next
  case (Suc n)
  show ?case
  proof (cases "a < newsz")
    case False
    then show ?thesis using as_step_refl [OF Suc.prems(1)] by (simp add: no_growth)
  next
    case True
    let ?perm = "PTE_R OR PTE_U OR xperm" and ?z = "replicate 4096 (0 :: u8)"
    have a_tf: "a < TRAPFRAME" "unat a \<le> unat TRAPFRAME"
      using True Suc.prems(5) by (simp_all add: word_less_nat_alt)
    note nx = next_page_le [OF Suc.prems(2) a_tf(1)]
    have un: "uleaf (mem s) p a = None" using Suc.prems(7) [of a] True by (simp add: aspace_None)
    have k0: "0 < k" if "unat newsz \<le> unat a + 4096 * k" for k
      using that True by (cases k) (simp_all add: word_less_nat_alt)
    obtain pg s1 where k: "kalloc s = (pg, s1)" by (cases "kalloc s")
    show ?thesis
    proof (cases "pg = 0")
      case pg0: True
      have "s1 = s" using kmem.alloc_result [OF as_invD(5) [OF Suc.prems(1)] k] pg0 by simp
      then have "uvmalloc_loop (Suc n) s p a old newsz xperm
          = rbind (uvmdealloc s p a old) (\<lambda>(_, s). Inr (0, s))" using True k pg0 by simp
      moreover have "card (avail s) = 0"
        using kmem.alloc_result [OF as_invD(5) [OF Suc.prems(1)] k] pg0 by simp
      ultimately show ?thesis
        using uvmdealloc_aligned [OF Suc.prems(1-4) a_tf(2)] True k0 by auto
    next
      case False
      have vp: "page_aligned pg"
        using kmem.alloc_result [OF as_invD(5) [OF Suc.prems(1)] k] False valid_page_aligned by auto
      let ?m = "memset (mem s1) pg 0 4096" and ?s2 = "s1\<lparr>mem := memset (mem s1) pg 0 4096\<rparr>"
      have ag: "\<forall>q. q \<noteq> pg \<longrightarrow> agree_page (mem s1) ?m q"
        using agree_page_sym [OF agree_page_memset [OF vp]] by auto
      obtain r s3 where M: "mappages ?s2 p a PGSIZE pg ?perm = Inr (r, s3)"
        "r = 0 \<and> as_step s p s3 ((aspace (mem s) p)(a \<mapsto> (?perm OR PTE_V, ld_bytes ?m pg 4096)))
           \<and> card (avail s) \<le> card (avail s3) + 3
         \<or> r = -1 \<and> card (avail s) < 3 \<and> (\<exists>s4. kfree s3 pg = Inr s4 \<and> as_step s p s4 (aspace (mem s) p))"
        using alloc_map_page [OF Suc.prems(1,2) a_tf(1) un k False ag perm10_user [OF Suc.prems(6)]] by blast
      from M(2) show ?thesis
      proof
        assume r0: "r = 0 \<and> as_step s p s3 ((aspace (mem s) p)(a \<mapsto> (?perm OR PTE_V, ld_bytes ?m pg 4096)))
           \<and> card (avail s) \<le> card (avail s3) + 3"
        have as3: "aspace (mem s3) p = (aspace (mem s) p)(a \<mapsto> (?perm OR PTE_V, ?z))"
          using as_stepD(6) r0 ld_bytes_zero [OF vp] by metis
        have st: "as_step s p s3 (aspace (mem s3) p)" using r0 as_stepD(6) by metis
        have loop: "uvmalloc_loop (Suc n) s p a old newsz xperm = uvmalloc_loop n s3 p (a + PGSIZE) old newsz xperm"
          using True k False M(1) r0 by (simp add: Let_def)
        have "\<exists>r s'. uvmalloc_loop n s3 p (a + PGSIZE) old newsz xperm = Inr (r, s')
          \<and> (r = newsz \<and> as_step s3 p s' (\<lambda>va. if page_aligned va \<and> a + PGSIZE \<le> va \<and> va < newsz
               then Some (?perm OR PTE_V, ?z) else aspace (mem s3) p va)
             \<or> r = 0 \<and> a + PGSIZE < newsz
               \<and> as_step s3 p s' (\<lambda>va. if old \<le> va \<and> va < a + PGSIZE then None else aspace (mem s3) p va)
               \<and> (\<forall>k. unat newsz \<le> unat (a + PGSIZE) + 4096 * k \<longrightarrow> card (avail s3) < 3 * k))"
        proof (rule Suc.IH)
          show "old \<le> a + PGSIZE" using Suc.prems(4) nx(1) by (simp add: word_le_nat_alt)
          show "unat newsz \<le> unat (a + PGSIZE) + 4096 * n" using Suc.prems(8) nx(1) by simp
          show "aspace (mem s3) p va = None" if "a + PGSIZE \<le> va" "va < newsz" for va
            using that Suc.prems(7) [of va] as3 nx(1) by (auto simp: word_le_nat_alt)
        qed (use as_stepD(2) [OF st] nx(2) Suc.prems in simp_all)
        then obtain r' s' where R: "uvmalloc_loop n s3 p (a + PGSIZE) old newsz xperm = Inr (r', s')"
          "r' = newsz \<and> as_step s3 p s' (\<lambda>va. if page_aligned va \<and> a + PGSIZE \<le> va \<and> va < newsz
               then Some (?perm OR PTE_V, ?z) else aspace (mem s3) p va)
             \<or> r' = 0 \<and> as_step s3 p s' (\<lambda>va. if old \<le> va \<and> va < a + PGSIZE then None else aspace (mem s3) p va)
               \<and> (\<forall>k. unat newsz \<le> unat (a + PGSIZE) + 4096 * k \<longrightarrow> card (avail s3) < 3 * k)"
          by blast
        have cnt: "card (avail s) < 3 * k" if "unat newsz \<le> unat a + 4096 * k"
          "\<forall>k. unat newsz \<le> unat (a + PGSIZE) + 4096 * k \<longrightarrow> card (avail s3) < 3 * k" for k
          using that(1) k0 [OF that(1)] spec [OF that(2), of "k - 1"] r0 nx(1) by (cases k) auto
        have nle: "a + PGSIZE \<le> va \<longleftrightarrow> a < va" if "page_aligned va" for va
          using next_page_iff [OF Suc.prems(2) a_tf(1) that] .
        have eq1: "(\<lambda>va. if page_aligned va \<and> a + PGSIZE \<le> va \<and> va < newsz
               then Some (?perm OR PTE_V, ?z) else aspace (mem s3) p va)
          = (\<lambda>va. if page_aligned va \<and> a \<le> va \<and> va < newsz
               then Some (?perm OR PTE_V, ?z) else aspace (mem s) p va)"
          using nle True Suc.prems(2) as3 by (auto simp: fun_eq_iff order.order_iff_strict)
        have eq2: "(\<lambda>va. if old \<le> va \<and> va < a + PGSIZE then None else aspace (mem s3) p va)
          = (\<lambda>va. if old \<le> va \<and> va < a then None else aspace (mem s) p va)"
        proof (rule ext)
          fix va
          show "(if old \<le> va \<and> va < a + PGSIZE then None else aspace (mem s3) p va)
            = (if old \<le> va \<and> va < a then None else aspace (mem s) p va)"
          proof (cases "page_aligned va")
            case al: True
            have lt: "va < a + PGSIZE \<longleftrightarrow> va \<le> a" using nle [OF al] by (metis not_le)
            have "aspace (mem s) p a = None" using un by (simp add: aspace_None)
            then show ?thesis
              using lt as3 Suc.prems(4) by (cases "va = a") (auto simp: order.order_iff_strict)
          qed (simp add: aspace_unaligned)
        qed
        from R(2) show ?thesis
          using loop R(1) as_step_trans [OF st] eq1 eq2 True cnt by auto
      next
        assume r1: "r = -1 \<and> card (avail s) < 3 \<and> (\<exists>s4. kfree s3 pg = Inr s4 \<and> as_step s p s4 (aspace (mem s) p))"
        then obtain s4 where s4: "kfree s3 pg = Inr s4" "as_step s p s4 (aspace (mem s) p)" by blast
        have "uvmalloc_loop (Suc n) s p a old newsz xperm
            = rbind (uvmdealloc s4 p a old) (\<lambda>(_, s). Inr (0, s))"
          using True k False M(1) r1 s4(1) by (simp add: Let_def)
        moreover obtain x s5 where s5: "uvmdealloc s4 p a old = Inr (x, s5)"
          "as_step s4 p s5 (\<lambda>va. if old \<le> va \<and> va < a then None else aspace (mem s4) p va)"
          using uvmdealloc_aligned [OF as_stepD(2) [OF s4(2)] Suc.prems(2-4) a_tf(2)] by blast
        moreover have "as_step s p s5 (\<lambda>va. if old \<le> va \<and> va < a then None else aspace (mem s) p va)"
          using as_step_trans [OF s4(2) s5(2)] unfolding as_stepD(6) [OF s4(2)] .
        moreover have "card (avail s) < 3 * k" if "unat newsz \<le> unat a + 4096 * k" for k
          using r1 k0 [OF that] by (cases k) auto
        ultimately show ?thesis using True by (intro exI [of _ 0] exI [of _ s5]) simp
      qed
    qed
  qed
qed

lemma uvmalloc_spec:
  assumes inv: "as_inv s p" and sz: "oldsz \<le> newsz" "unat newsz \<le> unat TRAPFRAME" and perm: "perm10 xperm"
    and new: "\<And>va. PGROUNDUP oldsz \<le> va \<Longrightarrow> va < newsz \<Longrightarrow> aspace (mem s) p va = None"
  shows "\<exists>r s'. uvmalloc s p oldsz newsz xperm = Inr (r, s')
    \<and> (r = newsz \<and> as_step s p s' (\<lambda>va. if page_aligned va \<and> PGROUNDUP oldsz \<le> va \<and> va < newsz
           then Some ((PTE_R OR PTE_U OR xperm) OR PTE_V, replicate 4096 0) else aspace (mem s) p va)
       \<or> r = 0 \<and> as_step s p s' (aspace (mem s) p) \<and> card (avail s) < 3 * (npg newsz - npg oldsz))"
proof -
  have os: "unat oldsz \<le> unat TRAPFRAME" using sz by (simp add: word_le_nat_alt)
  have al: "page_aligned (PGROUNDUP oldsz)"
    using unat_PGROUNDUP_npg [OF os] by (simp add: page_aligned_def)
  have fuel: "unat newsz \<le> unat (PGROUNDUP oldsz) + 4096 * (unat newsz div 4096 + 1)"
    using div_mult_mod_eq [of "unat newsz" 4096] by simp
  have eq: "(\<lambda>va. if PGROUNDUP oldsz \<le> va \<and> va < PGROUNDUP oldsz then None else aspace (mem s) p va)
      = aspace (mem s) p" by (auto simp: fun_eq_iff)
  have "uvmalloc s p oldsz newsz xperm
      = uvmalloc_loop (unat newsz div 4096 + 1) s p (PGROUNDUP oldsz) (PGROUNDUP oldsz) newsz xperm"
    using sz(1) by (simp only: uvmalloc_def Let_def not_less [symmetric] if_False)
  moreover have "unat newsz \<le> unat (PGROUNDUP oldsz) + 4096 * (npg newsz - npg oldsz)"
  proof -
    have "npg oldsz \<le> npg newsz" using sz(1) by (simp add: npg_def word_le_nat_alt div_le_mono)
    moreover have "unat newsz \<le> 4096 * npg newsz"
      using div_mult_mod_eq [of "unat newsz + 4095" 4096] mod_less_divisor [of 4096 "unat newsz + 4095"]
      unfolding npg_def by linarith
    ultimately show ?thesis using unat_PGROUNDUP_npg [OF os] by (simp add: diff_mult_distrib2)
  qed
  ultimately show ?thesis
    using uvmalloc_loop_spec [OF inv al al order.refl sz(2) perm new fuel] unfolding eq by auto
qed

section \<open>Copying an address space\<close>

lemma aligned_distance:
  assumes "page_aligned d" "page_aligned s" "d \<noteq> s"
  shows "4096 \<le> unat (d - s)"
proof -
  have "PGROUNDDOWN d \<noteq> s" using assms PGROUNDDOWN_idem by metis
  then have "\<not> unat (d - s) < 4096" using in_page_iff [OF assms(2)] by blast
  then show ?thesis by simp
qed

lemma memmove_page:
  assumes "page_aligned d" "page_aligned s" "d \<noteq> s"
  shows "q \<noteq> d \<Longrightarrow> agree_page m (memmove m d s 4096) q"
    "ld_bytes (memmove m d s 4096) d 4096 = ld_bytes m s 4096"
proof -
  have "\<not> (s < d \<and> s + 4096 > d)"
  proof
    assume lt: "s < d \<and> s + 4096 > d"
    have "unat (d - s) = unat d - unat s" using lt by (simp add: unat_sub_if' word_less_nat_alt)
    then have "unat s + 4096 \<le> unat d" using aligned_distance [OF assms] by linarith
    moreover from this have "unat (s + 4096) = unat s + 4096"
      using unat_lt64 [of d] by (subst unat_add_nowrap) simp_all
    ultimately show False using lt by (simp add: word_less_nat_alt)
  qed
  then have "memmove m d s 4096 = copy_up 4096 m d s" by (auto simp: memmove_def)
  also have "\<dots> = move_spec m d s 4096"
    using aligned_distance [OF assms] by (intro copy_up_spec) simp_all
  finally have eq: "memmove m d s 4096 = move_spec m d s 4096" .
  show "q \<noteq> d \<Longrightarrow> agree_page m (memmove m d s 4096) q"
    unfolding eq using in_page_iff [OF assms(1)] by (auto simp: agree_page_def move_spec_def)
  show "ld_bytes (memmove m d s 4096) d 4096 = ld_bytes m s 4096"
    unfolding eq by (rule list_eq_nthI) (simp_all add: move_spec_def unat_of_nat)
qed

lemma perm10_flags: "perm10 (PTE_FLAGS v)"
proof -
  have "PTE_FLAGS v = take_bit 10 v" by (simp add: PTE_FLAGS_def take_bit_eq_mask mask_eq_exp_minus_1)
  then show ?thesis by (simp add: perm10_def)
qed

lemma flags_valid:
  assumes "v AND PTE_V \<noteq> 0"
  shows "PTE_FLAGS v OR PTE_V = PTE_FLAGS v"
proof -
  have "PTE_V = 1" by (simp add: PTE_V_def)
  then have "bit v 0" using assms by (simp add: and_one_eq odd_iff_mod_2_eq_one bit_0)
  moreover have m: "(0x3FF :: u64) = mask 10" by (simp add: mask_eq_exp_minus_1)
  ultimately show ?thesis
    unfolding PTE_FLAGS_def \<open>PTE_V = 1\<close> m
    by (intro bit_word_eqI) (auto simp: bit_simps)
qed

definition as_disjoint :: "'a mm_state_scheme \<Rightarrow> u64 \<Rightarrow> u64 \<Rightarrow> bool" where
  "as_disjoint s old new \<longleftrightarrow> (ptp s old \<union> upages s old) \<inter> as_total s new = {}"

text \<open>A step of one address space leaves a disjoint one alone.\<close>

lemma as_step_other:
  assumes "as_step s new s' f" "as_inv s old" "as_disjoint s old new"
  shows "as_inv s' old" "aspace (mem s') old = aspace (mem s) old" "as_disjoint s' old new"
proof -
  note st = as_stepD [OF assms(1)]
  have "\<forall>q \<in> ptp s old \<union> upages s old. agree_page (mem s) (mem s') q \<and> q \<notin> avail s'"
  proof
    fix q assume "q \<in> ptp s old \<union> upages s old"
    then have "q \<notin> as_total s new" using assms(3) unfolding as_disjoint_def by blast
    then show "agree_page (mem s) (mem s') q \<and> q \<notin> avail s'"
      using st(3,4) unfolding as_total_def by blast
  qed
  note fr = as_frame [OF assms(2) as_invD(5) [OF st(2)] st(1) this]
  show "as_inv s' old" "aspace (mem s') old = aspace (mem s) old" by (rule fr)+
  show "as_disjoint s' old new" using assms(3) fr(2,3) st(3) unfolding as_disjoint_def by simp
qed

lemma uvmunmap_below:
  assumes "as_inv s p" "page_aligned i" "unat i \<le> unat TRAPFRAME"
  shows "\<exists>s'. uvmunmap s p 0 (i div PGSIZE) True = Inr s'
    \<and> as_step s p s' (\<lambda>va. if va < i then None else aspace (mem s) p va)"
proof -
  obtain k where k: "unat i = 4096 * k"
    using assms(2) unfolding page_aligned_def by (auto simp: mod_eq_0_iff_dvd)
  have n: "unat (i div PGSIZE) = k" by (simp add: unat_div_distrib k)
  have vr: "vrange 0 k va \<longleftrightarrow> va < i" for va by (simp add: vrange_def word_less_nat_alt k)
  show ?thesis
    using uvmunmap_spec [OF assms(1) page_aligned_0, of "i div PGSIZE"] n k assms(3) by (auto simp: vr)
qed

lemma no_range:
  assumes "\<not> a < (sz :: u64)"
  shows "(\<lambda>va. if a \<le> va \<and> va < sz then g va else f va) = f"
proof
  fix va
  have "\<not> (a \<le> va \<and> va < sz)" using assms le_less_trans by blast
  then show "(if a \<le> va \<and> va < sz then g va else f va) = f va" by auto
qed

lemma uvmcopy_loop_spec:
  assumes "as_inv s old" "as_inv s new" "as_disjoint s old new" "page_aligned i"
    "unat sz \<le> unat TRAPFRAME" "\<And>va. i \<le> va \<Longrightarrow> va < sz \<Longrightarrow> aspace (mem s) new va = None"
    "unat sz \<le> unat i + 4096 * n"
  shows "\<exists>r s'. uvmcopy_loop n s old new i sz = Inr (r, s')
    \<and> (r = 0 \<and> as_step s new s' (\<lambda>va. if i \<le> va \<and> va < sz then aspace (mem s) old va else aspace (mem s) new va)
       \<or> r = -1 \<and> i < sz \<and> as_step s new s' (\<lambda>va. if va < i then None else aspace (mem s) new va)
         \<and> (\<forall>k. unat sz \<le> unat i + 4096 * k \<longrightarrow> card (avail s) < 3 * k))"
  using assms
proof (induction n arbitrary: s i)
  case 0
  then have "\<not> i < sz" by (simp add: word_less_nat_alt)
  then show ?case using as_step_refl [OF 0(2)] by (simp add: no_range)
next
  case (Suc n)
  show ?case
  proof (cases "i < sz")
    case False
    then show ?thesis using as_step_refl [OF Suc.prems(2)] by (simp add: no_range)
  next
    case True
    note I = as_invD [OF Suc.prems(1)]
    have tf: "i < TRAPFRAME" "unat i \<le> unat TRAPFRAME" "i < MAXVA"
      using True Suc.prems(5) by (simp_all add: word_less_nat_alt)
    note nx = next_page_le [OF Suc.prems(4) tf(1)]
    have nle: "i + PGSIZE \<le> va \<longleftrightarrow> i < va" if "page_aligned va" for va
      using next_page_iff [OF Suc.prems(4) tf(1) that] .
    have new_i: "aspace (mem s) new i = None" using Suc.prems(6) [of i] True by simp
    have k0: "0 < k" if "unat sz \<le> unat i + 4096 * k" for k
      using that True by (cases k) (simp_all add: word_less_nat_alt)
    have ih: "\<exists>r s'. uvmcopy_loop n t old new (i + PGSIZE) sz = Inr (r, s')
      \<and> (r = 0 \<and> as_step t new s' (\<lambda>va. if i + PGSIZE \<le> va \<and> va < sz then aspace (mem t) old va else aspace (mem t) new va)
         \<or> r = -1 \<and> i + PGSIZE < sz \<and> as_step t new s' (\<lambda>va. if va < i + PGSIZE then None else aspace (mem t) new va)
           \<and> (\<forall>k. unat sz \<le> unat (i + PGSIZE) + 4096 * k \<longrightarrow> card (avail t) < 3 * k))"
      if "as_inv t old" "as_inv t new" "as_disjoint t old new"
        "\<And>va. i < va \<Longrightarrow> va < sz \<Longrightarrow> aspace (mem t) new va = None" for t :: "'a mm_state_scheme"
    proof (rule Suc.IH [OF that(1-3) nx(2) Suc.prems(5)])
      show "aspace (mem t) new va = None" if "i + PGSIZE \<le> va" "va < sz" for va
      proof (rule \<open>\<And>va. i < va \<Longrightarrow> va < sz \<Longrightarrow> aspace (mem t) new va = None\<close>)
        show "i < va" using that(1) nx(1) by (simp add: word_le_nat_alt word_less_nat_alt)
      qed (rule that(2))
      show "unat sz \<le> unat (i + PGSIZE) + 4096 * n" using Suc.prems(7) nx(1) by simp
    qed
    have glue: "\<exists>r s'. uvmcopy_loop n t old new (i + PGSIZE) sz = Inr (r, s')
      \<and> (r = 0 \<and> as_step s new s' (\<lambda>va. if i \<le> va \<and> va < sz then aspace (mem s) old va else aspace (mem s) new va)
         \<or> r = -1 \<and> i < sz \<and> as_step s new s' (\<lambda>va. if va < i then None else aspace (mem s) new va)
           \<and> (\<forall>k. unat sz \<le> unat i + 4096 * k \<longrightarrow> card (avail s) < 3 * k))"
      if cn: "card (avail s) \<le> card (avail t) + 3" and st: "as_step s new t (aspace (mem t) new)"
        and new: "\<And>va. aspace (mem t) new va = (if va = i then aspace (mem s) old i else aspace (mem s) new va)"
      for t :: "'a mm_state_scheme"
    proof -
      note ot = as_step_other [OF st Suc.prems(1,3)]
      have un: "aspace (mem t) new va = None" if "i < va" "va < sz" for va
        using new [of va] Suc.prems(6) [of va] that by auto
      obtain r s' where R: "uvmcopy_loop n t old new (i + PGSIZE) sz = Inr (r, s')"
        "r = 0 \<and> as_step t new s' (\<lambda>va. if i + PGSIZE \<le> va \<and> va < sz then aspace (mem t) old va else aspace (mem t) new va)
         \<or> r = -1 \<and> as_step t new s' (\<lambda>va. if va < i + PGSIZE then None else aspace (mem t) new va)
           \<and> (\<forall>k. unat sz \<le> unat (i + PGSIZE) + 4096 * k \<longrightarrow> card (avail t) < 3 * k)"
        using ih [OF ot(1) as_stepD(2) [OF st] ot(3) un] by blast
      have cnt: "card (avail s) < 3 * k" if "unat sz \<le> unat i + 4096 * k"
        "\<forall>k. unat sz \<le> unat (i + PGSIZE) + 4096 * k \<longrightarrow> card (avail t) < 3 * k" for k
        using that(1) k0 [OF that(1)] spec [OF that(2), of "k - 1"] cn nx(1) by (cases k) auto
      have e1: "(\<lambda>va. if i + PGSIZE \<le> va \<and> va < sz then aspace (mem t) old va else aspace (mem t) new va)
          = (\<lambda>va. if i \<le> va \<and> va < sz then aspace (mem s) old va else aspace (mem s) new va)"
      proof (rule ext)
        fix va
        show "(if i + PGSIZE \<le> va \<and> va < sz then aspace (mem t) old va else aspace (mem t) new va)
          = (if i \<le> va \<and> va < sz then aspace (mem s) old va else aspace (mem s) new va)"
        proof (cases "page_aligned va")
          case al: True
          show ?thesis
            using nle [OF al] new [of va] ot(2) True by (cases "va = i") (auto simp: order.order_iff_strict)
        qed (simp add: aspace_unaligned)
      qed
      have e2: "(\<lambda>va. if va < i + PGSIZE then None else aspace (mem t) new va)
          = (\<lambda>va. if va < i then None else aspace (mem s) new va)"
      proof (rule ext)
        fix va
        show "(if va < i + PGSIZE then None else aspace (mem t) new va)
          = (if va < i then None else aspace (mem s) new va)"
        proof (cases "page_aligned va")
          case al: True
          have lt: "va < i + PGSIZE \<longleftrightarrow> va \<le> i" using nle [OF al] by (metis not_le)
          show ?thesis
            using lt new [of va] new_i by (cases "va = i") (auto simp: order.order_iff_strict)
        qed (simp add: aspace_unaligned)
      qed
      from R(2) show ?thesis
        using R(1) as_step_trans [OF st] e1 e2 True cnt by auto
    qed
    show ?thesis
    proof (cases "lookup (mem s) old i")
      case None
      have old_i: "aspace (mem s) old i = None" using None by (simp add: aspace_None uleaf_def)
      have loop: "uvmcopy_loop (Suc n) s old new i sz = uvmcopy_loop n s old new (i + PGSIZE) sz"
      proof (cases "leaf_slot 2 (mem s) old i")
        case None
        then show ?thesis using True tf(3) by (simp add: walk_read)
      next
        case (Some pte)
        have "pte \<noteq> 0" using leaf_slot_nz [OF _ Some] pt_ownedD [OF I(1)] by blast
        moreover have "ld64 (mem s) pte AND PTE_V = 0"
          using lookup_leaf [OF Some] None by (auto split: if_splits)
        ultimately show ?thesis using Some True tf(3) by (simp add: walk_read)
      qed
      show ?thesis unfolding loop
        using as_step_refl [OF Suc.prems(2)] old_i new_i by (intro glue) auto
    next
      case (Some v)
      then obtain pte where leaf: "leaf_slot 2 (mem s) old i = Some pte" using lookup_Some_leaf by blast
      have pte: "pte \<noteq> 0" using leaf_slot_nz [OF _ leaf] pt_ownedD [OF I(1)] by blast
      have v: "ld64 (mem s) pte AND PTE_V \<noteq> 0" "ld64 (mem s) pte = v"
        using lookup_leaf [OF leaf] Some by (auto split: if_splits)
      have ul: "uleaf (mem s) old i = Some v" using Some Suc.prems(4) tf(1) by (simp add: uleaf_def)
      have up: "PTE2PA v \<in> upages s old" using ul by (rule upagesI)
      obtain pg s1 where k: "kalloc s = (pg, s1)" by (cases "kalloc s")
      show ?thesis
      proof (cases "pg = 0")
        case pg0: True
        have "s1 = s" using kmem.alloc_result [OF I(5) k] pg0 by simp
        then have "uvmcopy_loop (Suc n) s old new i sz
            = rbind (uvmunmap s new 0 (i div PGSIZE) True) (\<lambda>s. Inr (-1, s))"
          using True tf(3) leaf pte v k pg0 by (simp add: walk_read)
        moreover have "card (avail s) = 0" using kmem.alloc_result [OF I(5) k] pg0 by simp
        ultimately show ?thesis
          using uvmunmap_below [OF Suc.prems(2,4) tf(2)] True k0 by auto
      next
        case False
        have av: "pg \<in> avail s" "page_aligned pg" "agree_page (mem s) (mem s1) (PTE2PA v)"
          using kmem.alloc_result [OF I(5) k] False valid_page_aligned [of s pg] I(3) [OF up] by auto
        have ne: "pg \<noteq> PTE2PA v" using av(1) I(3) [OF up] by auto
        have al: "page_aligned (PTE2PA v)" using I(4) [OF up] valid_page_aligned by blast
        let ?m = "memmove (mem s1) pg (PTE2PA v) 4096" and ?s2 = "s1\<lparr>mem := memmove (mem s1) pg (PTE2PA v) 4096\<rparr>"
        note mm = memmove_page [OF av(2) al ne, where m = "mem s1"]
        have ag: "\<forall>q. q \<noteq> pg \<longrightarrow> agree_page (mem s1) ?m q" using mm(1) by blast
        have un: "uleaf (mem s) new i = None" using new_i by (simp add: aspace_None)
        have bytes: "ld_bytes ?m pg 4096 = ld_bytes (mem s) (PTE2PA v) 4096"
          using mm(2) ld_bytes_page_cong [OF av(3) al] by simp
        obtain r s3 where M: "mappages ?s2 new i PGSIZE pg (PTE_FLAGS v) = Inr (r, s3)"
          "r = 0 \<and> as_step s new s3 ((aspace (mem s) new)(i \<mapsto> (PTE_FLAGS v OR PTE_V, ld_bytes ?m pg 4096)))
             \<and> card (avail s) \<le> card (avail s3) + 3
           \<or> r = -1 \<and> card (avail s) < 3 \<and> (\<exists>s4. kfree s3 pg = Inr s4 \<and> as_step s new s4 (aspace (mem s) new))"
          using alloc_map_page [OF Suc.prems(2,4) tf(1) un k False ag perm10_flags [of v]] by blast
        from M(2) show ?thesis
        proof
          assume r0: "r = 0 \<and> as_step s new s3 ((aspace (mem s) new)(i \<mapsto> (PTE_FLAGS v OR PTE_V, ld_bytes ?m pg 4096)))
             \<and> card (avail s) \<le> card (avail s3) + 3"
          have "aspace (mem s) old i = Some (PTE_FLAGS v OR PTE_V, ld_bytes ?m pg 4096)"
            using ul bytes flags_valid v by (simp add: aspace_def)
          then have "aspace (mem s3) new va = (if va = i then aspace (mem s) old i else aspace (mem s) new va)" for va
            using as_stepD(6) [OF conjunct1 [OF conjunct2 [OF r0]]] by simp
          moreover have "as_step s new s3 (aspace (mem s3) new)" using r0 as_stepD(6) by metis
          moreover have "uvmcopy_loop (Suc n) s old new i sz = uvmcopy_loop n s3 old new (i + PGSIZE) sz"
            using True tf(3) leaf pte v k False M(1) r0 by (simp add: walk_read Let_def)
          ultimately show ?thesis using glue [of s3] r0 by simp
        next
          assume r1: "r = -1 \<and> card (avail s) < 3 \<and> (\<exists>s4. kfree s3 pg = Inr s4 \<and> as_step s new s4 (aspace (mem s) new))"
          then obtain s4 where s4: "kfree s3 pg = Inr s4" "as_step s new s4 (aspace (mem s) new)" by blast
          have "uvmcopy_loop (Suc n) s old new i sz
              = rbind (uvmunmap s4 new 0 (i div PGSIZE) True) (\<lambda>s. Inr (-1, s))"
            using True tf(3) leaf pte v k False M(1) r1 s4(1) by (simp add: walk_read Let_def)
          moreover obtain s5 where s5: "uvmunmap s4 new 0 (i div PGSIZE) True = Inr s5"
            "as_step s4 new s5 (\<lambda>va. if va < i then None else aspace (mem s4) new va)"
            using uvmunmap_below [OF as_stepD(2) [OF s4(2)] Suc.prems(4) tf(2)] by blast
          moreover have "as_step s new s5 (\<lambda>va. if va < i then None else aspace (mem s) new va)"
            using as_step_trans [OF s4(2) s5(2)] unfolding as_stepD(6) [OF s4(2)] .
          moreover have "card (avail s) < 3 * k" if "unat sz \<le> unat i + 4096 * k" for k
            using r1 k0 [OF that] by (cases k) auto
          ultimately show ?thesis using True by (intro exI [of _ "-1"] exI [of _ s5]) simp
        qed
      qed
    qed
  qed
qed

lemma uvmcopy_spec:
  assumes "as_inv s old" "as_inv s new" "as_disjoint s old new" "unat sz \<le> unat TRAPFRAME"
    "\<And>va. va < sz \<Longrightarrow> aspace (mem s) new va = None"
  shows "\<exists>r s'. uvmcopy s old new sz = Inr (r, s')
    \<and> (r = 0 \<and> as_step s new s' (\<lambda>va. if va < sz then aspace (mem s) old va else aspace (mem s) new va)
       \<or> r = -1 \<and> as_step s new s' (aspace (mem s) new) \<and> card (avail s) < 3 * npg sz)"
proof -
  have fuel: "unat sz \<le> unat (0 :: u64) + 4096 * (unat sz div 4096 + 1)"
    using div_mult_mod_eq [of "unat sz" 4096] by simp
  have "unat sz \<le> unat (0 :: u64) + 4096 * npg sz"
    using div_mult_mod_eq [of "unat sz + 4095" 4096] mod_less_divisor [of 4096 "unat sz + 4095"]
    unfolding npg_def unat_0 by linarith
  then show ?thesis
    using uvmcopy_loop_spec [OF assms(1-3) page_aligned_0 assms(4) _ fuel] assms(5)
    by (auto simp: uvmcopy_def)
qed

end
