(* ===== verification/Uvmfree.thy ===== *)
theory Uvmfree
  imports Uvm
begin

text \<open>
  \<^verbatim>\<open>freewalk\<close> and \<^verbatim>\<open>uvmfree\<close>: freeing a page table gives back every table page and every user page,
  and the recursion never goes deeper than the three levels.
\<close>

section \<open>Trees without leaf entries\<close>

fun no_leaves :: "nat \<Rightarrow> memory \<Rightarrow> u64 \<Rightarrow> bool" where
  "no_leaves 0 m p \<longleftrightarrow> (\<forall>i. unat i < 512 \<longrightarrow> ld64 m (slot p i) AND PTE_V = 0)"
| "no_leaves (Suc l) m p \<longleftrightarrow> (\<forall>i c. unat i < 512 \<and> child m p i = Some c \<longrightarrow> no_leaves l m c)"

lemma no_leaves_cong:
  assumes "pt_wf l m p" "\<forall>q \<in> pt_pages l m p. agree_page m m' q" "no_leaves l m p"
  shows "no_leaves l m' p"
  using assms
proof (induction l arbitrary: p)
  case 0
  then show ?case using ld64_slot_cong [of m m' p] by simp
next
  case (Suc l)
  have al: "page_aligned p" using Suc.prems(1) by (rule pt_wf_aligned)
  have ag: "agree_page m m' p" using Suc.prems(2) by simp
  have "no_leaves l m' c" if i: "unat i < 512" "child m' p i = Some c" for i c
  proof (rule Suc.IH)
    have c: "child m p i = Some c" using child_page_cong [OF ag al i(1)] i(2) by simp
    show "pt_wf l m c" using pt_wf_child(1) [OF Suc.prems(1) i(1) c] .
    show "\<forall>q \<in> pt_pages l m c. agree_page m m' q" using Suc.prems(2) pt_pages_child [OF i(1) c] by blast
    show "no_leaves l m c" using Suc.prems(3) i(1) c by auto
  qed
  then show ?case by auto
qed

text \<open>Every triple of indices is that of some address, so a table that translates nothing has no leaves.\<close>

definition va_of :: "u64 \<Rightarrow> u64 \<Rightarrow> u64 \<Rightarrow> u64" where
  "va_of i j k = of_nat (((unat i * 512 + unat j) * 512 + unat k) * 4096)"

lemma va_of_PX:
  assumes "unat i < 512" "unat j < 512" "unat k < 512"
  shows "PX 2 (va_of i j k) = i" "PX 1 (va_of i j k) = j" "PX 0 (va_of i j k) = k" "va39 (va_of i j k)"
proof -
  define q where "q = unat i * 512 + unat j"
  define N where "N = q * 512 + unat k"
  have "q < 512 * 512" using assms unfolding q_def by simp
  then have N: "N < 134217728" using assms(3) unfolding N_def by simp
  have u: "unat (va_of i j k) = N * 4096"
    unfolding va_of_def N_def [unfolded q_def, symmetric] using N by (intro unat_of_nat64) simp
  then show "va39 (va_of i j k)" using N by (simp add: va39_def)
  have dm: "(a * 512 + b) mod 512 = b" "(a * 512 + b) div 512 = a" if "b < 512" for a b :: nat
    using that by simp_all
  have d: "N mod 512 = unat k" "N div 512 = q" "q mod 512 = unat j" "q div 512 = unat i"
    unfolding N_def using dm [OF assms(3)] dm [OF assms(2)] by (simp_all only: q_def)
  have "N * 4096 div 1073741824 = N div 512 div 512"
    by (simp add: div_mult2_eq [symmetric] div_mult_mult2 [of 4096 N 262144, simplified])
  then show "PX 2 (va_of i j k) = i"
    by (intro word_eq_of_unat) (simp add: unat_PX u d assms)
  have "N * 4096 div 2097152 = N div 512"
    using div_mult_mult2 [of 4096 N 512] by simp
  then show "PX 1 (va_of i j k) = j"
    by (intro word_eq_of_unat) (simp add: unat_PX u d)
  show "PX 0 (va_of i j k) = k"
    by (intro word_eq_of_unat) (simp add: unat_PX u d)
qed

lemma no_leaves_lookup:
  assumes "\<And>va. va39 va \<Longrightarrow> lookup m p va = None"
  shows "no_leaves 2 m p"
proof -
  have "ld64 m (slot d k) AND PTE_V = 0"
    if "unat i < 512" "child m p i = Some c" "unat j < 512" "child m c j = Some d" "unat k < 512" for i c j d k
  proof -
    note px = va_of_PX [OF that(1,3,5)]
    have "leaf_slot 2 m p (va_of i j k) = Some (slot d k)"
      using that px by (simp add: numeral_2_eq_2)
    then show ?thesis using assms [OF px(4)] by (auto simp: lookup_def lookup_at_def split: if_splits)
  qed
  then show ?thesis by (auto simp: numeral_2_eq_2)
qed

section \<open>freewalk\<close>

text \<open>The pages below the first \<open>k\<close> entries of a table.\<close>

definition sub_pages :: "nat \<Rightarrow> memory \<Rightarrow> u64 \<Rightarrow> nat \<Rightarrow> u64 set" where
  "sub_pages l m p k = {q. \<exists>i c. unat i < k \<and> unat i < 512 \<and> child m p i = Some c \<and> q \<in> pt_pages l m c}"

lemma sub_pages_Suc:
  assumes "k < 512"
  shows "sub_pages l m p (Suc k) = sub_pages l m p k
    \<union> (case child m p (of_nat k) of None \<Rightarrow> {} | Some c \<Rightarrow> pt_pages l m c)"
proof -
  have k: "unat (of_nat k :: u64) = k" using assms by (simp add: unat_of_nat)
  have "unat i < Suc k \<longleftrightarrow> unat i < k \<or> i = of_nat k" for i :: u64
    by (metis k less_Suc_eq word_unat_eq_iff)
  then have "sub_pages l m p (Suc k) = sub_pages l m p k
      \<union> {q. \<exists>c. child m p (of_nat k) = Some c \<and> q \<in> pt_pages l m c}"
    unfolding sub_pages_def using assms k by auto
  then show ?thesis by (auto split: option.splits)
qed

lemma sub_pages_all: "pt_pages (Suc l) m p = insert p (sub_pages l m p 512)"
  by (auto simp: sub_pages_def)

text \<open>What holds after the first \<open>k\<close> iterations, the root itself not yet freed.\<close>

definition fw_inv :: "nat \<Rightarrow> 'a mm_state_scheme \<Rightarrow> u64 \<Rightarrow> nat \<Rightarrow> 'a mm_state_scheme \<Rightarrow> bool" where
  "fw_inv l s p k t \<longleftrightarrow> kmem_inv t \<and> mm_frame s t \<and> avail t = avail s \<union> sub_pages l (mem s) p k
     \<and> (\<forall>q. q \<notin> sub_pages l (mem s) p k \<and> q \<noteq> p \<longrightarrow> agree_page (mem s) (mem t) q)
     \<and> (\<forall>i. k \<le> unat i \<and> unat i < 512 \<longrightarrow> ld64 (mem t) (slot p i) = ld64 (mem s) (slot p i))"

definition fw_body :: "nat \<Rightarrow> u64 \<Rightarrow> nat \<Rightarrow> 'a mm_state_scheme \<Rightarrow> 'a mm_state_scheme res" where
  "fw_body d pagetable i s =
     (let pte = ld64 (mem s) (slot pagetable (of_nat i)) in
         if pte AND PTE_V \<noteq> 0 \<and> pte AND (PTE_R OR PTE_W OR PTE_X) = 0
         then rbind (freewalk d s (PTE2PA pte))
                (\<lambda>s. Inr (s\<lparr>mem := st64 (mem s) (slot pagetable (of_nat i)) 0\<rparr>))
         else if pte AND PTE_V \<noteq> 0 then Inl (Panic ''freewalk: leaf'')
         else Inr s)"

lemma freewalk_Suc: "freewalk (Suc d) s p = rbind (rfold (fw_body d p) [0..<512] s) (\<lambda>s. kfree s p)"
  by (simp add: fw_body_def [abs_def])

lemma sub_pages_sub: "sub_pages l m p k \<subseteq> pt_pages (Suc l) m p"
  by (auto simp: sub_pages_def)

lemma fw_step:
  fixes s :: "'a mm_state_scheme"
  assumes own: "pt_owned (Suc l) s p" and nl: "no_leaves (Suc l) (mem s) p" and k: "k < 512"
    and inv: "fw_inv l s p k t"
    and IH: "\<forall>(u :: 'a mm_state_scheme) c. pt_owned l u c \<and> no_leaves l (mem u) c \<longrightarrow>
      (\<exists>u'. freewalk (Suc l) u c = Inr u' \<and> kmem_inv u' \<and> mm_frame u u' \<and> avail u' = avail u \<union> pt_pages l (mem u) c
        \<and> (\<forall>q. q \<notin> pt_pages l (mem u) c \<longrightarrow> agree_page (mem u) (mem u') q))"
  shows "\<exists>t'. fw_body (Suc l) p k t = Inr t' \<and> fw_inv l s p (Suc k) t'"
proof -
  let ?i = "of_nat k :: u64"
  note o = pt_ownedD [OF own]
  have al: "page_aligned p" using o(2) by (rule pt_wf_aligned)
  have i: "unat ?i = k" "unat ?i < 512" using k by (simp_all add: unat_of_nat)
  have t: "kmem_inv t" "mm_frame s t" "avail t = avail s \<union> sub_pages l (mem s) p k"
      "\<And>q. q \<notin> sub_pages l (mem s) p k \<Longrightarrow> q \<noteq> p \<Longrightarrow> agree_page (mem s) (mem t) q"
      "\<And>j. k \<le> unat j \<Longrightarrow> unat j < 512 \<Longrightarrow> ld64 (mem t) (slot p j) = ld64 (mem s) (slot p j)"
    using inv unfolding fw_inv_def by blast+
  have pte: "ld64 (mem t) (slot p ?i) = ld64 (mem s) (slot p ?i)" using t(5) [of ?i] i by simp
  show ?thesis
  proof (cases "child (mem s) p ?i")
    case None
    then have "ld64 (mem t) (slot p ?i) AND PTE_V = 0"
      using pte by (auto simp: child_def Let_def split: if_splits)
    then have "fw_body (Suc l) p k t = Inr t" by (simp add: fw_body_def Let_def)
    moreover have "fw_inv l s p (Suc k) t"
      using inv None unfolding fw_inv_def sub_pages_Suc [OF k] by simp
    ultimately show ?thesis by blast
  next
    case (Some c)
    have c: "ld64 (mem t) (slot p ?i) AND PTE_V \<noteq> 0" "PTE2PA (ld64 (mem t) (slot p ?i)) = c"
      using Some pte by (auto simp: child_def Let_def split: if_splits)
    have rwx: "ld64 (mem t) (slot p ?i) AND (PTE_R OR PTE_W OR PTE_X) = 0"
      using pt_wf_child(3) [OF o(2) i(2) Some] pte by (simp add: PTE_RWX_def)
    have dis: "pt_pages l (mem s) c \<inter> sub_pages l (mem s) p k = {}"
    proof -
      have "pt_pages l (mem s) c \<inter> pt_pages l (mem s) d = {}"
        if "unat j < k" "unat j < 512" "child (mem s) p j = Some d" for j d
      proof -
        have "?i \<noteq> j" using that(1) i(1) by auto
        then show ?thesis using pt_wf_disjoint [OF o(2) i(2) that(2) _ Some that(3)] by blast
      qed
      then show ?thesis unfolding sub_pages_def by blast
    qed
    have pc: "p \<notin> pt_pages l (mem s) c" using pt_wf_child(2) [OF o(2) i(2) Some] .
    have ag: "\<And>q. q \<in> pt_pages l (mem s) c \<Longrightarrow> agree_page (mem s) (mem t) q"
      using t(4) dis pc by blast
    have wfc: "pt_wf l (mem s) c" using pt_wf_child(1) [OF o(2) i(2) Some] .
    have pgs: "pt_pages l (mem t) c = pt_pages l (mem s) c" using pt_pages_cong [OF wfc ag] by simp
    have "q \<notin> avail t" if "q \<in> pt_pages l (mem s) c" for q
      using t(3) dis that o(4) pt_pages_child [OF i(2) Some that] by blast
    moreover have "valid_page t q" if "q \<in> pt_pages l (mem s) c" for q
      using o(3) pt_pages_child [OF i(2) Some that] mm_frame_valid [OF t(2)] by auto
    ultimately have own_c: "pt_owned l t c"
      using t(1) pt_wf_cong [OF wfc ag] pgs unfolding pt_owned_def by simp
    have "no_leaves l (mem t) c"
      using no_leaves_cong [OF wfc] ag nl i(2) Some by auto
    with own_c IH have "\<exists>u. freewalk (Suc l) t c = Inr u \<and> kmem_inv u \<and> mm_frame t u
        \<and> avail u = avail t \<union> pt_pages l (mem t) c
        \<and> (\<forall>q. q \<notin> pt_pages l (mem t) c \<longrightarrow> agree_page (mem t) (mem u) q)" by blast
    then obtain u where u: "freewalk (Suc l) t c = Inr u" "kmem_inv u" "mm_frame t u"
        "avail u = avail t \<union> pt_pages l (mem s) c"
        "\<And>q. q \<notin> pt_pages l (mem s) c \<Longrightarrow> agree_page (mem t) (mem u) q"
      unfolding pgs by blast
    let ?t' = "u\<lparr>mem := st64 (mem u) (slot p ?i) 0\<rparr>"
    have body: "fw_body (Suc l) p k t = Inr ?t'"
      using c rwx u(1) by (simp add: fw_body_def Let_def)
    have p_av: "p \<notin> avail u"
      using u(4) t(3) pc o(4) [of p] sub_pages_sub [of l "mem s" p k]
        pt_wf_child(2) [OF o(2)] unfolding sub_pages_def by auto
    have ag_st: "agree_page (mem u) (mem ?t') q" if "q \<noteq> p" for q
      using agree_page_sym [OF agree_page_st_slot [OF al i(2), of q "mem u" 0]] that by auto
    have "\<forall>q \<in> avail u. agree_page (mem u) (st64 (mem u) (slot p ?i) 0) q"
    proof
      fix q assume "q \<in> avail u"
      then have "q \<noteq> p" using p_av by auto
      from ag_st [OF this] show "agree_page (mem u) (st64 (mem u) (slot p ?i) 0) q" by simp
    qed
    from kmem_frame [OF u(2) this] have kt: "kmem_inv ?t'" "avail ?t' = avail u" by simp_all
    have "ld64 (mem ?t') (slot p j) = ld64 (mem s) (slot p j)" if "Suc k \<le> unat j" "unat j < 512" for j
    proof -
      have "?i \<noteq> j" using that i(1) by auto
      then have "ld64 (mem ?t') (slot p j) = ld64 (mem u) (slot p j)"
        using ld64_st64_slot [OF al i(2) that(2)] by simp
      also have "\<dots> = ld64 (mem t) (slot p j)"
        using ld64_slot_cong [OF agree_page_sym [OF u(5) [OF pc]] al that(2)] .
      finally show ?thesis using t(5) that by simp
    qed
    moreover have "agree_page (mem s) (mem ?t') q"
      if "q \<notin> sub_pages l (mem s) p (Suc k)" "q \<noteq> p" for q
    proof -
      have q: "q \<notin> sub_pages l (mem s) p k" "q \<notin> pt_pages l (mem s) c"
        using that(1) Some unfolding sub_pages_Suc [OF k] by simp_all
      show ?thesis
        using agree_page_trans [OF t(4) [OF q(1) that(2)] agree_page_trans [OF u(5) [OF q(2)] ag_st [OF that(2)]]] .
    qed
    moreover have "avail ?t' = avail s \<union> sub_pages l (mem s) p (Suc k)"
      using kt(2) u(4) t(3) Some unfolding sub_pages_Suc [OF k] by auto
    moreover have "mm_frame s ?t'" using mm_frame_trans [OF t(2) u(3)] by simp
    ultimately have "fw_inv l s p (Suc k) ?t'" using kt(1) unfolding fw_inv_def by blast
    then show ?thesis using body by blast
  qed
qed

lemma freewalk_spec:
  fixes s :: "'a mm_state_scheme"
  assumes "pt_owned l s p" "no_leaves l (mem s) p"
  shows "\<exists>s'. freewalk (Suc l) s p = Inr s' \<and> kmem_inv s' \<and> mm_frame s s'
    \<and> avail s' = avail s \<union> pt_pages l (mem s) p
    \<and> (\<forall>q. q \<notin> pt_pages l (mem s) p \<longrightarrow> agree_page (mem s) (mem s') q)"
  using assms
proof (induction l arbitrary: s p)
  case 0
  note o = pt_ownedD [OF 0(1)]
  have body: "fw_body 0 p i s = Inr s" if "i < 512" for i
    using 0(2) that by (simp add: fw_body_def Let_def unat_of_nat)
  have "rfold (fw_body 0 p) [0..<k] s = Inr s" if "k \<le> 512" for k
    using that by (induction k) (simp_all add: rfold_append body)
  moreover obtain s' where "kfree s p = Inr s'" "kmem_inv s'" "avail s' = insert p (avail s)"
      "\<forall>q. q \<noteq> p \<longrightarrow> agree_page (mem s) (mem s') q"
    using kmem.free_page [OF o(1) o(3) o(4), of p] by auto
  ultimately show ?case
    using kfree_mm_frame by (auto simp: freewalk_Suc simp del: freewalk.simps)
next
  case (Suc l)
  note o = pt_ownedD [OF Suc.prems(1)]
  note tree = Suc.prems
  have IH: "\<forall>(u :: 'a mm_state_scheme) c. pt_owned l u c \<and> no_leaves l (mem u) c \<longrightarrow>
      (\<exists>u'. freewalk (Suc l) u c = Inr u' \<and> kmem_inv u' \<and> mm_frame u u' \<and> avail u' = avail u \<union> pt_pages l (mem u) c
        \<and> (\<forall>q. q \<notin> pt_pages l (mem u) c \<longrightarrow> agree_page (mem u) (mem u') q))"
    using Suc.IH by blast
  have loop: "\<exists>t. rfold (fw_body (Suc l) p) [0..<k] s = Inr t \<and> fw_inv l s p k t" if "k \<le> 512" for k
    using that
  proof (induction k)
    case 0
    then show ?case using o(1) by (auto simp: fw_inv_def sub_pages_def)
  next
    case (Suc k)
    then obtain t where t: "rfold (fw_body (Suc l) p) [0..<k] s = Inr t" "fw_inv l s p k t" by auto
    have "k < 512" using Suc.prems by simp
    from fw_step [OF tree this t(2) IH] obtain t' where "fw_body (Suc l) p k t = Inr t'" "fw_inv l s p (Suc k) t'"
      by blast
    with t(1) show ?case by (auto simp: rfold_append)
  qed
  obtain t where t: "rfold (fw_body (Suc l) p) [0..<512] s = Inr t" "fw_inv l s p 512 t"
    using loop by blast
  have inv: "kmem_inv t" "mm_frame s t" "avail t = avail s \<union> sub_pages l (mem s) p 512"
      "\<And>q. q \<notin> sub_pages l (mem s) p 512 \<Longrightarrow> q \<noteq> p \<Longrightarrow> agree_page (mem s) (mem t) q"
    using t(2) unfolding fw_inv_def by blast+
  have "p \<notin> avail t"
    using inv(3) o(4) [of p] pt_wf_child(2) [OF o(2)] unfolding sub_pages_def by auto
  moreover have "valid_page t p" using o(3) [of p] mm_frame_valid [OF inv(2)] by simp
  ultimately obtain s' where s': "kfree t p = Inr s'" "kmem_inv s'" "avail s' = insert p (avail t)"
      "\<And>q. q \<noteq> p \<Longrightarrow> agree_page (mem t) (mem s') q"
    using kmem.free_page [OF inv(1)] by blast
  have pgs: "pt_pages (Suc l) (mem s) p = insert p (sub_pages l (mem s) p 512)" by (rule sub_pages_all)
  have "freewalk (Suc (Suc l)) s p = Inr s'" using t(1) s'(1) by (simp only: freewalk_Suc rbind_simps)
  moreover have "agree_page (mem s) (mem s') q" if "q \<notin> pt_pages (Suc l) (mem s) p" for q
    using agree_page_trans [OF inv(4) s'(4)] that unfolding pgs by blast
  moreover have "avail s' = avail s \<union> pt_pages (Suc l) (mem s) p"
    using s'(3) inv(3) unfolding pgs by blast
  ultimately show ?case using s'(2) mm_frame_trans [OF inv(2) kfree_mm_frame [OF s'(1)]] by blast
qed

section \<open>uvmfree\<close>

lemma uvmfree_spec:
  assumes inv: "as_inv s p" and sz: "unat sz \<le> unat TRAPFRAME"
    and low: "\<And>va. va39 va \<Longrightarrow> lookup (mem s) p va \<noteq> None \<Longrightarrow> unat va < 4096 * npg sz"
  shows "\<exists>s'. uvmfree s p sz = Inr s' \<and> kmem_inv s' \<and> mm_frame s s' \<and> avail s' = as_total s p
    \<and> (\<forall>q. q \<notin> as_total s p \<longrightarrow> agree_page (mem s) (mem s') q)"
proof -
  let ?n = "PGROUNDUP sz div PGSIZE"
  have n: "unat ?n = npg sz" using unat_PGROUNDUP_npg [OF sz] by (simp add: unat_div_distrib)
  have lim: "unat (0 :: u64) + 4096 * unat ?n \<le> unat TRAPFRAME" using n npg_le [OF sz] by simp
  have vr: "vrange 0 (npg sz) va \<longleftrightarrow> unat va < 4096 * npg sz" for va by (simp add: vrange_def)
  have "\<exists>s1. (if sz > 0 then uvmunmap s p 0 ?n True else Inr s) = Inr s1 \<and> mm_frame s s1 \<and> as_inv s1 p
      \<and> ptp s1 p = ptp s p \<and> avail s1 = avail s \<union> upages s p
      \<and> (\<forall>q. q \<notin> as_total s p \<longrightarrow> agree_page (mem s) (mem s1) q)
      \<and> (\<forall>va. va39 va \<longrightarrow> lookup (mem s1) p va = None)"
  proof (cases "sz > 0")
    case True
    obtain s1 where s1: "uvmunmap s p 0 ?n True = Inr s1"
      "as_step s p s1 (\<lambda>va. if vrange 0 (npg sz) va then None else aspace (mem s) p va)"
      "ptp s1 p = ptp s p" "avail s1 = avail s \<union> freed s p 0 (npg sz)"
      "\<And>va. va39 va \<Longrightarrow> lookup (mem s1) p va = (if vrange 0 (npg sz) va then None else lookup (mem s) p va)"
      using uvmunmap_spec [OF inv page_aligned_0 lim] n by auto
    have "freed s p 0 (npg sz) = upages s p"
      using uleaf_lookup [of "mem s" p] low vr unfolding freed_def upages_def by blast
    moreover have "lookup (mem s1) p va = None" if "va39 va" for va
      using s1(5) [OF that] vr [of va] low [OF that] by (cases "lookup (mem s) p va") auto
    ultimately show ?thesis using s1 True as_stepD [OF s1(2)] by auto
  next
    case False
    then have "sz = 0" by (simp add: word_gt_0)
    then have "npg sz = 0" by (simp add: npg_def)
    then have none: "lookup (mem s) p va = None" if "va39 va" for va
      using low [OF that] by (cases "lookup (mem s) p va") auto
    then have "upages s p = {}" using uleaf_lookup [of "mem s" p] unfolding upages_def by fastforce
    then show ?thesis using False inv none by auto
  qed
  then obtain s1 where s1: "(if sz > 0 then uvmunmap s p 0 ?n True else Inr s) = Inr s1" "mm_frame s s1"
      "as_inv s1 p" "ptp s1 p = ptp s p" "avail s1 = avail s \<union> upages s p"
      "\<And>q. q \<notin> as_total s p \<Longrightarrow> agree_page (mem s) (mem s1) q"
      "\<And>va. va39 va \<Longrightarrow> lookup (mem s1) p va = None" by blast
  obtain s2 where s2: "freewalk 3 s1 p = Inr s2" "kmem_inv s2" "mm_frame s1 s2" "avail s2 = avail s1 \<union> ptp s1 p"
      "\<And>q. q \<notin> ptp s1 p \<Longrightarrow> agree_page (mem s1) (mem s2) q"
    using freewalk_spec [OF as_invD(1) [OF s1(3)] no_leaves_lookup [OF s1(7)]]
    by (auto simp: ptp_def numeral_3_eq_3 numeral_2_eq_2)
  have "uvmfree s p sz = Inr s2" using s1(1) s2(1) by (simp add: uvmfree_def)
  moreover have "avail s2 = as_total s p" using s2(4) s1(4,5) unfolding as_total_def by blast
  moreover have "agree_page (mem s) (mem s2) q" if "q \<notin> as_total s p" for q
    using agree_page_trans [OF s1(6) [OF that] s2(5)] that s1(4) unfolding as_total_def by blast
  ultimately show ?thesis using s2(2) mm_frame_trans [OF s1(2) s2(3)] by blast
qed

end
