(* ===== verification/Ucopy.thy ===== *)
theory Ucopy
  imports Uvmfree
begin

text \<open>
  \<^verbatim>\<open>copyin\<close>, \<^verbatim>\<open>copyout\<close> and \<^verbatim>\<open>copyinstr\<close>: bytes cross between kernel memory and a user address space.
  \<open>uaddr\<close> is the specification, the physical address of one user byte; the loops go page by page.
\<close>

section \<open>User bytes\<close>

definition uaddr :: "memory \<Rightarrow> u64 \<Rightarrow> u64 \<Rightarrow> u64 option" where
  "uaddr m p va = (case lookup m p va of None \<Rightarrow> None
     | Some v \<Rightarrow> if va < MAXVA \<and> v AND PTE_U \<noteq> 0 then Some (PTE2PA v + (va - PGROUNDDOWN va)) else None)"

text \<open>The pages above \<open>TRAPFRAME\<close> (trampoline and trap frame) are not accessible to the user.\<close>

definition uas :: "'a mm_state_scheme \<Rightarrow> u64 \<Rightarrow> bool" where
  "uas s p \<longleftrightarrow> as_inv s p
     \<and> (\<forall>va v. va39 va \<and> TRAPFRAME \<le> va \<and> lookup (mem s) p va = Some v \<longrightarrow> v AND PTE_U = 0)"

lemma uasD:
  assumes "uas s p"
  shows "as_inv s p"
    "va39 va \<Longrightarrow> TRAPFRAME \<le> va \<Longrightarrow> lookup (mem s) p va = Some v \<Longrightarrow> v AND PTE_U = 0"
  using assms unfolding uas_def by blast+

definition page_off :: "u64 \<Rightarrow> u64" where
  "page_off va = va - PGROUNDDOWN va"

lemma page_off_lt: "unat (page_off va) < 4096"
  using in_page_iff [of "PGROUNDDOWN va" va] by (simp add: page_off_def)

lemma page_split: "va = PGROUNDDOWN va + page_off va"
  by (simp add: page_off_def)

lemma page_off_add:
  "page_aligned p \<Longrightarrow> unat off < 4096 \<Longrightarrow> page_off (p + off) = off"
  by (simp add: page_off_def PGROUNDDOWN_off)

lemma MAXVA_page: "PGROUNDDOWN va < MAXVA \<longleftrightarrow> va < MAXVA"
proof -
  have "unat (PGROUNDDOWN va) = unat va div 4096 * 4096" by (rule unat_PGROUNDDOWN)
  moreover have "unat va div 4096 < 67108864 \<longleftrightarrow> unat va < 67108864 * 4096"
    by (rule div_less_iff_less_mult) simp
  ultimately show ?thesis by (simp add: word_less_nat_alt)
qed

lemma uaddr_page:
  assumes "page_aligned va0" "unat off < 4096"
  shows "uaddr m p (va0 + off) = map_option (\<lambda>a. a + off) (uaddr m p va0)"
proof -
  have pg: "PGROUNDDOWN (va0 + off) = va0" "PGROUNDDOWN va0 = va0"
    using PGROUNDDOWN_off [OF assms] PGROUNDDOWN_idem [OF assms(1)] by simp_all
  have "va0 + off < MAXVA \<longleftrightarrow> va0 < MAXVA" using MAXVA_page [of "va0 + off"] pg by simp
  moreover have "lookup m p (va0 + off) = lookup m p va0" using lookup_page [of "va0 + off" va0] pg by simp
  ultimately show ?thesis by (simp add: uaddr_def pg split: option.split)
qed

lemma uaddr_upages:
  assumes "uas s p" "uaddr (mem s) p va = Some a"
  shows "va < TRAPFRAME" "va < MAXVA" "PGROUNDDOWN a \<in> upages s p"
    "\<exists>v. uleaf (mem s) p (PGROUNDDOWN va) = Some v \<and> PTE2PA v = PGROUNDDOWN a"
proof -
  obtain v where v: "lookup (mem s) p va = Some v" "va < MAXVA" "v AND PTE_U \<noteq> 0"
      "a = PTE2PA v + page_off va"
    using assms(2) by (auto simp: uaddr_def page_off_def split: option.splits if_splits)
  show tf: "va < TRAPFRAME"
    using uasD(2) [OF assms(1) va39_MAXVA [OF v(2)] _ v(1)] v(3) by (metis not_le)
  have "unat (PGROUNDDOWN va) \<le> unat va" by (simp add: unat_PGROUNDDOWN)
  then have "PGROUNDDOWN va < TRAPFRAME" using tf by (simp add: word_less_nat_alt)
  moreover have "lookup (mem s) p (PGROUNDDOWN va) = Some v"
    using lookup_page [of "PGROUNDDOWN va" va] v(1) PGROUNDDOWN_idem [of "PGROUNDDOWN va"] by simp
  ultimately have ul: "uleaf (mem s) p (PGROUNDDOWN va) = Some v" by (simp add: uleaf_def)
  then have up: "PTE2PA v \<in> upages s p" by (rule upagesI)
  have "page_aligned (PTE2PA v)" using as_invD(4) [OF uasD(1) [OF assms(1)] up] by (rule valid_page_aligned)
  then have "PGROUNDDOWN a = PTE2PA v" using v(4) page_off_lt by (simp add: PGROUNDDOWN_off)
  then show "PGROUNDDOWN a \<in> upages s p" "\<exists>v. uleaf (mem s) p (PGROUNDDOWN va) = Some v \<and> PTE2PA v = PGROUNDDOWN a"
    using up ul by auto
  show "va < MAXVA" by (rule v(2))
qed

text \<open>Two user addresses share a physical page only when they share the virtual page.\<close>

lemma uaddr_inj:
  assumes "uas s p" "uaddr (mem s) p va = Some a" "uaddr (mem s) p va' = Some a'"
    "PGROUNDDOWN a = PGROUNDDOWN a'"
  shows "PGROUNDDOWN va = PGROUNDDOWN va'"
  using uaddr_upages(4) [OF assms(1,2)] uaddr_upages(4) [OF assms(1,3)] assms(4)
    as_inv_inj [OF uasD(1) [OF assms(1)]] by metis

lemma walkaddr_uaddr:
  assumes "uas s p" "page_aligned va0"
  shows "walkaddr s p va0 = Inr (case uaddr (mem s) p va0 of None \<Rightarrow> 0 | Some a \<Rightarrow> a)"
    "uaddr (mem s) p va0 = Some a \<Longrightarrow> a \<noteq> 0 \<and> page_aligned a"
proof -
  note I = as_invD [OF uasD(1) [OF assms(1)]]
  have pg: "PGROUNDDOWN va0 = va0" using assms(2) by (rule PGROUNDDOWN_idem)
  show "walkaddr s p va0 = Inr (case uaddr (mem s) p va0 of None \<Rightarrow> 0 | Some a \<Rightarrow> a)"
  proof (cases "va0 < MAXVA")
    case False
    then show ?thesis by (auto simp: walkaddr_def uaddr_def not_less split: option.split)
  next
    case True
    then have nle: "\<not> MAXVA \<le> va0" by simp
    show ?thesis
    proof (cases "leaf_slot 2 (mem s) p va0")
      case None
      then show ?thesis using True nle
        by (simp add: walkaddr_def walk_read uaddr_def lookup_def lookup_at_def)
    next
      case (Some pte)
      have "pte \<noteq> 0" using leaf_slot_nz [OF _ Some] pt_ownedD [OF I(1)] by blast
      then show ?thesis using Some True nle pg lookup_leaf [OF Some]
        by (simp add: walkaddr_def walk_read uaddr_def Let_def)
    qed
  qed
  assume u: "uaddr (mem s) p va0 = Some a"
  then obtain v where v: "uleaf (mem s) p va0 = Some v" "PTE2PA v = PGROUNDDOWN a"
    using uaddr_upages(4) [OF assms(1) u] pg by auto
  have "a = PTE2PA v" using u v(1) pg uleaf_lookup [OF v(1)] by (auto simp: uaddr_def split: if_splits)
  then have "valid_page s a" using I(4) [OF upagesI [OF v(1)]] by simp
  then show "a \<noteq> 0 \<and> page_aligned a" using valid_page_nz [OF I(5)] valid_page_aligned by blast
qed

section \<open>Memory that is not user memory\<close>

text \<open>\<open>n\<close> bytes from \<open>a\<close> on that meet neither the page table nor the user pages nor the free pages.\<close>

definition kbuf :: "'a mm_state_scheme \<Rightarrow> u64 \<Rightarrow> u64 \<Rightarrow> nat \<Rightarrow> bool" where
  "kbuf s p a n \<longleftrightarrow> unat a + n < 18446744073709551616
     \<and> (\<forall>i < n. PGROUNDDOWN (a + of_nat i) \<notin> as_total s p)"

lemma memmove_disjoint:
  assumes "unat n \<le> unat (d - s)" "unat n \<le> unat (s - d)"
  shows "memmove m d s n = move_spec m d s (unat n)"
proof (cases "n = 0")
  case True
  then show ?thesis by (simp add: memmove_def move_spec_def)
next
  case False
  have lt: "unat n < 18446744073709551616" using unat_lt32 [of n] by simp
  have un: "(ucast n :: u64) = of_nat (unat n)" by simp
  show ?thesis
    using False copy_up_spec [of "unat n" d s m] copy_down_spec [of "unat n" s d m] assms lt
    by (simp add: memmove_def)
qed

lemma kbuf_byte:
  assumes "kbuf s p a n" "unat (x - a) < n"
  shows "PGROUNDDOWN x \<notin> as_total s p"
proof -
  have "a + of_nat (unat (x - a)) = x" by simp
  then show ?thesis using assms unfolding kbuf_def by metis
qed

lemma kbuf_suffix:
  assumes "kbuf s p a n" "k \<le> n"
  shows "kbuf s p (a + of_nat k) (n - k)" "unat (a + of_nat k) = unat a + k"
proof -
  have k: "unat (of_nat k :: u64) = k" using assms unfolding kbuf_def by (intro unat_of_nat64) simp
  show u: "unat (a + of_nat k) = unat a + k"
    using assms k unfolding kbuf_def by (subst unat_add_nowrap) simp_all
  have "PGROUNDDOWN (a + of_nat k + of_nat i) \<notin> as_total s p" if "i < n - k" for i
  proof -
    have "k + i < n" using that by simp
    then have "PGROUNDDOWN (a + of_nat (k + i)) \<notin> as_total s p"
      using assms(1) unfolding kbuf_def by blast
    then show ?thesis by (simp add: add.assoc)
  qed
  then show "kbuf s p (a + of_nat k) (n - k)" using assms u unfolding kbuf_def by simp
qed

text \<open>A store outside the address space leaves it as it was.\<close>

lemma uas_frame:
  fixes s :: "'a mm_state_scheme" and m :: memory
  assumes "uas s p" "\<And>x. PGROUNDDOWN x \<in> as_total s p \<Longrightarrow> m x = mem s x"
  defines "t \<equiv> s\<lparr>mem := m\<rparr>"
  shows "uas t p" "as_total t p = as_total s p" "uaddr m p va = uaddr (mem s) p va"
    "lookup m p va = lookup (mem s) p va" "upages t p = upages s p"
proof -
  note I = as_invD [OF uasD(1) [OF assms(1)]]
  have ag: "agree_page (mem s) m q" if "q \<in> as_total s p" for q
    using assms(2) that unfolding agree_page_def by metis
  have "\<forall>q \<in> avail s. agree_page (mem s) m q" using ag unfolding as_total_def by blast
  from kmem_frame [OF I(5) this] have k: "kmem_inv t" "avail t = avail s" by (simp_all add: t_def)
  have "\<forall>q \<in> ptp s p \<union> upages s p. agree_page (mem s) (mem t) q \<and> q \<notin> avail t"
    using ag k(2) I(3,6) unfolding as_total_def by (auto simp: t_def)
  note fr = as_frame [OF uasD(1) [OF assms(1)] k(1) _ this]
  have f: "mm_frame s t" by (simp add: t_def)
  show "as_total t p = as_total s p" using fr(2,3) [OF f] k(2) by (simp add: as_total_def)
  show lk: "lookup m p va = lookup (mem s) p va" for va using fr(4) [OF f] by (simp add: t_def)
  show "uas t p" using fr(1) [OF f] uasD(2) [OF assms(1)] lk unfolding uas_def by (auto simp: t_def)
  show "uaddr m p va = uaddr (mem s) p va" using lk [of va] by (simp add: uaddr_def)
  show "upages t p = upages s p" using fr(3) [OF f] .
qed

section \<open>copyin\<close>

lemma uaddr_total: "uas s p \<Longrightarrow> uaddr (mem s) p va = Some a \<Longrightarrow> PGROUNDDOWN a \<in> as_total s p"
  using uaddr_upages(3) unfolding as_total_def by blast

text \<open>The number of bytes one iteration of a copy loop moves.\<close>

definition chunk :: "u64 \<Rightarrow> u64 \<Rightarrow> u64" where
  "chunk va len = (let n = PGSIZE - (va - PGROUNDDOWN va) in if n > len then len else n)"

lemma unat_chunk: "unat (chunk va len) = min (unat len) (4096 - unat (page_off va))"
proof -
  have "unat (PGSIZE - page_off va) = 4096 - unat (page_off va)"
    using page_off_lt [of va] by (simp add: unat_sub_if')
  then show ?thesis
    by (simp add: chunk_def Let_def page_off_def [symmetric] word_less_nat_alt min_def)
qed

lemma chunk_ucast: "unat (ucast (chunk va len) :: u32) = unat (chunk va len)"
proof -
  have "unat (chunk va len) < 4294967296" by (simp add: unat_chunk)
  then show ?thesis by (simp add: unsigned_ucast_eq take_bit_nat_eq_self)
qed

lemma chunk_next:
  assumes "unat (chunk va len) \<noteq> unat len"
  shows "PGROUNDDOWN va + PGSIZE = va + chunk va len" "page_off (PGROUNDDOWN va + PGSIZE) = 0"
proof -
  have "unat (chunk va len) = 4096 - unat (page_off va)" using assms by (simp add: unat_chunk)
  moreover have "unat (PGSIZE - page_off va) = 4096 - unat (page_off va)"
    using page_off_lt [of va] by (simp add: unat_sub_if')
  ultimately have c: "chunk va len = PGSIZE - page_off va" by (simp add: word_eq_of_unat)
  then show "PGROUNDDOWN va + PGSIZE = va + chunk va len" by (simp add: page_off_def)
  have "page_aligned (PGROUNDDOWN va + PGSIZE)"
    by (intro page_aligned_add) (simp_all add: page_aligned_def unat_PGROUNDDOWN)
  then show "page_off (PGROUNDDOWN va + PGSIZE) = 0" by (simp add: page_off_def PGROUNDDOWN_idem)
qed

text \<open>Kernel memory after \<open>n\<close> user bytes from \<open>srcva\<close> were copied to \<open>dst\<close>.\<close>

definition cin_mem :: "memory \<Rightarrow> u64 \<Rightarrow> u64 \<Rightarrow> u64 \<Rightarrow> nat \<Rightarrow> memory" where
  "cin_mem m p dst srcva n =
     (\<lambda>x. if unat (x - dst) < n then m (the (uaddr m p (srcva + (x - dst)))) else m x)"

definition umapped :: "memory \<Rightarrow> u64 \<Rightarrow> u64 \<Rightarrow> nat \<Rightarrow> bool" where
  "umapped m p va n \<longleftrightarrow> (\<forall>i < n. uaddr m p (va + of_nat i) \<noteq> None)"

lemma kbuf_offset:
  fixes dst x :: u64
  assumes "unat dst + n < 18446744073709551616" "k \<le> n"
  shows "unat (x - dst) < n \<longleftrightarrow> unat (x - dst) < k \<or> unat (x - (dst + of_nat k)) < n - k"
proof -
  have k: "unat (of_nat k :: u64) = k" using assms by (intro unat_of_nat64) simp
  have u: "unat (dst + of_nat k) = unat dst + k" using assms k by (subst unat_add_nowrap) simp_all
  have "unat (x - dst) < j \<longleftrightarrow> unat dst \<le> unat x \<and> unat x < unat dst + j" if "j \<le> n" for j
    using that assms by (intro unat_diff_lt_iff) simp
  moreover have "unat (x - (dst + of_nat k)) < n - k \<longleftrightarrow> unat dst + k \<le> unat x \<and> unat x < unat dst + n"
    using assms u unat_diff_lt_iff [of "dst + of_nat k" "n - k" x] by simp
  ultimately show ?thesis using assms(2) by auto
qed

lemma offsets_split:
  fixes P :: "u64 \<Rightarrow> bool"
  assumes "k \<le> n"
  shows "(\<forall>i < n. P (va + of_nat i)) \<longleftrightarrow> (\<forall>i < k. P (va + of_nat i)) \<and> (\<forall>i < n - k. P (va + of_nat k + of_nat i))"
proof (intro iffI conjI allI impI)
  fix i assume a: "\<forall>i < n. P (va + of_nat i)" and i: "i < n - k"
  have "k + i < n" using i by simp
  with a have "P (va + of_nat (k + i))" by blast
  then show "P (va + of_nat k + of_nat i)" by (simp add: add.assoc)
next
  fix i assume a: "(\<forall>i < k. P (va + of_nat i)) \<and> (\<forall>i < n - k. P (va + of_nat k + of_nat i))" and i: "i < n"
  show "P (va + of_nat i)"
  proof (cases "i < k")
    case False
    then have "i - k < n - k" "va + of_nat k + of_nat (i - k) = va + of_nat i"
      using i assms by (auto simp: add.assoc simp flip: of_nat_add)
    then show ?thesis using a by metis
  qed (use a in blast)
qed (use assms in auto)

lemma umapped_split:
  "k \<le> n \<Longrightarrow> umapped m p va n \<longleftrightarrow> umapped m p va k \<and> umapped m p (va + of_nat k) (n - k)"
  unfolding umapped_def by (rule offsets_split)

lemma cin_mem_compose:
  assumes u: "uas s p" and b: "kbuf s p dst n" "k \<le> n" and m: "umapped (mem s) p srcva n"
  defines "m1 \<equiv> cin_mem (mem s) p dst srcva k"
  shows "cin_mem m1 p (dst + of_nat k) (srcva + of_nat k) (n - k) = cin_mem (mem s) p dst srcva n"
proof (rule ext)
  fix x
  have nw: "unat dst + n < 18446744073709551616" using b(1) by (simp add: kbuf_def)
  have out: "m1 y = mem s y" if "PGROUNDDOWN y \<in> as_total s p" for y
  proof -
    have "\<not> unat (y - dst) < k" using kbuf_byte [OF b(1), of y] b(2) that by auto
    then show ?thesis by (simp add: m1_def cin_mem_def)
  qed
  have ua: "uaddr m1 p va = uaddr (mem s) p va" for va using uas_frame(3) [OF u out] .
  let ?d = "dst + of_nat k"
  show "cin_mem m1 p ?d (srcva + of_nat k) (n - k) x = cin_mem (mem s) p dst srcva n x"
  proof (cases "unat (x - ?d) < n - k")
    case True
    then have lt: "unat (x - dst) < n" using kbuf_offset [OF nw b(2), of x] by simp
    have eq: "srcva + of_nat k + (x - ?d) = srcva + (x - dst)" by simp
    have "srcva + of_nat (unat (x - dst)) = srcva + (x - dst)" by simp
    then obtain a where a: "uaddr (mem s) p (srcva + (x - dst)) = Some a"
      using m lt unfolding umapped_def by (metis not_None_eq)
    then show ?thesis
      using True lt eq ua out [OF uaddr_total [OF u a]] by (simp add: cin_mem_def)
  next
    case False
    then have "unat (x - dst) < n \<longleftrightarrow> unat (x - dst) < k" using kbuf_offset [OF nw b(2), of x] by simp
    then show ?thesis using False by (simp add: cin_mem_def m1_def)
  qed
qed

text \<open>One iteration: within a page, \<^verbatim>\<open>memmove\<close> from the physical page is the user-level copy.\<close>

lemma copyin_chunk:
  assumes u: "uas s p" and b: "kbuf s p dst (unat len)"
    and a: "uaddr (mem s) p (PGROUNDDOWN srcva) = Some pa0"
  defines "n \<equiv> chunk srcva len"
  shows "memmove (mem s) dst (pa0 + page_off srcva) (ucast n) = cin_mem (mem s) p dst srcva (unat n)"
    "umapped (mem s) p srcva (unat n)" "unat n \<le> unat len" "n + page_off srcva \<le> PGSIZE"
proof -
  let ?off = "page_off srcva" and ?va0 = "PGROUNDDOWN srcva"
  have n: "unat n \<le> unat len" "unat n + unat ?off \<le> 4096"
    using page_off_lt [of srcva] by (simp_all add: n_def unat_chunk)
  show "unat n \<le> unat len" by (rule n)
  show "n + ?off \<le> PGSIZE" using n(2) by (simp add: word_le_nat_alt unat_add64)
  have al: "page_aligned pa0" using walkaddr_uaddr(2) [OF u _ a] by simp
  have byte: "uaddr (mem s) p (srcva + d) = Some (pa0 + ?off + d)" if "unat d < unat n" for d
  proof -
    have o: "unat (?off + d) < 4096" using that n(2) by (subst unat_add_nowrap) simp_all
    have eq: "srcva + d = ?va0 + (?off + d)" by (simp add: page_off_def)
    show ?thesis unfolding eq using uaddr_page [OF _ o, of ?va0 "mem s" p] a by (simp add: add.assoc)
  qed
  then show "umapped (mem s) p srcva (unat n)"
    using n(2) unfolding umapped_def by (auto simp: unat_of_nat)
  have src: "PGROUNDDOWN (pa0 + ?off + d) = pa0" if "unat d < unat n" for d
  proof -
    have "unat (?off + d) < 4096" using that n(2) by (subst unat_add_nowrap) simp_all
    then show ?thesis using PGROUNDDOWN_off [OF al, of "?off + d"] by (simp add: add.assoc)
  qed
  have tot: "pa0 \<in> as_total s p"
    using uaddr_total [OF u a] al by (simp add: PGROUNDDOWN_idem)
  have d1: "unat n \<le> unat (dst - (pa0 + ?off))"
  proof (rule ccontr)
    assume "\<not> ?thesis"
    then have lt: "unat (dst - (pa0 + ?off)) < unat n" by simp
    have "PGROUNDDOWN dst = pa0" using src [OF lt] by simp
    moreover have "unat (dst - dst) < unat len" using lt n(1) by simp
    ultimately show False using kbuf_byte [OF b, of dst] tot by simp
  qed
  have d2: "unat n \<le> unat (pa0 + ?off - dst)"
  proof (rule ccontr)
    assume "\<not> ?thesis"
    then have lt: "unat (pa0 + ?off - dst) < unat n" by simp
    then have "PGROUNDDOWN (pa0 + ?off) \<notin> as_total s p" using kbuf_byte [OF b] n(1) by simp
    moreover have "PGROUNDDOWN (pa0 + ?off) = pa0" using al page_off_lt by (rule PGROUNDDOWN_off)
    ultimately show False using tot by simp
  qed
  have un: "unat (ucast n :: u32) = unat n" using chunk_ucast [of srcva len] by (simp add: n_def)
  have "memmove (mem s) dst (pa0 + ?off) (ucast n) = move_spec (mem s) dst (pa0 + ?off) (unat n)"
    using memmove_disjoint [of "ucast n" dst "pa0 + ?off" "mem s"] d1 d2 un by simp
  also have "\<dots> = cin_mem (mem s) p dst srcva (unat n)"
    using byte by (simp add: move_spec_def cin_mem_def fun_eq_iff)
  finally show "memmove (mem s) dst (pa0 + ?off) (ucast n) = cin_mem (mem s) p dst srcva (unat n)" .
qed

lemma uaddr_head:
  assumes "uas s p" "uaddr (mem s) p (PGROUNDDOWN va) = None" "0 < n"
  shows "\<not> umapped (mem s) p va n"
proof -
  have eq: "PGROUNDDOWN va + page_off va = va" by (simp add: page_off_def)
  have "uaddr (mem s) p (PGROUNDDOWN va + page_off va) = None"
    using uaddr_page [OF page_aligned_PGROUNDDOWN page_off_lt] assms(2) by simp
  then have "uaddr (mem s) p (va + of_nat 0) = None" unfolding eq by simp
  then show ?thesis using assms(3) unfolding umapped_def by blast
qed

lemma umapped_cong: "(\<And>va. uaddr m' p va = uaddr m p va) \<Longrightarrow> umapped m' p va n = umapped m p va n"
  by (simp add: umapped_def)

lemma copyin_loop_spec:
  assumes "uas s p" "kbuf s p dst (unat len)" "unat len + unat (page_off srcva) \<le> 4096 * k"
  shows "\<exists>r m'. copyin_loop k s p dst srcva len = Inr (r, s\<lparr>mem := m'\<rparr>)
    \<and> (if umapped (mem s) p srcva (unat len) then r = 0 \<and> m' = cin_mem (mem s) p dst srcva (unat len)
       else r = -1 \<and> (\<forall>x. \<not> unat (x - dst) < unat len \<longrightarrow> m' x = mem s x))"
  using assms
proof (induction k arbitrary: s dst srcva len)
  case 0
  then have "len = 0" by (simp add: unat_eq_0)
  then show ?case by (intro exI [of _ 0] exI [of _ "mem s"]) (simp add: umapped_def cin_mem_def)
next
  case (Suc k)
  note u = Suc.prems(1) and b = Suc.prems(2)
  let ?va0 = "PGROUNDDOWN srcva" and ?n = "chunk srcva len"
  show ?case
  proof (cases "len = 0")
    case True
    then show ?thesis by (intro exI [of _ 0] exI [of _ "mem s"]) (simp add: umapped_def cin_mem_def)
  next
    case False
    then have pos: "0 < len" "0 < unat len" by (simp_all add: word_gt_0 unat_gt_0)
    show ?thesis
    proof (cases "uaddr (mem s) p ?va0")
      case None
      then have "copyin_loop (Suc k) s p dst srcva len = Inr (-1, s)"
        using pos(1) walkaddr_uaddr(1) [OF u, of ?va0] by (simp add: Let_def)
      then show ?thesis
        using uaddr_head [OF u None pos(2)] by (intro exI [of _ "-1"] exI [of _ "mem s"]) simp
    next
      case (Some pa0)
      note c = copyin_chunk [OF u b Some]
      let ?m1 = "cin_mem (mem s) p dst srcva (unat ?n)" and ?t = "s\<lparr>mem := cin_mem (mem s) p dst srcva (unat ?n)\<rparr>"
      have step: "copyin_loop (Suc k) s p dst srcva len = copyin_loop k ?t p (dst + ?n) (?va0 + PGSIZE) (len - ?n)"
        using pos(1) walkaddr_uaddr [OF u, of ?va0] Some c(1)
        by (simp add: Let_def chunk_def page_off_def split: if_splits)
      have out: "?m1 x = mem s x" if "PGROUNDDOWN x \<in> as_total s p" for x
        using kbuf_byte [OF b, of x] c(3) that by (auto simp: cin_mem_def)
      note f = uas_frame [OF u out]
      have len': "unat (len - ?n) = unat len - unat ?n" using c(3) by (simp add: unat_sub word_le_nat_alt)
      have nn: "of_nat (unat ?n) = ?n" by simp
      show ?thesis
      proof (cases "unat ?n = unat len")
        case True
        then have "?n = len" by (rule word_eq_of_unat)
        then have "copyin_loop (Suc k) s p dst srcva len = Inr (0, ?t)"
          unfolding step by (cases k) simp_all
        then show ?thesis using True c(2) by (intro exI [of _ 0] exI [of _ ?m1]) simp
      next
        case False
        note nx = chunk_next [OF False]
        have b': "kbuf ?t p (dst + ?n) (unat (len - ?n))"
          using kbuf_suffix(1) [OF b c(3)] f(2) len' nn unfolding kbuf_def by simp
        have fuel: "unat (len - ?n) + unat (page_off (?va0 + PGSIZE)) \<le> 4096 * k"
          using Suc.prems(3) False len' nx(2) by (simp add: unat_chunk)
        obtain r m' where R: "copyin_loop k ?t p (dst + ?n) (?va0 + PGSIZE) (len - ?n) = Inr (r, ?t\<lparr>mem := m'\<rparr>)"
          "if umapped ?m1 p (srcva + ?n) (unat len - unat ?n)
           then r = 0 \<and> m' = cin_mem ?m1 p (dst + ?n) (srcva + ?n) (unat len - unat ?n)
           else r = -1 \<and> (\<forall>x. \<not> unat (x - (dst + ?n)) < unat len - unat ?n \<longrightarrow> m' x = ?m1 x)"
          using Suc.IH [OF f(1) b' fuel] nx(1) len' by auto
        have sp: "umapped (mem s) p srcva (unat len) \<longleftrightarrow> umapped ?m1 p (srcva + ?n) (unat len - unat ?n)"
          using umapped_split [OF c(3)] c(2) umapped_cong [OF f(3)] nn by metis
        have nw: "unat dst + unat len < 18446744073709551616" using b by (simp add: kbuf_def)
        show ?thesis
        proof (cases "umapped (mem s) p srcva (unat len)")
          case True
          then have "m' = cin_mem (mem s) p dst srcva (unat len)"
            using R(2) sp cin_mem_compose [OF u b c(3) True] nn by simp
          then show ?thesis using True R sp step by (intro exI [of _ 0] exI [of _ m']) simp
        next
          case nm: False
          have "m' x = mem s x" if "\<not> unat (x - dst) < unat len" for x
            using R(2) sp nm that kbuf_offset [OF nw c(3), of x] nn by (simp add: cin_mem_def)
          then show ?thesis using nm R sp step by (intro exI [of _ "-1"] exI [of _ m']) simp
        qed
      qed
    qed
  qed
qed

lemma copyin_spec:
  assumes "uas s p" "kbuf s p dst (unat len)"
  shows "\<exists>r m'. copyin s p dst srcva len = Inr (r, s\<lparr>mem := m'\<rparr>)
    \<and> (if umapped (mem s) p srcva (unat len) then r = 0 \<and> m' = cin_mem (mem s) p dst srcva (unat len)
       else r = -1 \<and> (\<forall>x. \<not> unat (x - dst) < unat len \<longrightarrow> m' x = mem s x))"
proof -
  have "unat len \<le> 4096 * (unat len div 4096) + 4095" using div_mult_mod_eq [of "unat len" 4096] by simp
  then have "unat len + unat (page_off srcva) \<le> 4096 * (unat len div 4096 + 2)"
    using page_off_lt [of srcva] by simp
  from copyin_loop_spec [OF assms this] show ?thesis unfolding copyin_def .
qed

section \<open>copyout\<close>

text \<open>A store into user pages keeps the address space.\<close>

lemma uas_user_write:
  fixes s :: "'a mm_state_scheme" and m :: memory
  assumes "uas s p" "\<And>x. PGROUNDDOWN x \<notin> upages s p \<Longrightarrow> m x = mem s x"
  defines "t \<equiv> s\<lparr>mem := m\<rparr>"
  shows "uas t p" "as_total t p = as_total s p" "uaddr m p va = uaddr (mem s) p va"
    "lookup m p va = lookup (mem s) p va"
proof -
  note I = as_invD [OF uasD(1) [OF assms(1)]]
  have ag: "agree_page (mem s) m q" if "q \<notin> upages s p" for q
    using assms(2) that unfolding agree_page_def by metis
  have "\<forall>q \<in> avail s. agree_page (mem s) m q" using ag I(3) by blast
  from kmem_frame [OF I(5) this] have k: "kmem_inv t" "avail t = avail s" by (simp_all add: t_def)
  have f: "mm_frame s t" by (simp add: t_def)
  have "\<forall>q \<in> ptp s p. agree_page (mem s) (mem t) q \<and> q \<notin> avail t"
    using ag k(2) I(2,6) by (auto simp: t_def)
  note o = pt_owned_frame [OF I(1) k(1) f this]
  show lk: "lookup m p va = lookup (mem s) p va" for va using o(3) by (simp add: t_def)
  then have ul: "uleaf m p va = uleaf (mem s) p va" for va by (simp add: uleaf_def)
  have up: "upages t p = upages s p" by (simp add: upages_def ul t_def)
  show "as_total t p = as_total s p" using up o(2) k(2) by (simp add: as_total_def)
  have "as_inv t p"
  proof (rule as_inv_sub [OF uasD(1) [OF assms(1)] o(1,2) f])
    fix va v assume "uleaf (mem t) p va = Some v"
    then have "uleaf (mem s) p va = Some v" using ul by (simp add: t_def)
    then show "uleaf (mem s) p va = Some v \<and> PTE2PA v \<notin> avail t"
      using I(3) [OF upagesI] k(2) by blast
  qed
  then show "uas t p" using uasD(2) [OF assms(1)] lk unfolding uas_def by (auto simp: t_def)
  show "uaddr m p va = uaddr (mem s) p va" using lk [of va] by (simp add: uaddr_def)
qed

definition wmapped :: "memory \<Rightarrow> u64 \<Rightarrow> u64 \<Rightarrow> nat \<Rightarrow> bool" where
  "wmapped m p va n \<longleftrightarrow> (\<forall>i < n. uaddr m p (va + of_nat i) \<noteq> None
     \<and> (\<exists>v. lookup m p (va + of_nat i) = Some v \<and> v AND PTE_W \<noteq> 0))"

text \<open>\<open>m'\<close> is \<open>m\<close> with \<open>n\<close> bytes from \<open>src\<close> copied to the user bytes at \<open>dstva\<close>.\<close>

definition cout_rel :: "memory \<Rightarrow> memory \<Rightarrow> u64 \<Rightarrow> u64 \<Rightarrow> u64 \<Rightarrow> nat \<Rightarrow> bool" where
  "cout_rel m m' p dstva src n \<longleftrightarrow>
     (\<forall>i < n. \<exists>a. uaddr m p (dstva + of_nat i) = Some a \<and> m' a = m (src + of_nat i))
     \<and> (\<forall>x. (\<forall>i < n. uaddr m p (dstva + of_nat i) \<noteq> Some x) \<longrightarrow> m' x = m x)"

lemma wmapped_split:
  "k \<le> n \<Longrightarrow> wmapped m p va n \<longleftrightarrow> wmapped m p va k \<and> wmapped m p (va + of_nat k) (n - k)"
  unfolding wmapped_def by (rule offsets_split)

lemma wmapped_umapped: "wmapped m p va n \<Longrightarrow> umapped m p va n"
  by (simp add: wmapped_def umapped_def)

lemma umapped_nowrap:
  "umapped m p va n \<Longrightarrow> 0 < n \<Longrightarrow> unat va + n \<le> unat MAXVA"
proof (induction n)
  case 0
  then show ?case by simp
next
  case (Suc n)
  have um: "umapped m p va n" and "uaddr m p (va + of_nat n) \<noteq> None"
    using Suc.prems(1) unfolding umapped_def by auto
  then have lt: "va + of_nat n < MAXVA" by (auto simp: uaddr_def split: option.splits if_splits)
  have "unat (va + of_nat n) = unat va + n"
  proof (cases "n = 0")
    case False
    then have le: "unat va + n \<le> unat MAXVA" using Suc.IH um by simp
    then have "unat (of_nat n :: u64) = n" by (intro unat_of_nat64) simp
    then show ?thesis using le by (subst unat_add_nowrap) simp_all
  qed simp
  then show ?case using lt by (simp add: word_less_nat_alt)
qed

text \<open>The bytes of one page, seen through the table.\<close>

lemma uaddr_chunk:
  assumes "uas s p" "uaddr (mem s) p (PGROUNDDOWN va) = Some pa0" "unat d < unat (chunk va len)"
  shows "uaddr (mem s) p (va + d) = Some (pa0 + page_off va + d)"
    "PGROUNDDOWN (pa0 + page_off va + d) = pa0" "PGROUNDDOWN (va + d) = PGROUNDDOWN va"
    "lookup (mem s) p (va + d) = lookup (mem s) p (PGROUNDDOWN va)"
proof -
  have le: "unat (chunk va len) + unat (page_off va) \<le> 4096"
    using page_off_lt [of va] by (simp add: unat_chunk)
  then have o: "unat (page_off va + d) < 4096" using assms(3) by (subst unat_add_nowrap) simp_all
  have al: "page_aligned pa0" using walkaddr_uaddr(2) [OF assms(1) _ assms(2)] by simp
  have eq: "va + d = PGROUNDDOWN va + (page_off va + d)" by (simp add: page_off_def)
  show "uaddr (mem s) p (va + d) = Some (pa0 + page_off va + d)"
    unfolding eq using uaddr_page [OF page_aligned_PGROUNDDOWN o] assms(2) by (simp add: add.assoc)
  show "PGROUNDDOWN (pa0 + page_off va + d) = pa0"
    using PGROUNDDOWN_off [OF al o] by (simp add: add.assoc)
  show pg: "PGROUNDDOWN (va + d) = PGROUNDDOWN va"
    unfolding eq by (rule PGROUNDDOWN_off [OF page_aligned_PGROUNDDOWN o])
  show "lookup (mem s) p (va + d) = lookup (mem s) p (PGROUNDDOWN va)"
    by (rule lookup_page) (simp add: pg PGROUNDDOWN_idem)
qed

lemma copyout_chunk:
  assumes u: "uas s p" and b: "kbuf s p src (unat len)"
    and a: "uaddr (mem s) p (PGROUNDDOWN dstva) = Some pa0"
  defines "n \<equiv> chunk dstva len"
  defines "m1 \<equiv> memmove (mem s) (pa0 + page_off dstva) src (ucast n)"
  shows "cout_rel (mem s) m1 p dstva src (unat n)" "unat n \<le> unat len"
    "PGROUNDDOWN x \<noteq> pa0 \<Longrightarrow> m1 x = mem s x"
proof -
  let ?d = "pa0 + page_off dstva"
  note uc = uaddr_chunk [OF u a, of _ len, folded n_def]
  have n: "unat n \<le> unat len" by (simp add: n_def unat_chunk)
  show "unat n \<le> unat len" by (rule n)
  have al: "page_aligned pa0" using walkaddr_uaddr(2) [OF u _ a] by simp
  have tot: "pa0 \<in> as_total s p" using uaddr_total [OF u a] al by (simp add: PGROUNDDOWN_idem)
  have d1: "unat n \<le> unat (?d - src)"
  proof (rule ccontr)
    assume "\<not> ?thesis"
    then have "unat (?d - src) < unat len" using n by simp
    then have "PGROUNDDOWN ?d \<notin> as_total s p" by (rule kbuf_byte [OF b])
    moreover have "PGROUNDDOWN ?d = pa0" using al page_off_lt by (rule PGROUNDDOWN_off)
    ultimately show False using tot by simp
  qed
  have d2: "unat n \<le> unat (src - ?d)"
  proof (rule ccontr)
    assume "\<not> ?thesis"
    then have lt: "unat (src - ?d) < unat n" by simp
    have "PGROUNDDOWN src = pa0" using uc(2) [OF lt] by simp
    moreover have "unat (src - src) < unat len" using lt n by simp
    ultimately show False using kbuf_byte [OF b, of src] tot by simp
  qed
  have un: "unat (ucast n :: u32) = unat n" using chunk_ucast [of dstva len] by (simp add: n_def)
  have m1: "m1 = move_spec (mem s) ?d src (unat n)"
    using memmove_disjoint [of "ucast n" ?d src "mem s"] d1 d2 un by (simp add: m1_def)
  show "m1 x = mem s x" if "PGROUNDDOWN x \<noteq> pa0"
  proof -
    have "\<not> unat (x - ?d) < unat n" using uc(2) [of "x - ?d"] that by auto
    then show ?thesis by (simp add: m1 move_spec_def)
  qed
  show "cout_rel (mem s) m1 p dstva src (unat n)"
    unfolding cout_rel_def
  proof (intro conjI allI impI)
    fix i assume i: "i < unat n"
    have ui: "unat (of_nat i :: u64) = i" using i unat_lt64 [of n] by (intro unat_of_nat64) simp
    then show "\<exists>a. uaddr (mem s) p (dstva + of_nat i) = Some a \<and> m1 a = mem s (src + of_nat i)"
      using uc(1) [of "of_nat i"] i by (auto simp: m1 move_spec_def)
  next
    fix x assume x: "\<forall>i < unat n. uaddr (mem s) p (dstva + of_nat i) \<noteq> Some x"
    have "\<not> unat (x - ?d) < unat n"
    proof
      assume lt: "unat (x - ?d) < unat n"
      have "uaddr (mem s) p (dstva + (x - ?d)) = Some x" using uc(1) [OF lt] by simp
      then show False using x lt by (metis of_nat_unat ucast_id)
    qed
    then show "m1 x = mem s x" by (simp add: m1 move_spec_def)
  qed
qed

text \<open>Copies to consecutive pieces of user memory compose.\<close>

lemma cout_rel_compose:
  assumes u: "uas s p" and b: "kbuf s p src n" "k \<le> n" and w: "umapped (mem s) p dstva n"
    and m1: "cout_rel (mem s) m1 p dstva src k" and m2: "cout_rel m1 m2 p (dstva + of_nat k) (src + of_nat k) (n - k)"
    and pg: "\<And>i j. i < k \<Longrightarrow> j < n - k \<Longrightarrow>
      PGROUNDDOWN (dstva + of_nat i) \<noteq> PGROUNDDOWN (dstva + of_nat k + of_nat j)"
    and ua: "\<And>va. uaddr m1 p va = uaddr (mem s) p va"
  shows "cout_rel (mem s) m2 p dstva src n"
  unfolding cout_rel_def
proof (intro conjI allI impI)
  fix i assume i: "i < n"
  show "\<exists>a. uaddr (mem s) p (dstva + of_nat i) = Some a \<and> m2 a = mem s (src + of_nat i)"
  proof (cases "i < k")
    case True
    then obtain a where a: "uaddr (mem s) p (dstva + of_nat i) = Some a" "m1 a = mem s (src + of_nat i)"
      using m1 unfolding cout_rel_def by blast
    have "uaddr m1 p (dstva + of_nat k + of_nat j) \<noteq> Some a" if "j < n - k" for j
      using uaddr_inj [OF u a(1)] pg [OF True that] ua by auto
    then have "m2 a = m1 a" using m2 unfolding cout_rel_def by blast
    then show ?thesis using a by simp
  next
    case False
    define j where "j = i - k"
    have j: "j < n - k" "i = k + j" using False i by (auto simp: j_def)
    then obtain a where a: "uaddr m1 p (dstva + of_nat k + of_nat j) = Some a"
        "m2 a = m1 (src + of_nat k + of_nat j)"
      using m2 unfolding cout_rel_def by blast
    have "PGROUNDDOWN (src + of_nat i) \<notin> as_total s p" using b(1) i unfolding kbuf_def by blast
    then have "uaddr (mem s) p (dstva + of_nat l) \<noteq> Some (src + of_nat i)" for l
      using uaddr_total [OF u] by blast
    then have "m1 (src + of_nat i) = mem s (src + of_nat i)" using m1 unfolding cout_rel_def by blast
    then show ?thesis using a ua j(2) by (simp add: add.assoc)
  qed
next
  fix x assume x: "\<forall>i < n. uaddr (mem s) p (dstva + of_nat i) \<noteq> Some x"
  have "uaddr m1 p (dstva + of_nat k + of_nat j) \<noteq> Some x" if "j < n - k" for j
  proof -
    have "k + j < n" using that by simp
    then have "uaddr (mem s) p (dstva + of_nat (k + j)) \<noteq> Some x" using x by blast
    then show ?thesis using ua by (simp add: add.assoc)
  qed
  then have "m2 x = m1 x" using m2 unfolding cout_rel_def by blast
  moreover have "m1 x = mem s x" using m1 x b(2) unfolding cout_rel_def by auto
  ultimately show "m2 x = mem s x" by simp
qed

lemma uaddr_leaf:
  assumes "uaddr (mem s) p va0 = Some pa0"
  obtains pte v where "leaf_slot 2 (mem s) p va0 = Some pte" "ld64 (mem s) pte = v"
    "lookup (mem s) p va0 = Some v" "va0 < MAXVA"
proof -
  obtain v where v: "lookup (mem s) p va0 = Some v" "va0 < MAXVA"
    using assms by (auto simp: uaddr_def split: option.splits if_splits)
  then obtain pte where pte: "leaf_slot 2 (mem s) p va0 = Some pte" using lookup_Some_leaf by blast
  then have "ld64 (mem s) pte = v" using v(1) lookup_leaf [OF pte] by (auto split: if_splits)
  then show thesis using that pte v by blast
qed

lemma wmapped_chunk:
  assumes "uas s p" "uaddr (mem s) p (PGROUNDDOWN va) = Some pa0"
    "lookup (mem s) p (PGROUNDDOWN va) = Some v" "v AND PTE_W \<noteq> 0"
  shows "wmapped (mem s) p va (unat (chunk va len))"
  unfolding wmapped_def
proof (intro allI impI)
  fix i assume i: "i < unat (chunk va len)"
  then have "unat (of_nat i :: u64) < unat (chunk va len)"
    using unat_lt64 [of "chunk va len"] by (subst unat_of_nat64) simp_all
  note uc = uaddr_chunk [OF assms(1,2) this]
  show "uaddr (mem s) p (va + of_nat i) \<noteq> None \<and> (\<exists>v. lookup (mem s) p (va + of_nat i) = Some v \<and> v AND PTE_W \<noteq> 0)"
    using uc(1,4) assms(3,4) by simp
qed

text \<open>The pages after the first piece are later pages.\<close>

lemma chunk_pages_differ:
  assumes "umapped m p va (unat len)" "unat (chunk va len) \<noteq> unat len"
    "i < unat (chunk va len)" "j < unat len - unat (chunk va len)"
  shows "PGROUNDDOWN (va + of_nat i) \<noteq> PGROUNDDOWN (va + chunk va len + of_nat j)"
proof -
  let ?n = "chunk va len"
  have lt: "unat va + unat len \<le> unat MAXVA" using umapped_nowrap [OF assms(1)] assms(4) by simp
  have n: "unat ?n = 4096 - unat (page_off va)" using assms(2) by (simp add: unat_chunk)
  have va: "unat va = unat (PGROUNDDOWN va) + unat (page_off va)"
  proof -
    have "unat (PGROUNDDOWN va + page_off va) = unat (PGROUNDDOWN va) + unat (page_off va)"
      using unat_page_off [OF page_aligned_PGROUNDDOWN page_off_lt] .
    then show ?thesis by (simp add: page_off_def)
  qed
  have ui: "unat (va + of_nat i) = unat va + i" and uj: "unat (va + ?n + of_nat j) = unat va + unat ?n + j"
  proof -
    have le: "unat ?n \<le> unat len" by (simp add: unat_chunk)
    have "unat (of_nat i :: u64) = i" "unat (of_nat j :: u64) = j"
      using assms(3,4) le lt by (auto intro!: unat_of_nat64)
    moreover have "unat (va + ?n) = unat va + unat ?n" using le lt by (intro unat_add_nowrap) simp
    ultimately show "unat (va + of_nat i) = unat va + i" "unat (va + ?n + of_nat j) = unat va + unat ?n + j"
      using assms(3,4) le lt by (auto simp: unat_add_nowrap)
  qed
  define q where "q = unat va div 4096"
  have q: "unat (PGROUNDDOWN va) = q * 4096" by (simp add: unat_PGROUNDDOWN q_def)
  have "(unat va + i) div 4096 < q + 1"
    using va q n assms(3) by (simp add: div_less_iff_less_mult)
  moreover have "q + 1 \<le> (unat va + unat ?n + j) div 4096"
    using va q n page_off_lt [of va] by (simp add: less_eq_div_iff_mult_less_eq)
  ultimately show ?thesis using ui uj by (auto simp: word_unat_eq_iff unat_PGROUNDDOWN)
qed

lemma copyout_loop_spec:
  assumes "uas s p" "kbuf s p src (unat len)" "unat len + unat (page_off dstva) \<le> 4096 * k"
  shows "\<exists>r m'. copyout_loop k s p dstva src len = Inr (r, s\<lparr>mem := m'\<rparr>)
    \<and> (if wmapped (mem s) p dstva (unat len) then r = 0 \<and> cout_rel (mem s) m' p dstva src (unat len)
       else r = -1 \<and> (\<forall>x. (\<forall>i < unat len. uaddr (mem s) p (dstva + of_nat i) \<noteq> Some x) \<longrightarrow> m' x = mem s x))"
  using assms
proof (induction k arbitrary: s src dstva len)
  case 0
  then have "len = 0" by (simp add: unat_eq_0)
  then show ?case by (intro exI [of _ 0] exI [of _ "mem s"]) (simp add: wmapped_def cout_rel_def)
next
  case (Suc k)
  note u = Suc.prems(1) and b = Suc.prems(2)
  let ?va0 = "PGROUNDDOWN dstva" and ?n = "chunk dstva len"
  show ?case
  proof (cases "len = 0")
    case True
    then show ?thesis by (intro exI [of _ 0] exI [of _ "mem s"]) (simp add: wmapped_def cout_rel_def)
  next
    case False
    then have pos: "0 < len" "0 < unat len" by (simp_all add: word_gt_0 unat_gt_0)
    show ?thesis
    proof (cases "uaddr (mem s) p ?va0")
      case None
      then have "copyout_loop (Suc k) s p dstva src len = Inr (-1, s)"
        using pos(1) walkaddr_uaddr(1) [OF u, of ?va0] by (simp add: Let_def)
      moreover have "\<not> wmapped (mem s) p dstva (unat len)"
        using uaddr_head [OF u None pos(2)] wmapped_umapped by blast
      ultimately show ?thesis by (intro exI [of _ "-1"] exI [of _ "mem s"]) simp
    next
      case (Some pa0)
      obtain pte v where L: "leaf_slot 2 (mem s) p ?va0 = Some pte" "ld64 (mem s) pte = v"
          "lookup (mem s) p ?va0 = Some v" "?va0 < MAXVA" using uaddr_leaf [OF Some] .
      have walk: "walkaddr s p ?va0 = Inr pa0" "pa0 \<noteq> 0" "walk s p ?va0 False = Inr (pte, s)" "\<not> MAXVA \<le> ?va0"
        using walkaddr_uaddr [OF u, of ?va0] Some L by (simp_all add: walk_read)
      show ?thesis
      proof (cases "v AND PTE_W = 0")
        case True
        then have "copyout_loop (Suc k) s p dstva src len = Inr (-1, s)"
          using pos(1) walk L by (simp add: Let_def)
        moreover have "\<not> wmapped (mem s) p dstva (unat len)"
        proof
          assume "wmapped (mem s) p dstva (unat len)"
          then obtain w where "lookup (mem s) p (dstva + of_nat 0) = Some w" "w AND PTE_W \<noteq> 0"
            using pos(2) unfolding wmapped_def by blast
          moreover have "lookup (mem s) p dstva = Some v"
            using lookup_page [of dstva ?va0] L(3) by (simp add: PGROUNDDOWN_idem)
          ultimately show False using True by simp
        qed
        ultimately show ?thesis by (intro exI [of _ "-1"] exI [of _ "mem s"]) simp
      next
        case W: False
        let ?m1 = "memmove (mem s) (pa0 + page_off dstva) src (ucast ?n)"
        let ?t = "s\<lparr>mem := memmove (mem s) (pa0 + page_off dstva) src (ucast ?n)\<rparr>"
        note c = copyout_chunk [OF u b Some]
        have step: "copyout_loop (Suc k) s p dstva src len = copyout_loop k ?t p (?va0 + PGSIZE) (src + ?n) (len - ?n)"
          using pos(1) walk L W by (simp add: Let_def chunk_def page_off_def split: if_splits)
        have pa0_up: "pa0 \<in> upages s p"
          using uaddr_upages(3) [OF u Some] walkaddr_uaddr(2) [OF u _ Some] by (simp add: PGROUNDDOWN_idem)
        have out: "?m1 x = mem s x" if "PGROUNDDOWN x \<notin> upages s p" for x
          using c(3) [of x] pa0_up that by auto
        note f = uas_user_write [OF u out]
        have len': "unat (len - ?n) = unat len - unat ?n" using c(2) by (simp add: unat_sub word_le_nat_alt)
        have nn: "of_nat (unat ?n) = ?n" by simp
        have wc: "wmapped (mem s) p dstva (unat ?n)" using wmapped_chunk [OF u Some L(3) W] .
        show ?thesis
        proof (cases "unat ?n = unat len")
          case True
          then have "?n = len" by (rule word_eq_of_unat)
          then have "copyout_loop (Suc k) s p dstva src len = Inr (0, ?t)"
            unfolding step by (cases k) simp_all
          then show ?thesis using True wc c(1) by (intro exI [of _ 0] exI [of _ ?m1]) simp
        next
          case False
          note nx = chunk_next [OF False]
          have b': "kbuf ?t p (src + ?n) (unat (len - ?n))"
            using kbuf_suffix(1) [OF b c(2)] f(2) len' nn unfolding kbuf_def by simp
          have fuel: "unat (len - ?n) + unat (page_off (?va0 + PGSIZE)) \<le> 4096 * k"
            using Suc.prems(3) False len' nx(2) by (simp add: unat_chunk)
          obtain r m' where R: "copyout_loop k ?t p (?va0 + PGSIZE) (src + ?n) (len - ?n) = Inr (r, ?t\<lparr>mem := m'\<rparr>)"
            "if wmapped (mem ?t) p (dstva + ?n) (unat len - unat ?n)
             then r = 0 \<and> cout_rel (mem ?t) m' p (dstva + ?n) (src + ?n) (unat len - unat ?n)
             else r = -1 \<and> (\<forall>x. (\<forall>i < unat len - unat ?n. uaddr (mem ?t) p (dstva + ?n + of_nat i) \<noteq> Some x)
               \<longrightarrow> m' x = mem ?t x)"
            using Suc.IH [OF f(1) b' fuel] unfolding nx(1) len' by blast
          have sp: "wmapped (mem s) p dstva (unat len) \<longleftrightarrow> wmapped ?m1 p (dstva + ?n) (unat len - unat ?n)"
            using wmapped_split [OF c(2)] wc f(3,4) nn by (simp add: wmapped_def)
          show ?thesis
          proof (cases "wmapped (mem s) p dstva (unat len)")
            case True
            note um = wmapped_umapped [OF True]
            have m2: "cout_rel ?m1 m' p (dstva + of_nat (unat ?n)) (src + of_nat (unat ?n)) (unat len - unat ?n)"
              using R(2) sp True nn by simp
            have "cout_rel (mem s) m' p dstva src (unat len)"
              using cout_rel_compose [OF u b c(2) um c(1) m2 _ f(3)] chunk_pages_differ [OF um False] nn by simp
            then show ?thesis using True R sp step by (intro exI [of _ 0] exI [of _ m']) simp
          next
            case nm: False
            have "m' x = mem s x" if x: "\<forall>i < unat len. uaddr (mem s) p (dstva + of_nat i) \<noteq> Some x" for x
            proof -
              have "(\<forall>i < unat ?n. uaddr (mem s) p (dstva + of_nat i) \<noteq> Some x)
                \<and> (\<forall>i < unat len - unat ?n. uaddr (mem s) p (dstva + ?n + of_nat i) \<noteq> Some x)"
                using offsets_split [OF c(2), of "\<lambda>y. uaddr (mem s) p y \<noteq> Some x" dstva] x nn by simp
              then have "m' x = ?m1 x" "?m1 x = mem s x"
                using R(2) sp nm f(3) c(1) unfolding cout_rel_def by auto
              then show ?thesis by simp
            qed
            then show ?thesis using nm R sp step by (intro exI [of _ "-1"] exI [of _ m']) simp
          qed
        qed
      qed
    qed
  qed
qed

lemma copyout_spec:
  assumes "uas s p" "kbuf s p src (unat len)"
  shows "\<exists>r m'. copyout s p dstva src len = Inr (r, s\<lparr>mem := m'\<rparr>)
    \<and> (if wmapped (mem s) p dstva (unat len) then r = 0 \<and> cout_rel (mem s) m' p dstva src (unat len)
       else r = -1 \<and> (\<forall>x. (\<forall>i < unat len. uaddr (mem s) p (dstva + of_nat i) \<noteq> Some x) \<longrightarrow> m' x = mem s x))"
proof -
  have "unat len \<le> 4096 * (unat len div 4096) + 4095" using div_mult_mod_eq [of "unat len" 4096] by simp
  then have "unat len + unat (page_off dstva) \<le> 4096 * (unat len div 4096 + 2)"
    using page_off_lt [of dstva] by simp
  from copyout_loop_spec [OF assms this] show ?thesis unfolding copyout_def .
qed

end
