(* ===== verification/Vmprops.thy ===== *)
theory Vmprops
  imports Ucopy
begin

text \<open>
  What \<^verbatim>\<open>kernel/mm/vm.c\<close> promises to the rest of the kernel, stated on the abstract address space
  \<open>aspace\<close> (permission bits and contents of every user page): creating, growing, shrinking, copying
  and freeing an address space, and moving bytes in and out of one.
\<close>

section \<open>A fresh address space\<close>

lemma uvmcreate_spec:
  assumes k: "kmem_inv s" and c: "uvmcreate s = (p, s')"
  shows "if p = 0 then avail s = {} \<and> s' = s
    else uas s' p \<and> mm_frame s s' \<and> p \<in> avail s \<and> avail s' = avail s - {p} \<and> as_total s' p = avail s
      \<and> (\<forall>va. lookup (mem s') p va = None) \<and> (\<forall>q. q \<noteq> p \<longrightarrow> agree_page (mem s) (mem s') q)"
proof -
  obtain pg s1 where ka: "kalloc s = (pg, s1)" by (cases "kalloc s")
  have pg: "p = pg" using c ka by (auto simp: uvmcreate_def split: if_splits)
  show ?thesis
  proof (cases "pg = 0")
    case True
    then show ?thesis
      using c ka pg kmem.alloc_result [OF k ka] by (simp add: uvmcreate_def)
  next
    case False
    let ?m = "memset (mem s1) pg 0 4096"
    have s': "s' = s1\<lparr>mem := ?m\<rparr>" using c ka False by (auto simp: uvmcreate_def)
    have al: "page_aligned pg"
      using kmem.alloc_result [OF k ka] False valid_page_aligned by auto
    have ag: "\<forall>q. q \<noteq> pg \<longrightarrow> agree_page (mem s1) ?m q"
      using agree_page_sym [OF agree_page_memset [OF al]] by auto
    note F = fresh_page [OF k ka False ag, folded s']
    note zt = zero_table [OF al ld64_memset_slot [OF al, of _ "mem s1"]]
    have look: "lookup (mem s') p va = None" for va using zt(4) by (simp add: lookup_def s' pg)
    have ptp: "ptp s' p = {p}" using zt(2) by (simp add: ptp_def s' pg)
    have up: "upages s' p = {}" using look by (auto simp: upages_def uleaf_def)
    have own: "pt_owned 2 s' p"
      using F(1,3,5) zt(3) ptp mm_frame_valid [OF F(2)] by (simp add: pt_owned_def ptp_def s' pg)
    have "as_inv s' p" using own up look by (simp add: as_inv_def uleaf_def)
    then have "uas s' p" using look by (simp add: uas_def)
    moreover have "as_total s' p = avail s" using ptp up F(3,4) pg by (auto simp: as_total_def)
    ultimately show ?thesis using F look pg False by auto
  qed
qed

text \<open>A state with a given set of free pages, for the examples below.\<close>

definition boot_pages :: "u64 list" where
  "boot_pages = [0x80002000, 0x80003000, 0x80004000, 0x80005000, 0x80006000, 0x80007000, 0x80008000,
     0x80009000, 0x8000A000, 0x8000B000, 0x8000C000, 0x8000D000, 0x8000E000, 0x8000F000]"

lemma free_pages_exist:
  assumes "distinct ps" "\<forall>p \<in> set ps. valid_page s p" "kmem_inv s" "avail s \<inter> set ps = {}"
  shows "\<exists>s'. kmem_inv s' \<and> mm_frame s s' \<and> avail s' = avail s \<union> set ps"
  using assms
proof (induction ps arbitrary: s)
  case Nil
  then show ?case by auto
next
  case (Cons p ps)
  obtain s1 where s1: "kfree s p = Inr s1" "kmem_inv s1" "avail s1 = insert p (avail s)"
    using kmem.free_page [OF Cons.prems(3), of p] Cons.prems by auto
  have fr: "mm_frame s s1" by (rule kfree_mm_frame [OF s1(1)])
  have "\<exists>s'. kmem_inv s' \<and> mm_frame s1 s' \<and> avail s' = avail s1 \<union> set ps"
    using Cons.prems s1 mm_frame_valid [OF fr] by (intro Cons.IH) auto
  then show ?case using mm_frame_trans [OF fr] s1(3) by auto
qed

definition boot_mm :: mm_state where
  "boot_mm = \<lparr>mem = (\<lambda>_. 0), freelist = 0, phys_top = 0x88000000, kernel_end = 0x80001000\<rparr>"

text \<open>Two empty, disjoint address spaces with twelve free pages.\<close>

lemma two_spaces:
  "\<exists>s p q. uas (s :: mm_state) p \<and> uas s q \<and> as_disjoint s p q \<and> card (avail s) = 12
     \<and> (\<forall>va. lookup (mem s) p va = None) \<and> (\<forall>va. lookup (mem s) q va = None)
     \<and> as_total s p \<union> as_total s q \<subseteq> set boot_pages"
proof -
  have k: "kmem_inv boot_mm" "avail boot_mm = {}"
    using kmem_invI [of boot_mm "[]"] by (simp_all add: boot_mm_def avail_def)
  have v: "\<forall>p \<in> set boot_pages. valid_page boot_mm p" "distinct boot_pages"
    by (simp_all add: boot_pages_def valid_page_def boot_mm_def page_aligned_def)
  obtain s0 where s0: "kmem_inv s0" "mm_frame boot_mm s0" "avail s0 = set boot_pages"
    using free_pages_exist [OF v(2,1) k(1)] k(2) by auto
  have card0: "card (avail s0) = 14" using s0(3) by (simp add: boot_pages_def)
  obtain p s1 where c1: "uvmcreate s0 = (p, s1)" by (cases "uvmcreate s0")
  have n1: "p \<noteq> 0" using uvmcreate_spec [OF s0(1) c1] card0 by auto
  have p1: "uas s1 p" "mm_frame s0 s1" "p \<in> avail s0" "avail s1 = avail s0 - {p}" "as_total s1 p = avail s0"
      "\<forall>va. lookup (mem s1) p va = None"
    using uvmcreate_spec [OF s0(1) c1] n1 by auto
  have card1: "card (avail s1) = 13" using p1(3,4) card0 by simp
  have k1: "kmem_inv s1" using as_invD(5) [OF uasD(1) [OF p1(1)]] .
  obtain q s2 where c2: "uvmcreate s1 = (q, s2)" by (cases "uvmcreate s1")
  have n2: "q \<noteq> 0" using uvmcreate_spec [OF k1 c2] card1 by auto
  have p2: "uas s2 q" "mm_frame s1 s2" "q \<in> avail s1" "avail s2 = avail s1 - {q}" "as_total s2 q = avail s1"
      "\<forall>va. lookup (mem s2) q va = None" "\<forall>r. r \<noteq> q \<longrightarrow> agree_page (mem s1) (mem s2) r"
    using uvmcreate_spec [OF k1 c2] n2 by auto
  have up: "upages s1 p = {}" using p1(6) by (auto simp: upages_def uleaf_def)
  have "\<forall>r \<in> ptp s1 p \<union> upages s1 p. agree_page (mem s1) (mem s2) r \<and> r \<notin> avail s2"
    using p2(3,4,7) as_invD(6) [OF uasD(1) [OF p1(1)]] up by fastforce
  note fr = as_frame [OF uasD(1) [OF p1(1)] as_invD(5) [OF uasD(1) [OF p2(1)]] p2(2) this]
  have u2: "uas s2 p" using fr(1,4) p1(6) by (simp add: uas_def)
  have dis: "as_disjoint s2 p q"
    using fr(2,3) up p2(5) as_invD(6) [OF uasD(1) [OF p1(1)]] unfolding as_disjoint_def by auto
  have tot: "as_total s2 p \<union> as_total s2 q \<subseteq> set boot_pages"
    using fr(2,3) p1(4,5) p2(4,5) s0(3) unfolding as_total_def by auto
  show ?thesis
    using u2 p2(1) dis card1 p2(3,4,6) fr(4) p1(6) tot by (intro exI [of _ s2] exI [of _ p] exI [of _ q]) auto
qed


section \<open>Growing, copying and freeing\<close>

text \<open>
  C1: \<^verbatim>\<open>uvmalloc\<close> refines "add zero pages".  On a well-formed address space that has nothing mapped
  between the rounded old size and the new size, it returns without a panic.  It returns the new
  size with exactly the pages of that range added, filled with zeros and with the requested
  permissions; or 0 with the address space as before, which happens only when fewer than three
  free pages per requested page were left.  Either way the invariant holds, no page is lost and
  no page outside this address space and the free list is touched.
\<close>

theorem uvmalloc_grows:
  assumes "as_inv s p" "oldsz \<le> newsz" "unat newsz \<le> unat TRAPFRAME" "perm10 xperm"
    "\<forall>va. PGROUNDUP oldsz \<le> va \<and> va < newsz \<longrightarrow> aspace (mem s) p va = None"
  shows "\<exists>r s'. uvmalloc s p oldsz newsz xperm = Inr (r, s')
    \<and> (r = newsz \<and> as_step s p s' (\<lambda>va. if page_aligned va \<and> PGROUNDUP oldsz \<le> va \<and> va < newsz
           then Some ((PTE_R OR PTE_U OR xperm) OR PTE_V, replicate 4096 0) else aspace (mem s) p va)
       \<or> r = 0 \<and> as_step s p s' (aspace (mem s) p) \<and> card (avail s) < 3 * (npg newsz - npg oldsz))"
  using uvmalloc_spec [OF assms(1-4)] assms(5) by blast

theorem uvmalloc_grows_witness:
  "\<exists>s p s'. as_inv (s :: mm_state) p \<and> uvmalloc s p 0 8192 PTE_W = Inr (8192, s')
     \<and> aspace (mem s') p 4096 = Some (PTE_R OR PTE_U OR PTE_W OR PTE_V, replicate 4096 0)"
proof -
  obtain s :: mm_state and p q where s: "uas s p" "card (avail s) = 12" "\<forall>va. lookup (mem s) p va = None"
    using two_spaces by blast
  have n: "npg 8192 - npg 0 = 2" by (simp add: npg_def)
  have p: "perm10 PTE_W" by (simp add: perm10_def PTE_W_def)
  have al: "page_aligned 4096" "PGROUNDUP 0 \<le> (4096 :: u64)"
    by (simp_all add: page_aligned_def PGROUNDUP_def PGSIZE_def)
  have none: "\<forall>va. PGROUNDUP 0 \<le> va \<and> va < 8192 \<longrightarrow> aspace (mem s) p va = None"
    using s(3) by (simp add: aspace_None uleaf_def)
  have tf: "unat (8192 :: u64) \<le> unat TRAPFRAME" by simp
  obtain r s' where r: "uvmalloc s p 0 8192 PTE_W = Inr (r, s')" and
    rs: "r = 8192 \<and> as_step s p s' (\<lambda>va. if page_aligned va \<and> PGROUNDUP 0 \<le> va \<and> va < 8192
           then Some ((PTE_R OR PTE_U OR PTE_W) OR PTE_V, replicate 4096 0) else aspace (mem s) p va)
       \<or> r = 0 \<and> card (avail s) < 3 * (npg 8192 - npg 0)"
    using uvmalloc_grows [OF uasD(1) [OF s(1)] _ tf p none] by auto
  then have "r = 8192" and st: "as_step s p s' (\<lambda>va. if page_aligned va \<and> PGROUNDUP 0 \<le> va \<and> va < 8192
           then Some ((PTE_R OR PTE_U OR PTE_W) OR PTE_V, replicate 4096 0) else aspace (mem s) p va)"
    using n s(2) by auto
  then show ?thesis
    using r uasD(1) [OF s(1)] al as_stepD(6) [OF st]
    by (intro exI [of _ s] exI [of _ p] exI [of _ s']) (simp add: or.assoc)
qed

text \<open>
  C2: \<^verbatim>\<open>uvmcopy\<close> gives the child of \<^verbatim>\<open>fork\<close> a copy of the parent's memory.  On disjoint address
  spaces it returns without a panic; with result 0 the child has exactly the parent's pages below
  \<open>sz\<close> (same contents, same permissions, in pages of its own), with result -1 the child is as before
  and fewer than three free pages per page were left.  The parent's address space is unchanged, both
  invariants hold afterwards, the two remain disjoint, and no page is lost.
\<close>

theorem uvmcopy_copies:
  assumes "as_inv s old" "as_inv s new" "as_disjoint s old new" "unat sz \<le> unat TRAPFRAME"
    "\<forall>va. va < sz \<longrightarrow> aspace (mem s) new va = None"
  shows "\<exists>r s'. uvmcopy s old new sz = Inr (r, s')
    \<and> (r = 0 \<and> as_step s new s' (\<lambda>va. if va < sz then aspace (mem s) old va else aspace (mem s) new va)
       \<or> r = -1 \<and> as_step s new s' (aspace (mem s) new) \<and> card (avail s) < 3 * npg sz)
    \<and> as_inv s' old \<and> aspace (mem s') old = aspace (mem s) old \<and> as_disjoint s' old new"
proof -
  have "\<exists>r s'. uvmcopy s old new sz = Inr (r, s')
    \<and> (r = 0 \<and> as_step s new s' (\<lambda>va. if va < sz then aspace (mem s) old va else aspace (mem s) new va)
       \<or> r = -1 \<and> as_step s new s' (aspace (mem s) new) \<and> card (avail s) < 3 * npg sz)"
    by (rule uvmcopy_spec [OF assms(1-4)]) (use assms(5) in blast)
  then show ?thesis using as_step_other [OF _ assms(1,3)] by blast
qed

theorem uvmcopy_copies_witness:
  "\<exists>s p q s'. as_inv (s :: mm_state) p \<and> as_inv s q \<and> as_disjoint s p q
     \<and> uvmcopy s p q 4096 = Inr (0, s') \<and> aspace (mem s') q 0 = aspace (mem s') p 0"
proof -
  obtain s :: mm_state and p q where s: "uas s p" "uas s q" "as_disjoint s p q" "card (avail s) = 12"
    "\<forall>va. lookup (mem s) q va = None" using two_spaces by blast
  have n: "npg 4096 = 1" by (simp add: npg_def)
  have none: "\<forall>va. va < 4096 \<longrightarrow> aspace (mem s) q va = None"
    using s(5) by (simp add: aspace_None uleaf_def)
  obtain r s' where r: "uvmcopy s p q 4096 = Inr (r, s')"
    "r = 0 \<and> as_step s q s' (\<lambda>va. if va < 4096 then aspace (mem s) p va else aspace (mem s) q va)
       \<or> card (avail s) < 3 * npg 4096" "aspace (mem s') p = aspace (mem s) p"
    using uvmcopy_copies [OF uasD(1) [OF s(1)] uasD(1) [OF s(2)] s(3) _ none] by auto
  then have "r = 0" and st: "as_step s q s' (\<lambda>va. if va < 4096 then aspace (mem s) p va else aspace (mem s) q va)"
    using n s(4) by auto
  then show ?thesis
    using r(1,3) uasD(1) [OF s(1)] uasD(1) [OF s(2)] s(3) as_stepD(6) [OF st]
    by (intro exI [of _ s] exI [of _ p] exI [of _ q] exI [of _ s']) simp
qed

text \<open>
  C3: \<^verbatim>\<open>uvmfree\<close> gives everything back.  When all mappings of a well-formed address space lie below
  \<open>sz\<close>, \<^verbatim>\<open>uvmfree\<close> returns without a panic, and afterwards the free list is well formed and holds
  the pages that were free before, every user page and every page-table page: nothing leaks.
\<close>

theorem uvmfree_frees_all:
  assumes "as_inv s p" "unat sz \<le> unat TRAPFRAME"
    "\<forall>va. va39 va \<and> lookup (mem s) p va \<noteq> None \<longrightarrow> unat va < 4096 * npg sz"
  shows "\<exists>s'. uvmfree s p sz = Inr s' \<and> kmem_inv s' \<and> mm_frame s s'
    \<and> avail s' = avail s \<union> ptp s p \<union> upages s p
    \<and> (\<forall>q. q \<notin> avail s \<union> ptp s p \<union> upages s p \<longrightarrow> agree_page (mem s) (mem s') q)"
  using uvmfree_spec [OF assms(1,2)] assms(3) unfolding as_total_def by blast

theorem uvmfree_frees_all_witness:
  "\<exists>s p s'. as_inv (s :: mm_state) p \<and> uvmfree s p 4096 = Inr s' \<and> p \<notin> avail s \<and> p \<in> avail s'"
proof -
  obtain s :: mm_state and p where s: "uas s p" "\<forall>va. lookup (mem s) p va = None" using two_spaces by blast
  have "p \<in> ptp s p" by (simp add: ptp_def)
  moreover from this have "p \<notin> avail s" using as_invD(6) [OF uasD(1) [OF s(1)]] by blast
  moreover obtain s' where "uvmfree s p 4096 = Inr s'" "avail s' = avail s \<union> ptp s p \<union> upages s p"
    using uvmfree_frees_all [OF uasD(1) [OF s(1)], of 4096] s(2) by auto
  ultimately show ?thesis using uasD(1) [OF s(1)] by auto
qed

text \<open>
  C4: what \<^verbatim>\<open>copyout\<close> writes, \<^verbatim>\<open>copyin\<close> reads back.  For a kernel buffer outside the address space:
  \<^verbatim>\<open>copyout\<close> answers 0 exactly when every byte of the destination is mapped, user-accessible and
  writable, and then a \<^verbatim>\<open>copyin\<close> of the same range into a kernel buffer answers 0 and delivers
  the bytes of the source; \<^verbatim>\<open>copyout\<close> changes no byte but those of the destination, in either case.
\<close>

theorem copyout_copyin:
  assumes "uas s p" "kbuf s p src (unat len)" "kbuf s p dst (unat len)"
  shows "\<exists>r m'. copyout s p va src len = Inr (r, s\<lparr>mem := m'\<rparr>)
    \<and> r = (if wmapped (mem s) p va (unat len) then 0 else -1)
    \<and> (\<forall>x. (\<forall>i < unat len. uaddr (mem s) p (va + of_nat i) \<noteq> Some x) \<longrightarrow> m' x = mem s x)
    \<and> (r = 0 \<longrightarrow> (\<exists>m''. copyin (s\<lparr>mem := m'\<rparr>) p dst va len = Inr (0, s\<lparr>mem := m''\<rparr>)
         \<and> (\<forall>i < unat len. m'' (dst + of_nat i) = mem s (src + of_nat i))))"
proof -
  let ?n = "unat len"
  obtain r m' where R: "copyout s p va src len = Inr (r, s\<lparr>mem := m'\<rparr>)"
    "if wmapped (mem s) p va ?n then r = 0 \<and> cout_rel (mem s) m' p va src ?n
     else r = -1 \<and> (\<forall>x. (\<forall>i < ?n. uaddr (mem s) p (va + of_nat i) \<noteq> Some x) \<longrightarrow> m' x = mem s x)"
    using copyout_spec [OF assms(1,2)] by blast
  have fr: "m' x = mem s x" if "\<forall>i < ?n. uaddr (mem s) p (va + of_nat i) \<noteq> Some x" for x
    using R(2) that unfolding cout_rel_def by (auto split: if_splits)
  have out: "m' x = mem s x" if "PGROUNDDOWN x \<notin> upages s p" for x
    using fr uaddr_upages(3) [OF assms(1)] that by blast
  let ?t = "s\<lparr>mem := m'\<rparr>"
  note w = uas_user_write [OF assms(1) out]
  have "\<exists>m''. copyin ?t p dst va len = Inr (0, s\<lparr>mem := m''\<rparr>)
         \<and> (\<forall>i < ?n. m'' (dst + of_nat i) = mem s (src + of_nat i))" if "r = 0"
  proof -
    have wm: "wmapped (mem s) p va ?n" and co: "cout_rel (mem s) m' p va src ?n"
      using R(2) that by (auto split: if_splits)
    have um: "umapped m' p va ?n"
      using umapped_cong [OF w(3), of va ?n] wmapped_umapped [OF wm] by simp
    have b: "kbuf ?t p dst ?n" using assms(3) w(2) unfolding kbuf_def by simp
    have c: "copyin ?t p dst va len = Inr (0, s\<lparr>mem := cin_mem m' p dst va ?n\<rparr>)"
      using copyin_spec [OF w(1) b, of va] um by auto
    have "cin_mem m' p dst va ?n (dst + of_nat i) = mem s (src + of_nat i)" if i: "i < ?n" for i
    proof -
      have "unat (of_nat i :: u64) = i" using i unat_lt64 [of len] by (intro unat_of_nat64) simp
      moreover obtain a where "uaddr (mem s) p (va + of_nat i) = Some a" "m' a = mem s (src + of_nat i)"
        using co i unfolding cout_rel_def by blast
      ultimately show ?thesis using i w(3) by (simp add: cin_mem_def)
    qed
    then show ?thesis using c by blast
  qed
  then show ?thesis using R fr by (intro exI [of _ r] exI [of _ m']) (auto split: if_splits)
qed

text \<open>An address space with one writable page at 0.\<close>

lemma mapped_space:
  "\<exists>s p. uas (s :: mm_state) p \<and> wmapped (mem s) p 0 16 \<and> as_total s p \<subseteq> set boot_pages"
proof -
  obtain s :: mm_state and p where s: "uas s p" "card (avail s) = 12" "\<forall>va. lookup (mem s) p va = None"
    "as_total s p \<subseteq> set boot_pages" using two_spaces by blast
  have n: "npg 4096 - npg 0 = 1" by (simp add: npg_def)
  have p: "perm10 PTE_W" by (simp add: perm10_def PTE_W_def)
  have z: "page_aligned 0" "PGROUNDUP 0 = 0" by (simp_all add: page_aligned_def PGROUNDUP_def PGSIZE_def)
  let ?fl = "(PTE_R OR PTE_U OR PTE_W) OR PTE_V"
  have "\<exists>r s'. uvmalloc s p 0 4096 PTE_W = Inr (r, s')
    \<and> (r = 4096 \<and> as_step s p s' (\<lambda>va. if page_aligned va \<and> PGROUNDUP 0 \<le> va \<and> va < 4096
           then Some (?fl, replicate 4096 0) else aspace (mem s) p va)
       \<or> r = 0 \<and> as_step s p s' (aspace (mem s) p) \<and> card (avail s) < 3 * (npg 4096 - npg 0))"
    by (rule uvmalloc_spec [OF uasD(1) [OF s(1)] _ _ p]) (simp_all add: s(3) aspace_None uleaf_def)
  then obtain s' where st: "as_step s p s' (\<lambda>va. if page_aligned va \<and> PGROUNDUP 0 \<le> va \<and> va < 4096
           then Some (?fl, replicate 4096 0) else aspace (mem s) p va)" using n s(2) by auto
  note S = as_stepD [OF st]
  have u: "uas s' p" using S(2,5) s(3) unfolding uas_def by auto
  have "aspace (mem s') p 0 = Some (?fl, replicate 4096 0)" using S(6) z by simp
  then obtain v where v: "uleaf (mem s') p 0 = Some v" "PTE_FLAGS v = ?fl" by (auto simp: aspace_def)
  have fl: "v AND PTE_U \<noteq> 0" "v AND PTE_W \<noteq> 0"
  proof -
    have "bit v 4 = bit (PTE_FLAGS v) 4" "bit v 2 = bit (PTE_FLAGS v) 2"
      by (simp_all add: PTE_FLAGS_def bit_simps)
    then have b: "bit v 4" "bit v 2" unfolding v(2)
      by (simp_all add: PTE_R_def PTE_W_def PTE_U_def PTE_V_def bit_simps)
    have "bit (v AND PTE_U) 4" "bit (v AND PTE_W) 2" using b by (simp_all add: PTE_U_def PTE_W_def bit_simps)
    then show "v AND PTE_U \<noteq> 0" "v AND PTE_W \<noteq> 0" by auto
  qed
  have look: "lookup (mem s') p (of_nat i) = Some v" if "i < 16" for i
  proof -
    have "PGROUNDDOWN (of_nat i) = 0"
      using PGROUNDDOWN_off [of 0 "of_nat i"] that by (simp add: page_aligned_def unat_of_nat)
    then have "lookup (mem s') p (of_nat i) = lookup (mem s') p 0"
      by (intro lookup_page) (simp add: PGROUNDDOWN_idem z)
    then show ?thesis using uleaf_lookup [OF v(1)] by simp
  qed
  have "of_nat i < MAXVA" if "i < 16" for i using that by (simp add: word_less_nat_alt unat_of_nat)
  then have "wmapped (mem s') p 0 16" using look fl unfolding wmapped_def uaddr_def by simp
  then show ?thesis using u s(4) S(3) by auto
qed

theorem copyout_copyin_witness:
  "\<exists>s p m' m''. uas (s :: mm_state) p \<and> kbuf s p 0x1000 16 \<and> kbuf s p 0x1800 16
     \<and> copyout s p 0 0x1000 16 = Inr (0, s\<lparr>mem := m'\<rparr>)
     \<and> copyin (s\<lparr>mem := m'\<rparr>) p 0x1800 0 16 = Inr (0, s\<lparr>mem := m''\<rparr>) \<and> m'' 0x1803 = mem s 0x1003"
proof -
  obtain s :: mm_state and p where s: "uas s p" "wmapped (mem s) p 0 16"
    "as_total s p \<subseteq> set boot_pages" using mapped_space by blast
  have pg: "PGROUNDDOWN (0x1000 + of_nat i) = 0x1000" if "i < 4096" for i
    using PGROUNDDOWN_off [of "0x1000" "of_nat i"] that by (simp add: page_aligned_def unat_of_nat)
  have "PGROUNDDOWN (0x1800 + of_nat i) = 0x1000" if "i < 16" for i using pg [of "0x800 + i"] that by simp
  then have b: "kbuf s p 0x1000 (unat (16 :: u64))" "kbuf s p 0x1800 (unat (16 :: u64))"
    using s(3) pg unfolding kbuf_def by (auto simp: boot_pages_def)
  obtain m' m'' where m: "copyout s p 0 0x1000 16 = Inr (0, s\<lparr>mem := m'\<rparr>)"
    "copyin (s\<lparr>mem := m'\<rparr>) p 0x1800 0 16 = Inr (0, s\<lparr>mem := m''\<rparr>)"
    "\<forall>i < 16. m'' (0x1800 + of_nat i) = mem s (0x1000 + of_nat i)"
    using copyout_copyin [OF s(1) b, where va = 0] s(2) by auto
  have "m'' 0x1803 = mem s 0x1003" using spec [OF m(3), of 3] by simp
  then show ?thesis using s(1) b m(1,2) by auto
qed

end
