(* ===== verification/Csr.thy ===== *)
theory Csr
  imports Riscv
begin

text \<open>
  The control and status registers of one hart and their accessors (\<^verbatim>\<open>kernel/riscv/riscv.h\<close>).  Each
  accessor is one instruction that reads or writes a register; the record holds the registers the
  kernel uses.  The interrupt-enable bit and the floating-point status are bits of \<^verbatim>\<open>sstatus\<close>.
\<close>

section \<open>Registers\<close>

record csrs =
  mhartid :: u64
  mstatus :: u64
  mepc :: u64
  medeleg :: u64
  mideleg :: u64
  mie :: u64
  menvcfg :: u64
  mcounteren :: u64
  pmpcfg0 :: u64
  pmpaddr0 :: u64
  sstatus :: u64
  sip :: u64
  sie :: u64
  sepc :: u64
  stvec :: u64
  stimecmp :: u64
  satp :: u64
  scause :: u64
  stval :: u64
  time_csr :: u64
  tp :: u64
  fcsr :: u32
  fregs :: "u64 list"

definition r_mhartid :: "csrs \<Rightarrow> u64" where "r_mhartid h = mhartid h"
definition r_mstatus :: "csrs \<Rightarrow> u64" where "r_mstatus h = mstatus h"
definition w_mstatus :: "u64 \<Rightarrow> csrs \<Rightarrow> csrs" where "w_mstatus x h = h\<lparr>mstatus := x\<rparr>"
definition w_mepc :: "u64 \<Rightarrow> csrs \<Rightarrow> csrs" where "w_mepc x h = h\<lparr>mepc := x\<rparr>"
definition r_sstatus :: "csrs \<Rightarrow> u64" where "r_sstatus h = sstatus h"
definition w_sstatus :: "u64 \<Rightarrow> csrs \<Rightarrow> csrs" where "w_sstatus x h = h\<lparr>sstatus := x\<rparr>"
definition r_fcsr :: "csrs \<Rightarrow> u32" where "r_fcsr h = fcsr h"
definition w_fcsr :: "u32 \<Rightarrow> csrs \<Rightarrow> csrs" where "w_fcsr x h = h\<lparr>fcsr := x\<rparr>"
definition r_sip :: "csrs \<Rightarrow> u64" where "r_sip h = sip h"
definition w_sip :: "u64 \<Rightarrow> csrs \<Rightarrow> csrs" where "w_sip x h = h\<lparr>sip := x\<rparr>"
definition r_sie :: "csrs \<Rightarrow> u64" where "r_sie h = sie h"
definition w_sie :: "u64 \<Rightarrow> csrs \<Rightarrow> csrs" where "w_sie x h = h\<lparr>sie := x\<rparr>"
definition r_mie :: "csrs \<Rightarrow> u64" where "r_mie h = mie h"
definition w_mie :: "u64 \<Rightarrow> csrs \<Rightarrow> csrs" where "w_mie x h = h\<lparr>mie := x\<rparr>"
definition w_sepc :: "u64 \<Rightarrow> csrs \<Rightarrow> csrs" where "w_sepc x h = h\<lparr>sepc := x\<rparr>"
definition r_sepc :: "csrs \<Rightarrow> u64" where "r_sepc h = sepc h"
definition r_medeleg :: "csrs \<Rightarrow> u64" where "r_medeleg h = medeleg h"
definition w_medeleg :: "u64 \<Rightarrow> csrs \<Rightarrow> csrs" where "w_medeleg x h = h\<lparr>medeleg := x\<rparr>"
definition r_mideleg :: "csrs \<Rightarrow> u64" where "r_mideleg h = mideleg h"
definition w_mideleg :: "u64 \<Rightarrow> csrs \<Rightarrow> csrs" where "w_mideleg x h = h\<lparr>mideleg := x\<rparr>"
definition w_stvec :: "u64 \<Rightarrow> csrs \<Rightarrow> csrs" where "w_stvec x h = h\<lparr>stvec := x\<rparr>"
definition r_stvec :: "csrs \<Rightarrow> u64" where "r_stvec h = stvec h"
definition r_stimecmp :: "csrs \<Rightarrow> u64" where "r_stimecmp h = stimecmp h"
definition w_stimecmp :: "u64 \<Rightarrow> csrs \<Rightarrow> csrs" where "w_stimecmp x h = h\<lparr>stimecmp := x\<rparr>"
definition r_menvcfg :: "csrs \<Rightarrow> u64" where "r_menvcfg h = menvcfg h"
definition w_menvcfg :: "u64 \<Rightarrow> csrs \<Rightarrow> csrs" where "w_menvcfg x h = h\<lparr>menvcfg := x\<rparr>"
definition w_pmpcfg0 :: "u64 \<Rightarrow> csrs \<Rightarrow> csrs" where "w_pmpcfg0 x h = h\<lparr>pmpcfg0 := x\<rparr>"
definition w_pmpaddr0 :: "u64 \<Rightarrow> csrs \<Rightarrow> csrs" where "w_pmpaddr0 x h = h\<lparr>pmpaddr0 := x\<rparr>"
definition w_satp :: "u64 \<Rightarrow> csrs \<Rightarrow> csrs" where "w_satp x h = h\<lparr>satp := x\<rparr>"
definition r_satp :: "csrs \<Rightarrow> u64" where "r_satp h = satp h"
definition r_scause :: "csrs \<Rightarrow> u64" where "r_scause h = scause h"
definition r_stval :: "csrs \<Rightarrow> u64" where "r_stval h = stval h"
definition w_mcounteren :: "u64 \<Rightarrow> csrs \<Rightarrow> csrs" where "w_mcounteren x h = h\<lparr>mcounteren := x\<rparr>"
definition r_mcounteren :: "csrs \<Rightarrow> u64" where "r_mcounteren h = mcounteren h"
definition r_time :: "csrs \<Rightarrow> u64" where "r_time h = time_csr h"
definition r_tp :: "csrs \<Rightarrow> u64" where "r_tp h = tp h"
definition w_tp :: "u64 \<Rightarrow> csrs \<Rightarrow> csrs" where "w_tp x h = h\<lparr>tp := x\<rparr>"

lemmas csr_simps [simp] =
  r_mhartid_def r_mstatus_def w_mstatus_def w_mepc_def r_sstatus_def w_sstatus_def r_fcsr_def
  w_fcsr_def r_sip_def w_sip_def r_sie_def w_sie_def r_mie_def w_mie_def w_sepc_def r_sepc_def
  r_medeleg_def w_medeleg_def r_mideleg_def w_mideleg_def w_stvec_def r_stvec_def r_stimecmp_def
  w_stimecmp_def r_menvcfg_def w_menvcfg_def w_pmpcfg0_def w_pmpaddr0_def w_satp_def r_satp_def
  r_scause_def r_stval_def w_mcounteren_def r_mcounteren_def r_time_def r_tp_def w_tp_def

section \<open>Bits\<close>

definition MSTATUS_MPP_MASK :: u64 where "MSTATUS_MPP_MASK = push_bit 11 3"
definition MSTATUS_MPP_S :: u64 where "MSTATUS_MPP_S = push_bit 11 1"
definition SSTATUS_SPP :: u64 where "SSTATUS_SPP = push_bit 8 1"
definition SSTATUS_SPIE :: u64 where "SSTATUS_SPIE = push_bit 5 1"
definition SSTATUS_SIE :: u64 where "SSTATUS_SIE = push_bit 1 1"
definition SSTATUS_FS_MASK :: u64 where "SSTATUS_FS_MASK = push_bit 13 3"
definition SSTATUS_FS_OFF :: u64 where "SSTATUS_FS_OFF = push_bit 13 0"
definition SSTATUS_FS_DIRTY :: u64 where "SSTATUS_FS_DIRTY = push_bit 13 3"
definition SIE_SEIE :: u64 where "SIE_SEIE = push_bit 9 1"
definition SIE_STIE :: u64 where "SIE_STIE = push_bit 5 1"
definition MIE_STIE :: u64 where "MIE_STIE = push_bit 5 1"

definition intr_on :: "csrs \<Rightarrow> csrs" where
  "intr_on h = w_sstatus (r_sstatus h OR SSTATUS_SIE) h"

definition intr_off :: "csrs \<Rightarrow> csrs" where
  "intr_off h = w_sstatus (r_sstatus h AND NOT SSTATUS_SIE) h"

definition intr_get :: "csrs \<Rightarrow> bool" where
  "intr_get h = (let x = r_sstatus h in x AND SSTATUS_SIE \<noteq> 0)"

definition fpu_on :: "csrs \<Rightarrow> csrs" where
  "fpu_on h = w_sstatus ((r_sstatus h AND NOT SSTATUS_FS_MASK) OR SSTATUS_FS_DIRTY) h"

definition fpu_off :: "csrs \<Rightarrow> csrs" where
  "fpu_off h = w_sstatus ((r_sstatus h AND NOT SSTATUS_FS_MASK) OR SSTATUS_FS_OFF) h"

text \<open>The floating-point unit is usable when the status field is not \<^verbatim>\<open>OFF\<close>.\<close>

definition fs_enabled :: "csrs \<Rightarrow> bool" where
  "fs_enabled h \<longleftrightarrow> sstatus h AND SSTATUS_FS_MASK \<noteq> 0"

lemma and_single_bit: "(x :: u64) AND push_bit n 1 \<noteq> 0 \<longleftrightarrow> bit x n \<and> n < 64"
proof -
  have "x AND push_bit n 1 = (if bit x n \<and> n < 64 then push_bit n 1 else 0)"
    by (rule bit_word_eqI) (auto simp: bit_simps)
  moreover have "(push_bit n 1 :: u64) \<noteq> 0" if "n < 64"
  proof -
    have "bit (push_bit n 1 :: u64) n" using that by (simp add: bit_simps)
    then show ?thesis by (metis bit_0_eq bot_apply bot_bool_def)
  qed
  ultimately show ?thesis by auto
qed

lemma intr_get_bit: "intr_get h \<longleftrightarrow> bit (sstatus h) 1"
  using and_single_bit [of "sstatus h" 1] by (simp add: intr_get_def SSTATUS_SIE_def)

lemma intr_get_simps [simp]: "intr_get (intr_on h)" "\<not> intr_get (intr_off h)"
  by (simp_all add: intr_get_bit intr_on_def intr_off_def SSTATUS_SIE_def bit_simps)

lemma intr_restore: "intr_get h \<Longrightarrow> intr_on (intr_off h) = h" "\<not> intr_get h \<Longrightarrow> intr_off h = h"
proof -
  assume "intr_get h"
  then have b: "bit (sstatus h) 1" by (simp add: intr_get_bit)
  have "(sstatus h AND NOT SSTATUS_SIE) OR SSTATUS_SIE = sstatus h"
    by (rule bit_word_eqI) (use b in \<open>auto simp: SSTATUS_SIE_def bit_simps\<close>)
  then show "intr_on (intr_off h) = h" by (simp add: intr_on_def intr_off_def)
next
  assume "\<not> intr_get h"
  then have b: "\<not> bit (sstatus h) 1" by (simp add: intr_get_bit)
  have "sstatus h AND NOT SSTATUS_SIE = sstatus h"
    by (rule bit_word_eqI) (use b in \<open>auto simp: SSTATUS_SIE_def bit_simps\<close>)
  then show "intr_off h = h" by (simp add: intr_off_def)
qed

lemma fs_enabled_simps [simp]: "fs_enabled (fpu_on h)" "\<not> fs_enabled (fpu_off h)"
proof -
  have "bit ((sstatus h AND NOT SSTATUS_FS_MASK OR SSTATUS_FS_DIRTY) AND SSTATUS_FS_MASK) 13"
    by (simp add: SSTATUS_FS_MASK_def SSTATUS_FS_DIRTY_def bit_simps)
  then have "(sstatus h AND NOT SSTATUS_FS_MASK OR SSTATUS_FS_DIRTY) AND SSTATUS_FS_MASK \<noteq> 0"
    by (metis bit_0_eq bot_apply bot_bool_def)
  then show "fs_enabled (fpu_on h)" by (simp add: fs_enabled_def fpu_on_def)
  have "(sstatus h AND NOT SSTATUS_FS_MASK OR SSTATUS_FS_OFF) AND SSTATUS_FS_MASK = 0"
    by (rule bit_word_eqI) (auto simp: SSTATUS_FS_OFF_def bit_simps)
  then show "\<not> fs_enabled (fpu_off h)" by (simp add: fs_enabled_def fpu_off_def)
qed

end
