(* ===== verification/Sync.thy ===== *)
theory Sync
  imports Csr Kalloc
begin

text \<open>
  Spinlocks and interrupt nesting (\<^verbatim>\<open>kernel/sync/spinlock.c\<close>, \<^verbatim>\<open>cpuid\<close> and \<^verbatim>\<open>mycpu\<close> of
  \<^verbatim>\<open>kernel/proc/proc.c\<close>).  The state holds the registers of the hart that executes, the array
  \<^verbatim>\<open>cpus\<close> and every spinlock of the kernel.  \<^verbatim>\<open>acquire\<close> and \<^verbatim>\<open>release\<close> are written as the sequence
  of their atomic actions, so that the same actions interleave in the step relation of several
  harts below, which shows mutual exclusion.
\<close>

section \<open>State\<close>

record ctxt =
  ctx_ra :: u64
  ctx_sp :: u64
  ctx_s :: "u64 list"

text \<open>The objects of the kernel a process can sleep on, or that hold a sleep lock, by pointer.\<close>

datatype kptr = BufPtr nat | BufLock nat | InodeLock nat | ProcPtr nat | ConsR | TxChan | DiskFree | TicksPtr

datatype lockid = PidLock | WaitLock | ProcLock nat | TicksLock | ConsLock | DiskLock | SleepLk kptr
  | PrLock | TxLock | BcacheLock | ItableLock | FtableLock

record spinlock =
  locked :: bool
  lk_name :: string
  lk_cpu :: "nat option"

record cpu =
  c_proc :: "nat option"
  c_context :: ctxt
  c_noff :: int
  c_intena :: bool

record sync_state = mm_state +
  csr :: csrs
  cpus :: "nat \<Rightarrow> cpu"
  locks :: "lockid \<Rightarrow> spinlock"

section \<open>The executing CPU\<close>

text \<open>\<^verbatim>\<open>int id = r_tp()\<close>\<close>

definition cpuid :: "'a sync_state_scheme \<Rightarrow> nat" where
  "cpuid s = unat (ucast (r_tp (csr s)) :: u32)"

definition mycpu :: "'a sync_state_scheme \<Rightarrow> cpu" where
  "mycpu s = cpus s (cpuid s)"

definition upd_cpu :: "(cpu \<Rightarrow> cpu) \<Rightarrow> 'a sync_state_scheme \<Rightarrow> 'a sync_state_scheme" where
  "upd_cpu f s = s\<lparr>cpus := (cpus s)(cpuid s := f (mycpu s))\<rparr>"

definition push_off :: "'a sync_state_scheme \<Rightarrow> 'a sync_state_scheme" where
  "push_off s =
     (let old = intr_get (csr s);
          s = s\<lparr>csr := intr_off (csr s)\<rparr>;
          s = (if c_noff (mycpu s) = 0 then upd_cpu (\<lambda>c. c\<lparr>c_intena := old\<rparr>) s else s)
      in upd_cpu (\<lambda>c. c\<lparr>c_noff := c_noff c + 1\<rparr>) s)"

definition pop_off :: "'a sync_state_scheme \<Rightarrow> 'a sync_state_scheme res" where
  "pop_off s =
     (if intr_get (csr s) then Inl (Panic ''pop_off - interruptible'')
      else if c_noff (mycpu s) < 1 then Inl (Panic ''pop_off'')
      else let s = upd_cpu (\<lambda>c. c\<lparr>c_noff := c_noff c - 1\<rparr>) s in
        Inr (if c_noff (mycpu s) = 0 \<and> c_intena (mycpu s) then s\<lparr>csr := intr_on (csr s)\<rparr> else s))"

section \<open>Locks\<close>

definition initlock :: "lockid \<Rightarrow> string \<Rightarrow> 'a sync_state_scheme \<Rightarrow> 'a sync_state_scheme" where
  "initlock l name s = s\<lparr>locks := (locks s)(l := \<lparr>locked = False, lk_name = name, lk_cpu = None\<rparr>)\<rparr>"

definition holding :: "lockid \<Rightarrow> 'a sync_state_scheme \<Rightarrow> bool" where
  "holding l s \<longleftrightarrow> locked (locks s l) \<and> lk_cpu (locks s l) = Some (cpuid s)"

definition upd_lock :: "lockid \<Rightarrow> (spinlock \<Rightarrow> spinlock) \<Rightarrow> 'a sync_state_scheme \<Rightarrow> 'a sync_state_scheme" where
  "upd_lock l f s = s\<lparr>locks := (locks s)(l := f (locks s l))\<rparr>"

text \<open>
  The atomic actions of \<^verbatim>\<open>acquire\<close>: disable interrupts and check; swap 1 into the lock word,
  answering what was there; record the owner.
\<close>

definition acquire_enter :: "lockid \<Rightarrow> 'a sync_state_scheme \<Rightarrow> 'a sync_state_scheme res" where
  "acquire_enter l s = (let s = push_off s in if holding l s then Inl (Panic ''acquire'') else Inr s)"

definition test_and_set :: "lockid \<Rightarrow> 'a sync_state_scheme \<Rightarrow> bool \<times> 'a sync_state_scheme" where
  "test_and_set l s = (locked (locks s l), upd_lock l (\<lambda>k. k\<lparr>locked := True\<rparr>) s)"

definition acquire_own :: "lockid \<Rightarrow> 'a sync_state_scheme \<Rightarrow> 'a sync_state_scheme" where
  "acquire_own l s = upd_lock l (\<lambda>k. k\<lparr>lk_cpu := Some (cpuid s)\<rparr>) s"

text \<open>A lock another CPU holds makes this one spin until that one has run.\<close>

definition acquire :: "lockid \<Rightarrow> 'a sync_state_scheme \<Rightarrow> 'a sync_state_scheme res" where
  "acquire l s =
     rbind (acquire_enter l s) (\<lambda>s.
       let (old, s) = test_and_set l s in
       if old then Inl Block else Inr (acquire_own l s))"

definition release_disown :: "lockid \<Rightarrow> 'a sync_state_scheme \<Rightarrow> 'a sync_state_scheme res" where
  "release_disown l s =
     (if \<not> holding l s then Inl (Panic ''release'')
      else Inr (upd_lock l (\<lambda>k. k\<lparr>lk_cpu := None\<rparr>) s))"

definition lock_release :: "lockid \<Rightarrow> 'a sync_state_scheme \<Rightarrow> 'a sync_state_scheme" where
  "lock_release l s = upd_lock l (\<lambda>k. k\<lparr>locked := False\<rparr>) s"

definition release :: "lockid \<Rightarrow> 'a sync_state_scheme \<Rightarrow> 'a sync_state_scheme res" where
  "release l s = rbind (release_disown l s) (\<lambda>s. pop_off (lock_release l s))"

section \<open>Nesting of push\_off and pop\_off\<close>

lemma cpuid_simps [simp]:
  "cpuid (upd_cpu f s) = cpuid s" "cpuid (upd_lock l g s) = cpuid s"
  "cpuid (s\<lparr>csr := intr_off h\<rparr>) = unat (ucast (tp h) :: u32)"
  "cpuid (s\<lparr>csr := intr_on h\<rparr>) = unat (ucast (tp h) :: u32)"
  by (simp_all add: cpuid_def upd_cpu_def upd_lock_def intr_off_def intr_on_def)

lemma tp_intr [simp]: "tp (intr_off h) = tp h" "tp (intr_on h) = tp h"
  by (simp_all add: intr_off_def intr_on_def)

text \<open>The CPU's nesting depth, and what \<^verbatim>\<open>push_off\<close> does to it and to the interrupt bit.\<close>

definition noff :: "'a sync_state_scheme \<Rightarrow> int" where
  "noff s = c_noff (mycpu s)"

lemma push_off_eq:
  "push_off s = s\<lparr>csr := intr_off (csr s),
     cpus := (cpus s)(cpuid s := (mycpu s)\<lparr>
       c_intena := (if noff s = 0 then intr_get (csr s) else c_intena (mycpu s)), c_noff := noff s + 1\<rparr>)\<rparr>"
  by (simp add: push_off_def upd_cpu_def mycpu_def cpuid_def noff_def Let_def)

lemma push_off_simps [simp]:
  "cpuid (push_off s) = cpuid s" "noff (push_off s) = noff s + 1" "\<not> intr_get (csr (push_off s))"
  "locks (push_off s) = locks s" "c_proc (mycpu (push_off s)) = c_proc (mycpu s)"
  by (simp_all add: push_off_eq cpuid_def mycpu_def noff_def)

lemma pop_off_eq:
  assumes "\<not> intr_get (csr s)" "1 \<le> noff s"
  shows "pop_off s = Inr (s\<lparr>csr := (if noff s = 1 \<and> c_intena (mycpu s) then intr_on (csr s) else csr s),
     cpus := (cpus s)(cpuid s := (mycpu s)\<lparr>c_noff := noff s - 1\<rparr>)\<rparr>)"
  using assms by (simp add: pop_off_def upd_cpu_def mycpu_def cpuid_def noff_def Let_def)

text \<open>
  What interrupt status the CPU returns to when its nesting is undone: the saved one inside a
  section, the current one outside.
\<close>

definition intr_outside :: "'a sync_state_scheme \<Rightarrow> bool" where
  "intr_outside s = (if noff s = 0 then intr_get (csr s) else c_intena (mycpu s))"

primrec push_offs :: "nat \<Rightarrow> 'a sync_state_scheme \<Rightarrow> 'a sync_state_scheme" where
  "push_offs 0 s = s"
| "push_offs (Suc n) s = push_offs n (push_off s)"

primrec pop_offs :: "nat \<Rightarrow> 'a sync_state_scheme \<Rightarrow> 'a sync_state_scheme res" where
  "pop_offs 0 s = Inr s"
| "pop_offs (Suc n) s = rbind (pop_off s) (pop_offs n)"

text \<open>The nesting depth is not negative, and inside a section interrupts are off.\<close>

definition nest_ok :: "'a sync_state_scheme \<Rightarrow> bool" where
  "nest_ok s \<longleftrightarrow> 0 \<le> noff s \<and> (0 < noff s \<longrightarrow> \<not> intr_get (csr s))"

lemma push_pop:
  assumes "0 \<le> noff s" "0 < noff s \<Longrightarrow> \<not> intr_get (csr s)"
  shows "\<exists>t. pop_off (push_off s) = Inr t \<and> csr t = csr s \<and> cpus t = (cpus s)(cpuid s := (mycpu s)\<lparr>c_intena := intr_outside s\<rparr>)
    \<and> locks t = locks s"
proof -
  have p: "pop_off (push_off s) = Inr ((push_off s)\<lparr>csr := (if noff s = 0 \<and> c_intena (mycpu (push_off s))
       then intr_on (csr (push_off s)) else csr (push_off s)),
     cpus := (cpus (push_off s))(cpuid s := (mycpu (push_off s))\<lparr>c_noff := noff s\<rparr>)\<rparr>)"
    using pop_off_eq [of "push_off s"] assms(1) by simp
  have i: "c_intena (mycpu (push_off s)) = intr_outside s"
    by (simp add: push_off_eq mycpu_def cpuid_def intr_outside_def)
  have c: "csr (push_off s) = intr_off (csr s)" by (simp add: push_off_eq)
  have "(if noff s = 0 \<and> intr_outside s then intr_on (intr_off (csr s)) else intr_off (csr s)) = csr s"
    using assms intr_restore [of "csr s"] by (auto simp: intr_outside_def)
  moreover have "(cpus (push_off s))(cpuid s := (mycpu (push_off s))\<lparr>c_noff := noff s\<rparr>)
      = (cpus s)(cpuid s := (mycpu s)\<lparr>c_intena := intr_outside s\<rparr>)"
    by (simp add: push_off_eq mycpu_def cpuid_def noff_def intr_outside_def)
  ultimately show ?thesis using p i c by (auto split: if_splits)
qed


section \<open>Several harts\<close>

text \<open>
  Each hart runs kernel code that acquires locks it does not hold and releases locks it holds, in
  any order.  A global state has the registers of every hart, the shared state, the lock operation
  each hart is in the middle of, and the set of locks each hart has acquired (a ghost).  Every
  step of the relation is one atomic action of the functions above, executed by one hart.
\<close>

datatype pc = Running | Spinning lockid | Swapped lockid | Disowned lockid | Released lockid

record mp_state =
  regs :: "nat \<Rightarrow> csrs"
  shared :: sync_state
  pcs :: "nat \<Rightarrow> pc"
  held :: "nat \<Rightarrow> lockid set"

definition view :: "nat \<Rightarrow> mp_state \<Rightarrow> sync_state" where
  "view h g = (shared g)\<lparr>csr := regs g h\<rparr>"

definition commit :: "nat \<Rightarrow> sync_state \<Rightarrow> pc \<Rightarrow> lockid set \<Rightarrow> mp_state \<Rightarrow> mp_state" where
  "commit h s p L g = g\<lparr>regs := (regs g)(h := csr s), shared := s, pcs := (pcs g)(h := p), held := (held g)(h := L)\<rparr>"

inductive mp_step :: "mp_state \<Rightarrow> mp_state \<Rightarrow> bool" where
  enter: "h < 8 \<Longrightarrow> pcs g h = Running \<Longrightarrow> l \<notin> held g h \<Longrightarrow> acquire_enter l (view h g) = Inr s
    \<Longrightarrow> mp_step g (commit h s (Spinning l) (held g h) g)"
| spin: "h < 8 \<Longrightarrow> pcs g h = Spinning l \<Longrightarrow> test_and_set l (view h g) = (True, s)
    \<Longrightarrow> mp_step g (commit h s (Spinning l) (held g h) g)"
| swap: "h < 8 \<Longrightarrow> pcs g h = Spinning l \<Longrightarrow> test_and_set l (view h g) = (False, s)
    \<Longrightarrow> mp_step g (commit h s (Swapped l) (held g h) g)"
| own: "h < 8 \<Longrightarrow> pcs g h = Swapped l
    \<Longrightarrow> mp_step g (commit h (acquire_own l (view h g)) Running (insert l (held g h)) g)"
| disown: "h < 8 \<Longrightarrow> pcs g h = Running \<Longrightarrow> l \<in> held g h \<Longrightarrow> release_disown l (view h g) = Inr s
    \<Longrightarrow> mp_step g (commit h s (Disowned l) (held g h - {l}) g)"
| rels: "h < 8 \<Longrightarrow> pcs g h = Disowned l
    \<Longrightarrow> mp_step g (commit h (lock_release l (view h g)) (Released l) (held g h) g)"
| pop: "h < 8 \<Longrightarrow> pcs g h = Released l \<Longrightarrow> pop_off (view h g) = Inr s
    \<Longrightarrow> mp_step g (commit h s Running (held g h) g)"

text \<open>A hart owns a lock word from the successful swap to the release.\<close>

definition owns :: "mp_state \<Rightarrow> nat \<Rightarrow> lockid \<Rightarrow> bool" where
  "owns g h l \<longleftrightarrow> l \<in> held g h \<or> pcs g h = Swapped l \<or> pcs g h = Disowned l"

definition depth :: "mp_state \<Rightarrow> nat \<Rightarrow> int" where
  "depth g h = int (card (held g h)) + (if pcs g h = Running then 0 else 1)"

definition mp_inv :: "mp_state \<Rightarrow> bool" where
  "mp_inv g \<longleftrightarrow>
     (\<forall>h < 8. tp (regs g h) = of_nat h \<and> finite (held g h)
        \<and> c_noff (cpus (shared g) h) = depth g h \<and> (0 < depth g h \<longrightarrow> \<not> intr_get (regs g h))
        \<and> (\<forall>l. pcs g h = Swapped l \<or> pcs g h = Disowned l \<longrightarrow> l \<notin> held g h))
     \<and> (\<forall>l. locked (locks (shared g) l) \<longleftrightarrow> (\<exists>h < 8. owns g h l))
     \<and> (\<forall>l h h'. h < 8 \<and> h' < 8 \<and> owns g h l \<and> owns g h' l \<longrightarrow> h = h')
     \<and> (\<forall>l h. lk_cpu (locks (shared g) l) = Some h \<longleftrightarrow> h < 8 \<and> l \<in> held g h)"

lemma cpuid_view:
  assumes "mp_inv g" "h < 8"
  shows "cpuid (view h g) = h"
proof -
  have "tp (regs g h) = of_nat h" using assms by (simp add: mp_inv_def)
  then show ?thesis
    using assms(2) by (simp add: cpuid_def view_def unsigned_ucast_eq unsigned_of_nat take_bit_nat_eq_self)
qed


definition pc_owns :: "pc \<Rightarrow> lockid set \<Rightarrow> lockid \<Rightarrow> bool" where
  "pc_owns p L l \<longleftrightarrow> l \<in> L \<or> p = Swapped l \<or> p = Disowned l"

lemma owns_commit: "owns (commit h s p L g) k l \<longleftrightarrow> (if k = h then pc_owns p L l else owns g k l)"
  by (simp add: owns_def pc_owns_def commit_def)

lemma depth_commit:
  "depth (commit h s p L g) k = (if k = h then int (card L) + (if p = Running then 0 else 1) else depth g k)"
  by (simp add: depth_def commit_def)

definition other_owns :: "mp_state \<Rightarrow> nat \<Rightarrow> lockid \<Rightarrow> bool" where
  "other_owns g h l \<longleftrightarrow> (\<exists>k < 8. k \<noteq> h \<and> owns g k l)"

lemma mp_inv_commit:
  assumes inv: "mp_inv g" and h: "h < 8" "tp (csr s) = of_nat h" "finite L"
    and noff: "c_noff (cpus s h) = int (card L) + (if p = Running then 0 else 1)"
    and cpus: "\<And>k. k \<noteq> h \<Longrightarrow> cpus s k = cpus (shared g) k"
    and off: "L \<noteq> {} \<or> p \<noteq> Running \<Longrightarrow> \<not> intr_get (csr s)"
    and pc: "\<And>l. p = Swapped l \<or> p = Disowned l \<Longrightarrow> l \<notin> L"
    and lk: "\<And>l. locked (locks s l) \<longleftrightarrow> pc_owns p L l \<or> other_owns g h l"
    and ex: "\<And>l k. pc_owns p L l \<Longrightarrow> k < 8 \<Longrightarrow> k \<noteq> h \<Longrightarrow> \<not> owns g k l"
    and lc: "\<And>l k. lk_cpu (locks s l) = Some k \<longleftrightarrow> (if k = h then l \<in> L else k < 8 \<and> l \<in> held g k)"
  shows "mp_inv (commit h s p L g)"
proof -
  let ?g = "commit h s p L g"
  have sel: "regs ?g = (regs g)(h := csr s)" "shared ?g = s" "pcs ?g = (pcs g)(h := p)"
    "held ?g = (held g)(h := L)" by (simp_all add: commit_def)
  have d: "0 < int (card L) + (if p = Running then 0 else 1) \<longleftrightarrow> L \<noteq> {} \<or> p \<noteq> Running"
    using h(3) by (auto simp: card_gt_0_iff)
  have off': "0 < card L \<Longrightarrow> \<not> intr_get (csr s)" "p \<noteq> Running \<Longrightarrow> \<not> intr_get (csr s)"
    using off by (metis card.empty less_numeral_extra(3))+
  have 1: "\<forall>k < 8. tp (regs ?g k) = of_nat k \<and> finite (held ?g k)
        \<and> c_noff (Sync.cpus (shared ?g) k) = depth ?g k \<and> (0 < depth ?g k \<longrightarrow> \<not> intr_get (regs ?g k))
        \<and> (\<forall>l. pcs ?g k = Swapped l \<or> pcs ?g k = Disowned l \<longrightarrow> l \<notin> held ?g k)"
    using inv h noff cpus off' pc d unfolding sel mp_inv_def depth_commit by simp
  have 2: "\<forall>l. locked (locks (shared ?g) l) \<longleftrightarrow> (\<exists>k < 8. owns ?g k l)"
    unfolding owns_commit sel using lk h(1) by (auto simp: other_owns_def)
  have 3: "\<forall>l k k'. k < 8 \<and> k' < 8 \<and> owns ?g k l \<and> owns ?g k' l \<longrightarrow> k = k'"
    unfolding owns_commit using ex inv by (auto simp: mp_inv_def)
  have 4: "\<forall>l k. lk_cpu (locks (shared ?g) l) = Some k \<longleftrightarrow> k < 8 \<and> l \<in> held ?g k"
    unfolding sel using lc h(1) by auto
  show ?thesis unfolding mp_inv_def using 1 2 3 4 by blast
qed

lemma mp_invD:
  assumes "mp_inv g"
  shows "h < 8 \<Longrightarrow> tp (regs g h) = of_nat h" "h < 8 \<Longrightarrow> finite (held g h)"
    "h < 8 \<Longrightarrow> c_noff (cpus (shared g) h) = depth g h"
    "h < 8 \<Longrightarrow> 0 < depth g h \<Longrightarrow> \<not> intr_get (regs g h)"
    "h < 8 \<Longrightarrow> pcs g h = Swapped l \<Longrightarrow> l \<notin> held g h" "h < 8 \<Longrightarrow> pcs g h = Disowned l \<Longrightarrow> l \<notin> held g h"
    "locked (locks (shared g) l) \<longleftrightarrow> (\<exists>h < 8. owns g h l)"
    "h < 8 \<Longrightarrow> h' < 8 \<Longrightarrow> owns g h l \<Longrightarrow> owns g h' l \<Longrightarrow> h = h'"
    "lk_cpu (locks (shared g) l) = Some h \<longleftrightarrow> h < 8 \<and> l \<in> held g h"
  using assms unfolding mp_inv_def by blast+

lemma mp_locked: "mp_inv g \<Longrightarrow> h < 8 \<Longrightarrow> locked (locks (shared g) l) \<longleftrightarrow> owns g h l \<or> other_owns g h l"
  using mp_invD(7) [of g l] by (auto simp: other_owns_def)

lemma mp_holding: "mp_inv g \<Longrightarrow> h < 8 \<Longrightarrow> holding l (view h g) \<longleftrightarrow> l \<in> held g h"
  using mp_invD(7,9) [of g] cpuid_view [of g h] by (auto simp: holding_def view_def owns_def)

lemma view_simps [simp]:
  "csr (view h g) = regs g h" "cpus (view h g) = cpus (shared g)" "locks (view h g) = locks (shared g)"
  by (simp_all add: view_def)

lemma mycpu_view: "mp_inv g \<Longrightarrow> h < 8 \<Longrightarrow> mycpu (view h g) = cpus (shared g) h"
  by (simp add: mycpu_def cpuid_view)

lemma mp_step_inv:
  assumes "mp_step g g'" "mp_inv g"
  shows "mp_inv g'"
  using assms
proof (cases rule: mp_step.cases)
  case (enter h l s)
  note I = mp_invD [OF assms(2)] and cv = cpuid_view [OF assms(2) enter(2)]
  have s: "s = push_off (view h g)" using enter(5) by (auto simp: acquire_enter_def Let_def split: if_splits)
  show ?thesis unfolding enter(1)
  proof (rule mp_inv_commit [OF assms(2) enter(2)])
    show "tp (csr s) = of_nat h" using I(1) enter(2) by (simp add: s push_off_eq)
    show "c_noff (cpus s h) = int (card (held g h)) + (if Spinning l = Running then 0 else 1)"
      using I(3) [OF enter(2)] enter(3) cv by (simp add: s push_off_eq depth_def noff_def mycpu_def)
    show "cpus s k = cpus (shared g) k" if "k \<noteq> h" for k using that cv by (simp add: s push_off_eq)
    show "\<not> intr_get (csr s)" by (simp add: s)
    show "locked (locks s m) \<longleftrightarrow> pc_owns (Spinning l) (held g h) m \<or> other_owns g h m" for m
      using mp_locked [OF assms(2) enter(2), of m] enter(3) by (auto simp: s pc_owns_def owns_def)
    show "\<not> owns g k m" if "pc_owns (Spinning l) (held g h) m" "k < 8" "k \<noteq> h" for m k
      using I(8) [of h k m] that enter(2) by (auto simp: pc_owns_def owns_def)
    show "lk_cpu (locks s m) = Some k \<longleftrightarrow> (if k = h then m \<in> held g h else k < 8 \<and> m \<in> held g k)" for m k
      using I(9) [of m k] enter(2) by (simp add: s)
  qed (use I(2) enter(2) in auto)
next
  case (spin h l s)
  note I = mp_invD [OF assms(2)]
  have s: "s = upd_lock l (\<lambda>k. k\<lparr>locked := True\<rparr>) (view h g)" "locked (locks (shared g) l)"
    using spin(4) by (auto simp: test_and_set_def)
  have lk: "locked (locks s m) = locked (locks (shared g) m)" "lk_cpu (locks s m) = lk_cpu (locks (shared g) m)" for m
    using s(2) by (simp_all add: s(1) upd_lock_def)
  show ?thesis unfolding spin(1)
  proof (rule mp_inv_commit [OF assms(2) spin(2)])
    show "locked (locks s m) \<longleftrightarrow> pc_owns (Spinning l) (held g h) m \<or> other_owns g h m" for m
      using mp_locked [OF assms(2) spin(2), of m] spin(3) by (auto simp: lk pc_owns_def owns_def)
    show "\<not> owns g k m" if "pc_owns (Spinning l) (held g h) m" "k < 8" "k \<noteq> h" for m k
      using I(8) [of h k m] that spin(2) by (auto simp: pc_owns_def owns_def)
    show "lk_cpu (locks s m) = Some k \<longleftrightarrow> (if k = h then m \<in> held g h else k < 8 \<and> m \<in> held g k)" for m k
      using I(9) [of m k] spin(2) by (simp add: lk)
  qed (use I(1-4) [OF spin(2)] spin(3) in \<open>auto simp: s(1) upd_lock_def depth_def\<close>)
next
  case (swap h l s)
  note I = mp_invD [OF assms(2)]
  have s: "s = upd_lock l (\<lambda>k. k\<lparr>locked := True\<rparr>) (view h g)" "\<not> locked (locks (shared g) l)"
    using swap(4) by (auto simp: test_and_set_def)
  have none: "\<not> owns g k l" if "k < 8" for k using s(2) I(7) [of l] that by blast
  have lk: "locked (locks s m) \<longleftrightarrow> m = l \<or> locked (locks (shared g) m)"
    "lk_cpu (locks s m) = lk_cpu (locks (shared g) m)" for m
    by (simp_all add: s(1) upd_lock_def)
  show ?thesis unfolding swap(1)
  proof (rule mp_inv_commit [OF assms(2) swap(2)])
    show "locked (locks s m) \<longleftrightarrow> pc_owns (Swapped l) (held g h) m \<or> other_owns g h m" for m
      using mp_locked [OF assms(2) swap(2), of m] swap(3) by (auto simp: lk pc_owns_def owns_def)
    show "\<not> owns g k m" if "pc_owns (Swapped l) (held g h) m" "k < 8" "k \<noteq> h" for m k
      using I(8) [of h k m] that swap(2) none by (auto simp: pc_owns_def owns_def)
    show "lk_cpu (locks s m) = Some k \<longleftrightarrow> (if k = h then m \<in> held g h else k < 8 \<and> m \<in> held g k)" for m k
      using I(9) [of m k] swap(2) by (simp add: lk)
    show "m \<notin> held g h" if "Swapped l = Swapped m \<or> Swapped l = Disowned m" for m
      using that none [OF swap(2)] by (auto simp: owns_def)
  qed (use I(1-4) [OF swap(2)] swap(3) in \<open>auto simp: s(1) upd_lock_def depth_def\<close>)
next
  case (own h l)
  note I = mp_invD [OF assms(2)] and cv = cpuid_view [OF assms(2) own(2)]
  let ?s = "acquire_own l (view h g)"
  have lk: "locked (locks ?s m) = locked (locks (shared g) m)"
    "lk_cpu (locks ?s m) = (if m = l then Some h else lk_cpu (locks (shared g) m))" for m
    using cv by (simp_all add: acquire_own_def upd_lock_def)
  have o: "owns g h l" using own(3) by (simp add: owns_def)
  have no: "\<not> owns g k l" if "k < 8" "k \<noteq> h" for k using I(8) [OF that(1) own(2) _ o] that(2) by blast
  have nl: "l \<notin> held g h" using I(5) [OF own(2,3)] .
  show ?thesis unfolding own(1)
  proof (rule mp_inv_commit [OF assms(2) own(2)])
    show "locked (locks ?s m) \<longleftrightarrow> pc_owns Running (insert l (held g h)) m \<or> other_owns g h m" for m
      using mp_locked [OF assms(2) own(2), of m] own(3) by (auto simp: lk pc_owns_def owns_def)
    show "\<not> owns g k m" if "pc_owns Running (insert l (held g h)) m" "k < 8" "k \<noteq> h" for m k
      using I(8) [of h k m] that own(2) no by (auto simp: pc_owns_def owns_def)
    show "lk_cpu (locks ?s m) = Some k \<longleftrightarrow> (if k = h then m \<in> insert l (held g h) else k < 8 \<and> m \<in> held g k)" for m k
      using I(9) [of m k] own(2) no [of k] by (auto simp: lk owns_def)
    show "c_noff (cpus ?s h) = int (card (insert l (held g h))) + (if Running = Running then 0 else 1)"
      using I(2,3) [OF own(2)] own(3) nl by (simp add: acquire_own_def upd_lock_def depth_def)
    show "\<not> intr_get (csr ?s)" using I(4) [OF own(2)] own(3) by (simp add: acquire_own_def upd_lock_def depth_def)
  qed (use I(1,2) [OF own(2)] in \<open>auto simp: acquire_own_def upd_lock_def\<close>)
next
  case (disown h l s)
  note I = mp_invD [OF assms(2)]
  have s: "s = upd_lock l (\<lambda>k. k\<lparr>lk_cpu := None\<rparr>) (view h g)"
    using disown(5) by (auto simp: release_disown_def split: if_splits)
  have lk: "locked (locks s m) = locked (locks (shared g) m)"
    "lk_cpu (locks s m) = (if m = l then None else lk_cpu (locks (shared g) m))" for m
    by (simp_all add: s upd_lock_def)
  have o: "owns g h l" using disown(4) by (simp add: owns_def)
  have no: "\<not> owns g k l" if "k < 8" "k \<noteq> h" for k using I(8) [OF that(1) disown(2) _ o] that(2) by blast
  have card: "int (card (held g h)) = int (card (held g h - {l})) + 1"
    using card.remove [OF I(2) [OF disown(2)] disown(4)] by simp
  show ?thesis unfolding disown(1)
  proof (rule mp_inv_commit [OF assms(2) disown(2)])
    show "locked (locks s m) \<longleftrightarrow> pc_owns (Disowned l) (held g h - {l}) m \<or> other_owns g h m" for m
      using mp_locked [OF assms(2) disown(2), of m] disown(3,4) by (auto simp: lk pc_owns_def owns_def)
    show "\<not> owns g k m" if "pc_owns (Disowned l) (held g h - {l}) m" "k < 8" "k \<noteq> h" for m k
      using I(8) [of h k m] that disown(2) no by (auto simp: pc_owns_def owns_def)
    show "lk_cpu (locks s m) = Some k \<longleftrightarrow> (if k = h then m \<in> held g h - {l} else k < 8 \<and> m \<in> held g k)" for m k
      using I(9) [of m k] disown(2) no [of k] by (auto simp: lk owns_def)
    show "c_noff (cpus s h) = int (card (held g h - {l})) + (if Disowned l = Running then 0 else 1)"
      using I(3) [OF disown(2)] disown(3) card by (simp add: s upd_lock_def depth_def)
    show "\<not> intr_get (csr s)" using I(4) [OF disown(2)] card by (simp add: s upd_lock_def depth_def)
  qed (use I(1,2) [OF disown(2)] in \<open>auto simp: s upd_lock_def\<close>)
next
  case (rels h l)
  note I = mp_invD [OF assms(2)]
  let ?s = "lock_release l (view h g)"
  have lk: "locked (locks ?s m) \<longleftrightarrow> m \<noteq> l \<and> locked (locks (shared g) m)"
    "lk_cpu (locks ?s m) = lk_cpu (locks (shared g) m)" for m
    by (simp_all add: lock_release_def upd_lock_def)
  have o: "owns g h l" using rels(3) by (simp add: owns_def)
  have no: "\<not> owns g k l" if "k < 8" "k \<noteq> h" for k using I(8) [OF that(1) rels(2) _ o] that(2) by blast
  have no_other: "\<not> other_owns g h l" using no by (auto simp: other_owns_def)
  have nl: "l \<notin> held g h" using I(6) [OF rels(2,3)] .
  show ?thesis unfolding rels(1)
  proof (rule mp_inv_commit [OF assms(2) rels(2)])
    show "locked (locks ?s m) \<longleftrightarrow> pc_owns (Released l) (held g h) m \<or> other_owns g h m" for m
      using mp_locked [OF assms(2) rels(2), of m] rels(3) no_other nl by (auto simp: lk pc_owns_def owns_def)
    show "\<not> owns g k m" if "pc_owns (Released l) (held g h) m" "k < 8" "k \<noteq> h" for m k
      using I(8) [of h k m] that rels(2) by (auto simp: pc_owns_def owns_def)
    show "lk_cpu (locks ?s m) = Some k \<longleftrightarrow> (if k = h then m \<in> held g h else k < 8 \<and> m \<in> held g k)" for m k
      using I(9) [of m k] rels(2) by (simp add: lk)
  qed (use I(1-4) [OF rels(2)] rels(3) in \<open>auto simp: lock_release_def upd_lock_def depth_def\<close>)
next
  case (pop h l s)
  note I = mp_invD [OF assms(2)] and cv = cpuid_view [OF assms(2) pop(2)]
  have d: "c_noff (cpus (shared g) h) = int (card (held g h)) + 1" using I(3) [OF pop(2)] pop(3) by (simp add: depth_def)
  have off: "\<not> intr_get (regs g h)" using I(4) [OF pop(2)] pop(3) by (simp add: depth_def)
  have n: "noff (view h g) = int (card (held g h)) + 1" using d cv by (simp add: noff_def mycpu_def)
  have s: "s = (view h g)\<lparr>csr := (if card (held g h) = 0 \<and> c_intena (cpus (shared g) h) then intr_on (regs g h) else regs g h),
     cpus := (cpus (shared g))(h := (cpus (shared g) h)\<lparr>c_noff := int (card (held g h))\<rparr>)\<rparr>"
    using pop_off_eq [of "view h g"] off n pop(4) cv by (simp add: mycpu_def)
  show ?thesis unfolding pop(1)
  proof (rule mp_inv_commit [OF assms(2) pop(2)])
    show "tp (csr s) = of_nat h" using I(1) [OF pop(2)] by (simp add: s)
    show "\<not> intr_get (csr s)" if "held g h \<noteq> {} \<or> Running \<noteq> Running"
      using that off I(2) [OF pop(2)] by (simp add: s)
    show "locked (locks s m) \<longleftrightarrow> pc_owns Running (held g h) m \<or> other_owns g h m" for m
      using mp_locked [OF assms(2) pop(2), of m] pop(3) by (auto simp: s pc_owns_def owns_def)
    show "\<not> owns g k m" if "pc_owns Running (held g h) m" "k < 8" "k \<noteq> h" for m k
      using I(8) [of h k m] that pop(2) by (auto simp: pc_owns_def owns_def)
    show "lk_cpu (locks s m) = Some k \<longleftrightarrow> (if k = h then m \<in> held g h else k < 8 \<and> m \<in> held g k)" for m k
      using I(9) [of m k] pop(2) by (simp add: s)
  qed (use I(2) [OF pop(2)] in \<open>auto simp: s\<close>)
qed


text \<open>The state the boot leaves: every lock free, no hart inside a section, \<^verbatim>\<open>tp\<close> holding the hart number.\<close>

definition mp_boot :: "mp_state \<Rightarrow> bool" where
  "mp_boot g \<longleftrightarrow> (\<forall>h < 8. tp (regs g h) = of_nat h \<and> c_noff (cpus (shared g) h) = 0)
     \<and> (\<forall>h. pcs g h = Running \<and> held g h = {})
     \<and> (\<forall>l. \<not> locked (locks (shared g) l) \<and> lk_cpu (locks (shared g) l) = None)"

lemma mp_boot_inv: "mp_boot g \<Longrightarrow> mp_inv g"
  by (simp add: mp_boot_def mp_inv_def depth_def owns_def)

lemma mp_steps_inv: "mp_step\<^sup>*\<^sup>* g g' \<Longrightarrow> mp_inv g \<Longrightarrow> mp_inv g'"
  by (induction rule: rtranclp_induct) (auto intro: mp_step_inv)

text \<open>
  C10: spinlocks exclude each other on any number of steps of any interleaving of eight harts.  From
  the boot state, in every reachable state: no lock is held by two harts; \<^verbatim>\<open>holding\<close> answers exactly
  whether this hart holds the lock; a hart that holds or is taking a lock has interrupts off; and
  none of the panics of \<^verbatim>\<open>acquire\<close>, \<^verbatim>\<open>release\<close> and \<^verbatim>\<open>pop_off\<close> can be reached by code that acquires
  only locks it does not hold and releases only locks it holds.
\<close>

theorem spinlock_mutual_exclusion:
  assumes "mp_boot g0" "mp_step\<^sup>*\<^sup>* g0 g" "h < 8" "h' < 8"
  shows "(l \<in> held g h \<and> l \<in> held g h' \<longrightarrow> h = h')
    \<and> (holding l (view h g) \<longleftrightarrow> l \<in> held g h)
    \<and> (held g h \<noteq> {} \<or> pcs g h \<noteq> Running \<longrightarrow> \<not> intr_get (regs g h))
    \<and> (l \<notin> held g h \<longrightarrow> (\<exists>s. acquire_enter l (view h g) = Inr s))
    \<and> (l \<in> held g h \<longrightarrow> (\<exists>s. release_disown l (view h g) = Inr s))
    \<and> (pcs g h = Released l \<longrightarrow> (\<exists>s. pop_off (view h g) = Inr s))"
proof -
  have inv: "mp_inv g" using mp_steps_inv [OF assms(2) mp_boot_inv [OF assms(1)]] .
  note I = mp_invD [OF inv] and hold = mp_holding [OF inv assms(3)]
  have off: "\<not> intr_get (regs g h)" if "held g h \<noteq> {} \<or> pcs g h \<noteq> Running"
  proof -
    have "0 < depth g h"
      using that I(2) [OF assms(3)] by (cases "pcs g h = Running") (auto simp: depth_def card_gt_0_iff)
    then show ?thesis by (rule I(4) [OF assms(3)])
  qed
  have "l \<in> held g h \<and> l \<in> held g h' \<longrightarrow> h = h'" using I(8) [OF assms(3,4), of l] by (auto simp: owns_def)
  moreover have "\<exists>s. acquire_enter l (view h g) = Inr s" if "l \<notin> held g h"
  proof -
    have "holding l (push_off (view h g)) = holding l (view h g)" by (simp add: holding_def)
    then show ?thesis using that hold by (simp add: acquire_enter_def Let_def)
  qed
  moreover have "\<exists>s. release_disown l (view h g) = Inr s" if "l \<in> held g h"
    using that hold by (simp add: release_disown_def)
  moreover have "\<exists>s. pop_off (view h g) = Inr s" if "pcs g h = Released l"
    using that pop_off_eq [of "view h g"] off I(3) [OF assms(3)] mycpu_view [OF inv assms(3)]
    by (simp add: noff_def depth_def)
  ultimately show ?thesis using hold off by blast
qed

definition boot_csrs :: "nat \<Rightarrow> csrs" where
  "boot_csrs h = \<lparr>mhartid = of_nat h, mstatus = 0, mepc = 0, medeleg = 0, mideleg = 0, mie = 0, menvcfg = 0,
     mcounteren = 0, pmpcfg0 = 0, pmpaddr0 = 0, sstatus = SSTATUS_SIE, sip = 0, sie = 0, sepc = 0, stvec = 0,
     stimecmp = 0, satp = 0, scause = 0, stval = 0, time_csr = 0, tp = of_nat h, fcsr = 0, fregs = replicate 32 0\<rparr>"

definition idle_cpu :: cpu where
  "idle_cpu = \<lparr>c_proc = None, c_context = \<lparr>ctx_ra = 0, ctx_sp = 0, ctx_s = []\<rparr>, c_noff = 0, c_intena = False\<rparr>"

definition boot_sync :: sync_state where
  "boot_sync = \<lparr>mem = (\<lambda>_. 0), freelist = 0, phys_top = 0, kernel_end = 0, csr = boot_csrs 0,
     cpus = (\<lambda>_. idle_cpu), locks = (\<lambda>_. \<lparr>locked = False, lk_name = [], lk_cpu = None\<rparr>)\<rparr>"

definition boot_mp :: mp_state where
  "boot_mp = \<lparr>regs = boot_csrs, shared = boot_sync, pcs = (\<lambda>_. Running), held = (\<lambda>_. {})\<rparr>"

theorem spinlock_mutual_exclusion_witness:
  "mp_boot boot_mp \<and> mp_step\<^sup>*\<^sup>* boot_mp boot_mp \<and> intr_get (regs boot_mp 0)
     \<and> (\<exists>s. acquire_enter WaitLock (view 0 boot_mp) = Inr s
          \<and> mp_step boot_mp (commit 0 s (Spinning WaitLock) {} boot_mp))"
proof -
  have b: "mp_boot boot_mp"
    by (simp add: mp_boot_def boot_mp_def boot_sync_def boot_csrs_def idle_cpu_def)
  obtain s where s: "acquire_enter WaitLock (view 0 boot_mp) = Inr s"
    using spinlock_mutual_exclusion [OF b rtranclp.rtrancl_refl, of 0 0 WaitLock] by (auto simp: boot_mp_def)
  have "mp_step boot_mp (commit 0 s (Spinning WaitLock) (held boot_mp 0) boot_mp)"
    by (rule mp_step.enter [OF _ _ _ s]) (simp_all add: boot_mp_def)
  moreover have "intr_get (regs boot_mp 0)"
    by (simp add: intr_get_bit boot_mp_def boot_csrs_def SSTATUS_SIE_def)
  ultimately show ?thesis using b s by (simp add: boot_mp_def)
qed



end
