(* ===== verification/Proctab.thy ===== *)
theory Proctab
  imports Sync Vm
begin

text \<open>
  The process table and the operations of \<^verbatim>\<open>kernel/proc/proc.c\<close> that the rest of the kernel calls:
  the current process, sleeping and waking, killing, the hand-over between a process and the
  scheduler, copies to a kernel or user address, and the lazily switched floating-point registers
  (\<^verbatim>\<open>kernel/proc/fpu.c\<close>).  A critical section whose spinlock is acquired and released within one
  function is one atomic action, and the pair is not written; locks that are held across a context
  switch (\<^verbatim>\<open>p->lock\<close>, the condition lock of \<^verbatim>\<open>sleep\<close>, \<^verbatim>\<open>wait_lock\<close> in \<^verbatim>\<open>kexit\<close>) are explicit.
\<close>

section \<open>State\<close>

datatype procstate = UNUSED | USED | SLEEPING | RUNNABLE | RUNNING | ZOMBIE

record fpu_state =
  fpu_f :: "u64 list"
  fpu_fcsr :: u32

text \<open>Pointers to processes, open files and inodes are indices into their tables.\<close>

record proc =
  p_state :: procstate
  p_chan :: "kptr option"
  p_killed :: bool
  p_xstate :: u32
  p_pid :: u32
  p_parent :: "nat option"
  p_kstack :: u64
  p_sz :: u64
  p_pagetable :: u64
  p_trapframe :: u64
  p_context :: ctxt
  p_fpu :: fpu_state
  p_fpu_used :: bool
  p_fpu_active :: bool
  p_ofile :: "nat option list"
  p_cwd :: "nat option"
  p_name :: "u8 list"

text \<open>
  The layout fields are the addresses the linker gives to \<^verbatim>\<open>trampoline\<close>, \<^verbatim>\<open>forkret\<close>, \<^verbatim>\<open>usertrap\<close>,
  \<^verbatim>\<open>uservec\<close> and \<^verbatim>\<open>kernelvec\<close>.
\<close>

record proc_state = sync_state +
  procs :: "proc list"
  initproc :: "nat option"
  nextpid :: u32
  ticks :: u32
  a_trampoline :: u64
  a_uservec :: u64
  a_forkret :: u64
  a_usertrap :: u64
  a_kernelvec :: u64

definition NOFILE :: nat where "NOFILE = 16"

abbreviation getp :: "'a proc_state_scheme \<Rightarrow> nat \<Rightarrow> proc" where
  "getp s i \<equiv> procs s ! i"

definition setp :: "nat \<Rightarrow> (proc \<Rightarrow> proc) \<Rightarrow> 'a proc_state_scheme \<Rightarrow> 'a proc_state_scheme" where
  "setp i f s = s\<lparr>procs := (procs s)[i := f (procs s ! i)]\<rparr>"

definition myproc :: "'a proc_state_scheme \<Rightarrow> nat option" where
  "myproc s = c_proc (mycpu s)"

text \<open>Dereferencing \<^verbatim>\<open>myproc()\<close> where there is no process is a null access.\<close>

definition cur :: "'a proc_state_scheme \<Rightarrow> nat res" where
  "cur s = (case myproc s of None \<Rightarrow> Inl BadAccess | Some i \<Rightarrow> Inr i)"

section \<open>Initialisation and process numbers\<close>

definition procinit :: "'a proc_state_scheme \<Rightarrow> 'a proc_state_scheme" where
  "procinit s =
     fold (\<lambda>i s. setp i (\<lambda>p. p\<lparr>p_state := UNUSED, p_kstack := KSTACK i\<rparr>) (initlock (ProcLock i) ''proc'' s))
       [0..<NPROC] (initlock WaitLock ''wait_lock'' (initlock PidLock ''nextpid'' s))"

definition allocpid :: "'a proc_state_scheme \<Rightarrow> u32 \<times> 'a proc_state_scheme" where
  "allocpid s = (let pid = nextpid s in (pid, s\<lparr>nextpid := nextpid s + 1\<rparr>))"

section \<open>Floating-point registers (fpu.c)\<close>

text \<open>
  \<^verbatim>\<open>fpu_save_regs\<close> and \<^verbatim>\<open>fpu_restore_regs\<close> (fpu.S) move the 32 registers; with the unit switched
  off they would raise an illegal-instruction trap in the kernel, which ends in \<^verbatim>\<open>kerneltrap\<close>'s panic.
\<close>

definition fpu_save_regs :: "csrs \<Rightarrow> u64 list res" where
  "fpu_save_regs h = (if fs_enabled h then Inr (fregs h) else Inl (Panic ''kerneltrap''))"

definition fpu_restore_regs :: "u64 list \<Rightarrow> csrs \<Rightarrow> csrs res" where
  "fpu_restore_regs f h = (if fs_enabled h then Inr (h\<lparr>fregs := f\<rparr>) else Inl (Panic ''kerneltrap''))"

definition fpu_save_proc :: "nat option \<Rightarrow> 'a proc_state_scheme \<Rightarrow> 'a proc_state_scheme res" where
  "fpu_save_proc p s =
     rbind (case p of
         Some i \<Rightarrow> (if p_fpu_active (getp s i)
           then let s = s\<lparr>csr := fpu_on (csr s)\<rparr> in
             rbind (fpu_save_regs (csr s)) (\<lambda>f.
               Inr (setp i (\<lambda>q. q\<lparr>p_fpu := \<lparr>fpu_f = f, fpu_fcsr = r_fcsr (csr s)\<rparr>, p_fpu_active := False\<rparr>) s))
           else Inr s)
       | None \<Rightarrow> Inr s)
       (\<lambda>s. Inr (s\<lparr>csr := fpu_off (csr s)\<rparr>))"

definition fpu_zero :: fpu_state where
  "fpu_zero = \<lparr>fpu_f = replicate 32 0, fpu_fcsr = 0\<rparr>"

definition fpu_handle_trap :: "nat \<Rightarrow> 'a proc_state_scheme \<Rightarrow> 'a proc_state_scheme res" where
  "fpu_handle_trap i s =
     (let s = s\<lparr>csr := fpu_on (csr s)\<rparr>;
          s = (if \<not> p_fpu_used (getp s i) then setp i (\<lambda>q. q\<lparr>p_fpu := fpu_zero, p_fpu_used := True\<rparr>) s else s)
      in rbind (fpu_restore_regs (fpu_f (p_fpu (getp s i))) (csr s)) (\<lambda>h.
        Inr (setp i (\<lambda>q. q\<lparr>p_fpu_active := True\<rparr>) (s\<lparr>csr := w_fcsr (fpu_fcsr (p_fpu (getp s i))) h\<rparr>))))"

section \<open>Giving up the CPU\<close>

text \<open>
  \<^verbatim>\<open>sched\<close> up to \<^verbatim>\<open>swtch\<close>: the result is the state in which the scheduler's context resumes, with
  the saved \<^verbatim>\<open>intena\<close>.  \<^verbatim>\<open>sched_back\<close> is what is left of \<^verbatim>\<open>sched\<close> when the process runs again.
\<close>

definition sched :: "'a proc_state_scheme \<Rightarrow> (bool \<times> 'a proc_state_scheme) res" where
  "sched s = rbind (cur s) (\<lambda>p.
     if \<not> holding (ProcLock p) s then Inl (Panic ''sched p->lock'')
     else if c_noff (mycpu s) \<noteq> 1 then Inl (Panic ''sched locks'')
     else if p_state (getp s p) = RUNNING then Inl (Panic ''sched RUNNING'')
     else if intr_get (csr s) then Inl (Panic ''sched interruptible'')
     else rbind (fpu_save_proc (Some p) s) (\<lambda>s. Inr (c_intena (mycpu s), s)))"

definition sched_back :: "bool \<Rightarrow> 'a proc_state_scheme \<Rightarrow> 'a proc_state_scheme" where
  "sched_back intena s = upd_cpu (\<lambda>c. c\<lparr>c_intena := intena\<rparr>) s"

text \<open>The two halves of \<^verbatim>\<open>yield\<close>.\<close>

definition yield :: "'a proc_state_scheme \<Rightarrow> (bool \<times> 'a proc_state_scheme) res" where
  "yield s = rbind (cur s) (\<lambda>p. rbind (acquire (ProcLock p) s) (\<lambda>s.
     sched (setp p (\<lambda>q. q\<lparr>p_state := RUNNABLE\<rparr>) s)))"

definition yield_back :: "nat \<Rightarrow> bool \<Rightarrow> 'a proc_state_scheme \<Rightarrow> 'a proc_state_scheme res" where
  "yield_back p intena s = release (ProcLock p) (sched_back intena s)"

text \<open>The two halves of \<^verbatim>\<open>sleep\<close>.\<close>

definition sleep :: "kptr \<Rightarrow> lockid \<Rightarrow> 'a proc_state_scheme \<Rightarrow> (bool \<times> 'a proc_state_scheme) res" where
  "sleep chan lk s = rbind (cur s) (\<lambda>p. rbind (acquire (ProcLock p) s) (\<lambda>s. rbind (release lk s) (\<lambda>s.
     sched (setp p (\<lambda>q. q\<lparr>p_chan := Some chan, p_state := SLEEPING\<rparr>) s))))"

definition sleep_back :: "lockid \<Rightarrow> nat \<Rightarrow> bool \<Rightarrow> 'a proc_state_scheme \<Rightarrow> 'a proc_state_scheme res" where
  "sleep_back lk p intena s =
     (let s = setp p (\<lambda>q. q\<lparr>p_chan := None\<rparr>) (sched_back intena s) in
      rbind (release (ProcLock p) s) (acquire lk))"

text \<open>
  One iteration of the scheduler's inner loop: \<^verbatim>\<open>acquire\<close>, and for a runnable process the switch to
  it (the result says whether the CPU now runs the process, with its lock held).  \<open>scheduler_back\<close>
  is the rest of the iteration, when the process has switched back.
\<close>

definition scheduler_try :: "nat \<Rightarrow> 'a proc_state_scheme \<Rightarrow> (bool \<times> 'a proc_state_scheme) res" where
  "scheduler_try p s = rbind (acquire (ProcLock p) s) (\<lambda>s.
     if p_state (getp s p) = RUNNABLE
     then Inr (True, upd_cpu (\<lambda>c. c\<lparr>c_proc := Some p\<rparr>) (setp p (\<lambda>q. q\<lparr>p_state := RUNNING\<rparr>) s))
     else rbind (release (ProcLock p) s) (\<lambda>s. Inr (False, s)))"

definition scheduler_back :: "nat \<Rightarrow> 'a proc_state_scheme \<Rightarrow> 'a proc_state_scheme res" where
  "scheduler_back p s = release (ProcLock p) (upd_cpu (\<lambda>c. c\<lparr>c_proc := None\<rparr>) s)"

text \<open>The start of a round: interrupts are let in once.\<close>

definition scheduler_round :: "'a proc_state_scheme \<Rightarrow> 'a proc_state_scheme" where
  "scheduler_round s = s\<lparr>csr := intr_off (intr_on (csr s))\<rparr>"

section \<open>Waking and killing\<close>

definition wakeup :: "kptr \<Rightarrow> 'a proc_state_scheme \<Rightarrow> 'a proc_state_scheme" where
  "wakeup chan s =
     fold (\<lambda>i s. if myproc s \<noteq> Some i \<and> p_state (getp s i) = SLEEPING \<and> p_chan (getp s i) = Some chan
         then setp i (\<lambda>p. p\<lparr>p_state := RUNNABLE\<rparr>) s else s)
       [0..<NPROC] s"

fun kkill_loop :: "nat list \<Rightarrow> u32 \<Rightarrow> 'a proc_state_scheme \<Rightarrow> int \<times> 'a proc_state_scheme" where
  "kkill_loop [] pid s = (-1, s)"
| "kkill_loop (i # is) pid s =
     (if p_pid (getp s i) = pid
      then let s = setp i (\<lambda>p. p\<lparr>p_killed := True\<rparr>) s in
        (0, if p_state (getp s i) = SLEEPING then setp i (\<lambda>p. p\<lparr>p_state := RUNNABLE\<rparr>) s else s)
      else kkill_loop is pid s)"

definition kkill :: "u32 \<Rightarrow> 'a proc_state_scheme \<Rightarrow> int \<times> 'a proc_state_scheme" where
  "kkill pid s = kkill_loop [0..<NPROC] pid s"

definition setkilled :: "nat \<Rightarrow> 'a proc_state_scheme \<Rightarrow> 'a proc_state_scheme" where
  "setkilled i s = setp i (\<lambda>p. p\<lparr>p_killed := True\<rparr>) s"

definition killed :: "nat \<Rightarrow> 'a proc_state_scheme \<Rightarrow> bool" where
  "killed i s = p_killed (getp s i)"

section \<open>Copies to a kernel or user address\<close>

text \<open>The length reaches \<^verbatim>\<open>memmove\<close> as a 32-bit \<^verbatim>\<open>uint\<close>.\<close>

definition either_copyout ::
  "bool \<Rightarrow> u64 \<Rightarrow> u64 \<Rightarrow> u64 \<Rightarrow> 'a proc_state_scheme \<Rightarrow> (int \<times> 'a proc_state_scheme) res" where
  "either_copyout user_dst dst src len s =
     (if user_dst then rbind (cur s) (\<lambda>p. copyout s (p_pagetable (getp s p)) dst src len)
      else Inr (0, s\<lparr>mem := memmove (mem s) dst src (ucast len)\<rparr>))"

definition either_copyin ::
  "u64 \<Rightarrow> bool \<Rightarrow> u64 \<Rightarrow> u64 \<Rightarrow> 'a proc_state_scheme \<Rightarrow> (int \<times> 'a proc_state_scheme) res" where
  "either_copyin dst user_src src len s =
     (if user_src then rbind (cur s) (\<lambda>p. copyin s (p_pagetable (getp s p)) dst src len)
      else Inr (0, s\<lparr>mem := memmove (mem s) dst src (ucast len)\<rparr>))"

section \<open>Sleep locks (sleeplock.c)\<close>

record sleeplock =
  sl_locked :: bool
  sl_name :: string
  sl_pid :: u32

definition initsleeplock :: "string \<Rightarrow> sleeplock" where
  "initsleeplock name = \<lparr>sl_locked = False, sl_name = name, sl_pid = 0\<rparr>"

text \<open>A lock that is taken makes the caller sleep on it.\<close>

definition acquiresleep :: "sleeplock \<Rightarrow> 'a proc_state_scheme \<Rightarrow> sleeplock res" where
  "acquiresleep lk s =
     (if sl_locked lk then Inl Block
      else rbind (cur s) (\<lambda>p. Inr (lk\<lparr>sl_locked := True, sl_pid := p_pid (getp s p)\<rparr>)))"

definition releasesleep :: "kptr \<Rightarrow> sleeplock \<Rightarrow> 'a proc_state_scheme \<Rightarrow> sleeplock \<times> 'a proc_state_scheme" where
  "releasesleep ptr lk s = (lk\<lparr>sl_locked := False, sl_pid := 0\<rparr>, wakeup ptr s)"

definition holdingsleep :: "sleeplock \<Rightarrow> 'a proc_state_scheme \<Rightarrow> bool res" where
  "holdingsleep lk s =
     (if sl_locked lk then rbind (cur s) (\<lambda>p. Inr (sl_pid lk = p_pid (getp s p))) else Inr False)"

section \<open>What wakeup changes\<close>

definition wake_one :: "kptr \<Rightarrow> nat option \<Rightarrow> nat \<Rightarrow> proc \<Rightarrow> proc" where
  "wake_one chan me i p =
     (if me \<noteq> Some i \<and> p_state p = SLEEPING \<and> p_chan p = Some chan then p\<lparr>p_state := RUNNABLE\<rparr> else p)"

definition woken :: "nat \<Rightarrow> kptr \<Rightarrow> nat option \<Rightarrow> proc list \<Rightarrow> proc list" where
  "woken n chan me ps = map (\<lambda>i. if i < n then wake_one chan me i (ps ! i) else ps ! i) [0..<length ps]"

lemma woken_simps [simp]:
  "length (woken n chan me ps) = length ps"
  "i < length ps \<Longrightarrow> woken n chan me ps ! i = (if i < n then wake_one chan me i (ps ! i) else ps ! i)"
  by (simp_all add: woken_def)

lemma woken_Suc:
  "woken (Suc n) chan me ps = (let qs = woken n chan me ps in qs[n := wake_one chan me n (qs ! n)])"
  by (rule list_eq_nthI) (auto simp: nth_list_update less_Suc_eq Let_def)

lemma wakeup_eq: "wakeup chan s = s\<lparr>procs := woken NPROC chan (myproc s) (procs s)\<rparr>"
proof -
  let ?f = "\<lambda>i s. if myproc s \<noteq> Some i \<and> p_state (getp s i) = SLEEPING \<and> p_chan (getp s i) = Some chan
         then setp i (\<lambda>p. p\<lparr>p_state := RUNNABLE\<rparr>) s else s"
  have me: "myproc (s\<lparr>procs := ps\<rparr>) = myproc s" for ps
    by (simp add: myproc_def mycpu_def cpuid_def)
  have step: "?f n (s\<lparr>procs := ps\<rparr>) = s\<lparr>procs := ps[n := wake_one chan (myproc s) n (ps ! n)]\<rparr>" for n ps
    by (simp add: me setp_def wake_one_def)
  have "fold ?f [0..<n] s = s\<lparr>procs := woken n chan (myproc s) (procs s)\<rparr>" for n
  proof (induction n)
    case 0
    have "woken 0 chan (myproc s) (procs s) = procs s" by (simp add: woken_def map_nth)
    then show ?case by simp
  next
    case (Suc n)
    then show ?case by (simp only: upt_Suc_append le0 fold_append o_apply fold_simps step woken_Suc Let_def id_apply)
  qed
  then show ?thesis by (simp add: wakeup_def)
qed

end
