(* ===== verification/Ring.thy ===== *)
theory Ring
  imports Prelude
begin

text \<open>
  Circular doubly-linked lists, given by their successor and predecessor functions: the shape of the
  buffer cache's list by recency of use.  \<open>links a xs h\<close> says that the nodes \<open>xs\<close> lie between \<open>a\<close>
  and \<open>h\<close>, linked in both directions; a ring is a chain from its head to its head.
\<close>

fun links :: "('n \<Rightarrow> 'n) \<Rightarrow> ('n \<Rightarrow> 'n) \<Rightarrow> 'n \<Rightarrow> 'n list \<Rightarrow> 'n \<Rightarrow> bool" where
  "links nx pv a [] h \<longleftrightarrow> nx a = h \<and> pv h = a"
| "links nx pv a (x # xs) h \<longleftrightarrow> nx a = x \<and> pv x = a \<and> links nx pv x xs h"

lemma links_append: "links nx pv a (xs @ b # ys) h \<longleftrightarrow> links nx pv a xs b \<and> links nx pv b ys h"
  by (induction xs arbitrary: a) auto

lemma links_cong:
  assumes "\<And>x. x = a \<or> x \<in> set xs \<Longrightarrow> nx x = nx' x" "\<And>x. x = h \<or> x \<in> set xs \<Longrightarrow> pv x = pv' x"
  shows "links nx pv a xs h = links nx' pv' a xs h"
  using assms by (induction xs arbitrary: a) auto

lemma links_ends:
  assumes "links nx pv a xs h"
  shows "nx a = hd (xs @ [h])" "pv h = last (a # xs)"
  using assms by (induction xs arbitrary: a) auto

text \<open>Redirecting the end of a chain.\<close>

lemma links_redirect:
  assumes "links nx pv a xs b" "distinct (a # xs)" "c \<notin> set xs"
  shows "links (nx(last (a # xs) := c)) (pv(c := last (a # xs))) a xs c"
  using assms
proof (induction xs arbitrary: a)
  case Nil
  then show ?case by simp
next
  case (Cons x xs)
  have ih: "links (nx(last (x # xs) := c)) (pv(c := last (x # xs))) x xs c"
    using Cons.prems by (intro Cons.IH) auto
  have "last (x # xs) \<noteq> a" using Cons.prems(2) last_in_set [of "x # xs"] by (metis distinct.simps(2) list.simps(3))
  then have "(nx(last (x # xs) := c)) a = x" using Cons.prems(1) by simp
  moreover have "(pv(c := last (x # xs))) x = a" using Cons.prems by auto
  moreover have "last (a # x # xs) = last (x # xs)" by simp
  ultimately show ?case using ih by (simp only: links.simps simp_thms)
qed

lemma ring_unlink:
  assumes "links nx pv h (ys @ b # zs) h" "distinct (h # ys @ b # zs)"
  shows "links (nx(pv b := nx b)) (pv(nx b := pv b)) h (ys @ zs) h"
proof -
  have front: "links nx pv h ys b" and rear: "links nx pv b zs h"
    using assms(1) by (simp_all add: links_append)
  have p: "pv b = last (h # ys)" by (rule links_ends(2) [OF front])
  have dy: "distinct (h # ys)" using assms(2) by simp
  show ?thesis
  proof (cases zs)
    case Nil
    with rear have "nx b = h" by simp
    with links_redirect [OF front dy, of h] assms(2) Nil p show ?thesis by simp
  next
    case (Cons z zs')
    with rear have z: "nx b = z" "pv z = b" "links nx pv z zs' h" by simp_all
    have "links (nx(pv b := z)) (pv(z := pv b)) h ys z"
      unfolding p using assms(2) Cons by (intro links_redirect [OF front dy]) auto
    moreover have "links (nx(pv b := z)) (pv(z := pv b)) z zs' h = links nx pv z zs' h"
      using assms(2) Cons p last_in_set [of "h # ys"] by (intro links_cong) auto
    ultimately show ?thesis using z Cons by (simp add: links_append)
  qed
qed

lemma ring_push:
  assumes "links nx pv h xs h" "b \<noteq> h" "b \<notin> set xs" "distinct (h # xs)"
  shows "links (nx(b := nx h, h := b)) (pv(b := h, nx h := b)) h (b # xs) h"
proof (cases xs)
  case Nil
  with assms show ?thesis by simp
next
  case (Cons x xs')
  with assms(1) have x: "nx h = x" "pv x = h" "links nx pv x xs' h" by simp_all
  have "links (nx(b := nx h, h := b)) (pv(b := h, nx h := b)) x xs' h = links nx pv x xs' h"
    using assms Cons x by (intro links_cong) auto
  with assms Cons x show ?thesis by auto
qed

end
