(* ===== verification/Bio.thy ===== *)
theory Bio
  imports Proctab Ring
begin

text \<open>
  The buffer cache (\<^verbatim>\<open>kernel/fs/bio.c\<close>).  \<open>bufs\<close> holds the \<^verbatim>\<open>NBUF\<close> buffers and, last, the list head;
  the links \<^verbatim>\<open>prev\<close> and \<^verbatim>\<open>next\<close> are indices into it.  The data array of buffer \<open>b\<close> lives in memory at
  \<open>a_bufdata s b\<close>, an address of the kernel's data segment.  The disk is an array of blocks, and
  \<open>disk_transfer\<close> is what \<^verbatim>\<open>virtio_disk_rw\<close> achieves: one block moved between buffer and disk.
\<close>

section \<open>State\<close>

definition NBUF :: nat where "NBUF = 30"
definition BSIZE :: nat where "BSIZE = 1024"

record buf =
  b_valid :: bool
  b_disk :: bool
  b_dev :: u32
  b_blockno :: u32
  b_lock :: sleeplock
  b_refcnt :: u32
  b_prev :: nat
  b_next :: nat

record bio_state = proc_state +
  bufs :: "buf list"
  disk :: "u32 \<Rightarrow> u8 list"
  a_bufdata :: "nat \<Rightarrow> u64"

abbreviation getb :: "'a bio_state_scheme \<Rightarrow> nat \<Rightarrow> buf" where
  "getb s b \<equiv> bufs s ! b"

definition setb :: "nat \<Rightarrow> (buf \<Rightarrow> buf) \<Rightarrow> 'a bio_state_scheme \<Rightarrow> 'a bio_state_scheme" where
  "setb b f s = s\<lparr>bufs := (bufs s)[b := f (bufs s ! b)]\<rparr>"

section \<open>Operations\<close>

definition binit_one :: "nat \<Rightarrow> 'a bio_state_scheme \<Rightarrow> 'a bio_state_scheme" where
  "binit_one b s =
     (let hd = b_next (getb s NBUF);
          s = setb b (\<lambda>x. x\<lparr>b_next := hd\<rparr>) s;
          s = setb b (\<lambda>x. x\<lparr>b_prev := NBUF\<rparr>) s;
          s = setb b (\<lambda>x. x\<lparr>b_lock := initsleeplock ''buffer''\<rparr>) s;
          s = setb (b_next (getb s NBUF)) (\<lambda>x. x\<lparr>b_prev := b\<rparr>) s
      in setb NBUF (\<lambda>x. x\<lparr>b_next := b\<rparr>) s)"

definition binit :: "'a bio_state_scheme \<Rightarrow> 'a bio_state_scheme" where
  "binit s = fold binit_one [0..<NBUF]
     (setb NBUF (\<lambda>x. x\<lparr>b_prev := NBUF, b_next := NBUF\<rparr>) (initlock BcacheLock ''bcache'' s))"

fun bget_find :: "nat \<Rightarrow> 'a bio_state_scheme \<Rightarrow> nat \<Rightarrow> u32 \<Rightarrow> u32 \<Rightarrow> nat option res" where
  "bget_find 0 s b dev blockno = (if b = NBUF then Inr None else Inl NoFuel)"
| "bget_find (Suc n) s b dev blockno =
     (if b = NBUF then Inr None
      else if b_dev (getb s b) = dev \<and> b_blockno (getb s b) = blockno then Inr (Some b)
      else bget_find n s (b_next (getb s b)) dev blockno)"

fun bget_lru :: "nat \<Rightarrow> 'a bio_state_scheme \<Rightarrow> nat \<Rightarrow> nat option res" where
  "bget_lru 0 s b = (if b = NBUF then Inr None else Inl NoFuel)"
| "bget_lru (Suc n) s b =
     (if b = NBUF then Inr None
      else if b_refcnt (getb s b) = 0 then Inr (Some b)
      else bget_lru n s (b_prev (getb s b)))"

definition block_lock :: "nat \<Rightarrow> 'a bio_state_scheme \<Rightarrow> (nat \<times> 'a bio_state_scheme) res" where
  "block_lock b s = rbind (acquiresleep (b_lock (getb s b)) s) (\<lambda>lk. Inr (b, setb b (\<lambda>x. x\<lparr>b_lock := lk\<rparr>) s))"

definition bget :: "u32 \<Rightarrow> u32 \<Rightarrow> 'a bio_state_scheme \<Rightarrow> (nat \<times> 'a bio_state_scheme) res" where
  "bget dev blockno s =
     rbind (bget_find NBUF s (b_next (getb s NBUF)) dev blockno) (\<lambda>r. case r of
       Some b \<Rightarrow> block_lock b (setb b (\<lambda>x. x\<lparr>b_refcnt := b_refcnt x + 1\<rparr>) s)
     | None \<Rightarrow> rbind (bget_lru NBUF s (b_prev (getb s NBUF))) (\<lambda>r. case r of
         Some b \<Rightarrow> block_lock b (setb b (\<lambda>x. x\<lparr>b_dev := dev, b_blockno := blockno, b_valid := False, b_refcnt := 1\<rparr>) s)
       | None \<Rightarrow> Inl (Panic ''bget: no buffers'')))"

definition disk_transfer :: "nat \<Rightarrow> bool \<Rightarrow> 'a bio_state_scheme \<Rightarrow> 'a bio_state_scheme" where
  "disk_transfer b write s =
     (if write then s\<lparr>disk := (disk s)(b_blockno (getb s b) := ld_bytes (mem s) (a_bufdata s b) BSIZE)\<rparr>
      else s\<lparr>mem := st_bytes (mem s) (a_bufdata s b) (disk s (b_blockno (getb s b)))\<rparr>)"

definition bread :: "u32 \<Rightarrow> u32 \<Rightarrow> 'a bio_state_scheme \<Rightarrow> (nat \<times> 'a bio_state_scheme) res" where
  "bread dev blockno s =
     rbind (bget dev blockno s) (\<lambda>(b, s).
       if \<not> b_valid (getb s b) then Inr (b, setb b (\<lambda>x. x\<lparr>b_valid := True\<rparr>) (disk_transfer b False s))
       else Inr (b, s))"

definition bwrite :: "nat \<Rightarrow> 'a bio_state_scheme \<Rightarrow> 'a bio_state_scheme res" where
  "bwrite b s = rbind (holdingsleep (b_lock (getb s b)) s) (\<lambda>h.
     if \<not> h then Inl (Panic ''bwrite'') else Inr (disk_transfer b True s))"

definition brelse :: "nat \<Rightarrow> 'a bio_state_scheme \<Rightarrow> 'a bio_state_scheme res" where
  "brelse b s = rbind (holdingsleep (b_lock (getb s b)) s) (\<lambda>h.
     if \<not> h then Inl (Panic ''brelse'')
     else
       let (lk, s) = releasesleep (BufLock b) (b_lock (getb s b)) s;
           s = setb b (\<lambda>x. x\<lparr>b_lock := lk\<rparr>) s;
           s = setb b (\<lambda>x. x\<lparr>b_refcnt := b_refcnt x - 1\<rparr>) s
       in if b_refcnt (getb s b) = 0
         then let
           s = setb (b_next (getb s b)) (\<lambda>x. x\<lparr>b_prev := b_prev (getb s b)\<rparr>) s;
           s = setb (b_prev (getb s b)) (\<lambda>x. x\<lparr>b_next := b_next (getb s b)\<rparr>) s;
           s = setb b (\<lambda>x. x\<lparr>b_next := b_next (getb s NBUF)\<rparr>) s;
           s = setb b (\<lambda>x. x\<lparr>b_prev := NBUF\<rparr>) s;
           s = setb (b_next (getb s NBUF)) (\<lambda>x. x\<lparr>b_prev := b\<rparr>) s;
           s = setb NBUF (\<lambda>x. x\<lparr>b_next := b\<rparr>) s
         in Inr s
         else Inr s)"

definition bpin :: "nat \<Rightarrow> 'a bio_state_scheme \<Rightarrow> 'a bio_state_scheme" where
  "bpin b s = setb b (\<lambda>x. x\<lparr>b_refcnt := b_refcnt x + 1\<rparr>) s"

definition bunpin :: "nat \<Rightarrow> 'a bio_state_scheme \<Rightarrow> 'a bio_state_scheme" where
  "bunpin b s = setb b (\<lambda>x. x\<lparr>b_refcnt := b_refcnt x - 1\<rparr>) s"

end
