(* ===== verification/Fs.thy ===== *)
theory Fs
  imports Bio
begin

text \<open>
  The read-only file system (\<^verbatim>\<open>kernel/fs/fs.c\<close>, \<^verbatim>\<open>include/fs.h\<close>): super block, inode table, block
  mapping, reading, directories and path names.  A pointer to an inode is an index into \<open>itable\<close>, or
  \<open>None\<close> for the null pointer.  Paths are given by the bytes before their NUL; the name buffer of
  \<^verbatim>\<open>namex\<close> is a local array of \<^verbatim>\<open>DIRSIZ\<close> bytes.  The directory entry \<^verbatim>\<open>dirlookup\<close> reads into is a local
  whose address is taken: it lives at \<open>a_de s\<close> in memory.
\<close>

section \<open>Layout and state\<close>

definition ROOTINO :: u32 where "ROOTINO = 1"
definition ROOTDEV :: u32 where "ROOTDEV = 1"
definition FSMAGIC :: u32 where "FSMAGIC = 0x10203040"
definition NDIRECT :: nat where "NDIRECT = 11"
definition NINDIRECT :: nat where "NINDIRECT = 256"
definition NDINDIRECT :: nat where "NDINDIRECT = NINDIRECT * NINDIRECT"
definition MAXFILE :: nat where "MAXFILE = NDIRECT + NINDIRECT + NDINDIRECT"
definition DIRSIZ :: nat where "DIRSIZ = 14"
definition NINODE :: nat where "NINODE = 50"
definition T_DIR :: u16 where "T_DIR = 1"
definition T_FILE :: u16 where "T_FILE = 2"
definition T_DEVICE :: u16 where "T_DEVICE = 3"

record superblock =
  sb_magic :: u32
  sb_size :: u32
  sb_nblocks :: u32
  sb_ninodes :: u32
  sb_nlog :: u32
  sb_logstart :: u32
  sb_inodestart :: u32
  sb_bmapstart :: u32

record inode =
  i_dev :: u32
  i_inum :: u32
  i_ref :: int
  i_lock :: sleeplock
  i_valid :: bool
  i_type :: u16
  i_major :: u16
  i_minor :: u16
  i_nlink :: u16
  i_size :: u32
  i_addrs :: "u32 list"

record fs_state = bio_state +
  sb :: superblock
  itable :: "inode list"
  a_de :: u64

text \<open>\<^verbatim>\<open>IPB\<close> inodes of 64 bytes per block.\<close>

definition IPB :: u32 where "IPB = 16"

definition IBLOCK :: "u32 \<Rightarrow> superblock \<Rightarrow> u32" where
  "IBLOCK i b = i div IPB + sb_inodestart b"

abbreviation geti :: "'a fs_state_scheme \<Rightarrow> nat \<Rightarrow> inode" where
  "geti s i \<equiv> itable s ! i"

definition seti :: "nat \<Rightarrow> (inode \<Rightarrow> inode) \<Rightarrow> 'a fs_state_scheme \<Rightarrow> 'a fs_state_scheme" where
  "seti i f s = s\<lparr>itable := (itable s)[i := f (itable s ! i)]\<rparr>"

section \<open>Super block\<close>

definition readsb :: "u32 \<Rightarrow> 'a fs_state_scheme \<Rightarrow> 'a fs_state_scheme res" where
  "readsb dev s = rbind (bread dev 1 s) (\<lambda>(bp, s).
     let d = a_bufdata s bp; m = mem s in
     brelse bp (s\<lparr>sb := \<lparr>sb_magic = ld32 m d, sb_size = ld32 m (d + 4), sb_nblocks = ld32 m (d + 8),
       sb_ninodes = ld32 m (d + 12), sb_nlog = ld32 m (d + 16), sb_logstart = ld32 m (d + 20),
       sb_inodestart = ld32 m (d + 24), sb_bmapstart = ld32 m (d + 28)\<rparr>\<rparr>))"

definition fsinit :: "u32 \<Rightarrow> 'a fs_state_scheme \<Rightarrow> 'a fs_state_scheme res" where
  "fsinit dev s = rbind (readsb dev s) (\<lambda>s.
     if sb_magic (sb s) \<noteq> FSMAGIC then Inl (Panic ''invalid file system'') else Inr s)"

section \<open>Inode table\<close>

definition iinit :: "'a fs_state_scheme \<Rightarrow> 'a fs_state_scheme" where
  "iinit s = fold (\<lambda>i s. seti i (\<lambda>ip. ip\<lparr>i_lock := initsleeplock ''inode''\<rparr>) s) [0..<NINODE]
     (initlock ItableLock ''itable'' s)"

text \<open>The scan of \<^verbatim>\<open>iget\<close>: the entry found, or the first free one.\<close>

fun iget_scan :: "nat list \<Rightarrow> inode list \<Rightarrow> u32 \<Rightarrow> u32 \<Rightarrow> nat option \<Rightarrow> nat option \<times> nat option" where
  "iget_scan [] t dev inum emp = (None, emp)"
| "iget_scan (i # is) t dev inum emp =
     (if i_ref (t ! i) > 0 \<and> i_dev (t ! i) = dev \<and> i_inum (t ! i) = inum then (Some i, emp)
      else iget_scan is t dev inum (if emp = None \<and> i_ref (t ! i) = 0 then Some i else emp))"

definition iget :: "u32 \<Rightarrow> u32 \<Rightarrow> 'a fs_state_scheme \<Rightarrow> (nat \<times> 'a fs_state_scheme) res" where
  "iget dev inum s = (case iget_scan [0..<NINODE] (itable s) dev inum None of
     (Some i, _) \<Rightarrow> Inr (i, seti i (\<lambda>ip. ip\<lparr>i_ref := i_ref ip + 1\<rparr>) s)
   | (None, None) \<Rightarrow> Inl (Panic ''iget: no inodes'')
   | (None, Some i) \<Rightarrow>
       Inr (i, seti i (\<lambda>ip. ip\<lparr>i_dev := dev, i_inum := inum, i_ref := 1, i_valid := False\<rparr>) s))"

definition idup :: "nat option \<Rightarrow> 'a fs_state_scheme \<Rightarrow> (nat \<times> 'a fs_state_scheme) res" where
  "idup ip s = (case ip of None \<Rightarrow> Inl BadAccess
     | Some i \<Rightarrow> Inr (i, seti i (\<lambda>ip. ip\<lparr>i_ref := i_ref ip + 1\<rparr>) s))"

text \<open>The fields copied from the inode on disk at address \<open>dip\<close>.\<close>

definition load_dinode :: "(u64 \<Rightarrow> u8) \<Rightarrow> u64 \<Rightarrow> inode \<Rightarrow> inode" where
  "load_dinode m dip ip = ip\<lparr>i_type := ld16 m dip, i_major := ld16 m (dip + 2), i_minor := ld16 m (dip + 4),
     i_nlink := ld16 m (dip + 6), i_size := ld32 m (dip + 8),
     i_addrs := map (\<lambda>k. ld32 m (dip + 12 + 4 * of_nat k)) [0..<NDIRECT + 2]\<rparr>"

definition ilock :: "nat option \<Rightarrow> 'a fs_state_scheme \<Rightarrow> 'a fs_state_scheme res" where
  "ilock ip s = (case ip of None \<Rightarrow> Inl (Panic ''ilock'') | Some i \<Rightarrow>
     if i_ref (geti s i) < 1 then Inl (Panic ''ilock'')
     else rbind (acquiresleep (i_lock (geti s i)) s) (\<lambda>lk.
       let s = seti i (\<lambda>ip. ip\<lparr>i_lock := lk\<rparr>) s in
       if i_valid (geti s i) then Inr s
       else rbind (bread (i_dev (geti s i)) (IBLOCK (i_inum (geti s i)) (sb s)) s) (\<lambda>(bp, s).
         let dip = a_bufdata s bp + 64 * ucast (i_inum (geti s i) mod IPB);
             s = seti i (load_dinode (mem s) dip) s in
         rbind (brelse bp s) (\<lambda>s.
           let s = seti i (\<lambda>ip. ip\<lparr>i_valid := True\<rparr>) s in
           if i_type (geti s i) = 0 then Inl (Panic ''ilock: no type'') else Inr s))))"

definition iunlock :: "nat option \<Rightarrow> 'a fs_state_scheme \<Rightarrow> 'a fs_state_scheme res" where
  "iunlock ip s = (case ip of None \<Rightarrow> Inl (Panic ''iunlock'') | Some i \<Rightarrow>
     rbind (holdingsleep (i_lock (geti s i)) s) (\<lambda>h.
       if \<not> h \<or> i_ref (geti s i) < 1 then Inl (Panic ''iunlock'')
       else let (lk, s) = releasesleep (InodeLock i) (i_lock (geti s i)) s in
         Inr (seti i (\<lambda>ip. ip\<lparr>i_lock := lk\<rparr>) s)))"

definition iput :: "nat option \<Rightarrow> 'a fs_state_scheme \<Rightarrow> 'a fs_state_scheme res" where
  "iput ip s = (case ip of None \<Rightarrow> Inl BadAccess
     | Some i \<Rightarrow> Inr (seti i (\<lambda>ip. ip\<lparr>i_ref := i_ref ip - 1\<rparr>) s))"

definition iunlockput :: "nat option \<Rightarrow> 'a fs_state_scheme \<Rightarrow> 'a fs_state_scheme res" where
  "iunlockput ip s = rbind (iunlock ip s) (iput ip)"

section \<open>Inode content\<close>

text \<open>An indirect block: \<^verbatim>\<open>bread\<close>, load entry \<open>k\<close>, \<^verbatim>\<open>brelse\<close>.\<close>

definition indirect :: "u32 \<Rightarrow> u32 \<Rightarrow> nat \<Rightarrow> 'a fs_state_scheme \<Rightarrow> (u32 \<times> 'a fs_state_scheme) res" where
  "indirect dev addr k s = rbind (bread dev addr s) (\<lambda>(bp, s).
     let a = ld32 (mem s) (a_bufdata s bp + 4 * of_nat k) in
     rbind (brelse bp s) (\<lambda>s. Inr (a, s)))"

definition bmap :: "nat \<Rightarrow> u32 \<Rightarrow> 'a fs_state_scheme \<Rightarrow> (u32 \<times> 'a fs_state_scheme) res" where
  "bmap i bn s =
     (let ip = geti s i; n = unat bn in
      if n < NDIRECT then Inr (i_addrs ip ! n, s)
      else let n = n - NDIRECT in
        if n < NINDIRECT
        then let addr = i_addrs ip ! NDIRECT in
          if addr = 0 then Inr (0, s) else indirect (i_dev ip) addr n s
        else let n = n - NINDIRECT in
          if n < NDINDIRECT
          then let addr = i_addrs ip ! (NDIRECT + 1) in
            if addr = 0 then Inr (0, s)
            else rbind (indirect (i_dev ip) addr (n div NINDIRECT) s) (\<lambda>(addr, s).
              if addr = 0 then Inr (0, s)
              else indirect (i_dev ip) addr (n mod NINDIRECT) s)
          else Inl (Panic ''bmap: out of range''))"

record stat =
  st_dev :: u32
  st_ino :: u32
  st_type :: u16
  st_nlink :: u16
  st_size :: u64

definition stati :: "nat \<Rightarrow> 'a fs_state_scheme \<Rightarrow> stat" where
  "stati i s = (let ip = geti s i in
     \<lparr>st_dev = i_dev ip, st_ino = i_inum ip, st_type = i_type ip, st_nlink = i_nlink ip, st_size = ucast (i_size ip)\<rparr>)"

fun readi_loop ::
  "nat \<Rightarrow> nat \<Rightarrow> bool \<Rightarrow> u64 \<Rightarrow> u32 \<Rightarrow> u32 \<Rightarrow> u32 \<Rightarrow> 'a fs_state_scheme \<Rightarrow> (u32 \<times> 'a fs_state_scheme) res" where
  "readi_loop 0 i user_dst dst off n tot s = (if tot < n then Inl NoFuel else Inr (tot, s))"
| "readi_loop (Suc k) i user_dst dst off n tot s =
     (if \<not> tot < n then Inr (tot, s)
      else rbind (bmap i (off div 1024) s) (\<lambda>(addr, s).
        if addr = 0 then Inr (tot, s)
        else rbind (bread (i_dev (geti s i)) addr s) (\<lambda>(bp, s).
          let m = min (n - tot) (1024 - off mod 1024) in
          rbind (either_copyout user_dst dst (a_bufdata s bp + ucast (off mod 1024)) (ucast m) s) (\<lambda>(r, s).
            if r = -1 then rbind (brelse bp s) (\<lambda>s. Inr (-1, s))
            else rbind (brelse bp s)
              (readi_loop k i user_dst (dst + ucast m) (off + m) n (tot + m))))))"

definition readi ::
  "nat \<Rightarrow> bool \<Rightarrow> u64 \<Rightarrow> u32 \<Rightarrow> u32 \<Rightarrow> 'a fs_state_scheme \<Rightarrow> (u32 \<times> 'a fs_state_scheme) res" where
  "readi i user_dst dst off n s =
     (let sz = i_size (geti s i) in
      if off > sz \<or> off + n < off then Inr (0, s)
      else let n = (if off + n > sz then sz - off else n) in
        readi_loop (unat n div 1024 + 2) i user_dst dst off n 0 s)"

section \<open>Directories\<close>

definition namecmp :: "(nat \<Rightarrow> u8) \<Rightarrow> (nat \<Rightarrow> u8) \<Rightarrow> int" where
  "namecmp s t = strncmp s t DIRSIZ"

text \<open>The result is the entry's inode and the offset \<^verbatim>\<open>*poff\<close>.\<close>

fun dirlookup_loop ::
  "nat \<Rightarrow> nat \<Rightarrow> u8 list \<Rightarrow> u32 \<Rightarrow> 'a fs_state_scheme \<Rightarrow> ((nat \<times> u32) option \<times> 'a fs_state_scheme) res" where
  "dirlookup_loop 0 dp name off s = (if off < i_size (geti s dp) then Inl NoFuel else Inr (None, s))"
| "dirlookup_loop (Suc k) dp name off s =
     (if \<not> off < i_size (geti s dp) then Inr (None, s)
      else rbind (readi dp False (a_de s) off 16 s) (\<lambda>(r, s).
        if r \<noteq> 16 then Inl (Panic ''dirlookup read'')
        else let inum = ld16 (mem s) (a_de s) in
          if inum = 0 then dirlookup_loop k dp name (off + 16) s
          else if namecmp (nth name) (\<lambda>j. mem s (a_de s + 2 + of_nat j)) = 0
          then rbind (iget (i_dev (geti s dp)) (ucast inum) s) (\<lambda>(ip, s). Inr (Some (ip, off), s))
          else dirlookup_loop k dp name (off + 16) s))"

definition dirlookup ::
  "nat \<Rightarrow> u8 list \<Rightarrow> 'a fs_state_scheme \<Rightarrow> ((nat \<times> u32) option \<times> 'a fs_state_scheme) res" where
  "dirlookup dp name s =
     (if i_type (geti s dp) \<noteq> T_DIR then Inl (Panic ''dirlookup not DIR'')
      else dirlookup_loop (unat (i_size (geti s dp)) div 16 + 1) dp name 0 s)"

section \<open>Paths\<close>

definition SLASH :: u8 where "SLASH = 47"

text \<open>
  \<^verbatim>\<open>skipelem\<close>: the rest of the path and the name buffer, in which an element shorter than
  \<^verbatim>\<open>DIRSIZ\<close> is terminated and a longer one cut off.
\<close>

definition skipelem :: "u8 list \<Rightarrow> u8 list \<Rightarrow> (u8 list \<times> u8 list) option" where
  "skipelem path name =
     (let path = dropWhile (\<lambda>c. c = SLASH) path in
      if path = [] then None
      else let s = takeWhile (\<lambda>c. c \<noteq> SLASH) path;
               path = dropWhile (\<lambda>c. c \<noteq> SLASH) path;
               len = length s;
               name = (if len \<ge> DIRSIZ then take DIRSIZ s else s @ 0 # drop (len + 1) name)
           in Some (dropWhile (\<lambda>c. c = SLASH) path, name))"

fun namex_loop ::
  "nat \<Rightarrow> nat \<Rightarrow> u8 list \<Rightarrow> u8 list \<Rightarrow> 'a fs_state_scheme \<Rightarrow> (nat option \<times> 'a fs_state_scheme) res" where
  "namex_loop 0 ip path name s = (if skipelem path name = None then Inr (Some ip, s) else Inl NoFuel)"
| "namex_loop (Suc k) ip path name s = (case skipelem path name of
     None \<Rightarrow> Inr (Some ip, s)
   | Some (path, name) \<Rightarrow>
       rbind (ilock (Some ip) s) (\<lambda>s.
         if i_type (geti s ip) \<noteq> T_DIR then rbind (iunlockput (Some ip) s) (\<lambda>s. Inr (None, s))
         else rbind (dirlookup ip name s) (\<lambda>(r, s). case r of
           None \<Rightarrow> rbind (iunlockput (Some ip) s) (\<lambda>s. Inr (None, s))
         | Some (nx, _) \<Rightarrow> rbind (iunlockput (Some ip) s) (namex_loop k nx path name))))"

definition namex :: "u8 list \<Rightarrow> u8 list \<Rightarrow> 'a fs_state_scheme \<Rightarrow> (nat option \<times> 'a fs_state_scheme) res" where
  "namex path name s =
     rbind (if path \<noteq> [] \<and> hd path = SLASH then iget ROOTDEV ROOTINO s
            else rbind (cur s) (\<lambda>p. idup (p_cwd (getp s p)) s))
       (\<lambda>(ip, s). namex_loop (length path) ip path name s)"

text \<open>The name buffer of \<^verbatim>\<open>namei\<close> is not initialised; \<open>nm\<close> is what it holds.\<close>

definition namei :: "u8 list \<Rightarrow> u8 list \<Rightarrow> 'a fs_state_scheme \<Rightarrow> (nat option \<times> 'a fs_state_scheme) res" where
  "namei nm path s = namex path nm s"

end
