(* ===== verification/File.thy ===== *)
theory File
  imports Fs
begin

text \<open>
  Open files (\<^verbatim>\<open>kernel/fs/file.c\<close>) and the fetching of system-call arguments (\<^verbatim>\<open>kernel/proc/syscall.c\<close>).
  The device switch is a parameter of the operations that use it: an entry is the pair of the
  read and the write function of a device, or \<open>None\<close>.  Local variables whose address is taken
  (\<^verbatim>\<open>st\<close>, \<^verbatim>\<open>path\<close>, \<^verbatim>\<open>uarg\<close>, \<^verbatim>\<open>ustack\<close>, \<^verbatim>\<open>elf\<close>, \<^verbatim>\<open>ph\<close>, \<^verbatim>\<open>inst\<close>) live at fixed addresses of the kernel stack.
\<close>

section \<open>State\<close>

datatype fdtype = FD_NONE | FD_INODE | FD_DEVICE

record kfile =
  f_type :: fdtype
  f_ref :: int
  f_readable :: bool
  f_writable :: bool
  f_ip :: "nat option"
  f_off :: u32
  f_major :: u16

record file_state = fs_state +
  ftable :: "kfile list"
  a_st :: u64
  a_path :: u64
  a_uarg :: u64
  a_ustack :: u64
  a_elf :: u64
  a_ph :: u64
  a_inst :: u64

definition NFILE :: nat where "NFILE = 100"
definition NDEV :: nat where "NDEV = 10"

type_synonym 's devfun = "bool \<Rightarrow> u64 \<Rightarrow> u32 \<Rightarrow> 's \<Rightarrow> (u32 \<times> 's) res"
type_synonym 's devsw = "nat \<Rightarrow> ('s devfun option \<times> 's devfun option)"

abbreviation getf :: "'a file_state_scheme \<Rightarrow> nat \<Rightarrow> kfile" where
  "getf s i \<equiv> ftable s ! i"

definition setf :: "nat \<Rightarrow> (kfile \<Rightarrow> kfile) \<Rightarrow> 'a file_state_scheme \<Rightarrow> 'a file_state_scheme" where
  "setf i g s = s\<lparr>ftable := (ftable s)[i := g (ftable s ! i)]\<rparr>"

section \<open>Reference counts\<close>

definition fileinit :: "'a file_state_scheme \<Rightarrow> 'a file_state_scheme" where
  "fileinit s = initlock FtableLock ''ftable'' s"

fun filealloc_loop :: "nat list \<Rightarrow> 'a file_state_scheme \<Rightarrow> nat option \<times> 'a file_state_scheme" where
  "filealloc_loop [] s = (None, s)"
| "filealloc_loop (f # fs) s =
     (if f_ref (getf s f) = 0 then (Some f, setf f (\<lambda>x. x\<lparr>f_ref := 1\<rparr>) s) else filealloc_loop fs s)"

definition filealloc :: "'a file_state_scheme \<Rightarrow> nat option \<times> 'a file_state_scheme" where
  "filealloc s = filealloc_loop [0..<NFILE] s"

definition filedup :: "nat \<Rightarrow> 'a file_state_scheme \<Rightarrow> (nat \<times> 'a file_state_scheme) res" where
  "filedup f s = (if f_ref (getf s f) < 1 then Inl (Panic ''filedup'')
     else Inr (f, setf f (\<lambda>x. x\<lparr>f_ref := f_ref x + 1\<rparr>) s))"

definition fileclose :: "nat \<Rightarrow> 'a file_state_scheme \<Rightarrow> 'a file_state_scheme res" where
  "fileclose f s =
     (if f_ref (getf s f) < 1 then Inl (Panic ''fileclose'')
      else let s = setf f (\<lambda>x. x\<lparr>f_ref := f_ref x - 1\<rparr>) s in
        if f_ref (getf s f) > 0 then Inr s
        else let ff = getf s f; s = setf f (\<lambda>x. x\<lparr>f_ref := 0, f_type := FD_NONE\<rparr>) s in
          if f_type ff = FD_INODE \<or> f_type ff = FD_DEVICE then iput (f_ip ff) s else Inr s)"

section \<open>Metadata, reading, writing\<close>

definition st16 :: "memory \<Rightarrow> u64 \<Rightarrow> u16 \<Rightarrow> memory" where
  "st16 m a v = st_le 2 m a (ucast v)"

text \<open>\<^verbatim>\<open>struct stat\<close> at its offsets; bytes 12 to 15 are padding.\<close>

definition st_stat :: "memory \<Rightarrow> u64 \<Rightarrow> stat \<Rightarrow> memory" where
  "st_stat m a st = st64 (st16 (st16 (st32 (st32 m a (st_dev st)) (a + 4) (st_ino st))
      (a + 8) (st_type st)) (a + 10) (st_nlink st)) (a + 16) (st_size st)"

definition filestat :: "nat \<Rightarrow> u64 \<Rightarrow> 'a file_state_scheme \<Rightarrow> (int \<times> 'a file_state_scheme) res" where
  "filestat f addr s = rbind (cur s) (\<lambda>p.
     if f_type (getf s f) = FD_INODE \<or> f_type (getf s f) = FD_DEVICE
     then rbind (ilock (f_ip (getf s f)) s) (\<lambda>s.
       let st = stati (the (f_ip (getf s f))) s;
           s = s\<lparr>mem := st_stat (mem s) (a_st s) st\<rparr> in
       rbind (iunlock (f_ip (getf s f)) s) (\<lambda>s.
       rbind (copyout s (p_pagetable (getp s p)) addr (a_st s) 24) (\<lambda>(r, s).
         if r < 0 then Inr (-1, s) else Inr (0, s))))
     else Inr (-1, s))"

text \<open>The number \<^verbatim>\<open>n\<close> of bytes is a signed \<^verbatim>\<open>int\<close>, results are \<^verbatim>\<open>int\<close>s; both are kept as 32-bit words.\<close>

definition fileread ::
  "'a file_state_scheme devsw \<Rightarrow> nat \<Rightarrow> u64 \<Rightarrow> u32 \<Rightarrow> 'a file_state_scheme \<Rightarrow> (u32 \<times> 'a file_state_scheme) res" where
  "fileread dsw f addr n s =
     (if \<not> f_readable (getf s f) then Inr (-1, s)
      else case f_type (getf s f) of
        FD_DEVICE \<Rightarrow>
          (let mj = sint (f_major (getf s f)) in
           if mj < 0 \<or> mj \<ge> int NDEV then Inr (-1, s)
           else case fst (dsw (nat mj)) of None \<Rightarrow> Inr (-1, s) | Some rd \<Rightarrow> rd True addr n s)
      | FD_INODE \<Rightarrow>
          rbind (ilock (f_ip (getf s f)) s) (\<lambda>s.
          rbind (readi (the (f_ip (getf s f))) True addr (f_off (getf s f)) n s) (\<lambda>(r, s).
            let s = (if sint r > 0 then setf f (\<lambda>x. x\<lparr>f_off := f_off x + r\<rparr>) s else s) in
            rbind (iunlock (f_ip (getf s f)) s) (\<lambda>s. Inr (r, s))))
      | FD_NONE \<Rightarrow> Inl (Panic ''fileread''))"

definition filewrite ::
  "'a file_state_scheme devsw \<Rightarrow> nat \<Rightarrow> u64 \<Rightarrow> u32 \<Rightarrow> 'a file_state_scheme \<Rightarrow> (u32 \<times> 'a file_state_scheme) res" where
  "filewrite dsw f addr n s =
     (if \<not> f_writable (getf s f) then Inr (-1, s)
      else if f_type (getf s f) = FD_DEVICE
      then let mj = sint (f_major (getf s f)) in
        if mj < 0 \<or> mj \<ge> int NDEV then Inr (-1, s)
        else case snd (dsw (nat mj)) of None \<Rightarrow> Inr (-1, s) | Some dw \<Rightarrow> dw True addr n s
      else Inr (-1, s))"

section \<open>System-call arguments\<close>

text \<open>Offsets of the trap frame's fields.\<close>

definition TF_kernel_satp :: u64 where "TF_kernel_satp = 0"
definition TF_kernel_sp :: u64 where "TF_kernel_sp = 8"
definition TF_kernel_trap :: u64 where "TF_kernel_trap = 16"
definition TF_epc :: u64 where "TF_epc = 24"
definition TF_kernel_hartid :: u64 where "TF_kernel_hartid = 32"
definition TF_sp :: u64 where "TF_sp = 48"
definition TF_a0 :: u64 where "TF_a0 = 112"
definition TF_a1 :: u64 where "TF_a1 = 120"
definition TF_a2 :: u64 where "TF_a2 = 128"
definition TF_a3 :: u64 where "TF_a3 = 136"
definition TF_a4 :: u64 where "TF_a4 = 144"
definition TF_a5 :: u64 where "TF_a5 = 152"
definition TF_a7 :: u64 where "TF_a7 = 168"

definition tf_get :: "nat \<Rightarrow> u64 \<Rightarrow> 'a proc_state_scheme \<Rightarrow> u64" where
  "tf_get p off s = ld64 (mem s) (p_trapframe (getp s p) + off)"

definition tf_set :: "nat \<Rightarrow> u64 \<Rightarrow> u64 \<Rightarrow> 'a proc_state_scheme \<Rightarrow> 'a proc_state_scheme" where
  "tf_set p off v s = s\<lparr>mem := st64 (mem s) (p_trapframe (getp s p) + off) v\<rparr>"

definition fetchaddr :: "u64 \<Rightarrow> u64 \<Rightarrow> 'a proc_state_scheme \<Rightarrow> (int \<times> 'a proc_state_scheme) res" where
  "fetchaddr addr ip s = rbind (cur s) (\<lambda>p.
     if addr \<ge> p_sz (getp s p) \<or> addr + 8 > p_sz (getp s p) then Inr (-1, s)
     else rbind (copyin s (p_pagetable (getp s p)) ip addr 8) (\<lambda>(r, s).
       if r \<noteq> 0 then Inr (-1, s) else Inr (0, s)))"

text \<open>The string is measured within the \<^verbatim>\<open>max\<close> bytes of the buffer.\<close>

definition fetchstr :: "u64 \<Rightarrow> u64 \<Rightarrow> nat \<Rightarrow> 'a proc_state_scheme \<Rightarrow> (int \<times> 'a proc_state_scheme) res" where
  "fetchstr addr buf mx s = rbind (cur s) (\<lambda>p.
     rbind (copyinstr s (p_pagetable (getp s p)) buf addr (of_nat mx)) (\<lambda>(r, s).
       if r < 0 then Inr (-1, s)
       else rbind (strlen (ld_bytes (mem s) buf mx)) (\<lambda>n. Inr (int n, s))))"

definition argraw :: "nat \<Rightarrow> 'a proc_state_scheme \<Rightarrow> u64 res" where
  "argraw n s = rbind (cur s) (\<lambda>p.
     if n = 0 then Inr (tf_get p TF_a0 s)
     else if n = 1 then Inr (tf_get p TF_a1 s)
     else if n = 2 then Inr (tf_get p TF_a2 s)
     else if n = 3 then Inr (tf_get p TF_a3 s)
     else if n = 4 then Inr (tf_get p TF_a4 s)
     else if n = 5 then Inr (tf_get p TF_a5 s)
     else Inl (Panic ''argraw''))"

definition argint :: "nat \<Rightarrow> 'a proc_state_scheme \<Rightarrow> u32 res" where
  "argint n s = rbind (argraw n s) (\<lambda>v. Inr (ucast v))"

definition argaddr :: "nat \<Rightarrow> 'a proc_state_scheme \<Rightarrow> u64 res" where
  "argaddr n s = argraw n s"

definition argstr :: "nat \<Rightarrow> u64 \<Rightarrow> nat \<Rightarrow> 'a proc_state_scheme \<Rightarrow> (int \<times> 'a proc_state_scheme) res" where
  "argstr n buf mx s = rbind (argaddr n s) (\<lambda>addr. fetchstr addr buf mx s)"

end
