(* ===== verification/Proc.thy ===== *)
theory Proc
  imports File
begin

text \<open>
  The life of a process (\<^verbatim>\<open>kernel/proc/proc.c\<close>): allocation and freeing of a table entry, its page
  table, growing, \<^verbatim>\<open>fork\<close>, \<^verbatim>\<open>exit\<close> and \<^verbatim>\<open>wait\<close>.  \<open>None\<close> is the null process pointer.
\<close>

section \<open>Page tables of a process\<close>

definition proc_pagetable :: "nat \<Rightarrow> 'a proc_state_scheme \<Rightarrow> (u64 \<times> 'a proc_state_scheme) res" where
  "proc_pagetable p s =
     (let (pagetable, s) = uvmcreate s in
      if pagetable = 0 then Inr (0, s)
      else rbind (mappages s pagetable TRAMPOLINE PGSIZE (a_trampoline s) (PTE_R OR PTE_X)) (\<lambda>(r, s).
        if r < 0 then rbind (uvmfree s pagetable 0) (\<lambda>s. Inr (0, s))
        else rbind (mappages s pagetable TRAPFRAME PGSIZE (p_trapframe (getp s p)) (PTE_R OR PTE_W)) (\<lambda>(r, s).
          if r < 0
          then rbind (uvmunmap s pagetable TRAMPOLINE 1 False) (\<lambda>s.
               rbind (uvmfree s pagetable 0) (\<lambda>s. Inr (0, s)))
          else Inr (pagetable, s))))"

definition proc_freepagetable :: "u64 \<Rightarrow> u64 \<Rightarrow> 'a mm_state_scheme \<Rightarrow> 'a mm_state_scheme res" where
  "proc_freepagetable pagetable sz s =
     rbind (uvmunmap s pagetable TRAMPOLINE 1 False) (\<lambda>s.
     rbind (uvmunmap s pagetable TRAPFRAME 1 False) (\<lambda>s. uvmfree s pagetable sz))"

section \<open>Allocating and freeing an entry\<close>

definition freeproc :: "nat \<Rightarrow> 'a proc_state_scheme \<Rightarrow> 'a proc_state_scheme res" where
  "freeproc p s =
     rbind (if p_trapframe (getp s p) \<noteq> 0 then kfree s (p_trapframe (getp s p)) else Inr s) (\<lambda>s.
     let s = setp p (\<lambda>q. q\<lparr>p_trapframe := 0\<rparr>) s in
     rbind (if p_pagetable (getp s p) \<noteq> 0
            then proc_freepagetable (p_pagetable (getp s p)) (p_sz (getp s p)) s else Inr s) (\<lambda>s.
     Inr (setp p (\<lambda>q. q\<lparr>p_pagetable := 0, p_sz := 0, p_pid := 0, p_fpu := fpu_zero, p_fpu_used := False,
       p_fpu_active := False, p_parent := None, p_name := (p_name q)[0 := 0], p_chan := None,
       p_killed := False, p_xstate := 0, p_state := UNUSED\<rparr>) s)))"

fun find_unused :: "nat list \<Rightarrow> proc list \<Rightarrow> nat option" where
  "find_unused [] ps = None"
| "find_unused (i # is) ps = (if p_state (ps ! i) = UNUSED then Some i else find_unused is ps)"

definition allocproc :: "'a proc_state_scheme \<Rightarrow> (nat option \<times> 'a proc_state_scheme) res" where
  "allocproc s = (case find_unused [0..<NPROC] (procs s) of
     None \<Rightarrow> Inr (None, s)
   | Some p \<Rightarrow>
       let (pid, s) = allocpid s;
           s = setp p (\<lambda>q. q\<lparr>p_pid := pid, p_state := USED\<rparr>) s;
           (tf, s) = kalloc s;
           s = setp p (\<lambda>q. q\<lparr>p_trapframe := tf\<rparr>) s in
       if tf = 0 then rbind (freeproc p s) (\<lambda>s. Inr (None, s))
       else rbind (proc_pagetable p s) (\<lambda>(pt, s).
         let s = setp p (\<lambda>q. q\<lparr>p_pagetable := pt\<rparr>) s in
         if pt = 0 then rbind (freeproc p s) (\<lambda>s. Inr (None, s))
         else Inr (Some p, setp p (\<lambda>q. q\<lparr>p_context :=
           \<lparr>ctx_ra = a_forkret s, ctx_sp = p_kstack q + PGSIZE, ctx_s = replicate 12 0\<rparr>\<rparr>) s)))"

definition userinit :: "u8 list \<Rightarrow> 'a fs_state_scheme \<Rightarrow> 'a fs_state_scheme res" where
  "userinit nm s = rbind (allocproc s) (\<lambda>(p, s).
     let s = s\<lparr>initproc := p\<rparr> in
     case p of None \<Rightarrow> Inl BadAccess
     | Some i \<Rightarrow> rbind (namei nm [SLASH] s) (\<lambda>(ip, s).
         Inr (setp i (\<lambda>q. q\<lparr>p_cwd := ip, p_state := RUNNABLE\<rparr>) s)))"

section \<open>Growing\<close>

text \<open>\<^verbatim>\<open>sz + n\<close> adds the sign-extended \<^verbatim>\<open>int\<close> to the 64-bit size.\<close>

definition growproc :: "u32 \<Rightarrow> 'a proc_state_scheme \<Rightarrow> (int \<times> 'a proc_state_scheme) res" where
  "growproc n s = rbind (cur s) (\<lambda>p.
     let sz = p_sz (getp s p); pt = p_pagetable (getp s p) in
     if sint n > 0
     then if sz + scast n > TRAPFRAME then Inr (-1, s)
       else rbind (uvmalloc s pt sz (sz + scast n) PTE_W) (\<lambda>(sz, s).
         if sz = 0 then Inr (-1, s) else Inr (0, setp p (\<lambda>q. q\<lparr>p_sz := sz\<rparr>) s))
     else if sint n < 0
     then rbind (uvmdealloc s pt sz (sz + scast n)) (\<lambda>(sz, s). Inr (0, setp p (\<lambda>q. q\<lparr>p_sz := sz\<rparr>) s))
     else Inr (0, setp p (\<lambda>q. q\<lparr>p_sz := sz\<rparr>) s))"

section \<open>fork\<close>

definition dup_files :: "nat \<Rightarrow> nat \<Rightarrow> 'a file_state_scheme \<Rightarrow> 'a file_state_scheme res" where
  "dup_files p np s =
     rfold (\<lambda>i s. case p_ofile (getp s p) ! i of
         None \<Rightarrow> Inr s
       | Some f \<Rightarrow> rbind (filedup f s) (\<lambda>(f, s). Inr (setp np (\<lambda>q. q\<lparr>p_ofile := (p_ofile q)[i := Some f]\<rparr>) s)))
       [0..<NOFILE] s"

definition kfork :: "'a file_state_scheme \<Rightarrow> (u32 \<times> 'a file_state_scheme) res" where
  "kfork s = rbind (cur s) (\<lambda>p. rbind (allocproc s) (\<lambda>(r, s). case r of
     None \<Rightarrow> Inr (-1, s)
   | Some np \<Rightarrow>
     rbind (uvmcopy s (p_pagetable (getp s p)) (p_pagetable (getp s np)) (p_sz (getp s p))) (\<lambda>(r, s).
       if r < 0 then rbind (freeproc np s) (\<lambda>s. Inr (-1, s))
       else
         let s = setp np (\<lambda>q. q\<lparr>p_sz := p_sz (getp s p)\<rparr>) s;
             s = s\<lparr>mem := memmove (mem s) (p_trapframe (getp s np)) (p_trapframe (getp s p)) 288\<rparr> in
         rbind (fpu_save_proc (Some p) s) (\<lambda>s.
         let s = setp np (\<lambda>q. q\<lparr>p_fpu := p_fpu (getp s p), p_fpu_used := p_fpu_used (getp s p),
               p_fpu_active := False\<rparr>) s;
             s = tf_set np TF_a0 0 s in
         rbind (dup_files p np s) (\<lambda>s.
         rbind (idup (p_cwd (getp s p)) s) (\<lambda>(ip, s).
         let s = setp np (\<lambda>q. q\<lparr>p_cwd := Some ip\<rparr>) s in
         rbind (safestrcpy (p_name (getp s np)) (nth (p_name (getp s p))) 16) (\<lambda>nm.
         let s = setp np (\<lambda>q. q\<lparr>p_name := nm\<rparr>) s;
             pid = p_pid (getp s np);
             s = setp np (\<lambda>q. q\<lparr>p_parent := Some p\<rparr>) s;
             s = setp np (\<lambda>q. q\<lparr>p_state := RUNNABLE\<rparr>) s in
         Inr (pid, s))))))))"

section \<open>exit and wait\<close>

text \<open>A null \<^verbatim>\<open>initproc\<close> channel cannot be slept on: waking it does nothing.\<close>

definition wakeup_proc :: "nat option \<Rightarrow> 'a proc_state_scheme \<Rightarrow> 'a proc_state_scheme" where
  "wakeup_proc p s = (case p of None \<Rightarrow> s | Some i \<Rightarrow> wakeup (ProcPtr i) s)"

definition reparent :: "nat \<Rightarrow> 'a proc_state_scheme \<Rightarrow> 'a proc_state_scheme" where
  "reparent p s =
     fold (\<lambda>i s. if p_parent (getp s i) = Some p
         then wakeup_proc (initproc s) (setp i (\<lambda>q. q\<lparr>p_parent := initproc s\<rparr>) s) else s)
       [0..<NPROC] s"

definition close_files :: "nat \<Rightarrow> 'a file_state_scheme \<Rightarrow> 'a file_state_scheme res" where
  "close_files p s =
     rfold (\<lambda>fd s. case p_ofile (getp s p) ! fd of
         None \<Rightarrow> Inr s
       | Some f \<Rightarrow> rbind (fileclose f s) (\<lambda>s. Inr (setp p (\<lambda>q. q\<lparr>p_ofile := (p_ofile q)[fd := None]\<rparr>) s)))
       [0..<NOFILE] s"

text \<open>
  \<^verbatim>\<open>kexit\<close> up to the switch to the scheduler, from which it does not come back.  \<^verbatim>\<open>wait_lock\<close> is
  acquired before \<^verbatim>\<open>p->lock\<close> and released before the switch.
\<close>

definition kexit :: "u32 \<Rightarrow> 'a file_state_scheme \<Rightarrow> 'a file_state_scheme res" where
  "kexit status s = rbind (cur s) (\<lambda>p.
     if Some p = initproc s then Inl (Panic ''init exiting'')
     else rbind (close_files p s) (\<lambda>s.
     rbind (iput (p_cwd (getp s p)) s) (\<lambda>s.
     let s = setp p (\<lambda>q. q\<lparr>p_cwd := None\<rparr>) s in
     rbind (acquire WaitLock s) (\<lambda>s.
     let s = reparent p s;
         s = wakeup_proc (p_parent (getp s p)) s in
     rbind (acquire (ProcLock p) s) (\<lambda>s.
     let s = setp p (\<lambda>q. q\<lparr>p_xstate := status\<rparr>) s;
         s = setp p (\<lambda>q. q\<lparr>p_state := ZOMBIE\<rparr>) s in
     rbind (release WaitLock s) (\<lambda>s.
     rbind (sched s) (\<lambda>(_, s). Inr s)))))))"

text \<open>
  The scan of \<^verbatim>\<open>kwait\<close>: \<open>Inl pp\<close> is a zombie child found at \<open>pp\<close>, \<open>Inr havekids\<close> the end of the table.
\<close>

fun wait_scan :: "nat list \<Rightarrow> nat \<Rightarrow> bool \<Rightarrow> proc list \<Rightarrow> nat + bool" where
  "wait_scan [] p havekids ps = Inr havekids"
| "wait_scan (i # is) p havekids ps =
     (if p_parent (ps ! i) = Some p
      then if p_state (ps ! i) = ZOMBIE then Inl i else wait_scan is p True ps
      else wait_scan is p havekids ps)"

text \<open>
  One round of \<^verbatim>\<open>kwait\<close>'s endless loop: the answer, or \<open>None\<close> when the process has no zombie child
  yet and sleeps on itself until a child exits (the loop then goes on with another round).  The
  exit status reaches the user by \<^verbatim>\<open>copyout\<close> from \<^verbatim>\<open>&pp->xstate\<close>, at \<open>a_x\<close>.
\<close>

definition kwait_round :: "u64 \<Rightarrow> u64 \<Rightarrow> 'a proc_state_scheme \<Rightarrow> (u32 option \<times> 'a proc_state_scheme) res" where
  "kwait_round a_x addr s = rbind (cur s) (\<lambda>p.
     case wait_scan [0..<NPROC] p False (procs s) of
       Inl pp \<Rightarrow>
         (let pid = p_pid (getp s pp) in
          rbind (if addr \<noteq> 0
             then let s = s\<lparr>mem := st32 (mem s) a_x (p_xstate (getp s pp))\<rparr> in
               copyout s (p_pagetable (getp s p)) addr a_x 4
             else Inr (0, s)) (\<lambda>(r, s).
          if r < 0 then Inr (Some (-1), s)
          else rbind (freeproc pp s) (\<lambda>s. Inr (Some pid, s))))
     | Inr havekids \<Rightarrow>
         if \<not> havekids \<or> killed p s then Inr (Some (-1), s)
         else rbind (acquire WaitLock s) (\<lambda>s. rbind (sleep (ProcPtr p) WaitLock s) (\<lambda>(_, s). Inr (None, s))))"

end
