(* ===== verification/Exec.thy ===== *)
theory Exec
  imports Proc
begin

text \<open>
  The \<^verbatim>\<open>exec\<close> system call (\<^verbatim>\<open>kernel/proc/exec.c\<close>, \<^verbatim>\<open>kernel/include/elf.h\<close>).  The ELF and program headers are
  read into locals of the kernel stack and accessed there at the offsets of their fields.  The label
  \<^verbatim>\<open>bad\<close> is \<open>exec_bad\<close>; the loops answer \<open>False\<close> for a jump to it, with the values of the variables the
  cleanup needs.
\<close>

definition ELF_MAGIC :: u32 where "ELF_MAGIC = 0x464C457F"
definition ELF_PROG_LOAD :: u32 where "ELF_PROG_LOAD = 1"
definition MAXARG :: nat where "MAXARG = 32"
definition USERSTACK :: u64 where "USERSTACK = 1"

text \<open>Fields of \<^verbatim>\<open>struct elfhdr\<close> (64 bytes) and \<^verbatim>\<open>struct proghdr\<close> (56 bytes).\<close>

record elfhdr =
  eh_magic :: u32
  eh_entry :: u64
  eh_phoff :: u64
  eh_phnum :: u16

definition ld_elfhdr :: "memory \<Rightarrow> u64 \<Rightarrow> elfhdr" where
  "ld_elfhdr m a = \<lparr>eh_magic = ld32 m a, eh_entry = ld64 m (a + 24), eh_phoff = ld64 m (a + 32), eh_phnum = ld16 m (a + 56)\<rparr>"

record proghdr =
  ph_type :: u32
  ph_flags :: u32
  ph_off :: u64
  ph_vaddr :: u64
  ph_filesz :: u64
  ph_memsz :: u64

definition ld_proghdr :: "memory \<Rightarrow> u64 \<Rightarrow> proghdr" where
  "ld_proghdr m a = \<lparr>ph_type = ld32 m a, ph_flags = ld32 m (a + 4), ph_off = ld64 m (a + 8), ph_vaddr = ld64 m (a + 16),
     ph_filesz = ld64 m (a + 32), ph_memsz = ld64 m (a + 40)\<rparr>"

definition flags2perm :: "u32 \<Rightarrow> u64" where
  "flags2perm flags =
     (let perm = 0;
          perm = (if flags AND 1 \<noteq> 0 then PTE_X else perm)
      in if flags AND 2 \<noteq> 0 then perm OR PTE_W else perm)"

fun loadseg_loop ::
  "nat \<Rightarrow> u64 \<Rightarrow> u64 \<Rightarrow> nat \<Rightarrow> u32 \<Rightarrow> u32 \<Rightarrow> u32 \<Rightarrow> 'a fs_state_scheme \<Rightarrow> (int \<times> 'a fs_state_scheme) res" where
  "loadseg_loop 0 pagetable va ip offset sz i s = (if i < sz then Inl NoFuel else Inr (0, s))"
| "loadseg_loop (Suc k) pagetable va ip offset sz i s =
     (if \<not> i < sz then Inr (0, s)
      else rbind (walkaddr s pagetable (va + ucast i)) (\<lambda>pa.
        if pa = 0 then Inl (Panic ''loadseg: address should exist'')
        else let n = (if sz - i < 4096 then sz - i else 4096) in
          rbind (readi ip False pa (offset + i) n s) (\<lambda>(r, s).
            if r \<noteq> n then Inr (-1, s) else loadseg_loop k pagetable va ip offset sz (i + 4096) s)))"

definition loadseg ::
  "u64 \<Rightarrow> u64 \<Rightarrow> nat \<Rightarrow> u32 \<Rightarrow> u32 \<Rightarrow> 'a fs_state_scheme \<Rightarrow> (int \<times> 'a fs_state_scheme) res" where
  "loadseg pagetable va ip offset sz s = loadseg_loop (unat sz div 4096 + 1) pagetable va ip offset sz 0 s"

text \<open>The loop over the program headers, \<open>k\<close> of them left.\<close>

fun exec_load ::
  "nat \<Rightarrow> nat \<Rightarrow> u64 \<Rightarrow> u32 \<Rightarrow> u64 \<Rightarrow> 'a file_state_scheme \<Rightarrow> (bool \<times> u64 \<times> 'a file_state_scheme) res" where
  "exec_load 0 ip pagetable off sz s = Inr (True, sz, s)"
| "exec_load (Suc k) ip pagetable off sz s =
     rbind (readi ip False (a_ph s) off 56 s) (\<lambda>(r, s).
       if r \<noteq> 56 then Inr (False, sz, s)
       else let ph = ld_proghdr (mem s) (a_ph s) in
         if ph_type ph \<noteq> ELF_PROG_LOAD then exec_load k ip pagetable (off + 56) sz s
         else if ph_memsz ph < ph_filesz ph then Inr (False, sz, s)
         else if ph_vaddr ph + ph_memsz ph < ph_vaddr ph then Inr (False, sz, s)
         else if ph_vaddr ph mod PGSIZE \<noteq> 0 then Inr (False, sz, s)
         else rbind (uvmalloc s pagetable sz (ph_vaddr ph + ph_memsz ph) (flags2perm (ph_flags ph))) (\<lambda>(sz1, s).
           if sz1 = 0 then Inr (False, sz, s)
           else rbind (loadseg pagetable (ph_vaddr ph) ip (ucast (ph_off ph)) (ucast (ph_filesz ph)) s) (\<lambda>(r, s).
             if r < 0 then Inr (False, sz1, s) else exec_load k ip pagetable (off + 56) sz1 s)))"

text \<open>A string the kernel holds is at most a page long.\<close>

definition kstrlen :: "memory \<Rightarrow> u64 \<Rightarrow> nat res" where
  "kstrlen m a = strlen (ld_bytes m a 4096)"

text \<open>The loop that pushes the argument strings: the result is whether it went well, \<^verbatim>\<open>argc\<close> and \<^verbatim>\<open>sp\<close>.\<close>

fun exec_args ::
  "nat \<Rightarrow> u64 list \<Rightarrow> u64 \<Rightarrow> u64 \<Rightarrow> nat \<Rightarrow> u64 \<Rightarrow> 'a file_state_scheme \<Rightarrow> (bool \<times> nat \<times> u64 \<times> 'a file_state_scheme) res" where
  "exec_args 0 argv pagetable stackbase argc sp s = Inl NoFuel"
| "exec_args (Suc k) argv pagetable stackbase argc sp s =
     (if argc \<ge> length argv then Inl BadAccess
      else if argv ! argc = 0 then Inr (True, argc, sp, s)
      else if argc \<ge> MAXARG then Inr (False, argc, sp, s)
      else rbind (kstrlen (mem s) (argv ! argc)) (\<lambda>n.
        let sp = sp - of_nat (n + 1); sp = sp - sp mod 16 in
        if sp < stackbase then Inr (False, argc, sp, s)
        else rbind (copyout s pagetable sp (argv ! argc) (of_nat (n + 1))) (\<lambda>(r, s).
          if r < 0 then Inr (False, argc, sp, s)
          else exec_args k argv pagetable stackbase (argc + 1) sp
            (s\<lparr>mem := st64 (mem s) (a_ustack s + 8 * of_nat argc) sp\<rparr>))))"

definition exec_bad :: "u64 \<Rightarrow> u64 \<Rightarrow> nat option \<Rightarrow> 'a file_state_scheme \<Rightarrow> (u32 \<times> 'a file_state_scheme) res" where
  "exec_bad pagetable sz ip s =
     rbind (if pagetable \<noteq> 0 then proc_freepagetable pagetable sz s else Inr s) (\<lambda>s.
     rbind (if ip \<noteq> None then iunlockput ip s else Inr s) (\<lambda>s. Inr (-1, s)))"

text \<open>The name of the program: what follows the last slash of the path.\<close>

definition last_elem :: "u8 list \<Rightarrow> u8 list" where
  "last_elem path = rev (takeWhile (\<lambda>c. c \<noteq> SLASH) (rev path))"

text \<open>The second half of \<^verbatim>\<open>kexec\<close>, from the stack on: the inode has been released.\<close>

definition exec_stack ::
  "nat \<Rightarrow> u8 list \<Rightarrow> u64 list \<Rightarrow> u64 \<Rightarrow> u64 \<Rightarrow> u64 \<Rightarrow> 'a file_state_scheme \<Rightarrow> (u32 \<times> 'a file_state_scheme) res" where
  "exec_stack p path argv entry pagetable sz s =
     (let oldsz = p_sz (getp s p); sz = PGROUNDUP sz in
      rbind (uvmalloc s pagetable sz (sz + (USERSTACK + 1) * PGSIZE) PTE_W) (\<lambda>(sz1, s).
      if sz1 = 0 then exec_bad pagetable sz None s
      else let sz = sz1 in
      rbind (uvmclear s pagetable (sz - (USERSTACK + 1) * PGSIZE)) (\<lambda>s.
      let sp = sz; stackbase = sp - USERSTACK * PGSIZE in
      rbind (exec_args (MAXARG + 2) argv pagetable stackbase 0 sp s) (\<lambda>(ok, argc, sp, s).
      if \<not> ok then exec_bad pagetable sz None s
      else if argc \<ge> MAXARG then Inl BadAccess
      else let s = s\<lparr>mem := st64 (mem s) (a_ustack s + 8 * of_nat argc) 0\<rparr>;
               sp = sp - of_nat (argc + 1) * 8;
               sp = sp - sp mod 16 in
      if sp < stackbase then exec_bad pagetable sz None s
      else rbind (copyout s pagetable sp (a_ustack s) (of_nat (argc + 1) * 8)) (\<lambda>(r, s).
      if r < 0 then exec_bad pagetable sz None s
      else let s = tf_set p TF_a1 sp s in
      rbind (safestrcpy (p_name (getp s p)) (nth (last_elem path @ [0])) 16) (\<lambda>nm.
      let s = setp p (\<lambda>q. q\<lparr>p_name := nm\<rparr>) s;
          oldpagetable = p_pagetable (getp s p);
          s = setp p (\<lambda>q. q\<lparr>p_pagetable := pagetable, p_sz := sz\<rparr>) s;
          s = tf_set p TF_epc entry s;
          s = tf_set p TF_sp sp s in
      rbind (proc_freepagetable oldpagetable oldsz s) (\<lambda>s. Inr (of_nat argc, s))))))))"

definition kexec ::
  "u8 list \<Rightarrow> u8 list \<Rightarrow> u64 list \<Rightarrow> 'a file_state_scheme \<Rightarrow> (u32 \<times> 'a file_state_scheme) res" where
  "kexec nm path argv s = rbind (cur s) (\<lambda>p.
     rbind (namei nm path s) (\<lambda>(ip, s).
     case ip of None \<Rightarrow> Inr (-1, s)
     | Some i \<Rightarrow>
       rbind (ilock ip s) (\<lambda>s.
       rbind (readi i False (a_elf s) 0 64 s) (\<lambda>(r, s).
       if r \<noteq> 64 then exec_bad 0 0 ip s
       else let elf = ld_elfhdr (mem s) (a_elf s) in
       if eh_magic elf \<noteq> ELF_MAGIC then exec_bad 0 0 ip s
       else rbind (proc_pagetable p s) (\<lambda>(pagetable, s).
       if pagetable = 0 then exec_bad 0 0 ip s
       else rbind (exec_load (unat (eh_phnum elf)) i pagetable (ucast (eh_phoff elf)) 0 s) (\<lambda>(ok, sz, s).
       if \<not> ok then exec_bad pagetable sz ip s
       else rbind (iunlockput ip s) (exec_stack p path argv (eh_entry elf) pagetable sz)))))))"

end
