(* ===== verification/Sys.thy ===== *)
theory Sys
  imports Exec
begin

text \<open>
  The system calls (\<^verbatim>\<open>kernel/fs/sysfile.c\<close>, \<^verbatim>\<open>kernel/proc/sysproc.c\<close>).  The result of a call is the 64-bit
  value that is stored in \<^verbatim>\<open>a0\<close>: an \<^verbatim>\<open>int\<close> result is sign-extended.
\<close>

definition MAXPATH :: nat where "MAXPATH = 128"
definition O_RDONLY :: u32 where "O_RDONLY = 0"
definition O_WRONLY :: u32 where "O_WRONLY = 1"
definition O_RDWR :: u32 where "O_RDWR = 2"
definition O_CREATE :: u32 where "O_CREATE = 0x200"
definition O_TRUNC :: u32 where "O_TRUNC = 0x400"

section \<open>File descriptors\<close>

definition argfd :: "nat \<Rightarrow> 'a file_state_scheme \<Rightarrow> (nat \<times> nat) option res" where
  "argfd n s = rbind (argint n s) (\<lambda>fd. rbind (cur s) (\<lambda>p.
     if sint fd < 0 \<or> sint fd \<ge> int NOFILE then Inr None
     else case p_ofile (getp s p) ! unat fd of None \<Rightarrow> Inr None | Some f \<Rightarrow> Inr (Some (unat fd, f))))"

fun find_fd :: "nat list \<Rightarrow> nat option list \<Rightarrow> nat option" where
  "find_fd [] ofile = None"
| "find_fd (fd # fds) ofile = (if ofile ! fd = None then Some fd else find_fd fds ofile)"

definition fdalloc :: "nat \<Rightarrow> 'a file_state_scheme \<Rightarrow> (int \<times> 'a file_state_scheme) res" where
  "fdalloc f s = rbind (cur s) (\<lambda>p. case find_fd [0..<NOFILE] (p_ofile (getp s p)) of
     None \<Rightarrow> Inr (-1, s)
   | Some fd \<Rightarrow> Inr (int fd, setp p (\<lambda>q. q\<lparr>p_ofile := (p_ofile q)[fd := Some f]\<rparr>) s))"

section \<open>sysfile.c\<close>

definition sys_dup :: "'a file_state_scheme \<Rightarrow> (u64 \<times> 'a file_state_scheme) res" where
  "sys_dup s = rbind (argfd 0 s) (\<lambda>r. case r of None \<Rightarrow> Inr (-1, s)
   | Some (_, f) \<Rightarrow> rbind (fdalloc f s) (\<lambda>(fd, s).
       if fd < 0 then Inr (-1, s)
       else rbind (filedup f s) (\<lambda>(_, s). Inr (of_int fd, s))))"

definition sys_read :: "'a file_state_scheme devsw \<Rightarrow> 'a file_state_scheme \<Rightarrow> (u64 \<times> 'a file_state_scheme) res" where
  "sys_read dsw s = rbind (argaddr 1 s) (\<lambda>p. rbind (argint 2 s) (\<lambda>n. rbind (argfd 0 s) (\<lambda>r. case r of
     None \<Rightarrow> Inr (-1, s)
   | Some (_, f) \<Rightarrow> rbind (fileread dsw f p n s) (\<lambda>(r, s). Inr (scast r, s)))))"

definition sys_write :: "'a file_state_scheme devsw \<Rightarrow> 'a file_state_scheme \<Rightarrow> (u64 \<times> 'a file_state_scheme) res" where
  "sys_write dsw s = rbind (argaddr 1 s) (\<lambda>p. rbind (argint 2 s) (\<lambda>n. rbind (argfd 0 s) (\<lambda>r. case r of
     None \<Rightarrow> Inr (-1, s)
   | Some (_, f) \<Rightarrow> rbind (filewrite dsw f p n s) (\<lambda>(r, s). Inr (scast r, s)))))"

definition sys_close :: "'a file_state_scheme \<Rightarrow> (u64 \<times> 'a file_state_scheme) res" where
  "sys_close s = rbind (argfd 0 s) (\<lambda>r. case r of None \<Rightarrow> Inr (-1, s)
   | Some (fd, f) \<Rightarrow> rbind (cur s) (\<lambda>p.
       rbind (fileclose f (setp p (\<lambda>q. q\<lparr>p_ofile := (p_ofile q)[fd := None]\<rparr>) s)) (\<lambda>s. Inr (0, s))))"

definition sys_filemap :: "'a file_state_scheme \<Rightarrow> (u64 \<times> 'a file_state_scheme) res" where
  "sys_filemap s = rbind (argint 0 s) (\<lambda>fd. rbind (argaddr 1 s) (\<lambda>len. Inr (-1, s)))"

definition sys_fstat :: "'a file_state_scheme \<Rightarrow> (u64 \<times> 'a file_state_scheme) res" where
  "sys_fstat s = rbind (argaddr 1 s) (\<lambda>st. rbind (argfd 0 s) (\<lambda>r. case r of
     None \<Rightarrow> Inr (-1, s)
   | Some (_, f) \<Rightarrow> rbind (filestat f st s) (\<lambda>(r, s). Inr (of_int r, s))))"

text \<open>The path in its buffer, up to the NUL.\<close>

definition path_at :: "u64 \<Rightarrow> nat \<Rightarrow> memory \<Rightarrow> u8 list" where
  "path_at a n m = takeWhile (\<lambda>c. c \<noteq> 0) (ld_bytes m a n)"

definition sys_open :: "u8 list \<Rightarrow> 'a file_state_scheme \<Rightarrow> (u64 \<times> 'a file_state_scheme) res" where
  "sys_open nm s = rbind (argint 1 s) (\<lambda>omode.
     rbind (argstr 0 (a_path s) MAXPATH s) (\<lambda>(n, s).
     if n < 0 then Inr (-1, s)
     else if omode AND (O_CREATE OR O_TRUNC) \<noteq> 0 then Inr (-1, s)
     else rbind (namei nm (path_at (a_path s) MAXPATH (mem s)) s) (\<lambda>(ip, s).
     case ip of None \<Rightarrow> Inr (-1, s)
     | Some i \<Rightarrow>
       rbind (ilock ip s) (\<lambda>s.
       if i_type (geti s i) = T_DIR \<and> omode \<noteq> O_RDONLY
       then rbind (iunlockput ip s) (\<lambda>s. Inr (-1, s))
       else if i_type (geti s i) = T_DEVICE \<and> (sint (i_major (geti s i)) < 0 \<or> sint (i_major (geti s i)) \<ge> int NDEV)
       then rbind (iunlockput ip s) (\<lambda>s. Inr (-1, s))
       else case filealloc s of
         (None, s) \<Rightarrow> rbind (iunlockput ip s) (\<lambda>s. Inr (-1, s))
       | (Some f, s) \<Rightarrow> rbind (fdalloc f s) (\<lambda>(fd, s).
         if fd < 0
         then rbind (fileclose f s) (\<lambda>s. rbind (iunlockput ip s) (\<lambda>s. Inr (-1, s)))
         else
           let s = (if i_type (geti s i) = T_DEVICE
                 then setf f (\<lambda>x. x\<lparr>f_type := FD_DEVICE, f_major := i_major (geti s i)\<rparr>) s
                 else setf f (\<lambda>x. x\<lparr>f_type := FD_INODE, f_off := 0\<rparr>) s);
               s = setf f (\<lambda>x. x\<lparr>f_ip := ip, f_readable := (omode AND O_WRONLY = 0),
                 f_writable := (i_type (geti s i) = T_DEVICE \<and> (omode AND O_WRONLY \<noteq> 0 \<or> omode AND O_RDWR \<noteq> 0))\<rparr>) s in
           rbind (iunlock ip s) (\<lambda>s. Inr (of_int fd, s)))))))"

text \<open>
  \<^verbatim>\<open>sys_exec\<close>: the loop that copies the argument vector.  \<open>argv\<close> is the local array; the result says
  whether the vector was complete.
\<close>

fun exec_fetch ::
  "nat \<Rightarrow> nat \<Rightarrow> u64 \<Rightarrow> u64 list \<Rightarrow> 'a file_state_scheme \<Rightarrow> (bool \<times> u64 list \<times> 'a file_state_scheme) res" where
  "exec_fetch 0 i uargv argv s = Inl NoFuel"
| "exec_fetch (Suc k) i uargv argv s =
     (if i \<ge> MAXARG then Inr (False, argv, s)
      else rbind (fetchaddr (uargv + 8 * of_nat i) (a_uarg s) s) (\<lambda>(r, s).
        if r < 0 then Inr (False, argv, s)
        else let uarg = ld64 (mem s) (a_uarg s) in
          if uarg = 0 then Inr (True, argv[i := 0], s)
          else let (pg, s) = kalloc s; argv = argv[i := pg] in
            if pg = 0 then Inr (False, argv, s)
            else rbind (fetchstr uarg pg 4096 s) (\<lambda>(r, s).
              if r < 0 then Inr (False, argv, s) else exec_fetch k (i + 1) uargv argv s)))"

fun exec_free :: "u64 list \<Rightarrow> 'a file_state_scheme \<Rightarrow> 'a file_state_scheme res" where
  "exec_free [] s = Inr s"
| "exec_free (a # as) s = (if a = 0 then Inr s else rbind (kfree s a) (exec_free as))"

definition sys_exec :: "u8 list \<Rightarrow> 'a file_state_scheme \<Rightarrow> (u64 \<times> 'a file_state_scheme) res" where
  "sys_exec nm s = rbind (argaddr 1 s) (\<lambda>uargv.
     rbind (argstr 0 (a_path s) MAXPATH s) (\<lambda>(n, s).
     if n < 0 then Inr (-1, s)
     else rbind (exec_fetch (MAXARG + 1) 0 uargv (replicate MAXARG 0) s) (\<lambda>(ok, argv, s).
     if \<not> ok then rbind (exec_free argv s) (\<lambda>s. Inr (-1, s))
     else rbind (kexec nm (path_at (a_path s) MAXPATH (mem s)) argv s) (\<lambda>(ret, s).
       rbind (exec_free argv s) (\<lambda>s. Inr (scast ret, s))))))"

section \<open>sysproc.c\<close>

text \<open>\<^verbatim>\<open>sys_exit\<close> does not return: the result is the state in which the scheduler goes on.\<close>

definition sys_exit :: "'a file_state_scheme \<Rightarrow> 'a file_state_scheme res" where
  "sys_exit s = rbind (argint 0 s) (\<lambda>n. kexit n s)"

definition sys_getpid :: "'a proc_state_scheme \<Rightarrow> u64 res" where
  "sys_getpid s = rbind (cur s) (\<lambda>p. Inr (scast (p_pid (getp s p))))"

definition sys_fork :: "'a file_state_scheme \<Rightarrow> (u64 \<times> 'a file_state_scheme) res" where
  "sys_fork s = rbind (kfork s) (\<lambda>(r, s). Inr (scast r, s))"

definition sys_wait_round :: "u64 \<Rightarrow> 'a proc_state_scheme \<Rightarrow> (u64 option \<times> 'a proc_state_scheme) res" where
  "sys_wait_round a_x s = rbind (argaddr 0 s) (\<lambda>p.
     rbind (kwait_round a_x p s) (\<lambda>(r, s). Inr (map_option scast r, s)))"

definition sys_sbrk :: "'a proc_state_scheme \<Rightarrow> (u64 \<times> 'a proc_state_scheme) res" where
  "sys_sbrk s = rbind (argint 0 s) (\<lambda>n. rbind (cur s) (\<lambda>p.
     let addr = p_sz (getp s p) in
     rbind (growproc n s) (\<lambda>(r, s). if r < 0 then Inr (-1, s) else Inr (addr, s))))"

definition sys_kill :: "'a proc_state_scheme \<Rightarrow> (u64 \<times> 'a proc_state_scheme) res" where
  "sys_kill s = rbind (argint 0 s) (\<lambda>pid. let (r, s) = kkill pid s in Inr (of_int r, s))"

definition sys_freemem :: "'a mm_state_scheme \<Rightarrow> u64 res" where
  "sys_freemem s = kfreemem s"

definition sys_vmstat :: "'a proc_state_scheme \<Rightarrow> (u64 \<times> 'a proc_state_scheme) res" where
  "sys_vmstat s = rbind (argaddr 0 s) (\<lambda>dst. Inr (-1, s))"

end
