(* ===== verification/Uart.thy ===== *)
theory Uart
  imports Sys
begin

text \<open>
  Memory-mapped devices and the drivers that only read and write registers: the UART
  (\<^verbatim>\<open>kernel/dev/uart.c\<close>), the interrupt controller (\<^verbatim>\<open>kernel/dev/plic.c\<close>) and power-off
  (\<^verbatim>\<open>kernel/riscv/power.c\<close>).  The state keeps the log of register accesses.  A device is a parameter:
  what a read of a register returns after a given log, and a bound on how often a driver polls it
  while it is busy.  What was sent to the terminal is the sequence of bytes written to the transmit
  register.
\<close>

section \<open>Register accesses\<close>

datatype ioev = IOW u64 u64 | IOR u64 u64

record device =
  d_read :: "ioev list \<Rightarrow> u64 \<Rightarrow> u64"
  d_patience :: nat

record io_state = file_state +
  iolog :: "ioev list"
  tx_busy :: bool
  panicking :: bool
  panicked :: bool

definition io_write :: "u64 \<Rightarrow> u64 \<Rightarrow> 'a io_state_scheme \<Rightarrow> 'a io_state_scheme" where
  "io_write a v s = s\<lparr>iolog := iolog s @ [IOW a v]\<rparr>"

definition io_read :: "device \<Rightarrow> u64 \<Rightarrow> 'a io_state_scheme \<Rightarrow> u64 \<times> 'a io_state_scheme" where
  "io_read D a s = (let v = d_read D (iolog s) a in (v, s\<lparr>iolog := iolog s @ [IOR a v]\<rparr>))"

section \<open>uart.c\<close>

definition Reg :: "u64 \<Rightarrow> u64" where "Reg r = UART0 + r"
definition RHR :: u64 where "RHR = 0"
definition THR :: u64 where "THR = 0"
definition IER :: u64 where "IER = 1"
definition IER_RX_ENABLE :: u64 where "IER_RX_ENABLE = push_bit 0 1"
definition IER_TX_ENABLE :: u64 where "IER_TX_ENABLE = push_bit 1 1"
definition FCR :: u64 where "FCR = 2"
definition FCR_FIFO_ENABLE :: u64 where "FCR_FIFO_ENABLE = push_bit 0 1"
definition FCR_FIFO_CLEAR :: u64 where "FCR_FIFO_CLEAR = push_bit 1 3"
definition ISR :: u64 where "ISR = 2"
definition LCR :: u64 where "LCR = 3"
definition LCR_EIGHT_BITS :: u64 where "LCR_EIGHT_BITS = push_bit 0 3"
definition LCR_BAUD_LATCH :: u64 where "LCR_BAUD_LATCH = push_bit 7 1"
definition LSR :: u64 where "LSR = 5"
definition LSR_RX_READY :: u64 where "LSR_RX_READY = push_bit 0 1"
definition LSR_TX_IDLE :: u64 where "LSR_TX_IDLE = push_bit 5 1"

text \<open>Registers are one byte wide.\<close>

definition ReadReg :: "device \<Rightarrow> u64 \<Rightarrow> 'a io_state_scheme \<Rightarrow> u64 \<times> 'a io_state_scheme" where
  "ReadReg D r s = (let (v, s) = io_read D (Reg r) s in (v AND 0xff, s))"

definition WriteReg :: "u64 \<Rightarrow> u64 \<Rightarrow> 'a io_state_scheme \<Rightarrow> 'a io_state_scheme" where
  "WriteReg r v s = io_write (Reg r) (v AND 0xff) s"

definition uartinit :: "'a io_state_scheme \<Rightarrow> 'a io_state_scheme" where
  "uartinit s =
     (let s = WriteReg IER 0 s;
          s = WriteReg LCR LCR_BAUD_LATCH s;
          s = WriteReg 0 3 s;
          s = WriteReg 1 0 s;
          s = WriteReg LCR LCR_EIGHT_BITS s;
          s = WriteReg FCR (FCR_FIFO_ENABLE OR FCR_FIFO_CLEAR) s;
          s = WriteReg IER (IER_TX_ENABLE OR IER_RX_ENABLE) s
      in initlock TxLock ''uart'' s)"

text \<open>
  One turn of the loop of \<^verbatim>\<open>uartwrite\<close> on the bytes still to send: while the UART is busy the thread
  sleeps on \<^verbatim>\<open>tx_chan\<close>, otherwise it hands over one byte.
\<close>

definition uartwrite_turn :: "u8 list \<Rightarrow> 'a io_state_scheme \<Rightarrow> u8 list \<times> 'a io_state_scheme" where
  "uartwrite_turn bs s = (case bs of
     [] \<Rightarrow> ([], s)
   | b # bs' \<Rightarrow> if tx_busy s then (bs, s)
       else (bs', (WriteReg THR (ucast b) s)\<lparr>tx_busy := True\<rparr>))"

fun uart_idle_wait :: "nat \<Rightarrow> device \<Rightarrow> 'a io_state_scheme \<Rightarrow> 'a io_state_scheme res" where
  "uart_idle_wait 0 D s = Inl NoFuel"
| "uart_idle_wait (Suc k) D s =
     (let (v, s) = ReadReg D LSR s in
      if v AND LSR_TX_IDLE = 0 then uart_idle_wait k D s else Inr s)"

text \<open>After a panic the CPU spins here for ever.\<close>

definition uartputc_sync :: "device \<Rightarrow> u64 \<Rightarrow> 'a io_state_scheme \<Rightarrow> 'a io_state_scheme res" where
  "uartputc_sync D c s =
     (let s = (if \<not> panicking s then push_off s else s) in
      if panicked s then Inl Block
      else rbind (uart_idle_wait (d_patience D) D s) (\<lambda>s.
        let s = WriteReg THR c s in
        if \<not> panicking s then pop_off s else Inr s))"

text \<open>\<open>None\<close> is -1: no input is waiting.\<close>

definition uartgetc :: "device \<Rightarrow> 'a io_state_scheme \<Rightarrow> u64 option \<times> 'a io_state_scheme" where
  "uartgetc D s =
     (let (v, s) = ReadReg D LSR s in
      if v AND LSR_RX_READY \<noteq> 0 then (let (c, s) = ReadReg D RHR s in (Some c, s)) else (None, s))"

section \<open>plic.c\<close>

definition UART0_IRQ :: u64 where "UART0_IRQ = 10"
definition VIRTIO0_IRQ :: u64 where "VIRTIO0_IRQ = 1"
definition PLIC_SENABLE :: "nat \<Rightarrow> u64" where "PLIC_SENABLE hart = PLIC + 0x2080 + of_nat hart * 0x100"
definition PLIC_SPRIORITY :: "nat \<Rightarrow> u64" where "PLIC_SPRIORITY hart = PLIC + 0x201000 + of_nat hart * 0x2000"
definition PLIC_SCLAIM :: "nat \<Rightarrow> u64" where "PLIC_SCLAIM hart = PLIC + 0x201004 + of_nat hart * 0x2000"

definition plicinit :: "'a io_state_scheme \<Rightarrow> 'a io_state_scheme" where
  "plicinit s = io_write (PLIC + VIRTIO0_IRQ * 4) 1 (io_write (PLIC + UART0_IRQ * 4) 1 s)"

definition plicinithart :: "'a io_state_scheme \<Rightarrow> 'a io_state_scheme" where
  "plicinithart s =
     (let hart = cpuid s;
          s = io_write (PLIC_SENABLE hart) (push_bit (unat UART0_IRQ) 1 OR push_bit (unat VIRTIO0_IRQ) 1) s
      in io_write (PLIC_SPRIORITY hart) 0 s)"

definition plic_claim :: "device \<Rightarrow> 'a io_state_scheme \<Rightarrow> u32 \<times> 'a io_state_scheme" where
  "plic_claim D s = (let (irq, s) = io_read D (PLIC_SCLAIM (cpuid s)) s in (ucast irq, s))"

definition plic_complete :: "u32 \<Rightarrow> 'a io_state_scheme \<Rightarrow> 'a io_state_scheme" where
  "plic_complete irq s = io_write (PLIC_SCLAIM (cpuid s)) (ucast irq) s"

section \<open>power.c\<close>

definition VIRT_TEST_PASS :: u64 where "VIRT_TEST_PASS = 0x5555"

text \<open>Up to the endless \<^verbatim>\<open>wfi\<close> loop.\<close>

definition poweroff :: "'a io_state_scheme \<Rightarrow> 'a io_state_scheme" where
  "poweroff s = io_write VIRT_TEST VIRT_TEST_PASS (s\<lparr>csr := intr_off (csr s)\<rparr>)"

section \<open>What was sent\<close>

definition sent :: "ioev list \<Rightarrow> u8 list" where
  "sent l = List.map_filter (\<lambda>e. case e of IOW a v \<Rightarrow> if a = Reg THR then Some (ucast v) else None | IOR a v \<Rightarrow> None) l"

lemma sent_simps [simp]:
  "sent [] = []" "sent (IOR a v # l) = sent l" "sent (l @ l') = sent l @ sent l'"
  "sent [IOR a v] = []" "sent [IOW a v] = (if a = Reg THR then [ucast v] else [])"
  by (simp_all add: sent_def List.map_filter_def)

section \<open>Synchronous output\<close>

text \<open>The log after polling the line status \<open>n\<close> times; a device is ready when it turns idle within
  its patience, whatever was done before.\<close>

primrec polled :: "device \<Rightarrow> nat \<Rightarrow> ioev list \<Rightarrow> ioev list" where
  "polled D 0 lg = lg"
| "polled D (Suc n) lg = polled D n (lg @ [IOR (Reg LSR) (d_read D lg (Reg LSR))])"

definition uart_ready :: "device \<Rightarrow> bool" where
  "uart_ready D \<longleftrightarrow> (\<forall>lg. \<exists>k<d_patience D. d_read D (polled D k lg) (Reg LSR) AND LSR_TX_IDLE \<noteq> 0)"

text \<open>
  What output may change: the log grows by accesses that send exactly \<open>bs\<close>, and the CPU's saved
  interrupt status may be set.
\<close>

definition printed :: "'a io_state_scheme \<Rightarrow> u8 list \<Rightarrow> 'a io_state_scheme \<Rightarrow> bool" where
  "printed s bs s' \<longleftrightarrow> (\<exists>L ci. sent L = bs \<and>
     s' = s\<lparr>cpus := (cpus s)(cpuid s := (mycpu s)\<lparr>c_intena := ci\<rparr>), iolog := iolog s @ L\<rparr>)"

lemma printed_refl: "printed s [] s"
  unfolding printed_def by (intro exI [of _ "[]"] exI [of _ "c_intena (mycpu s)"]) (simp add: mycpu_def)

lemma printed_trans: "printed s bs s' \<Longrightarrow> printed s' bs' s'' \<Longrightarrow> printed s (bs @ bs') s''"
  unfolding printed_def
proof (elim exE conjE)
  fix L ci L' ci'
  assume "sent L = bs" "s' = s\<lparr>cpus := (cpus s)(cpuid s := mycpu s\<lparr>c_intena := ci\<rparr>), iolog := iolog s @ L\<rparr>"
    "sent L' = bs'" "s'' = s'\<lparr>cpus := (cpus s')(cpuid s' := mycpu s'\<lparr>c_intena := ci'\<rparr>), iolog := iolog s' @ L'\<rparr>"
  then show "\<exists>L ci. sent L = bs @ bs' \<and> s'' = s\<lparr>cpus := (cpus s)(cpuid s := mycpu s\<lparr>c_intena := ci\<rparr>), iolog := iolog s @ L\<rparr>"
    by (intro exI [of _ "L @ L'"] exI [of _ ci']) (simp add: cpuid_def mycpu_def)
qed

lemma printed_keeps:
  assumes "printed s bs s'"
  shows "nest_ok s' = nest_ok s" "panicked s' = panicked s" "panicking s' = panicking s"
  using assms by (auto simp: printed_def nest_ok_def noff_def mycpu_def cpuid_def)

lemma low_byte_flag: "((v :: u64) AND 0xff) AND LSR_TX_IDLE = v AND LSR_TX_IDLE"
  by (simp add: LSR_TX_IDLE_def and.assoc)

lemma ReadReg_eq:
  "ReadReg D r s = (d_read D (iolog s) (Reg r) AND 0xff, s\<lparr>iolog := iolog s @ [IOR (Reg r) (d_read D (iolog s) (Reg r))]\<rparr>)"
  by (simp add: ReadReg_def io_read_def Let_def)

lemma uart_idle_wait_ready:
  assumes "d_read D (polled D k (iolog s)) (Reg LSR) AND LSR_TX_IDLE \<noteq> 0" "k < n"
  shows "\<exists>L. uart_idle_wait n D s = Inr (s\<lparr>iolog := iolog s @ L\<rparr>) \<and> sent L = []"
  using assms
proof (induction n arbitrary: k s)
  case 0
  then show ?case by simp
next
  case (Suc n)
  let ?e = "IOR (Reg LSR) (d_read D (iolog s) (Reg LSR))"
  show ?case
  proof (cases "d_read D (iolog s) (Reg LSR) AND LSR_TX_IDLE = 0")
    case True
    with Suc.prems(1) obtain j where j: "k = Suc j" by (cases k) auto
    obtain L where "uart_idle_wait n D (s\<lparr>iolog := iolog s @ [?e]\<rparr>) = Inr (s\<lparr>iolog := (iolog s @ [?e]) @ L\<rparr>)" "sent L = []"
      using Suc.IH [of j "s\<lparr>iolog := iolog s @ [?e]\<rparr>"] Suc.prems j by auto
    with True show ?thesis by (intro exI [of _ "?e # L"]) (simp add: ReadReg_eq low_byte_flag)
  next
    case False
    then show ?thesis by (intro exI [of _ "[?e]"]) (simp add: ReadReg_eq low_byte_flag)
  qed
qed

lemma ucast_low_byte: "(ucast (c AND 0xff :: u64) :: u8) = ucast c"
proof -
  have "(0xff :: u64) = mask 8" by (simp add: mask_eq_exp_minus_1)
  then have "c AND 0xff = take_bit 8 c" by (simp only: take_bit_eq_mask)
  then show ?thesis by (intro bit_word_eqI) (simp add: bit_simps)
qed

lemma uartputc_sync_prints:
  assumes "uart_ready D" "nest_ok s" "\<not> panicked s"
  shows "\<exists>s'. uartputc_sync D c s = Inr s' \<and> printed s [ucast c] s'"
proof -
  let ?t = "if \<not> panicking s then push_off s else s"
  obtain k where "d_read D (polled D k (iolog ?t)) (Reg LSR) AND LSR_TX_IDLE \<noteq> 0" "k < d_patience D"
    using assms(1) by (auto simp: uart_ready_def)
  from uart_idle_wait_ready [OF this] obtain L
    where L: "uart_idle_wait (d_patience D) D ?t = Inr (?t\<lparr>iolog := iolog ?t @ L\<rparr>)" "sent L = []" by blast
  let ?L = "L @ [IOW (Reg THR) (c AND 0xff)]"
  have snt: "sent ?L = [ucast c]"
    using L(2) by (simp add: ucast_low_byte)
  show ?thesis
  proof (cases "panicking s")
    case True
    with L assms(3) have "uartputc_sync D c s = Inr (s\<lparr>iolog := iolog s @ ?L\<rparr>)"
      by (simp add: uartputc_sync_def WriteReg_def io_write_def)
    then show ?thesis
      using snt unfolding printed_def
      by (intro exI [of _ "s\<lparr>iolog := iolog s @ ?L\<rparr>"] conjI exI [of _ ?L] exI [of _ "c_intena (mycpu s)"])
        (simp_all add: mycpu_def)
  next
    case False
    let ?u = "(push_off s)\<lparr>iolog := iolog s @ ?L\<rparr>"
    have io: "iolog (push_off s) = iolog s" "panicked (push_off s) = panicked s" "panicking (push_off s) = panicking s"
      by (simp_all add: push_off_eq)
    have "uartputc_sync D c s = pop_off ?u"
      using L False assms(3) io by (simp add: uartputc_sync_def WriteReg_def io_write_def)
    moreover have "pop_off ?u = Inr (s\<lparr>cpus := (cpus s)(cpuid s := (mycpu s)\<lparr>c_intena := intr_outside s\<rparr>), iolog := iolog s @ ?L\<rparr>)"
      using assms(2) intr_restore [of "csr s"]
      by (auto simp: pop_off_def upd_cpu_def push_off_eq mycpu_def cpuid_def noff_def nest_ok_def intr_outside_def Let_def)
    ultimately show ?thesis
      using snt unfolding printed_def
      by (intro exI conjI [rotated] exI [of _ "L @ [IOW (Reg THR) (c AND 0xff)]"] exI [of _ "intr_outside s"]) simp_all
  qed
qed

end
