(* ===== verification/Printf.thy ===== *)
theory Printf
  imports Uart
begin

text \<open>
  The kernel's formatted output (\<^verbatim>\<open>kernel/core/printf.c\<close>) and \<^verbatim>\<open>consputc\<close>.  Variable arguments are a list:
  a word for every number, the bytes of a string before its NUL, or \<open>None\<close> for a null string pointer.
  A missing argument is \<open>BadAccess\<close>.  \<^verbatim>\<open>printint\<close> fills the local array \<^verbatim>\<open>buf\<close> of 20 bytes; a store past
  its end would be \<open>BadAccess\<close>.
\<close>

section \<open>Characters\<close>

definition chr :: "char \<Rightarrow> u64" where "chr c = of_nat (of_char c)"

definition bytes_of :: "string \<Rightarrow> u8 list" where
  "bytes_of = map (\<lambda>c. of_nat (of_char c))"

definition BACKSPACE :: u64 where "BACKSPACE = 0x100"

definition consputc :: "device \<Rightarrow> u64 \<Rightarrow> 'a io_state_scheme \<Rightarrow> 'a io_state_scheme res" where
  "consputc D c s =
     (if c = BACKSPACE
      then rbind (uartputc_sync D 8 s) (\<lambda>s. rbind (uartputc_sync D 32 s) (uartputc_sync D 8))
      else uartputc_sync D c s)"

fun consputs :: "device \<Rightarrow> u8 list \<Rightarrow> 'a io_state_scheme \<Rightarrow> 'a io_state_scheme res" where
  "consputs D [] s = Inr s"
| "consputs D (c # cs) s = rbind (consputc D (ucast c) s) (consputs D cs)"

section \<open>Numbers\<close>

definition digits :: "u8 list" where "digits = bytes_of ''0123456789abcdef''"

text \<open>The loop that fills \<^verbatim>\<open>buf\<close> from the lowest digit on; the result is the array and the index.\<close>

fun printint_loop :: "nat \<Rightarrow> u64 \<Rightarrow> u64 \<Rightarrow> nat \<Rightarrow> u8 list \<Rightarrow> (nat \<times> u8 list) res" where
  "printint_loop 0 x base i buf = Inl NoFuel"
| "printint_loop (Suc k) x base i buf =
     rbind (wr buf i (digits ! unat (x mod base))) (\<lambda>buf.
       let x = x div base in if x \<noteq> 0 then printint_loop k x base (i + 1) buf else Inr (i + 1, buf))"

text \<open>The bytes \<^verbatim>\<open>printint\<close> prints: \<^verbatim>\<open>buf\<close> from its last used index down.\<close>

definition printint_bytes :: "u64 \<Rightarrow> u64 \<Rightarrow> bool \<Rightarrow> u8 list res" where
  "printint_bytes xx base sign =
     (let neg = sign \<and> sint xx < 0;
          x = (if neg then - xx else xx) in
      rbind (printint_loop 64 x base 0 (replicate 20 0)) (\<lambda>(i, buf).
      rbind (if neg then rbind (wr buf i 45) (\<lambda>buf. Inr (i + 1, buf)) else Inr (i, buf)) (\<lambda>(i, buf).
        Inr (rev (take i buf)))))"

definition printint :: "device \<Rightarrow> u64 \<Rightarrow> u64 \<Rightarrow> bool \<Rightarrow> 'a io_state_scheme \<Rightarrow> 'a io_state_scheme res" where
  "printint D xx base sign s = rbind (printint_bytes xx base sign) (\<lambda>bs. consputs D bs s)"

primrec ptr_digits :: "nat \<Rightarrow> u64 \<Rightarrow> u8 list" where
  "ptr_digits 0 x = []"
| "ptr_digits (Suc n) x = digits ! unat (drop_bit 60 x) # ptr_digits n (push_bit 4 x)"

definition printptr :: "device \<Rightarrow> u64 \<Rightarrow> 'a io_state_scheme \<Rightarrow> 'a io_state_scheme res" where
  "printptr D x s = consputs D (bytes_of ''0x'' @ ptr_digits 16 x) s"

section \<open>printf\<close>

datatype arg = ANum u64 | AStr "u8 list option"

definition next_num :: "arg list \<Rightarrow> (u64 \<times> arg list) res" where
  "next_num as = (case as of ANum v # as' \<Rightarrow> Inr (v, as') | _ \<Rightarrow> Inl BadAccess)"

text \<open>What a conversion prints, given the characters after the \<^verbatim>\<open>%\<close>: the bytes, the characters consumed
  beyond \<open>c0\<close>, and the arguments left.\<close>

definition num_conv :: "bool \<Rightarrow> u64 \<Rightarrow> bool \<Rightarrow> nat \<Rightarrow> arg list \<Rightarrow> (u8 list \<times> nat \<times> arg list) res" where
  "num_conv wide base sign n as = rbind (next_num as) (\<lambda>(v, as).
     let v = (if wide then v else if sign then scast (ucast v :: u32) else ucast (ucast v :: u32)) in
     rbind (printint_bytes v base sign) (\<lambda>bs. Inr (bs, n, as)))"

definition printf_conv :: "char \<Rightarrow> char option \<Rightarrow> char option \<Rightarrow> arg list \<Rightarrow> (u8 list \<times> nat \<times> arg list) res" where
  "printf_conv c0 c1 c2 as =
     (if c0 = CHR ''d'' then num_conv False 10 True 0 as
      else if c0 = CHR ''l'' \<and> c1 = Some (CHR ''d'') then num_conv True 10 True 1 as
      else if c0 = CHR ''l'' \<and> c1 = Some (CHR ''l'') \<and> c2 = Some (CHR ''d'') then num_conv True 10 True 2 as
      else if c0 = CHR ''u'' then num_conv False 10 False 0 as
      else if c0 = CHR ''l'' \<and> c1 = Some (CHR ''u'') then num_conv True 10 False 1 as
      else if c0 = CHR ''l'' \<and> c1 = Some (CHR ''l'') \<and> c2 = Some (CHR ''u'') then num_conv True 10 False 2 as
      else if c0 = CHR ''x'' then num_conv False 16 False 0 as
      else if c0 = CHR ''l'' \<and> c1 = Some (CHR ''x'') then num_conv True 16 False 1 as
      else if c0 = CHR ''l'' \<and> c1 = Some (CHR ''l'') \<and> c2 = Some (CHR ''x'') then num_conv True 16 False 2 as
      else if c0 = CHR ''p'' then rbind (next_num as) (\<lambda>(v, as). Inr (bytes_of ''0x'' @ ptr_digits 16 v, 0, as))
      else if c0 = CHR ''c'' then rbind (next_num as) (\<lambda>(v, as). Inr (if (ucast v :: u32) = 0x100 then [8, 32, 8] else [ucast v], 0, as))
      else if c0 = CHR ''s''
      then (case as of AStr (Some cs) # as' \<Rightarrow> Inr (cs, 0, as')
            | AStr None # as' \<Rightarrow> Inr (bytes_of ''(null)'', 0, as')
            | _ \<Rightarrow> Inl BadAccess)
      else if c0 = CHR ''%'' then Inr (bytes_of ''%'', 0, as)
      else Inr (bytes_of [CHR ''%'', c0], 0, as))"

fun printf_bytes :: "nat \<Rightarrow> string \<Rightarrow> arg list \<Rightarrow> u8 list res" where
  "printf_bytes 0 fmt as = (if fmt = [] then Inr [] else Inl NoFuel)"
| "printf_bytes (Suc k) fmt as = (case fmt of
     [] \<Rightarrow> Inr []
   | c # fmt \<Rightarrow>
       if c \<noteq> CHR ''%'' then rbind (printf_bytes k fmt as) (\<lambda>bs. Inr (bytes_of [c] @ bs))
       else (case fmt of
         [] \<Rightarrow> Inr []
       | c0 # fmt \<Rightarrow>
           rbind (printf_conv c0 (if fmt = [] then None else Some (hd fmt)) (if length fmt < 2 then None else Some (fmt ! 1)) as)
             (\<lambda>(out, n, as). rbind (printf_bytes k (drop n fmt) as) (\<lambda>bs. Inr (out @ bs)))))"

definition printf :: "device \<Rightarrow> string \<Rightarrow> arg list \<Rightarrow> 'a io_state_scheme \<Rightarrow> 'a io_state_scheme res" where
  "printf D fmt as s = rbind (printf_bytes (length fmt) fmt as) (\<lambda>bs. consputs D bs s)"

text \<open>\<^verbatim>\<open>panic\<close> up to its endless loop.\<close>

definition printfinit :: "'a io_state_scheme \<Rightarrow> 'a io_state_scheme" where
  "printfinit s = initlock PrLock ''pr'' s"

definition panic :: "device \<Rightarrow> string \<Rightarrow> 'a io_state_scheme \<Rightarrow> 'a io_state_scheme res" where
  "panic D msg s =
     (let s = s\<lparr>panicking := True\<rparr> in
      rbind (printf D ''panic: '' [] s) (\<lambda>s.
      rbind (printf D (''%s'' @ [CHR 0x0A]) [AStr (Some (bytes_of msg))] s) (\<lambda>s.
        Inr (s\<lparr>panicked := True\<rparr>))))"

section \<open>procdump\<close>

definition state_name :: "procstate \<Rightarrow> string" where
  "state_name st = (case st of UNUSED \<Rightarrow> ''unused'' | USED \<Rightarrow> ''used'' | SLEEPING \<Rightarrow> ''sleep ''
     | RUNNABLE \<Rightarrow> ''runble'' | RUNNING \<Rightarrow> ''run   '' | ZOMBIE \<Rightarrow> ''zombie'')"

definition procdump :: "device \<Rightarrow> 'a io_state_scheme \<Rightarrow> 'a io_state_scheme res" where
  "procdump D s = rbind (printf D [CHR 0x0A] [] s) (\<lambda>s.
     rfold (\<lambda>i s. let p = getp s i in
       if p_state p = UNUSED then Inr s
       else rbind (printf D ''%d %s %s'' [ANum (ucast (p_pid p)), AStr (Some (bytes_of (state_name (p_state p)))),
           AStr (Some (takeWhile (\<lambda>c. c \<noteq> 0) (p_name p)))] s)
         (printf D [CHR 0x0A] [])) [0..<NPROC] s)"

section \<open>Numbers are printed right\<close>

text \<open>The digits of a number, lowest first.\<close>

fun low_digits :: "nat \<Rightarrow> nat \<Rightarrow> nat list" where
  "low_digits b n = (if b < 2 \<or> n < b then [n] else n mod b # low_digits b (n div b))"

declare low_digits.simps [simp del]

lemma low_digits_single: "n < b \<Longrightarrow> low_digits b n = [n]"
  by (simp add: low_digits.simps)

lemma low_digits_length: "1 < b \<Longrightarrow> n < b ^ Suc k \<Longrightarrow> length (low_digits b n) \<le> Suc k"
proof (induction k arbitrary: n)
  case 0
  then show ?case by (simp add: low_digits.simps)
next
  case (Suc k)
  have "n div b < b ^ Suc k" using Suc.prems by (simp add: less_mult_imp_div_less mult.commute)
  from Suc.IH [OF Suc.prems(1) this] show ?case by (subst low_digits.simps) simp
qed

lemma low_digits_range: "1 < b \<Longrightarrow> d \<in> set (low_digits b n) \<Longrightarrow> d < b"
proof (induction b n rule: low_digits.induct)
  case (1 b n)
  then show ?case by (cases "n < b") (simp_all add: low_digits.simps [of b n], auto)
qed

lemma low_digits_last: "1 < b \<Longrightarrow> low_digits b n \<noteq> [] \<and> (n \<noteq> 0 \<longrightarrow> last (low_digits b n) \<noteq> 0)"
proof (induction b n rule: low_digits.induct)
  case (1 b n)
  show ?case
  proof (cases "n < b")
    case True
    then show ?thesis by (simp add: low_digits.simps)
  next
    case False
    then have "n div b \<noteq> 0" using 1(2) by (simp add: div_eq_0_iff)
    with 1 False show ?thesis by (subst (1 2) low_digits.simps) simp
  qed
qed

lemma low_digits_value: "1 < b \<Longrightarrow> foldr (\<lambda>d v. v * b + d) (low_digits b n) 0 = n"
proof (induction b n rule: low_digits.induct)
  case (1 b n)
  then show ?case by (subst low_digits.simps) simp
qed

lemma printint_loop_digits:
  assumes "1 < unat base" "length (low_digits (unat base) (unat x)) \<le> k"
    "i + length (low_digits (unat base) (unat x)) \<le> length buf"
  shows "printint_loop k x base i buf =
    (let ds = map (\<lambda>d. digits ! d) (low_digits (unat base) (unat x))
     in Inr (i + length ds, take i buf @ ds @ drop (i + length ds) buf))"
  using assms
proof (induction k arbitrary: x i buf)
  case 0
  then show ?case using low_digits_last [OF 0(1), of "unat x"] by simp
next
  case (Suc k)
  let ?b = "unat base" and ?n = "unat x"
  have ne: "1 \<le> length (low_digits ?b ?n)"
    using low_digits_last [OF Suc.prems(1), of "unat x"] by (simp add: Suc_le_eq)
  then have i: "i < length buf" using Suc.prems(3) by linarith
  have upd: "take (Suc i) (buf[i := v]) = take i buf @ [v]" for v
    using i by (simp add: take_Suc_conv_app_nth)
  show ?case
  proof (cases "?n < ?b")
    case True
    then have "x div base = 0" "x mod base = x"
      by (simp_all add: word_arith_nat_div word_arith_nat_mod)
    with True i show ?thesis
      by (simp add: wr_def low_digits.simps upd_conv_take_nth_drop)
  next
    case False
    have q: "unat (x div base) = ?n div ?b" and r: "unat (x mod base) = ?n mod ?b"
      by (simp_all add: unat_div_distrib unat_mod_distrib)
    have "?n div ?b \<noteq> 0" using False Suc.prems(1) by (simp add: div_eq_0_iff)
    then have nz: "x div base \<noteq> 0" using q by (metis unat_0)
    have split: "low_digits ?b ?n = ?n mod ?b # low_digits ?b (?n div ?b)"
      using False Suc.prems(1) by (subst low_digits.simps) simp
    show ?thesis
      using Suc.IH [of "x div base" "i + 1" "buf[i := digits ! (?n mod ?b)]"] Suc.prems i nz upd
      by (simp add: wr_def split q r Let_def)
  qed
qed

lemma low_digits_fit:
  "10 \<le> b \<Longrightarrow> n < 18446744073709551616 \<Longrightarrow> length (low_digits b n) \<le> 20"
  "10 \<le> b \<Longrightarrow> n \<le> 9223372036854775808 \<Longrightarrow> length (low_digits b n) \<le> 19"
proof -
  assume b: "10 \<le> b"
  have p: "10 ^ k \<le> b ^ k" for k :: nat using b by (rule power_mono) simp
  show "length (low_digits b n) \<le> 20" if "n < 18446744073709551616"
    using low_digits_length [of b n 19] b p [of 20] that by simp
  show "length (low_digits b n) \<le> 19" if "n \<le> 9223372036854775808"
    using low_digits_length [of b n 18] b p [of 19] that by simp
qed

lemma unat_abs64:
  fixes x :: u64
  shows "sint x < 0 \<Longrightarrow> unat (- x) = nat (- sint x)" "0 \<le> sint x \<Longrightarrow> unat x = nat (sint x)"
    "sint x < 0 \<Longrightarrow> unat (- x) \<le> 9223372036854775808"
proof -
  have u: "0 \<le> uint x" "uint x < 2 ^ 64" using uint_bounded [of x] by simp_all
  have "sint x = (uint x + 2 ^ 63) mod 2 ^ 64 - 2 ^ 63"
    by (simp add: sint_uint signed_take_bit_eq_take_bit_shift take_bit_eq_mod add.commute)
  also have "\<dots> = (if uint x < 2 ^ 63 then uint x else uint x - 2 ^ 64)"
  proof (cases "uint x < 2 ^ 63")
    case True
    then show ?thesis using u by simp
  next
    case False
    have "(uint x + 2 ^ 63) mod 2 ^ 64 = (uint x - 2 ^ 63 + 1 * 2 ^ 64) mod 2 ^ 64"
      by (rule arg_cong [where f = "\<lambda>z. z mod 2 ^ 64"]) simp
    also have "\<dots> = uint x - 2 ^ 63" by (subst mod_mult_self1) (use u False in simp)
    finally show ?thesis using False by simp
  qed
  finally have s: "sint x = (if uint x < 2 ^ 63 then uint x else uint x - 2 ^ 64)" .
  have m: "uint (- x) = 2 ^ 64 - uint x" if "uint x \<noteq> 0"
  proof -
    have "uint (- x) = (- uint x) mod 2 ^ 64" by (simp only: uint_word_ariths) simp
    also have "\<dots> = (2 ^ 64 - uint x + (- 1) * 2 ^ 64) mod 2 ^ 64"
      by (rule arg_cong [where f = "\<lambda>z. z mod 2 ^ 64"]) simp
    also have "\<dots> = (2 ^ 64 - uint x) mod 2 ^ 64" by (rule mod_mult_self1)
    also have "\<dots> = 2 ^ 64 - uint x" using u that by (intro mod_pos_pos_trivial) linarith+
    finally show ?thesis .
  qed
  have neg: "sint x = uint x - 2 ^ 64 \<and> 2 ^ 63 \<le> uint x" if "sint x < 0"
    using s u that by (cases "uint x < 2 ^ 63") simp_all
  have un: "unat y = nat (uint y)" for y :: u64 by (simp only: unat_eq_nat_uint)
  show "unat (- x) = nat (- sint x)" if "sint x < 0"
    using neg [OF that] m by (simp add: un)
  show "unat (- x) \<le> 9223372036854775808" if "sint x < 0"
    using neg [OF that] m by (simp add: un nat_le_iff)
  have pos: "sint x = uint x" if "0 \<le> sint x"
    using s u that by (cases "uint x < 2 ^ 63") simp_all
  show "unat x = nat (sint x)" if "0 \<le> sint x"
    by (simp only: un pos [OF that])
qed

lemma take_put: "ys \<noteq> [] \<Longrightarrow> take (Suc (length xs)) ((xs @ ys)[length xs := v]) = xs @ [v]"
  by (cases ys) simp_all

lemma printint_bytes_digits:
  assumes "10 \<le> unat base"
  shows "printint_bytes xx base sign =
    Inr ((if sign \<and> sint xx < 0 then [45] else [])
      @ rev (map (\<lambda>d. digits ! d) (low_digits (unat base) (if sign then nat \<bar>sint xx\<bar> else unat xx))))"
proof -
  let ?b = "unat base"
  define neg where "neg = (sign \<and> sint xx < 0)"
  define x where "x = (if neg then - xx else xx)"
  have mag: "unat x = (if sign then nat \<bar>sint xx\<bar> else unat xx)"
    using unat_abs64 [of xx] by (auto simp: x_def neg_def)
  have l: "length (low_digits ?b (unat x)) \<le> (if neg then 19 else 20)"
    using low_digits_fit(1) [OF assms unat_lt64 [of x]] low_digits_fit(2) [OF assms] unat_abs64(3) [of xx]
    by (auto simp: x_def neg_def)
  have loop: "printint_loop 64 x base 0 (replicate 20 0) =
      (let ds = map (\<lambda>d. digits ! d) (low_digits ?b (unat x))
       in Inr (length ds, ds @ drop (length ds) (replicate 20 0)))"
    using printint_loop_digits [of base x 64 0 "replicate 20 0"] assms l by (simp split: if_splits)
  show ?thesis
  proof (cases neg)
    case True
    let ?ds = "map (\<lambda>d. digits ! d) (low_digits ?b (unat x))"
    have "take (Suc (length ?ds)) ((?ds @ replicate (20 - length ?ds) 0)[length ?ds := 45]) = ?ds @ [45]"
      using l True by (intro take_put) simp
    moreover have "- xx = x" using True by (simp add: x_def)
    ultimately show ?thesis
      using l loop True
      by (simp add: printint_bytes_def Let_def neg_def [symmetric] x_def [symmetric] mag [symmetric] wr_def)
  next
    case False
    then have x: "x = xx" by (simp add: x_def)
    have "(sign \<and> sint xx < 0) = False" using False by (simp add: neg_def)
    then show ?thesis
      using l loop False unfolding printint_bytes_def Let_def mag [symmetric] x by (simp only:) simp
  qed
qed

text \<open>
  C13: \<^verbatim>\<open>printint\<close> never runs past its 20-byte buffer, whatever the 64-bit value, and prints the sign and
  the digits of the value, highest first and without leading zeros.\<close>

theorem printint_prints:
  assumes "10 \<le> unat base"
  shows "\<exists>ds. printint_bytes xx base sign = Inr ((if sign \<and> sint xx < 0 then [45] else []) @ map (\<lambda>d. digits ! d) ds)
    \<and> ds \<noteq> [] \<and> (\<forall>d\<in>set ds. d < unat base) \<and> (hd ds = 0 \<longrightarrow> length ds = 1)
    \<and> foldl (\<lambda>v d. v * unat base + d) 0 ds = (if sign then nat \<bar>sint xx\<bar> else unat xx)"
proof -
  define n where "n = (if sign then nat \<bar>sint xx\<bar> else unat xx)"
  define ds where "ds = rev (low_digits (unat base) n)"
  have b: "1 < unat base" using assms by simp
  have "foldl (\<lambda>v d. v * unat base + d) 0 ds = n"
    using low_digits_value [OF b, of n] by (simp add: ds_def foldl_conv_foldr)
  moreover have "ds \<noteq> []" "hd ds = 0 \<longrightarrow> length ds = 1"
    using low_digits_last [OF b, of n] b by (auto simp: ds_def hd_rev low_digits.simps [of "unat base" 0])
  moreover have "\<forall>d\<in>set ds. d < unat base"
    using low_digits_range [OF b] by (simp add: ds_def)
  ultimately show ?thesis
    using printint_bytes_digits [OF assms, of xx sign] unfolding n_def [symmetric]
    by (intro exI [of _ ds]) (simp add: ds_def rev_map)
qed

theorem printint_prints_witness:
  "\<exists>ds. printint_bytes (- 9223372036854775808) 10 True = Inr ([45] @ map (\<lambda>d. digits ! d) ds)
    \<and> foldl (\<lambda>v d. v * 10 + d) 0 ds = 9223372036854775808"
  using printint_prints [of 10 "- 9223372036854775808" True] by (auto simp: sint_uint)

section \<open>printf ends and sends its output\<close>

lemma consputs_prints:
  assumes "uart_ready D" "nest_ok s" "\<not> panicked s"
  shows "\<exists>s'. consputs D bs s = Inr s' \<and> printed s bs s'"
  using assms(2,3)
proof (induction bs arbitrary: s)
  case Nil
  then show ?case by (simp add: printed_refl)
next
  case (Cons b bs)
  have "(ucast b :: u64) \<noteq> BACKSPACE"
  proof
    assume "ucast b = BACKSPACE"
    then have "unat (ucast b :: u64) = 256" by (simp add: BACKSPACE_def)
    then show False using unat_lt8 [of b] by (simp add: unat_ucast_8_64)
  qed
  moreover obtain t where t: "uartputc_sync D (ucast b) s = Inr t" "printed s [b] t"
    using uartputc_sync_prints [OF assms(1) Cons.prems, of "ucast b"] by auto
  moreover obtain s' where "consputs D bs t = Inr s'" "printed t bs s'"
    using Cons.IH [of t] Cons.prems printed_keeps [OF t(2)] by auto
  ultimately show ?case
    using printed_trans [OF t(2)] by (simp add: consputc_def)
qed

lemma printf_sends:
  assumes "uart_ready D" "nest_ok s" "\<not> panicked s" "printf_bytes (length fmt) fmt as = Inr bs"
  shows "\<exists>s'. printf D fmt as s = Inr s' \<and> printed s bs s'"
  using consputs_prints [OF assms(1-3)] assms(4) by (simp add: printf_def)

lemma num_conv_ends: "10 \<le> unat base \<Longrightarrow> num_conv w base sg n as = Inl e \<Longrightarrow> e = BadAccess"
  by (auto simp: num_conv_def next_num_def printint_bytes_digits Let_def split: list.splits arg.splits)

lemma printf_conv_ends: "printf_conv c0 c1 c2 as = Inl e \<Longrightarrow> e = BadAccess"
  unfolding printf_conv_def
  by (auto simp: next_num_def split: list.splits arg.splits option.splits if_splits dest!: num_conv_ends [rotated])

lemma printf_bytes_ends: "length fmt \<le> k \<Longrightarrow> printf_bytes k fmt as = Inl e \<Longrightarrow> e = BadAccess"
  by (induction k fmt as rule: printf_bytes.induct)
    (auto simp: rbind_Inl_iff split: list.splits if_splits dest: printf_conv_ends)


text \<open>A UART that is always idle, and the first output of a booting machine.\<close>

definition idle_uart :: device where
  "idle_uart = \<lparr>d_read = (\<lambda>lg a. LSR_TX_IDLE), d_patience = 1\<rparr>"

lemma idle_uart_ready: "uart_ready idle_uart"
  by (simp add: uart_ready_def idle_uart_def LSR_TX_IDLE_def)


end
