(* ===== verification/Console.thy ===== *)
theory Console
  imports Printf
begin

text \<open>
  The console (\<^verbatim>\<open>kernel/dev/console.c\<close>) and the interrupt half of the UART driver (\<^verbatim>\<open>kernel/dev/uart.c\<close>):
  the circular input buffer with its read, write and edit indices (32-bit, never reduced), line
  editing on UTF-8 characters, and the blocking read and write of the console device.
\<close>

section \<open>State\<close>

record cons_state = io_state +
  cons_buf :: "u8 list"
  cons_r :: u32
  cons_w :: u32
  cons_e :: u32
  cons_raw :: bool
  a_cbuf :: u64
  a_cwbuf :: u64

definition INPUT_BUF_SIZE :: nat where "INPUT_BUF_SIZE = 128"

definition cbyte :: "'a cons_state_scheme \<Rightarrow> u32 \<Rightarrow> u8" where
  "cbyte s i = cons_buf s ! (unat i mod INPUT_BUF_SIZE)"

definition cput :: "u32 \<Rightarrow> u8 \<Rightarrow> 'a cons_state_scheme \<Rightarrow> 'a cons_state_scheme" where
  "cput i c s = s\<lparr>cons_buf := (cons_buf s)[unat i mod INPUT_BUF_SIZE := c]\<rparr>"

section \<open>UTF-8 characters in the edit region\<close>

fun char_len_loop :: "nat \<Rightarrow> u32 \<Rightarrow> nat \<Rightarrow> 'a cons_state_scheme \<Rightarrow> nat" where
  "char_len_loop 0 idx n s = n"
| "char_len_loop (Suc k) idx n s =
     (if idx > cons_w s \<and> cbyte s idx AND 0xC0 = 0x80 then char_len_loop k (idx - 1) (n + 1) s else n)"

text \<open>The loop steps down from \<open>end - 1\<close> to the write index at most.\<close>

definition utf8_char_len :: "u32 \<Rightarrow> 'a cons_state_scheme \<Rightarrow> nat" where
  "utf8_char_len en s =
     (if en \<le> cons_w s then 0 else let idx = en - 1 in char_len_loop (unat (idx - cons_w s)) idx 1 s)"

fun decode_loop :: "nat list \<Rightarrow> u32 \<Rightarrow> nat \<Rightarrow> u8 \<Rightarrow> u32 \<Rightarrow> 'a cons_state_scheme \<Rightarrow> u32" where
  "decode_loop [] en len c0 r s = r"
| "decode_loop (i # is) en len c0 r s =
     (let c = cbyte s (en - of_nat len + of_nat i) in
      if c AND 0xC0 \<noteq> 0x80 then ucast c0
      else decode_loop is en len c0 (push_bit 6 r OR ucast (c AND 0x3F)) s)"

definition utf8_decode :: "u32 \<Rightarrow> nat \<Rightarrow> 'a cons_state_scheme \<Rightarrow> u32" where
  "utf8_decode en len s =
     (let c0 = cbyte s (en - of_nat len) in
      if len = 1 then ucast c0
      else if len = 2 then decode_loop [1..<len] en len c0 (ucast (c0 AND 0x1F)) s
      else if len = 3 then decode_loop [1..<len] en len c0 (ucast (c0 AND 0x0F)) s
      else if len = 4 then decode_loop [1..<len] en len c0 (ucast (c0 AND 0x07)) s
      else ucast c0)"

definition utf8_display_width :: "u32 \<Rightarrow> nat" where
  "utf8_display_width rune =
     (if rune < 0x80 then 1
      else if (rune \<ge> 0x1100 \<and> rune \<le> 0x115F) \<or> (rune \<ge> 0x2329 \<and> rune \<le> 0x232A)
        \<or> (rune \<ge> 0x2E80 \<and> rune \<le> 0xA4CF) \<or> (rune \<ge> 0xAC00 \<and> rune \<le> 0xD7A3)
        \<or> (rune \<ge> 0xF900 \<and> rune \<le> 0xFAFF) \<or> (rune \<ge> 0xFE10 \<and> rune \<le> 0xFE19)
        \<or> (rune \<ge> 0xFE30 \<and> rune \<le> 0xFE6F) \<or> (rune \<ge> 0xFF00 \<and> rune \<le> 0xFF60)
        \<or> (rune \<ge> 0xFFE0 \<and> rune \<le> 0xFFE6) \<or> (rune \<ge> 0x20000 \<and> rune \<le> 0x3FFFD) then 2
      else 1)"

section \<open>Writing\<close>

text \<open>
  The transmit-complete half of \<^verbatim>\<open>uartintr\<close>, and \<^verbatim>\<open>uartwrite\<close>: a thread that finds the UART busy sleeps
  until that interrupt has come.
\<close>

definition uart_tx_done :: "'a io_state_scheme \<Rightarrow> 'a io_state_scheme" where
  "uart_tx_done s = wakeup TxChan (s\<lparr>tx_busy := False\<rparr>)"

fun uartwrite :: "u8 list \<Rightarrow> 'a io_state_scheme \<Rightarrow> 'a io_state_scheme" where
  "uartwrite [] s = s"
| "uartwrite (b # bs) s =
     (let s = (if tx_busy s then uart_tx_done s else s) in
      uartwrite bs ((WriteReg THR (ucast b) s)\<lparr>tx_busy := True\<rparr>))"

fun consolewrite_loop :: "nat \<Rightarrow> bool \<Rightarrow> u64 \<Rightarrow> u32 \<Rightarrow> u32 \<Rightarrow> 'a cons_state_scheme \<Rightarrow> (u32 \<times> 'a cons_state_scheme) res" where
  "consolewrite_loop 0 user_src src n i s = (if sint i < sint n then Inl NoFuel else Inr (i, s))"
| "consolewrite_loop (Suc k) user_src src n i s =
     (if \<not> sint i < sint n then Inr (i, s)
      else let nn = (if sint (32 :: u32) > sint (n - i) then n - i else 32) in
        rbind (either_copyin (a_cwbuf s) user_src (src + scast i) (scast nn) s) (\<lambda>(r, s).
          if r = -1 then Inr (i, s)
          else let s = uartwrite (ld_bytes (mem s) (a_cwbuf s) (unat nn)) s in
            consolewrite_loop k user_src src n (i + nn) s))"

definition consolewrite :: "bool \<Rightarrow> u64 \<Rightarrow> u32 \<Rightarrow> 'a cons_state_scheme \<Rightarrow> (u32 \<times> 'a cons_state_scheme) res" where
  "consolewrite user_src src n s = consolewrite_loop (unat n div 32 + 1) user_src src n 0 s"

section \<open>Reading\<close>

text \<open>The loop of \<^verbatim>\<open>consoleread\<close> ends with an answer, or sleeps with \<open>dst\<close> and \<open>n\<close> to go on from.\<close>

datatype cread = CDone u32 | CSleep u64 u32

fun consoleread_loop :: "nat \<Rightarrow> bool \<Rightarrow> u64 \<Rightarrow> u32 \<Rightarrow> u32 \<Rightarrow> 'a cons_state_scheme \<Rightarrow> (cread \<times> 'a cons_state_scheme) res" where
  "consoleread_loop 0 user_dst dst n target s =
     (if sint n > 0 then Inl NoFuel else Inr (CDone (target - n), s))"
| "consoleread_loop (Suc k) user_dst dst n target s =
     (if \<not> sint n > 0 then Inr (CDone (target - n), s)
      else if cons_r s = cons_w s
      then rbind (cur s) (\<lambda>p. if killed p s then Inr (CDone (-1), s) else Inr (CSleep dst n, s))
      else let c = cbyte s (cons_r s); s = s\<lparr>cons_r := cons_r s + 1\<rparr> in
        if c = 4
        then Inr (CDone (target - n), if n < target then s\<lparr>cons_r := cons_r s - 1\<rparr> else s)
        else let s = s\<lparr>mem := (mem s)(a_cbuf s := c)\<rparr> in
          rbind (either_copyout user_dst dst (a_cbuf s) 1 s) (\<lambda>(r, s).
            if r = -1 then Inr (CDone (target - n), s)
            else if c = 10 then Inr (CDone (target - (n - 1)), s)
            else consoleread_loop k user_dst (dst + 1) (n - 1) target s))"

definition consoleread :: "bool \<Rightarrow> u64 \<Rightarrow> u32 \<Rightarrow> 'a cons_state_scheme \<Rightarrow> (u32 \<times> 'a cons_state_scheme) res" where
  "consoleread user_dst dst n s = rbind (consoleread_loop (unat n + 1) user_dst dst n n s) (\<lambda>(r, s).
     case r of CDone v \<Rightarrow> Inr (v, s) | CSleep _ _ \<Rightarrow> Inl Block)"

section \<open>Input\<close>

definition erase :: "device \<Rightarrow> 'a cons_state_scheme \<Rightarrow> 'a cons_state_scheme res" where
  "erase D s =
     (let len = utf8_char_len (cons_e s) s;
          width = utf8_display_width (utf8_decode (cons_e s) len s);
          s = s\<lparr>cons_e := cons_e s - of_nat len\<rparr> in
      rfold (\<lambda>_ s. consputc D BACKSPACE s) [0..<width] s)"

fun kill_line :: "nat \<Rightarrow> device \<Rightarrow> 'a cons_state_scheme \<Rightarrow> 'a cons_state_scheme res" where
  "kill_line 0 D s =
     (if cons_e s \<noteq> cons_w s \<and> cbyte s (cons_e s - 1) \<noteq> 10 then Inl NoFuel else Inr s)"
| "kill_line (Suc k) D s =
     (if cons_e s \<noteq> cons_w s \<and> cbyte s (cons_e s - 1) \<noteq> 10 then rbind (erase D s) (kill_line k D) else Inr s)"

text \<open>Control characters are letters minus 0x40.\<close>

definition ctrl :: "char \<Rightarrow> u64" where "ctrl c = chr c - 64"

definition consoleintr :: "device \<Rightarrow> u64 \<Rightarrow> 'a cons_state_scheme \<Rightarrow> 'a cons_state_scheme res" where
  "consoleintr D c s =
     (if c = ctrl (CHR ''P'') then procdump D s
      else if cons_raw s
      then Inr (if c \<noteq> 0 \<and> cons_e s - cons_r s < 128
        then let c = (if c = 13 then 10 else c);
                 s = cput (cons_e s) (ucast c) s;
                 s = s\<lparr>cons_e := cons_e s + 1\<rparr>;
                 s = s\<lparr>cons_w := cons_e s\<rparr>
             in wakeup ConsR s
        else s)
      else if c = ctrl (CHR ''U'') then kill_line INPUT_BUF_SIZE D s
      else if c = ctrl (CHR ''H'') \<or> c = 0x7f
      then (if cons_e s \<noteq> cons_w s then erase D s else Inr s)
      else if c \<noteq> 0 \<and> cons_e s - cons_r s < 128
      then let c = (if c = 13 then 10 else c) in
        rbind (consputc D c s) (\<lambda>s.
          let s = cput (cons_e s) (ucast c) s;
              s = s\<lparr>cons_e := cons_e s + 1\<rparr> in
          Inr (if c = 10 \<or> c = ctrl (CHR ''D'') \<or> cons_e s - cons_r s = 128
            then wakeup ConsR (s\<lparr>cons_w := cons_e s\<rparr>) else s))
      else Inr s)"

definition consolesetraw :: "u32 \<Rightarrow> 'a cons_state_scheme \<Rightarrow> 'a cons_state_scheme" where
  "consolesetraw raw s = s\<lparr>cons_raw := (raw \<noteq> 0)\<rparr>"

definition sys_consolemode :: "'a cons_state_scheme \<Rightarrow> (u64 \<times> 'a cons_state_scheme) res" where
  "sys_consolemode s = rbind (argint 0 s) (\<lambda>raw. Inr (0, consolesetraw raw s))"

text \<open>The device switch after \<^verbatim>\<open>consoleinit\<close>: only \<^verbatim>\<open>CONSOLE\<close> (1) has functions.\<close>

definition consoleinit :: "'a cons_state_scheme \<Rightarrow> 'a cons_state_scheme devsw \<times> 'a cons_state_scheme" where
  "consoleinit s = ((\<lambda>m. if m = 1 then (Some consoleread, Some consolewrite) else (None, None)),
     uartinit (initlock ConsLock ''cons'' s))"

text \<open>\<^verbatim>\<open>uartintr\<close>: acknowledge, complete a transmission, then feed all waiting input to the console.\<close>

fun uart_input :: "nat \<Rightarrow> device \<Rightarrow> 'a cons_state_scheme \<Rightarrow> 'a cons_state_scheme res" where
  "uart_input 0 D s = Inl NoFuel"
| "uart_input (Suc k) D s = (case uartgetc D s of
     (None, s) \<Rightarrow> Inr s
   | (Some c, s) \<Rightarrow> rbind (consoleintr D c s) (uart_input k D))"

definition uartintr :: "device \<Rightarrow> 'a cons_state_scheme \<Rightarrow> 'a cons_state_scheme res" where
  "uartintr D s =
     (let (_, s) = ReadReg D ISR s;
          (v, s) = ReadReg D LSR s;
          s = (if v AND LSR_TX_IDLE \<noteq> 0 then uart_tx_done s else s)
      in uart_input (d_patience D) D s)"

section \<open>The input buffer as two queues\<close>

text \<open>
  The bytes between two indices, as a list; the committed input is what readers may take, the edit
  line what can still be erased.
\<close>

definition region :: "'a cons_state_scheme \<Rightarrow> u32 \<Rightarrow> nat \<Rightarrow> u8 list" where
  "region s a n = map (\<lambda>i. cbyte s (a + of_nat i)) [0..<n]"

definition committed :: "'a cons_state_scheme \<Rightarrow> u8 list" where
  "committed s = region s (cons_r s) (unat (cons_w s - cons_r s))"

definition editing :: "'a cons_state_scheme \<Rightarrow> u8 list" where
  "editing s = region s (cons_w s) (unat (cons_e s - cons_w s))"

definition cons_ok :: "'a cons_state_scheme \<Rightarrow> bool" where
  "cons_ok s \<longleftrightarrow> length (cons_buf s) = INPUT_BUF_SIZE
     \<and> unat (cons_w s - cons_r s) + unat (cons_e s - cons_w s) \<le> INPUT_BUF_SIZE \<and> 10 \<notin> set (editing s)"

text \<open>The specification of one input character on the two queues.\<close>

definition cont_byte :: "u8 \<Rightarrow> bool" where "cont_byte c \<longleftrightarrow> c AND 0xC0 = 0x80"

definition erase_char :: "u8 list \<Rightarrow> u8 list" where
  "erase_char l = take (length l - Suc (length (takeWhile cont_byte (rev l)))) l"

definition input_spec :: "bool \<Rightarrow> u64 \<Rightarrow> u8 list \<times> u8 list \<Rightarrow> u8 list \<times> u8 list" where
  "input_spec raw c = (\<lambda>(q, l).
     let c' = (if c = 13 then 10 else ucast c);
         room = (c \<noteq> 0 \<and> length q + length l < INPUT_BUF_SIZE) in
     if c = ctrl (CHR ''P'') then (q, l)
     else if raw then if room then (q @ l @ [c'], []) else (q, l)
     else if c = ctrl (CHR ''U'') then (q, [])
     else if c = ctrl (CHR ''H'') \<or> c = 0x7f then (q, erase_char l)
     else if room
     then if c' = 10 \<or> c' = 4 \<or> length q + length l + 1 = INPUT_BUF_SIZE then (q @ l @ [c'], []) else (q, l @ [c'])
     else (q, l))"

lemma region_length [simp]: "length (region s a n) = n"
  by (simp add: region_def)

lemma region_append: "region s a (m + n) = region s a m @ region s (a + of_nat m) n"
proof -
  have "map (\<lambda>i. cbyte s (a + of_nat i)) [m..<m + n] = map (\<lambda>i. cbyte s (a + of_nat m + of_nat i)) [0..<n]"
    by (rule list_eq_nthI) (simp_all add: add.assoc)
  then show ?thesis
    unfolding region_def by (simp only: upt_add_eq_append [of 0 m n] le0 map_append)
qed

lemma region_take: "m \<le> n \<Longrightarrow> take m (region s a n) = region s a m"
  by (simp add: region_def take_map)

lemma region_nth: "i < n \<Longrightarrow> region s a n ! i = cbyte s (a + of_nat i)"
  by (simp add: region_def)

text \<open>128 divides the range of the indices, so an index reduced modulo the buffer size only depends on
  the distance.\<close>

lemma slot_add: "unat (a + of_nat i :: u32) mod 128 = (unat a + i) mod 128"
proof -
  have "unat (a + of_nat i :: u32) = (unat a + i) mod 2 ^ 32"
    by (simp add: unat_word_ariths unat_of_nat mod_add_right_eq)
  then show ?thesis by (simp add: mod_mod_cancel)
qed

lemma slot_neq: "i < j \<Longrightarrow> j < 128 \<Longrightarrow> unat (a + of_nat i :: u32) mod 128 \<noteq> unat (a + of_nat j :: u32) mod 128"
  unfolding slot_add
proof
  assume "i < j" "j < 128" "(unat a + i) mod 128 = (unat a + j) mod 128"
  then have "128 dvd (unat a + j) - (unat a + i)" by (metis add_le_cancel_left less_imp_le mod_eq_dvd_iff_nat)
  then have "128 dvd j - i" by simp
  then show False using \<open>i < j\<close> \<open>j < 128\<close> by (auto dest: dvd_imp_le)
qed

lemma region_cput:
  assumes "n < 128"
  shows "region (cput (a + of_nat n) c s) a n = region s a n"
  unfolding region_def
proof (rule map_cong [OF refl])
  fix i
  assume "i \<in> set [0..<n]"
  then have "unat (a + of_nat i) mod 128 \<noteq> unat (a + of_nat n) mod 128"
    using slot_neq [of i n a] assms by simp
  then show "cbyte (cput (a + of_nat n) c s) (a + of_nat i) = cbyte s (a + of_nat i)"
    by (simp add: cbyte_def cput_def INPUT_BUF_SIZE_def)
qed

lemma cbyte_cput: "length (cons_buf s) = 128 \<Longrightarrow> cbyte (cput e c s) e = c"
  by (simp add: cbyte_def cput_def INPUT_BUF_SIZE_def)

lemma region_cong: "cons_buf s = cons_buf t \<Longrightarrow> region s a n = region t a n"
  by (simp add: region_def cbyte_def)

text \<open>Appending a byte at the edit index.\<close>

lemma append_edit:
  fixes s :: "'a cons_state_scheme" and c :: u8
  assumes "length (cons_buf s) = 128" "unat (cons_w s - cons_r s) + unat (cons_e s - cons_w s) < 128"
  defines "t \<equiv> cput (cons_e s) c s"
  shows "region t (cons_r s) (unat (cons_w s - cons_r s)) = committed s"
    "region t (cons_w s) (Suc (unat (cons_e s - cons_w s))) = editing s @ [c]"
    "region t (cons_r s) (Suc (unat (cons_w s - cons_r s) + unat (cons_e s - cons_w s))) = committed s @ editing s @ [c]"
    "unat (cons_e s + 1 - cons_w s) = Suc (unat (cons_e s - cons_w s))"
    "unat (cons_e s + 1 - cons_r s) = Suc (unat (cons_w s - cons_r s) + unat (cons_e s - cons_w s))"
proof -
  let ?m = "unat (cons_w s - cons_r s)" and ?n = "unat (cons_e s - cons_w s)"
  have w: "cons_r s + of_nat ?m = cons_w s" and e: "cons_w s + of_nat ?n = cons_e s" by simp_all
  then have re: "cons_r s + of_nat (?m + ?n) = cons_e s" by (simp only: of_nat_add add.assoc [symmetric])
  have whole: "region t (cons_r s) (?m + ?n) = committed s @ editing s"
    using region_cput [of "?m + ?n" "cons_r s" c s] assms(2) re w
    by (simp add: t_def committed_def editing_def region_append)
  then have "region t (cons_r s) ?m @ region t (cons_w s) ?n = committed s @ editing s"
    by (simp add: region_append w)
  then have parts: "region t (cons_r s) ?m = committed s" "region t (cons_w s) ?n = editing s"
    by (simp_all add: committed_def editing_def)
  have last: "region t (cons_e s) 1 = [c]"
    using cbyte_cput [OF assms(1), of "cons_e s" c] by (simp add: region_def t_def)
  show "region t (cons_r s) ?m = committed s" by (rule parts)
  show "region t (cons_w s) (Suc ?n) = editing s @ [c]"
    using region_append [of t "cons_w s" ?n 1] parts(2) last e by simp
  show "region t (cons_r s) (Suc (?m + ?n)) = committed s @ editing s @ [c]"
    using region_append [of t "cons_r s" "?m + ?n" 1] whole last re by simp
  have "cons_e s + 1 - cons_w s = of_nat (Suc ?n)" using e by (simp add: algebra_simps)
  then show "unat (cons_e s + 1 - cons_w s) = Suc ?n"
    using unat_of_nat32 [of "Suc ?n"] assms(2) by (simp only:)
  have "cons_e s + 1 - cons_r s = of_nat (Suc (?m + ?n))" by simp
  then show "unat (cons_e s + 1 - cons_r s) = Suc (?m + ?n)"
    using unat_of_nat32 [of "Suc (?m + ?n)"] assms(2) by (simp only:)
qed

text \<open>The length of the last character is what the specification erases, as long as the edit line
  does not lie across the wrap-around of the indices.\<close>

lemma char_len_loop_region:
  assumes "unat (cons_w s) + j < 4294967296"
  shows "char_len_loop j (cons_w s + of_nat j) n s
     = n + length (takeWhile cont_byte (rev (tl (region s (cons_w s) (Suc j)))))"
  using assms
proof (induction j arbitrary: n)
  case 0
  then show ?case by (simp add: region_def)
next
  case (Suc j)
  have gt: "cons_w s < cons_w s + of_nat (Suc j)"
  proof -
    have "unat (cons_w s + of_nat (Suc j)) = unat (cons_w s) + Suc j"
      using Suc.prems unat_of_nat32 [of "Suc j"] by (simp add: unat_word_ariths del: of_nat_Suc)
    then show ?thesis by (simp only: word_less_nat_alt)
  qed
  have down: "cons_w s + of_nat (Suc j) - 1 = cons_w s + of_nat j" by simp
  have "region s (cons_w s) (Suc (Suc j)) = region s (cons_w s) (Suc j) @ [cbyte s (cons_w s + of_nat (Suc j))]"
    by (simp add: region_def)
  moreover have "region s (cons_w s) (Suc j) \<noteq> []" by (metis region_length length_0_conv nat.simps(3))
  ultimately have tl: "tl (region s (cons_w s) (Suc (Suc j)))
      = tl (region s (cons_w s) (Suc j)) @ [cbyte s (cons_w s + of_nat (Suc j))]" by simp
  let ?c = "cbyte s (cons_w s + of_nat (Suc j))"
  have loop: "char_len_loop (Suc j) (cons_w s + of_nat (Suc j)) n s
      = (if cont_byte ?c then char_len_loop j (cons_w s + of_nat j) (n + 1) s else n)"
    by (simp only: char_len_loop.simps down gt simp_thms cont_byte_def)
  have "unat (cons_w s) + j < 4294967296" using Suc.prems by simp
  note ih = Suc.IH [OF this, of "n + 1"]
  define R where "R = rev (tl (region s (cons_w s) (Suc j)))"
  have "rev (tl (region s (cons_w s) (Suc (Suc j)))) = ?c # R"
    by (simp only: tl rev_append rev.simps append.simps R_def)
  then show ?case
    using ih unfolding loop R_def [symmetric] by (cases "cont_byte ?c") simp_all
qed

lemma takeWhile_rev_tl:
  assumes "l \<noteq> []"
  shows "length l - Suc (length (takeWhile P (rev (tl l)))) = length l - Suc (length (takeWhile P (rev l)))"
proof (cases l)
  case (Cons a l')
  show ?thesis
  proof (cases "\<forall>x\<in>set l'. P x")
    case True
    then have "takeWhile P (rev l') = rev l'" by (simp add: takeWhile_eq_all_conv)
    with True show ?thesis by (simp add: Cons takeWhile_append del: takeWhile_eq_all_conv)
  next
    case False
    then have "\<not> (\<forall>x\<in>set l'. P x)" by simp
    then show ?thesis by (simp only: Cons list.sel rev.simps takeWhile_append set_rev if_False)
  qed
qed (use assms in simp)

lemma utf8_char_len_edit:
  assumes "cons_w s < cons_e s"
  shows "utf8_char_len (cons_e s) s = Suc (length (takeWhile cont_byte (rev (tl (editing s)))))"
proof -
  define j where "j = unat (cons_e s - 1 - cons_w s)"
  have d: "unat (cons_e s - cons_w s) = unat (cons_e s) - unat (cons_w s)"
    using assms by (simp add: unat_sub order_less_imp_le)
  have nz: "0 < unat (cons_e s - cons_w s)" using assms d by (simp add: word_less_nat_alt)
  have "unat (cons_e s - cons_w s - 1) = unat (cons_e s - cons_w s) - 1"
    using nz by (intro unat_minus_one) auto
  then have j: "Suc j = unat (cons_e s - cons_w s)" using nz by (simp add: j_def algebra_simps)
  have idx: "cons_e s - 1 = cons_w s + of_nat j" by (simp add: j_def)
  have "unat (cons_w s) + j < 4294967296" using j d unat_lt32 [of "cons_e s"] by linarith
  from char_len_loop_region [OF this, of 1] show ?thesis
    using assms by (simp add: utf8_char_len_def Let_def idx [symmetric] j_def [symmetric] editing_def j [symmetric] not_le)
qed

section \<open>Editing\<close>

text \<open>The console can print, and printing leaves its buffer alone.\<close>

definition io_ok :: "'a io_state_scheme \<Rightarrow> bool" where
  "io_ok s \<longleftrightarrow> nest_ok s \<and> \<not> panicked s"

lemma printed_io_ok: "printed s bs t \<Longrightarrow> io_ok t = io_ok s"
  using printed_keeps [of s bs t] by (simp add: io_ok_def)

definition same_cons :: "'a cons_state_scheme \<Rightarrow> 'a cons_state_scheme \<Rightarrow> bool" where
  "same_cons s t \<longleftrightarrow> cons_buf t = cons_buf s \<and> cons_r t = cons_r s \<and> cons_w t = cons_w s \<and> cons_e t = cons_e s
     \<and> cons_raw t = cons_raw s"

lemma printed_same_cons: "printed s bs t \<Longrightarrow> same_cons s t"
  by (auto simp: printed_def same_cons_def)

lemma same_cons_abs:
  assumes "same_cons s t"
  shows "committed t = committed s" "editing t = editing s" "cons_ok t = cons_ok s"
  using assms region_cong [of t s]
  by (simp_all add: same_cons_def committed_def editing_def cons_ok_def)

lemma backspace_prints:
  assumes "uart_ready D" "io_ok s"
  shows "\<exists>t bs. consputc D BACKSPACE s = Inr t \<and> printed s bs t"
proof -
  note put = uartputc_sync_prints [OF assms(1)]
  obtain t1 where t1: "uartputc_sync D 8 s = Inr t1" "printed s [8] t1"
    using put [of s 8] assms(2) by (auto simp: io_ok_def)
  then obtain t2 where t2: "uartputc_sync D 32 t1 = Inr t2" "printed t1 [32] t2"
    using put [of t1 32] printed_io_ok [OF t1(2)] assms(2) by (auto simp: io_ok_def)
  then obtain t3 where t3: "uartputc_sync D 8 t2 = Inr t3" "printed t2 [8] t3"
    using put [of t2 8] printed_io_ok [OF t1(2)] printed_io_ok [OF t2(2)] assms(2) by (auto simp: io_ok_def)
  then show ?thesis
    using t1 t2 printed_trans [OF printed_trans [OF t1(2) t2(2)] t3(2)] by (auto simp: consputc_def)
qed

lemma backspaces_print:
  assumes "uart_ready D" "io_ok s"
  shows "\<exists>t bs. rfold (\<lambda>_. consputc D BACKSPACE) xs s = Inr t \<and> printed s bs t"
  using assms(2)
proof (induction xs arbitrary: s)
  case Nil
  then show ?case using printed_refl [of s] by auto
next
  case (Cons x xs)
  obtain t bs where t: "consputc D BACKSPACE s = Inr t" "printed s bs t"
    using backspace_prints [OF assms(1) Cons.prems] by blast
  moreover obtain u bs' where "rfold (\<lambda>_. consputc D BACKSPACE) xs t = Inr u" "printed t bs' u"
    using Cons.IH [of t] Cons.prems printed_io_ok [OF t(2)] by auto
  ultimately show ?case using printed_trans [OF t(2)] by auto
qed

lemma erase_char_take: "l \<noteq> [] \<Longrightarrow> erase_char l = take (length l - Suc (length (takeWhile cont_byte (rev (tl l))))) l"
  by (simp add: erase_char_def takeWhile_rev_tl)

lemma erase_spec:
  assumes "uart_ready D" "io_ok s" "cons_ok s" "cons_w s < cons_e s"
  shows "\<exists>t. erase D s = Inr t \<and> io_ok t \<and> cons_ok t \<and> committed t = committed s \<and> editing t = erase_char (editing s)
    \<and> cons_w t = cons_w s \<and> cons_raw t = cons_raw s \<and> cons_w t \<le> cons_e t"
proof -
  let ?len = "utf8_char_len (cons_e s) s" and ?w = "cons_w s" and ?l = "editing s"
  let ?s = "s\<lparr>cons_e := cons_e s - of_nat ?len\<rparr>"
  have d: "unat (cons_e s - ?w) = unat (cons_e s) - unat ?w" "unat ?w < unat (cons_e s)"
    using assms(4) by (simp_all add: unat_sub order_less_imp_le word_less_nat_alt)
  have ll: "length ?l = unat (cons_e s - ?w)" by (simp add: editing_def)
  then have ne: "?l \<noteq> []" using d by auto
  have len: "?len = Suc (length (takeWhile cont_byte (rev (tl ?l))))"
    by (rule utf8_char_len_edit [OF assms(4)])
  have le: "?len \<le> length ?l"
    using length_takeWhile_le [of cont_byte "rev (tl ?l)"] ne by (simp add: len Suc_le_eq le_less_trans)
  have n: "unat (of_nat ?len :: u32) = ?len" using le ll unat_lt32 [of "cons_e s - ?w"] by (intro unat_of_nat32) simp
  have ue: "unat (cons_e s - of_nat ?len) = unat (cons_e s) - ?len"
    using le ll d n by (subst unat_sub) (simp_all add: word_le_nat_alt)
  have e': "unat (cons_e s - of_nat ?len - ?w) = length ?l - ?len"
    using le ll d ue by (subst unat_sub) (simp_all add: word_le_nat_alt)
  have "editing ?s = region s ?w (unat (cons_e s - of_nat ?len - ?w))"
    using region_cong [of ?s s] by (simp add: editing_def)
  also have "\<dots> = take (length ?l - ?len) ?l"
    unfolding e' using region_take [of "length ?l - ?len" "length ?l" s ?w] by (simp add: editing_def)
  also have "\<dots> = erase_char ?l" by (simp only: erase_char_take [OF ne] len)
  finally have ed: "editing ?s = erase_char ?l" .
  have cm: "committed ?s = committed s" using region_cong [of ?s s] by (simp add: committed_def)
  have ok: "cons_ok ?s"
    using assms(3) e' ll set_take_subset [of _ ?l] unfolding cons_ok_def ed
    by (auto simp: erase_char_def)
  have wle: "?w \<le> cons_e ?s" using le ll d ue by (simp add: word_le_nat_alt)
  have io: "io_ok ?s" using assms(2) by (simp add: io_ok_def nest_ok_def noff_def mycpu_def cpuid_def)
  obtain t bs where t: "erase D s = Inr t" "printed ?s bs t"
    using backspaces_print [OF assms(1) io, of "[0..<utf8_display_width (utf8_decode (cons_e s) ?len s)]"]
    unfolding erase_def Let_def by blast
  have sc: "same_cons ?s t" by (rule printed_same_cons [OF t(2)])
  then show ?thesis
    using io t(1) printed_io_ok [OF t(2)] same_cons_abs [OF sc] ed cm ok wle sc
    by (auto simp: same_cons_def)
qed

lemma last_edit_byte: "cons_e s \<noteq> cons_w s \<Longrightarrow> cbyte s (cons_e s - 1) \<in> set (editing s)"
proof -
  assume ne: "cons_e s \<noteq> cons_w s"
  let ?n = "unat (cons_e s - cons_w s)"
  have pos: "0 < ?n" using ne by (simp add: unat_gt_0)
  have "cons_w s + of_nat (?n - 1) = cons_e s - 1"
    using pos by (simp add: of_nat_diff)
  then have "editing s ! (?n - 1) = cbyte s (cons_e s - 1)"
    using pos by (simp add: editing_def region_nth)
  then show ?thesis using pos nth_mem [of "?n - 1" "editing s"] by (simp add: editing_def)
qed

lemma erase_char_shorter: "l \<noteq> [] \<Longrightarrow> length (erase_char l) < length l"
  by (cases l) (auto simp: erase_char_def)

lemma kill_line_spec:
  assumes "uart_ready D" "io_ok s" "cons_ok s" "cons_w s \<le> cons_e s" "length (editing s) \<le> k"
  shows "\<exists>t. kill_line k D s = Inr t \<and> io_ok t \<and> cons_ok t \<and> committed t = committed s \<and> editing t = []
    \<and> cons_raw t = cons_raw s \<and> cons_w t \<le> cons_e t"
  using assms(2-)
proof (induction k arbitrary: s)
  case 0
  then have "cons_e s = cons_w s" by (simp add: editing_def unat_eq_0)
  with 0 show ?case by simp
next
  case (Suc k)
  show ?case
  proof (cases "cons_e s = cons_w s")
    case True
    with Suc.prems show ?thesis by (simp add: editing_def region_def)
  next
    case False
    then have lt: "cons_w s < cons_e s" using Suc.prems(3) by simp
    have nl: "cbyte s (cons_e s - 1) \<noteq> 10"
      using last_edit_byte [OF False] Suc.prems(2) by (auto simp: cons_ok_def)
    obtain t where t: "erase D s = Inr t" "io_ok t" "cons_ok t" "committed t = committed s"
        "editing t = erase_char (editing s)" "cons_raw t = cons_raw s" "cons_w t \<le> cons_e t"
      using erase_spec [OF assms(1) Suc.prems(1,2) lt] by blast
    have "editing s \<noteq> []" using last_edit_byte [OF False] by auto
    then have "length (editing t) \<le> k" using erase_char_shorter [of "editing s"] t(5) Suc.prems(4) by simp
    then show ?thesis using Suc.IH [OF t(2,3,7)] t False nl by auto
  qed
qed

section \<open>One character of input\<close>

lemma procdump_prints:
  assumes "uart_ready D" "io_ok s"
  shows "\<exists>t bs. procdump D s = Inr t \<and> printed s bs t"
proof -
  have nl: "\<exists>t bs. printf D [CHR 0x0A] [] s = Inr t \<and> printed s bs t" if "io_ok s" for s :: "'a io_state_scheme"
    using printf_sends [OF assms(1), of s "[CHR 0x0A]" "[]" "bytes_of [CHR 0x0A]"] that by (auto simp: io_ok_def)
  have ln: "\<exists>t bs. printf D ''%d %s %s'' [ANum v, AStr (Some x), AStr (Some y)] s = Inr t \<and> printed s bs t"
    if "io_ok s" for s :: "'a io_state_scheme" and v x y
  proof -
    have "\<exists>bs. printf_bytes (length ''%d %s %s'') ''%d %s %s'' [ANum v, AStr (Some x), AStr (Some y)] = Inr bs"
      by (simp add: printf_conv_def num_conv_def next_num_def printint_bytes_digits Let_def)
    then show ?thesis using printf_sends [OF assms(1)] that unfolding io_ok_def by blast
  qed
  let ?f = "\<lambda>i s. let p = getp s i in
       if p_state p = UNUSED then Inr s
       else rbind (printf D ''%d %s %s'' [ANum (ucast (p_pid p)), AStr (Some (bytes_of (state_name (p_state p)))),
           AStr (Some (takeWhile (\<lambda>c. c \<noteq> 0) (p_name p)))] s)
         (printf D [CHR 0x0A] [])"
  have body: "\<exists>t bs. ?f i s = Inr t \<and> printed s bs t" if io: "io_ok s" for i and s :: "'a io_state_scheme"
  proof (cases "p_state (getp s i) = UNUSED")
    case True
    then show ?thesis using printed_refl [of s] by auto
  next
    case False
    obtain t bs where t: "printf D ''%d %s %s'' [ANum (ucast (p_pid (getp s i))),
        AStr (Some (bytes_of (state_name (p_state (getp s i))))),
        AStr (Some (takeWhile (\<lambda>c. c \<noteq> 0) (p_name (getp s i))))] s = Inr t" "printed s bs t"
      using ln [OF io] by blast
    then have "io_ok t" using io printed_io_ok by blast
    then obtain u bs' where "printf D [CHR 0x0A] [] t = Inr u" "printed t bs' u" using nl by blast
    then show ?thesis using t False printed_trans [OF t(2)] by (auto simp: Let_def)
  qed
  have loop: "\<exists>t bs. rfold ?f xs s = Inr t \<and> printed s bs t" if "io_ok s" for xs and s :: "'a io_state_scheme"
    using that
  proof (induction xs arbitrary: s)
    case Nil
    then show ?case using printed_refl [of s] by auto
  next
    case (Cons i xs)
    obtain t bs where t: "?f i s = Inr t" "printed s bs t" using body [OF Cons.prems] by blast
    then have "io_ok t" using Cons.prems printed_io_ok by blast
    from Cons.IH [OF this] obtain u bs' where "rfold ?f xs t = Inr u" "printed t bs' u" by blast
    then show ?case using t printed_trans [OF t(2)] by (auto simp del: split_paired_Ex)
  qed
  obtain t bs where t: "printf D [CHR 0x0A] [] s = Inr t" "printed s bs t" using nl [OF assms(2)] by blast
  then have "io_ok t" using assms(2) printed_io_ok by blast
  from loop [OF this] obtain u bs' where "rfold ?f [0..<NPROC] t = Inr u" "printed t bs' u" by blast
  then show ?thesis using t printed_trans [OF t(2)] unfolding procdump_def by (metis rbind_simps(2))
qed

lemma ctrl_simps [simp]:
  "ctrl (CHR ''P'') = 16" "ctrl (CHR ''U'') = 21" "ctrl (CHR ''H'') = 8" "ctrl (CHR ''D'') = 4"
  by (simp_all add: ctrl_def chr_def)

lemma wakeup_cons: "same_cons s (wakeup ch s)" "io_ok (wakeup ch s) = io_ok s"
  by (simp_all add: wakeup_eq same_cons_def io_ok_def nest_ok_def noff_def mycpu_def cpuid_def)

lemma ucast_byte_eq:
  assumes "unat (c :: u64) < 256"
  shows "(ucast c = (v :: u8)) \<longleftrightarrow> c = ucast v"
proof -
  have "unat (ucast c :: u8) = unat c" using assms by (simp add: unsigned_ucast_eq take_bit_nat_eq_self)
  then show ?thesis by (simp only: word_unat_eq_iff unat_ucast_8_64)
qed

lemma room_iff:
  assumes "cons_ok s"
  shows "cons_e s - cons_r s < 128 \<longleftrightarrow> length (committed s) + length (editing s) < 128"
proof -
  let ?m = "unat (cons_w s - cons_r s)" and ?n = "unat (cons_e s - cons_w s)"
  have b: "?m + ?n \<le> 128" using assms by (simp add: cons_ok_def INPUT_BUF_SIZE_def)
  have "cons_e s - cons_r s = (cons_w s - cons_r s) + (cons_e s - cons_w s)" by simp
  then have "unat (cons_e s - cons_r s) = ?m + ?n"
    using b by (simp only: unat_word_ariths) simp
  then show ?thesis by (simp add: word_less_nat_alt committed_def editing_def)
qed

text \<open>Storing a character, and committing the line.\<close>

lemma store_spec:
  fixes s :: "'a cons_state_scheme" and c :: u8
  assumes "cons_ok s" "length (committed s) + length (editing s) < 128" "io_ok s"
  defines "t \<equiv> (cput (cons_e s) c s)\<lparr>cons_e := cons_e s + 1\<rparr>"
  shows "c \<noteq> 10 \<Longrightarrow> cons_ok t" "io_ok t" "committed t = committed s" "editing t = editing s @ [c]"
    "cons_ok (t\<lparr>cons_w := cons_e t\<rparr>)" "committed (t\<lparr>cons_w := cons_e t\<rparr>) = committed s @ editing s @ [c]"
    "editing (t\<lparr>cons_w := cons_e t\<rparr>) = []"
    "cons_e t - cons_r t = 128 \<longleftrightarrow> length (committed s) + length (editing s) + 1 = 128"
proof -
  let ?t = "cput (cons_e s) c s" and ?w = "t\<lparr>cons_w := cons_e t\<rparr>"
  have lb: "length (cons_buf s) = 128" using assms(1) by (simp add: cons_ok_def INPUT_BUF_SIZE_def)
  have room: "unat (cons_w s - cons_r s) + unat (cons_e s - cons_w s) < 128"
    using assms(2) by (simp add: committed_def editing_def)
  note ap = append_edit(1-3) [where c = c, OF lb room] append_edit(4,5) [OF lb room]
  have f: "cons_r t = cons_r s" "cons_w t = cons_w s" "cons_e t = cons_e s + 1" "length (cons_buf t) = 128"
    "region t a n = region ?t a n" "region ?w a n = region ?t a n" for a n
    using lb region_cong [of t ?t] region_cong [of ?w ?t] by (simp_all add: t_def cput_def)
  show com: "committed t = committed s" using ap(1) by (simp add: committed_def [of t] f)
  show ed: "editing t = editing s @ [c]" unfolding editing_def [of t] f ap(4) by (rule ap(2))
  show "io_ok t" using assms(3) by (simp add: t_def cput_def io_ok_def nest_ok_def noff_def mycpu_def cpuid_def)
  show "cons_ok t" if "c \<noteq> 10"
    using assms(1) that room ap(4) f by (simp add: cons_ok_def ed INPUT_BUF_SIZE_def)
  have cw: "committed ?w = region ?t (cons_r s) (unat (cons_e s + 1 - cons_r s))"
    using f by (simp add: committed_def)
  then show "committed ?w = committed s @ editing s @ [c]" unfolding ap(5) by (simp only: ap(3))
  show ew: "editing ?w = []" by (simp add: editing_def region_def)
  show "cons_ok ?w" using room f ap(5) ew by (simp add: cons_ok_def INPUT_BUF_SIZE_def)
  show "cons_e t - cons_r t = 128 \<longleftrightarrow> length (committed s) + length (editing s) + 1 = 128"
    unfolding f word_unat_eq_iff [of "cons_e s + 1 - cons_r s"] ap(5) by (simp add: committed_def editing_def)
qed

lemma consputc_prints:
  assumes "uart_ready D" "io_ok s" "unat c < 256"
  shows "\<exists>t. consputc D c s = Inr t \<and> printed s [ucast c] t"
proof -
  have "c \<noteq> BACKSPACE" using assms(3) by (auto simp: BACKSPACE_def)
  then show ?thesis
    using uartputc_sync_prints [OF assms(1), of s c] assms(2) by (simp add: consputc_def io_ok_def)
qed

text \<open>
  C12: the console's input handler refines two queues: whatever character arrives, the committed input
  and the edit line change as the specification says (a line is committed by newline, end of file or a
  full buffer; backspace erases one UTF-8 character; kill empties the edit line), the ring buffer stays
  well formed, and the handler ends.  The edit line must not lie across the wrap-around of the 32-bit
  indices.\<close>

theorem consoleintr_refines:
  assumes "uart_ready D" "io_ok s" "cons_ok s" "cons_w s \<le> cons_e s" "unat c < 256"
  shows "\<exists>t. consoleintr D c s = Inr t \<and> io_ok t \<and> cons_ok t
    \<and> (committed t, editing t) = input_spec (cons_raw s) c (committed s, editing s)"
proof -
  let ?c = "if c = 13 then 10 else c" and ?q = "committed s" and ?l = "editing s"
  let ?b = "if c = 13 then 10 else ucast c :: u8"
  have uc: "ucast ?c = ?b" by simp
  have c10: "?c = 10 \<longleftrightarrow> ?b = 10" and c4: "?c = 4 \<longleftrightarrow> ?b = 4"
    using ucast_byte_eq [OF assms(5), of 10] ucast_byte_eq [OF assms(5), of 4] by simp_all
  have room: "cons_e s - cons_r s < 128 \<longleftrightarrow> length ?q + length ?l < 128" by (rule room_iff [OF assms(3)])
  have keep: ?thesis if "consoleintr D c s = Inr s" "input_spec (cons_raw s) c (?q, ?l) = (?q, ?l)"
    using that assms(2,3) by simp
  have commit: "io_ok (wakeup ConsR t) = io_ok t \<and> cons_ok (wakeup ConsR t) = cons_ok t
      \<and> committed (wakeup ConsR t) = committed t \<and> editing (wakeup ConsR t) = editing t" for t :: "'a cons_state_scheme"
    using same_cons_abs [OF wakeup_cons(1)] wakeup_cons(2) by blast
  consider (dump) "c = 16" | (raw) "c \<noteq> 16" "cons_raw s" | (kill) "c = 21" "\<not> cons_raw s"
    | (del) "c = 8 \<or> c = 0x7f" "\<not> cons_raw s"
    | (chr) "c \<noteq> 16" "c \<noteq> 21" "c \<noteq> 8" "c \<noteq> 0x7f" "\<not> cons_raw s" by blast
  then show ?thesis
  proof cases
    case dump
    obtain t bs where t: "procdump D s = Inr t" "printed s bs t" using procdump_prints [OF assms(1,2)] by blast
    then show ?thesis
      using dump assms(2,3) printed_io_ok [OF t(2)] same_cons_abs [OF printed_same_cons [OF t(2)]]
      by (simp add: consoleintr_def input_spec_def)
  next
    case raw
    show ?thesis
    proof (cases "c \<noteq> 0 \<and> length ?q + length ?l < 128")
      case True
      then show ?thesis
        using raw room uc store_spec [where c = ?b, OF assms(3) _ assms(2)] commit
        by (simp add: consoleintr_def input_spec_def INPUT_BUF_SIZE_def Let_def io_ok_def nest_ok_def noff_def mycpu_def cpuid_def cput_def)
    next
      case False
      then show ?thesis using raw room by (intro keep) (auto simp: consoleintr_def input_spec_def INPUT_BUF_SIZE_def)
    qed
  next
    case kill
    have "length ?l \<le> INPUT_BUF_SIZE" using assms(3) by (simp add: cons_ok_def editing_def)
    from kill_line_spec [OF assms(1-4) this] show ?thesis
      using kill by (auto simp: consoleintr_def input_spec_def)
  next
    case del
    show ?thesis
    proof (cases "cons_e s = cons_w s")
      case True
      then have "?l = []" by (simp add: editing_def region_def)
      then show ?thesis using True del by (intro keep) (auto simp: consoleintr_def input_spec_def erase_char_def)
    next
      case False
      then have "cons_w s < cons_e s" using assms(4) by simp
      from erase_spec [OF assms(1-3) this] show ?thesis
        using del False by (auto simp: consoleintr_def input_spec_def)
    qed
  next
    case chr
    show ?thesis
    proof (cases "c \<noteq> 0 \<and> length ?q + length ?l < 128")
      case False
      then show ?thesis using chr room by (intro keep) (auto simp: consoleintr_def input_spec_def INPUT_BUF_SIZE_def)
    next
      case True
      have "unat ?c < 256" using assms(5) by simp
      from consputc_prints [OF assms(1,2) this] obtain u where u: "consputc D ?c s = Inr u" "printed s [ucast ?c] u" by blast
      note sc = printed_same_cons [OF u(2)]
      have uok: "cons_ok u" "io_ok u" "committed u = ?q" "editing u = ?l" "cons_r u = cons_r s"
        using assms(2,3) same_cons_abs [OF sc] printed_io_ok [OF u(2)] sc by (simp_all add: same_cons_def)
      define t where "t = (cput (cons_e u) ?b u)\<lparr>cons_e := cons_e u + 1\<rparr>"
      have rm: "length ?q + length ?l < 128" using True by simp
      note st = store_spec [where c = ?b, OF uok(1) _ uok(2), unfolded uok(3,4) t_def [symmetric], OF rm]
      have run: "consoleintr D c s = Inr (if ?c = 10 \<or> ?c = 4 \<or> cons_e t - cons_r t = 128
          then wakeup ConsR (t\<lparr>cons_w := cons_e t\<rparr>) else t)"
        using chr True room u(1) uc by (simp add: consoleintr_def Let_def cput_def t_def)
      have cond: "(?c = 10 \<or> ?c = 4 \<or> cons_e t - cons_r t = 128) \<longleftrightarrow>
          ?b = 10 \<or> ?b = 4 \<or> length ?q + length ?l + 1 = 128"
        using st(8) c10 c4 by simp
      have spec: "input_spec (cons_raw s) c (?q, ?l) = (if ?b = 10 \<or> ?b = 4 \<or> length ?q + length ?l + 1 = 128
          then (?q @ ?l @ [?b], []) else (?q, ?l @ [?b]))"
        using chr True by (simp add: input_spec_def INPUT_BUF_SIZE_def Let_def)
      show ?thesis
      proof (cases "?b = 10 \<or> ?b = 4 \<or> length ?q + length ?l + 1 = 128")
        case True
        have "io_ok (t\<lparr>cons_w := cons_e t\<rparr>)"
          using st(2) by (simp add: io_ok_def nest_ok_def noff_def mycpu_def cpuid_def)
        then show ?thesis
          using run st(5-7) commit [of "t\<lparr>cons_w := cons_e t\<rparr>"] unfolding spec cond if_P [OF True] by (simp only:) simp
      next
        case False
        have "?b \<noteq> 10" using False by blast
        then show ?thesis
          using run st(1-4) unfolding spec cond if_not_P [OF False] by (simp only:) simp
      qed
    qed
  qed
qed

definition fresh_cons :: "cons_state \<Rightarrow> cons_state" where
  "fresh_cons z = z\<lparr>csr := boot_csrs 0, cpus := (\<lambda>h. idle_cpu), panicked := False, cons_buf := replicate 128 0,
     cons_r := 5, cons_w := 5, cons_e := 5, cons_raw := False\<rparr>"

lemma fresh_cons_ok: "io_ok (fresh_cons z)" "cons_ok (fresh_cons z)" "committed (fresh_cons z) = []" "editing (fresh_cons z) = []"
    "cons_raw (fresh_cons z) = False" "cons_w (fresh_cons z) = cons_e (fresh_cons z)"
  by (simp_all add: fresh_cons_def io_ok_def nest_ok_def noff_def mycpu_def idle_cpu_def cons_ok_def committed_def
      editing_def region_def INPUT_BUF_SIZE_def)

theorem consoleintr_refines_witness:
  "\<forall>z. \<exists>t. consoleintr idle_uart 97 (fresh_cons z) = Inr t \<and> committed t = [] \<and> editing t = [97]"
proof
  fix z
  have spec: "input_spec False 97 ([], []) = ([], [97])"
    by (simp add: input_spec_def INPUT_BUF_SIZE_def)
  show "\<exists>t. consoleintr idle_uart 97 (fresh_cons z) = Inr t \<and> committed t = [] \<and> editing t = [97]"
    using consoleintr_refines [OF idle_uart_ready fresh_cons_ok(1,2), of z 97] spec
    by (auto simp: fresh_cons_ok)
qed

text \<open>
  C15: the comparison of the 32-bit indices in \<^verbatim>\<open>utf8_char_len\<close> is not safe across their wrap-around.
  When the edit line lies across it, the length of its last character is computed as 0, and the loop of
  kill line never ends, whatever number of turns it is given.\<close>

theorem kill_line_diverges:
  assumes "uart_ready D" "io_ok s" "cons_ok s" "cons_e s < cons_w s"
  shows "kill_line k D s = Inl NoFuel"
  using assms(2-)
proof (induction k arbitrary: s)
  case 0
  have ne: "cons_e s \<noteq> cons_w s" using 0(3) by auto
  then show ?case using last_edit_byte [OF ne] 0(2) by (auto simp: cons_ok_def)
next
  case (Suc k)
  have ne: "cons_e s \<noteq> cons_w s" using Suc.prems(3) by auto
  have nl: "cbyte s (cons_e s - 1) \<noteq> 10" using last_edit_byte [OF ne] Suc.prems(2) by (auto simp: cons_ok_def)
  have "utf8_char_len (cons_e s) s = 0" using Suc.prems(3) by (simp add: utf8_char_len_def order_less_imp_le)
  then obtain t bs where t: "erase D s = Inr t" "printed s bs t"
    using backspaces_print [OF assms(1) Suc.prems(1), of "[0..<utf8_display_width (utf8_decode (cons_e s) 0 s)]"]
    by (auto simp: erase_def Let_def)
  then have "io_ok t" "cons_ok t" "cons_e t < cons_w t"
    using Suc.prems printed_io_ok [OF t(2)] same_cons_abs [OF printed_same_cons [OF t(2)]] printed_same_cons [OF t(2)]
    by (simp_all add: same_cons_def)
  from Suc.IH [OF this] show ?case using ne nl t(1) by simp
qed

theorem kill_line_diverges_witness:
  "\<forall>z. let s = (fresh_cons z)\<lparr>cons_r := 0xfffffffe, cons_w := 0xfffffffe, cons_e := 1\<rparr> in
     kill_line INPUT_BUF_SIZE idle_uart s = Inl NoFuel \<and> length (editing s) = 3"
proof (intro allI, unfold Let_def)
  fix z
  let ?s = "(fresh_cons z)\<lparr>cons_r := 0xfffffffe, cons_w := 0xfffffffe, cons_e := 1\<rparr>"
  have "io_ok ?s" by (simp add: fresh_cons_def io_ok_def nest_ok_def noff_def mycpu_def idle_cpu_def)
  moreover have "cons_ok ?s"
    by (auto simp: fresh_cons_def cons_ok_def editing_def region_def cbyte_def INPUT_BUF_SIZE_def)
  ultimately show "kill_line INPUT_BUF_SIZE idle_uart ?s = Inl NoFuel \<and> length (editing ?s) = 3"
    using kill_line_diverges [OF idle_uart_ready, of ?s INPUT_BUF_SIZE] by (simp add: editing_def)
qed

end
