(* ===== verification/Virtio.thy ===== *)
theory Virtio
  imports Console
begin

text \<open>
  The disk driver (\<^verbatim>\<open>kernel/dev/virtio_disk.c\<close>, \<^verbatim>\<open>kernel/include/virtio.h\<close>).  The descriptor table and the two
  rings are pages of memory, the request headers and status bytes live in the kernel's data segment,
  all at the offsets the device uses.  \<^verbatim>\<open>virtio_disk_rw\<close> is split at its wait for the completion
  interrupt: \<open>virtio_submit\<close> is everything before, \<open>virtio_finish\<close> everything after.
\<close>

section \<open>Registers and structures\<close>

text \<open>The registers of the device and their offsets, and the bits of the features.\<close>

datatype vreg =
    VIRTIO_MMIO_MAGIC_VALUE
  | VIRTIO_MMIO_VERSION
  | VIRTIO_MMIO_DEVICE_ID
  | VIRTIO_MMIO_VENDOR_ID
  | VIRTIO_MMIO_DEVICE_FEATURES
  | VIRTIO_MMIO_DRIVER_FEATURES
  | VIRTIO_MMIO_QUEUE_SEL
  | VIRTIO_MMIO_QUEUE_NUM_MAX
  | VIRTIO_MMIO_QUEUE_NUM
  | VIRTIO_MMIO_QUEUE_READY
  | VIRTIO_MMIO_QUEUE_NOTIFY
  | VIRTIO_MMIO_INTERRUPT_STATUS
  | VIRTIO_MMIO_INTERRUPT_ACK
  | VIRTIO_MMIO_STATUS
  | VIRTIO_MMIO_QUEUE_DESC_LOW
  | VIRTIO_MMIO_QUEUE_DESC_HIGH
  | VIRTIO_MMIO_DRIVER_DESC_LOW
  | VIRTIO_MMIO_DRIVER_DESC_HIGH
  | VIRTIO_MMIO_DEVICE_DESC_LOW
  | VIRTIO_MMIO_DEVICE_DESC_HIGH

primrec vreg_offset :: "vreg \<Rightarrow> u64" where
    "vreg_offset VIRTIO_MMIO_MAGIC_VALUE = 0x000"
  | "vreg_offset VIRTIO_MMIO_VERSION = 0x004"
  | "vreg_offset VIRTIO_MMIO_DEVICE_ID = 0x008"
  | "vreg_offset VIRTIO_MMIO_VENDOR_ID = 0x00c"
  | "vreg_offset VIRTIO_MMIO_DEVICE_FEATURES = 0x010"
  | "vreg_offset VIRTIO_MMIO_DRIVER_FEATURES = 0x020"
  | "vreg_offset VIRTIO_MMIO_QUEUE_SEL = 0x030"
  | "vreg_offset VIRTIO_MMIO_QUEUE_NUM_MAX = 0x034"
  | "vreg_offset VIRTIO_MMIO_QUEUE_NUM = 0x038"
  | "vreg_offset VIRTIO_MMIO_QUEUE_READY = 0x044"
  | "vreg_offset VIRTIO_MMIO_QUEUE_NOTIFY = 0x050"
  | "vreg_offset VIRTIO_MMIO_INTERRUPT_STATUS = 0x060"
  | "vreg_offset VIRTIO_MMIO_INTERRUPT_ACK = 0x064"
  | "vreg_offset VIRTIO_MMIO_STATUS = 0x070"
  | "vreg_offset VIRTIO_MMIO_QUEUE_DESC_LOW = 0x080"
  | "vreg_offset VIRTIO_MMIO_QUEUE_DESC_HIGH = 0x084"
  | "vreg_offset VIRTIO_MMIO_DRIVER_DESC_LOW = 0x090"
  | "vreg_offset VIRTIO_MMIO_DRIVER_DESC_HIGH = 0x094"
  | "vreg_offset VIRTIO_MMIO_DEVICE_DESC_LOW = 0x0a0"
  | "vreg_offset VIRTIO_MMIO_DEVICE_DESC_HIGH = 0x0a4"

datatype vfeature =
    VIRTIO_BLK_F_RO
  | VIRTIO_BLK_F_SCSI
  | VIRTIO_BLK_F_CONFIG_WCE
  | VIRTIO_BLK_F_MQ
  | VIRTIO_F_ANY_LAYOUT
  | VIRTIO_RING_F_INDIRECT_DESC
  | VIRTIO_RING_F_EVENT_IDX

primrec feature_bit :: "vfeature \<Rightarrow> nat" where
    "feature_bit VIRTIO_BLK_F_RO = 5"
  | "feature_bit VIRTIO_BLK_F_SCSI = 7"
  | "feature_bit VIRTIO_BLK_F_CONFIG_WCE = 11"
  | "feature_bit VIRTIO_BLK_F_MQ = 12"
  | "feature_bit VIRTIO_F_ANY_LAYOUT = 27"
  | "feature_bit VIRTIO_RING_F_INDIRECT_DESC = 28"
  | "feature_bit VIRTIO_RING_F_EVENT_IDX = 29"

definition VIRTIO_CONFIG_S_ACKNOWLEDGE :: u64 where "VIRTIO_CONFIG_S_ACKNOWLEDGE = 1"
definition VIRTIO_CONFIG_S_DRIVER :: u64 where "VIRTIO_CONFIG_S_DRIVER = 2"
definition VIRTIO_CONFIG_S_DRIVER_OK :: u64 where "VIRTIO_CONFIG_S_DRIVER_OK = 4"
definition VIRTIO_CONFIG_S_FEATURES_OK :: u64 where "VIRTIO_CONFIG_S_FEATURES_OK = 8"

definition NUM :: nat where "NUM = 8"
definition VRING_DESC_F_NEXT :: u16 where "VRING_DESC_F_NEXT = 1"
definition VRING_DESC_F_WRITE :: u16 where "VRING_DESC_F_WRITE = 2"
definition VIRTIO_BLK_T_IN :: u32 where "VIRTIO_BLK_T_IN = 0"
definition VIRTIO_BLK_T_OUT :: u32 where "VIRTIO_BLK_T_OUT = 1"

record virtq_desc =
  vd_addr :: u64
  vd_len :: u32
  vd_flags :: u16
  vd_next :: u16

definition ld_desc :: "memory \<Rightarrow> u64 \<Rightarrow> virtq_desc" where
  "ld_desc m a = \<lparr>vd_addr = ld64 m a, vd_len = ld32 m (a + 8), vd_flags = ld16 m (a + 12), vd_next = ld16 m (a + 14)\<rparr>"

definition st_desc :: "memory \<Rightarrow> u64 \<Rightarrow> virtq_desc \<Rightarrow> memory" where
  "st_desc m a d = st16 (st16 (st32 (st64 m a (vd_addr d)) (a + 8) (vd_len d)) (a + 12) (vd_flags d)) (a + 14) (vd_next d)"

text \<open>\<^verbatim>\<open>struct disk\<close>.\<close>

record virtio_state = cons_state +
  v_desc :: u64
  v_avail :: u64
  v_used :: u64
  v_free :: "bool list"
  v_used_idx :: u16
  v_info :: "nat option list"
  a_ops :: "nat \<Rightarrow> u64"
  a_status :: "nat \<Rightarrow> u64"

definition R :: "vreg \<Rightarrow> u64" where "R r = VIRTIO0 + vreg_offset r"

section \<open>Initialisation\<close>

definition mask_feature :: "vfeature \<Rightarrow> u64 \<Rightarrow> u64" where
  "mask_feature x f = f AND NOT (push_bit (feature_bit x) 1)"

definition virtio_disk_init :: "device \<Rightarrow> 'a virtio_state_scheme \<Rightarrow> 'a virtio_state_scheme res" where
  "virtio_disk_init D s =
     (let s = initlock DiskLock ''virtio_disk'' s;
          (magic, s) = io_read D (R VIRTIO_MMIO_MAGIC_VALUE) s;
          (version, s) = io_read D (R VIRTIO_MMIO_VERSION) s;
          (devid, s) = io_read D (R VIRTIO_MMIO_DEVICE_ID) s;
          (vendor, s) = io_read D (R VIRTIO_MMIO_VENDOR_ID) s in
      if magic \<noteq> 0x74726976 \<or> version \<noteq> 2 \<or> devid \<noteq> 2 \<or> vendor \<noteq> 0x554d4551
      then Inl (Panic ''could not find virtio disk'')
      else let status = 0;
          s = io_write (R VIRTIO_MMIO_STATUS) status s;
          status = status OR VIRTIO_CONFIG_S_ACKNOWLEDGE;
          s = io_write (R VIRTIO_MMIO_STATUS) status s;
          status = status OR VIRTIO_CONFIG_S_DRIVER;
          s = io_write (R VIRTIO_MMIO_STATUS) status s;
          (features, s) = io_read D (R VIRTIO_MMIO_DEVICE_FEATURES) s;
          features = mask_feature VIRTIO_BLK_F_RO features;
          features = mask_feature VIRTIO_BLK_F_SCSI features;
          features = mask_feature VIRTIO_BLK_F_CONFIG_WCE features;
          features = mask_feature VIRTIO_BLK_F_MQ features;
          features = mask_feature VIRTIO_F_ANY_LAYOUT features;
          features = mask_feature VIRTIO_RING_F_EVENT_IDX features;
          features = mask_feature VIRTIO_RING_F_INDIRECT_DESC features;
          s = io_write (R VIRTIO_MMIO_DRIVER_FEATURES) features s;
          status = status OR VIRTIO_CONFIG_S_FEATURES_OK;
          s = io_write (R VIRTIO_MMIO_STATUS) status s;
          (status, s) = io_read D (R VIRTIO_MMIO_STATUS) s in
      if status AND VIRTIO_CONFIG_S_FEATURES_OK = 0 then Inl (Panic ''virtio disk FEATURES_OK unset'')
      else let s = io_write (R VIRTIO_MMIO_QUEUE_SEL) 0 s;
          (ready, s) = io_read D (R VIRTIO_MMIO_QUEUE_READY) s in
      if ready \<noteq> 0 then Inl (Panic ''virtio disk should not be ready'')
      else let (mx, s) = io_read D (R VIRTIO_MMIO_QUEUE_NUM_MAX) s in
      if mx = 0 then Inl (Panic ''virtio disk has no queue 0'')
      else if mx < of_nat NUM then Inl (Panic ''virtio disk max queue too short'')
      else let (desc, s) = kalloc s; (av, s) = kalloc s; (us, s) = kalloc s in
      if desc = 0 \<or> av = 0 \<or> us = 0 then Inl (Panic ''virtio disk kalloc'')
      else let
          s = s\<lparr>v_desc := desc, v_avail := av, v_used := us,
            mem := memset (memset (memset (mem s) desc 0 4096) av 0 4096) us 0 4096\<rparr>;
          s = io_write (R VIRTIO_MMIO_QUEUE_NUM) (of_nat NUM) s;
          s = io_write (R VIRTIO_MMIO_QUEUE_DESC_LOW) (ucast (ucast desc :: u32)) s;
          s = io_write (R VIRTIO_MMIO_QUEUE_DESC_HIGH) (drop_bit 32 desc) s;
          s = io_write (R VIRTIO_MMIO_DRIVER_DESC_LOW) (ucast (ucast av :: u32)) s;
          s = io_write (R VIRTIO_MMIO_DRIVER_DESC_HIGH) (drop_bit 32 av) s;
          s = io_write (R VIRTIO_MMIO_DEVICE_DESC_LOW) (ucast (ucast us :: u32)) s;
          s = io_write (R VIRTIO_MMIO_DEVICE_DESC_HIGH) (drop_bit 32 us) s;
          s = io_write (R VIRTIO_MMIO_QUEUE_READY) 1 s;
          s = s\<lparr>v_free := replicate NUM True\<rparr>;
          status = status OR VIRTIO_CONFIG_S_DRIVER_OK
        in Inr (io_write (R VIRTIO_MMIO_STATUS) status s))"

section \<open>Descriptors\<close>

fun find_desc :: "nat list \<Rightarrow> bool list \<Rightarrow> nat option" where
  "find_desc [] fr = None"
| "find_desc (i # is) fr = (if fr ! i then Some i else find_desc is fr)"

definition alloc_desc :: "'a virtio_state_scheme \<Rightarrow> nat option \<times> 'a virtio_state_scheme" where
  "alloc_desc s = (case find_desc [0..<NUM] (v_free s) of
     None \<Rightarrow> (None, s) | Some i \<Rightarrow> (Some i, s\<lparr>v_free := (v_free s)[i := False]\<rparr>))"

definition desc_at :: "nat \<Rightarrow> 'a virtio_state_scheme \<Rightarrow> u64" where
  "desc_at i s = v_desc s + 16 * of_nat i"

definition free_desc :: "nat \<Rightarrow> 'a virtio_state_scheme \<Rightarrow> 'a virtio_state_scheme res" where
  "free_desc i s =
     (if i \<ge> NUM then Inl (Panic ''free_desc 1'')
      else if v_free s ! i then Inl (Panic ''free_desc 2'')
      else let s = s\<lparr>mem := st_desc (mem s) (desc_at i s) \<lparr>vd_addr = 0, vd_len = 0, vd_flags = 0, vd_next = 0\<rparr>\<rparr>;
               s = s\<lparr>v_free := (v_free s)[i := True]\<rparr>
           in Inr (wakeup DiskFree s))"

fun free_chain :: "nat \<Rightarrow> nat \<Rightarrow> 'a virtio_state_scheme \<Rightarrow> 'a virtio_state_scheme res" where
  "free_chain 0 i s = Inl NoFuel"
| "free_chain (Suc k) i s =
     (let d = ld_desc (mem s) (desc_at i s) in
      rbind (free_desc i s) (\<lambda>s.
        if vd_flags d AND VRING_DESC_F_NEXT \<noteq> 0 then free_chain k (unat (vd_next d)) s else Inr s))"

text \<open>\<^verbatim>\<open>alloc3_desc\<close>: \<open>got\<close> are the descriptors allocated so far, given back when one is missing.\<close>

fun alloc3_loop :: "nat \<Rightarrow> nat list \<Rightarrow> 'a virtio_state_scheme \<Rightarrow> (nat list option \<times> 'a virtio_state_scheme) res" where
  "alloc3_loop 0 got s = Inr (Some got, s)"
| "alloc3_loop (Suc k) got s = (case alloc_desc s of
     (Some i, s) \<Rightarrow> alloc3_loop k (got @ [i]) s
   | (None, s) \<Rightarrow> rbind (rfold free_desc got s) (\<lambda>s. Inr (None, s)))"

definition alloc3_desc :: "'a virtio_state_scheme \<Rightarrow> (nat list option \<times> 'a virtio_state_scheme) res" where
  "alloc3_desc s = alloc3_loop 3 [] s"

section \<open>A transfer\<close>

definition avail_idx :: "'a virtio_state_scheme \<Rightarrow> u16" where
  "avail_idx s = ld16 (mem s) (v_avail s + 2)"

definition used_idx :: "'a virtio_state_scheme \<Rightarrow> u16" where
  "used_idx s = ld16 (mem s) (v_used s + 2)"

text \<open>With no three descriptors free the caller sleeps on \<^verbatim>\<open>disk.free\<close>.\<close>

definition virtio_submit :: "nat \<Rightarrow> bool \<Rightarrow> 'a virtio_state_scheme \<Rightarrow> (nat \<times> 'a virtio_state_scheme) res" where
  "virtio_submit b write s =
     (let sector = ucast (b_blockno (getb s b) * 2) :: u64 in
      rbind (alloc3_desc s) (\<lambda>(r, s). case r of None \<Rightarrow> Inl Block
      | Some idx \<Rightarrow>
        let i0 = idx ! 0; i1 = idx ! 1; i2 = idx ! 2;
            buf0 = a_ops s i0;
            m = mem s;
            m = st32 m buf0 (if write then VIRTIO_BLK_T_OUT else VIRTIO_BLK_T_IN);
            m = st32 m (buf0 + 4) 0;
            m = st64 m (buf0 + 8) sector;
            m = st_desc m (desc_at i0 s) \<lparr>vd_addr = buf0, vd_len = 16, vd_flags = VRING_DESC_F_NEXT, vd_next = of_nat i1\<rparr>;
            m = st_desc m (desc_at i1 s) \<lparr>vd_addr = a_bufdata s b, vd_len = of_nat BSIZE,
              vd_flags = (if write then 0 else VRING_DESC_F_WRITE) OR VRING_DESC_F_NEXT, vd_next = of_nat i2\<rparr>;
            m = m(a_status s i0 := 0xff);
            m = st_desc m (desc_at i2 s) \<lparr>vd_addr = a_status s i0, vd_len = 1, vd_flags = VRING_DESC_F_WRITE, vd_next = 0\<rparr>;
            s = s\<lparr>mem := m\<rparr>;
            s = setb b (\<lambda>x. x\<lparr>b_disk := True\<rparr>) s;
            s = s\<lparr>v_info := (v_info s)[i0 := Some b]\<rparr>;
            s = s\<lparr>mem := st16 (mem s) (v_avail s + 4 + 2 * of_nat (unat (avail_idx s) mod NUM)) (of_nat i0)\<rparr>;
            s = s\<lparr>mem := st16 (mem s) (v_avail s + 2) (avail_idx s + 1)\<rparr>
        in Inr (i0, io_write (R VIRTIO_MMIO_QUEUE_NOTIFY) 0 s)))"

definition virtio_finish :: "nat \<Rightarrow> 'a virtio_state_scheme \<Rightarrow> 'a virtio_state_scheme res" where
  "virtio_finish i0 s = free_chain NUM i0 (s\<lparr>v_info := (v_info s)[i0 := None]\<rparr>)"

text \<open>
  \<^verbatim>\<open>virtio_disk_rw\<close>: submit, and while the disk owns the buffer sleep.  What happens meanwhile (the
  device, its interrupt, other threads) is the parameter \<open>world\<close>; a sleep that leaves the buffer with
  the disk is repeated.
\<close>

fun virtio_wait ::
  "nat \<Rightarrow> ('a virtio_state_scheme \<Rightarrow> 'a virtio_state_scheme res) \<Rightarrow> nat \<Rightarrow> 'a virtio_state_scheme \<Rightarrow> 'a virtio_state_scheme res" where
  "virtio_wait 0 world b s = (if b_disk (getb s b) then Inl NoFuel else Inr s)"
| "virtio_wait (Suc k) world b s =
     (if b_disk (getb s b) then rbind (world s) (virtio_wait k world b) else Inr s)"

definition virtio_disk_rw ::
  "nat \<Rightarrow> ('a virtio_state_scheme \<Rightarrow> 'a virtio_state_scheme res) \<Rightarrow> nat \<Rightarrow> bool \<Rightarrow> 'a virtio_state_scheme \<Rightarrow> 'a virtio_state_scheme res" where
  "virtio_disk_rw k world b write s =
     rbind (virtio_submit b write s) (\<lambda>(i0, s). rbind (virtio_wait k world b s) (virtio_finish i0))"

section \<open>The completion interrupt\<close>

fun intr_loop :: "nat \<Rightarrow> 'a virtio_state_scheme \<Rightarrow> 'a virtio_state_scheme res" where
  "intr_loop 0 s = (if v_used_idx s \<noteq> used_idx s then Inl NoFuel else Inr s)"
| "intr_loop (Suc k) s =
     (if v_used_idx s = used_idx s then Inr s
      else let id = unat (ld32 (mem s) (v_used s + 4 + 8 * of_nat (unat (v_used_idx s) mod NUM))) in
        if id \<ge> NUM then Inl BadAccess
        else if mem s (a_status s id) \<noteq> 0 then Inl (Panic ''virtio_disk_intr status'')
        else case v_info s ! id of None \<Rightarrow> Inl BadAccess
        | Some b \<Rightarrow>
          let s = setb b (\<lambda>x. x\<lparr>b_disk := False\<rparr>) s;
              s = wakeup (BufPtr b) s
          in intr_loop k (s\<lparr>v_used_idx := v_used_idx s + 1\<rparr>))"

definition virtio_disk_intr :: "device \<Rightarrow> 'a virtio_state_scheme \<Rightarrow> 'a virtio_state_scheme res" where
  "virtio_disk_intr D s =
     (let (st, s) = io_read D (R VIRTIO_MMIO_INTERRUPT_STATUS) s;
          s = io_write (R VIRTIO_MMIO_INTERRUPT_ACK) (st AND 3) s
      in intr_loop 65536 s)"

end
