(* ===== verification/Trap.thy ===== *)
theory Trap
  imports Virtio
begin

text \<open>
  Traps, the system-call dispatch and booting (\<^verbatim>\<open>kernel/proc/trap.c\<close>, \<^verbatim>\<open>syscall\<close> of
  \<^verbatim>\<open>kernel/proc/syscall.c\<close>, \<^verbatim>\<open>forkret\<close> of \<^verbatim>\<open>kernel/proc/proc.c\<close>, \<^verbatim>\<open>kernel/core/start.c\<close>, \<^verbatim>\<open>kernel/core/main.c\<close>).
  A path on which the process gives up the CPU ends the model's run of it: it exits, it yields, or it
  sleeps in a system call.
\<close>

record kernel_state = virtio_state +
  kernel_pagetable :: u64
  boot_dtb :: u64
  started :: bool
  forkret_first :: bool
  a_initstr :: u64
  a_xstate :: u64

text \<open>What a call did: returned a value for \<^verbatim>\<open>a0\<close>, ended the process or the machine, or went to sleep.\<close>

datatype outcome = Returned u64 | Gone | Slept

type_synonym 's sysfun = "'s \<Rightarrow> (outcome \<times> 's) res"

definition ret :: "(u64 \<times> 's) res \<Rightarrow> (outcome \<times> 's) res" where
  "ret r = rbind r (\<lambda>(v, s). Inr (Returned v, s))"

section \<open>System calls\<close>

text \<open>The table of \<^verbatim>\<open>syscall.c\<close>, indexed by the numbers of \<^verbatim>\<open>syscall.h\<close>; \<open>nm\<close> is the content of the
  uninitialised name buffers.\<close>

definition syscalls :: "'a kernel_state_scheme devsw \<Rightarrow> u8 list \<Rightarrow> int \<Rightarrow> 'a kernel_state_scheme sysfun option" where
  "syscalls dsw nm num =
     (if num = 1 then Some (\<lambda>s. ret (sys_fork s))
      else if num = 2 then Some (\<lambda>s. rbind (sys_exit s) (\<lambda>s. Inr (Gone, s)))
      else if num = 3 then Some (\<lambda>s. rbind (sys_wait_round (a_xstate s) s) (\<lambda>(r, s).
        Inr (case r of None \<Rightarrow> Slept | Some v \<Rightarrow> Returned v, s)))
      else if num = 5 then Some (\<lambda>s. ret (sys_read dsw s))
      else if num = 6 then Some (\<lambda>s. ret (sys_kill s))
      else if num = 7 then Some (\<lambda>s. ret (sys_exec nm s))
      else if num = 8 then Some (\<lambda>s. ret (sys_fstat s))
      else if num = 10 then Some (\<lambda>s. ret (sys_dup s))
      else if num = 11 then Some (\<lambda>s. rbind (sys_getpid s) (\<lambda>v. Inr (Returned v, s)))
      else if num = 12 then Some (\<lambda>s. ret (sys_sbrk s))
      else if num = 15 then Some (\<lambda>s. ret (sys_open nm s))
      else if num = 16 then Some (\<lambda>s. ret (sys_write dsw s))
      else if num = 21 then Some (\<lambda>s. ret (sys_close s))
      else if num = 22 then Some (\<lambda>s. Inr (Gone, poweroff s))
      else if num = 23 then Some (\<lambda>s. ret (sys_consolemode s))
      else if num = 24 then Some (\<lambda>s. rbind (sys_freemem s) (\<lambda>v. Inr (Returned v, s)))
      else if num = 25 then Some (\<lambda>s. ret (sys_vmstat s))
      else if num = 26 then Some (\<lambda>s. ret (sys_filemap s))
      else None)"

definition syscall ::
  "device \<Rightarrow> 'a kernel_state_scheme devsw \<Rightarrow> u8 list \<Rightarrow> 'a kernel_state_scheme \<Rightarrow> (outcome \<times> 'a kernel_state_scheme) res" where
  "syscall D dsw nm s = rbind (cur s) (\<lambda>p.
     let num = sint (ucast (tf_get p TF_a7 s) :: u32) in
     case (if num > 0 \<and> num < 27 then syscalls dsw nm num else None) of
       Some f \<Rightarrow> rbind (f s) (\<lambda>(r, s). Inr (case r of
           Returned v \<Rightarrow> (Returned v, tf_set p TF_a0 v s)
         | _ \<Rightarrow> (r, s)))
     | None \<Rightarrow> rbind (printf D (''%d %s: unknown sys call %d'' @ [CHR 0x0A])
           [ANum (scast (p_pid (getp s p))), AStr (Some (takeWhile (\<lambda>c. c \<noteq> 0) (p_name (getp s p)))), ANum (of_int num)] s)
         (\<lambda>s. Inr (Returned (-1), tf_set p TF_a0 (-1) s)))"

section \<open>Device interrupts\<close>

definition clockintr :: "'a kernel_state_scheme \<Rightarrow> 'a kernel_state_scheme" where
  "clockintr s =
     (let s = (if cpuid s = 0 then wakeup TicksPtr (s\<lparr>ticks := ticks s + 1\<rparr>) else s)
      in s\<lparr>csr := w_stimecmp (r_time (csr s) + 1000000) (csr s)\<rparr>)"

definition devintr :: "device \<Rightarrow> 'a kernel_state_scheme \<Rightarrow> (nat \<times> 'a kernel_state_scheme) res" where
  "devintr D s =
     (let sc = r_scause (csr s) in
      if sc = 0x8000000000000009
      then let (irq, s) = plic_claim D s in
        rbind (if irq = ucast UART0_IRQ then uartintr D s
               else if irq = ucast VIRTIO0_IRQ then virtio_disk_intr D s
               else if irq \<noteq> 0 then printf D (''unexpected interrupt irq=%d'' @ [CHR 0x0A]) [ANum (scast irq)] s
               else Inr s)
          (\<lambda>s. Inr (1, if irq \<noteq> 0 then plic_complete irq s else s))
      else if sc = 0x8000000000000005 then Inr (2, clockintr s)
      else Inr (0, s))"

section \<open>Traps\<close>

definition fpu_opcode :: "u32 \<Rightarrow> bool" where
  "fpu_opcode inst = (inst AND 0x7f \<in> {0x07, 0x27, 0x43, 0x47, 0x4b, 0x4f, 0x53})"

definition user_fpu_instruction :: "nat \<Rightarrow> 'a kernel_state_scheme \<Rightarrow> (bool \<times> 'a kernel_state_scheme) res" where
  "user_fpu_instruction p s =
     rbind (copyin s (p_pagetable (getp s p)) (a_inst s) (tf_get p TF_epc s) 4) (\<lambda>(r, s).
       if r < 0 then Inr (False, s) else Inr (fpu_opcode (ld32 (mem s) (a_inst s)), s))"

definition trapinit :: "'a kernel_state_scheme \<Rightarrow> 'a kernel_state_scheme" where
  "trapinit s = initlock TicksLock ''time'' s"

definition trapinithart :: "'a kernel_state_scheme \<Rightarrow> 'a kernel_state_scheme" where
  "trapinithart s = s\<lparr>csr := w_stvec (a_kernelvec s) (csr s)\<rparr>"

definition prepare_return :: "'a kernel_state_scheme \<Rightarrow> 'a kernel_state_scheme res" where
  "prepare_return s = rbind (cur s) (\<lambda>p.
     let s = s\<lparr>csr := intr_off (csr s)\<rparr>;
         trampoline_uservec = TRAMPOLINE + (a_uservec s - a_trampoline s);
         s = s\<lparr>csr := w_stvec trampoline_uservec (csr s)\<rparr>;
         s = tf_set p TF_kernel_satp (r_satp (csr s)) s;
         s = tf_set p TF_kernel_sp (p_kstack (getp s p) + PGSIZE) s;
         s = tf_set p TF_kernel_trap (a_usertrap s) s;
         s = tf_set p TF_kernel_hartid (r_tp (csr s)) s;
         x = r_sstatus (csr s);
         x = x AND NOT SSTATUS_SPP;
         x = x OR SSTATUS_SPIE;
         x = x AND NOT SSTATUS_FS_MASK;
         x = x OR (if p_fpu_active (getp s p) then SSTATUS_FS_DIRTY else SSTATUS_FS_OFF);
         s = s\<lparr>csr := w_sstatus x (csr s)\<rparr>
     in Inr (s\<lparr>csr := w_sepc (tf_get p TF_epc s) (csr s)\<rparr>))"

text \<open>The end of \<^verbatim>\<open>usertrap\<close>, also reached when a process that yielded runs again.\<close>

definition usertrap_return :: "'a kernel_state_scheme \<Rightarrow> (u64 \<times> 'a kernel_state_scheme) res" where
  "usertrap_return s = rbind (prepare_return s) (\<lambda>s. rbind (cur s) (\<lambda>p. Inr (MAKE_SATP (p_pagetable (getp s p)), s)))"

text \<open>
  How \<^verbatim>\<open>usertrap\<close> ends: with the user page table for the trampoline, with the process gone, asleep in
  a system call, or having yielded (with the saved \<^verbatim>\<open>intena\<close>).
\<close>

datatype trap_end = ToUser u64 | Exited | Sleeping | Yielded bool

definition usertrap ::
  "device \<Rightarrow> 'a kernel_state_scheme devsw \<Rightarrow> u8 list \<Rightarrow> 'a kernel_state_scheme \<Rightarrow> (trap_end \<times> 'a kernel_state_scheme) res" where
  "usertrap D dsw nm s =
     (if r_sstatus (csr s) AND SSTATUS_SPP \<noteq> 0 then Inl (Panic ''usertrap: not from user mode'')
      else let s = s\<lparr>csr := w_stvec (a_kernelvec s) (csr s)\<rparr> in
      rbind (cur s) (\<lambda>p.
      let s = tf_set p TF_epc (r_sepc (csr s)) s;
          after = (\<lambda>which_dev s.
            if killed p s then rbind (kexit (-1) s) (\<lambda>s. Inr (Exited, s))
            else if which_dev = (2 :: nat) then rbind (yield s) (\<lambda>(i, s). Inr (Yielded i, s))
            else rbind (usertrap_return s) (\<lambda>(v, s). Inr (ToUser v, s))) in
      if r_scause (csr s) = 8
      then if killed p s then rbind (kexit (-1) s) (\<lambda>s. Inr (Exited, s))
        else let s = tf_set p TF_epc (tf_get p TF_epc s + 4) s;
                 s = s\<lparr>csr := intr_on (csr s)\<rparr> in
          rbind (syscall D dsw nm s) (\<lambda>(r, s). case r of
            Returned _ \<Rightarrow> after 0 s | Gone \<Rightarrow> Inr (Exited, s) | Slept \<Rightarrow> Inr (Sleeping, s))
      else rbind (devintr D s) (\<lambda>(which_dev, s).
        if which_dev \<noteq> 0 then after which_dev s
        else rbind (if r_scause (csr s) = 2 then user_fpu_instruction p s else Inr (False, s)) (\<lambda>(isfpu, s).
          if isfpu then rbind (fpu_handle_trap p s) (after 0)
          else let (pa, s) = (if r_scause (csr s) = 15 \<or> r_scause (csr s) = 13
              then vmfault s (p_pagetable (getp s p)) (r_stval (csr s)) (r_scause (csr s) = 13) else (0, s)) in
          if pa \<noteq> 0 then after 0 s
          else rbind (printf D (''usertrap(): unexpected scause 0x%lx pid=%d'' @ [CHR 0x0A])
                 [ANum (r_scause (csr s)), ANum (scast (p_pid (getp s p)))] s) (\<lambda>s.
            rbind (printf D (''            sepc=0x%lx stval=0x%lx'' @ [CHR 0x0A])
                 [ANum (r_sepc (csr s)), ANum (r_stval (csr s))] s) (\<lambda>s.
              after 0 (setkilled p s)))))))"

text \<open>
  \<^verbatim>\<open>kerneltrap\<close>: \<open>Some intena\<close> when the interrupted process yielded; the trap registers are restored
  by \<open>kerneltrap_back\<close> once it runs again.
\<close>

definition kerneltrap_back :: "u64 \<Rightarrow> u64 \<Rightarrow> 'a kernel_state_scheme \<Rightarrow> 'a kernel_state_scheme" where
  "kerneltrap_back epc status s = s\<lparr>csr := w_sstatus status (w_sepc epc (csr s))\<rparr>"

definition kerneltrap :: "device \<Rightarrow> 'a kernel_state_scheme \<Rightarrow> (bool option \<times> 'a kernel_state_scheme) res" where
  "kerneltrap D s =
     (let epc = r_sepc (csr s); status = r_sstatus (csr s); cause = r_scause (csr s) in
      if status AND SSTATUS_SPP = 0 then Inl (Panic ''kerneltrap: not from supervisor mode'')
      else if intr_get (csr s) then Inl (Panic ''kerneltrap: interrupts enabled'')
      else rbind (devintr D s) (\<lambda>(which_dev, s).
        if which_dev = 0
        then rbind (printf D (''scause=0x%lx sepc=0x%lx stval=0x%lx'' @ [CHR 0x0A])
            [ANum cause, ANum (r_sepc (csr s)), ANum (r_stval (csr s))] s) (\<lambda>_. Inl (Panic ''kerneltrap''))
        else if which_dev = 2 \<and> myproc s \<noteq> None
        then rbind (yield s) (\<lambda>(i, s). Inr (Some i, s))
        else Inr (None, kerneltrap_back epc status s)))"

text \<open>
  \<^verbatim>\<open>forkret\<close>: the process releases the lock the scheduler left it, the very first one initialises the
  file system and executes \<^verbatim>\<open>/init\<close>, whose name and argument vector are constants of the program.
\<close>

definition forkret :: "u8 list \<Rightarrow> 'a kernel_state_scheme \<Rightarrow> (u64 \<times> 'a kernel_state_scheme) res" where
  "forkret nm s = rbind (cur s) (\<lambda>p. rbind (release (ProcLock p) s) (\<lambda>s.
     rbind (if forkret_first s
        then rbind (fsinit ROOTDEV s) (\<lambda>s.
          let s = s\<lparr>forkret_first := False\<rparr> in
          rbind (kexec nm (bytes_of ''/init'') [a_initstr s, 0] s) (\<lambda>(r, s).
            let s = tf_set p TF_a0 (scast r) s in
            if tf_get p TF_a0 s = -1 then Inl (Panic ''exec'') else Inr s))
        else Inr s)
     usertrap_return))"

section \<open>Booting\<close>

definition timerinit :: "csrs \<Rightarrow> csrs" where
  "timerinit h =
     (let h = w_mie (r_mie h OR MIE_STIE) h;
          h = w_menvcfg (r_menvcfg h OR push_bit 63 1) h;
          h = w_mcounteren (r_mcounteren h OR 2) h
      in w_stimecmp (r_time h + 1000000) h)"

text \<open>\<^verbatim>\<open>start\<close> up to \<^verbatim>\<open>mret\<close>; \<open>a_main\<close> is the address of \<^verbatim>\<open>main\<close>.\<close>

definition start :: "u64 \<Rightarrow> u64 \<Rightarrow> 'a kernel_state_scheme \<Rightarrow> 'a kernel_state_scheme" where
  "start a_main dtb_addr s =
     (let s = s\<lparr>boot_dtb := dtb_addr\<rparr>;
          h = csr s;
          x = r_mstatus h;
          x = x AND NOT MSTATUS_MPP_MASK;
          x = x OR MSTATUS_MPP_S;
          h = w_mstatus x h;
          h = w_mepc a_main h;
          h = w_satp 0 h;
          h = w_medeleg 0xffff h;
          h = w_mideleg 0xffff h;
          h = w_sie (r_sie h OR SIE_SEIE OR SIE_STIE) h;
          h = w_pmpaddr0 0x3fffffffffffff h;
          h = w_pmpcfg0 0xf h;
          h = timerinit h;
          h = w_tp (scast (ucast (r_mhartid h) :: u32)) h
      in s\<lparr>csr := h\<rparr>)"

definition kvminit :: "u64 \<Rightarrow> 'a kernel_state_scheme \<Rightarrow> 'a kernel_state_scheme res" where
  "kvminit etext s = rbind (kvmmake s etext (a_trampoline s)) (\<lambda>(pt, s). Inr (s\<lparr>kernel_pagetable := pt\<rparr>))"

definition kvminithart :: "'a kernel_state_scheme \<Rightarrow> 'a kernel_state_scheme" where
  "kvminithart s = s\<lparr>csr := w_satp (MAKE_SATP (kernel_pagetable s)) (csr s)\<rparr>"

text \<open>
  \<^verbatim>\<open>main\<close> up to \<^verbatim>\<open>scheduler\<close>.  \<open>f\<close> bounds the scan of the device tree; a hart other than 0 waits until
  \<^verbatim>\<open>started\<close>.
\<close>

definition main :: "nat \<Rightarrow> device \<Rightarrow> u64 \<Rightarrow> u8 list \<Rightarrow> 'a kernel_state_scheme \<Rightarrow> 'a kernel_state_scheme res" where
  "main f D etext nm s =
     (if cpuid s = 0
      then let (_, s) = consoleinit s; s = printfinit s in
        rbind (printf D [CHR 0x0A] [] s) (\<lambda>s.
        rbind (printf D (''xv6 kernel is booting'' @ [CHR 0x0A]) [] s) (\<lambda>s.
        rbind (printf D [CHR 0x0A] [] s) (\<lambda>s.
        rbind (kinit f s (boot_dtb s)) (\<lambda>s.
        rbind (kvminit etext s) (\<lambda>s.
        let s = kvminithart s;
            s = procinit s;
            s = trapinit s;
            s = trapinithart s;
            s = plicinit s;
            s = plicinithart s;
            s = binit s;
            s = iinit s;
            s = fileinit s in
        rbind (virtio_disk_init D s) (\<lambda>s.
        rbind (userinit nm s) (\<lambda>s. Inr (s\<lparr>started := True\<rparr>))))))))
      else if \<not> started s then Inl Block
      else rbind (printf D (''hart %d starting'' @ [CHR 0x0A]) [ANum (of_nat (cpuid s))] s) (\<lambda>s.
        let s = kvminithart s;
            s = trapinithart s
        in Inr (plicinithart s)))"

end
