(* ===== verification/Cache.thy ===== *)
theory Cache
  imports Bio
begin

text \<open>
  The buffer cache is a cache: its list is always a ring of all the buffers in the order of their use, a
  valid buffer holds its disk block, no block is cached twice, and \<^verbatim>\<open>bread\<close> answers a locked buffer with
  the block's content, recycling the least recently used free buffer when it has to.
\<close>

section \<open>The ring of buffers\<close>

definition nxt :: "'a bio_state_scheme \<Rightarrow> nat \<Rightarrow> nat" where "nxt s i = b_next (getb s i)"
definition prv :: "'a bio_state_scheme \<Rightarrow> nat \<Rightarrow> nat" where "prv s i = b_prev (getb s i)"

definition lru_list :: "'a bio_state_scheme \<Rightarrow> nat list \<Rightarrow> bool" where
  "lru_list s xs \<longleftrightarrow> length (bufs s) = Suc NBUF \<and> distinct xs \<and> set xs = {..<NBUF} \<and> links (nxt s) (prv s) NBUF xs NBUF"

text \<open>What the links do not touch.\<close>

definition core :: "buf \<Rightarrow> bool \<times> bool \<times> u32 \<times> u32 \<times> sleeplock \<times> u32" where
  "core x = (b_valid x, b_disk x, b_dev x, b_blockno x, b_lock x, b_refcnt x)"

lemma core_simps [simp]:
  "core (x\<lparr>b_prev := v\<rparr>) = core x" "core (x\<lparr>b_next := v\<rparr>) = core x"
  by (simp_all add: core_def)

lemma coreD:
  assumes "core x = core y"
  shows "b_valid x = b_valid y" "b_disk x = b_disk y" "b_dev x = b_dev y" "b_blockno x = b_blockno y"
    "b_lock x = b_lock y" "b_refcnt x = b_refcnt y"
  using assms by (simp_all add: core_def)

lemma setb_simps [simp]:
  "length (bufs (setb i f s)) = length (bufs s)" "mem (setb i f s) = mem s" "disk (setb i f s) = disk s"
  "procs (setb i f s) = procs s" "a_bufdata (setb i f s) = a_bufdata s" "cur (setb i f s) = cur s" "myproc (setb i f s) = myproc s"
  by (simp_all add: setb_def cur_def myproc_def mycpu_def cpuid_def)

lemma getb_setb: "i < length (bufs s) \<Longrightarrow> getb (setb i f s) j = (if j = i then f (getb s i) else getb s j)"
  by (simp add: setb_def)

lemma nxt_prv_setb:
  assumes "i < length (bufs s)"
  shows "nxt (setb i (\<lambda>x. x\<lparr>b_next := v\<rparr>) s) = (nxt s)(i := v)" "prv (setb i (\<lambda>x. x\<lparr>b_next := v\<rparr>) s) = prv s"
    "prv (setb i (\<lambda>x. x\<lparr>b_prev := v\<rparr>) s) = (prv s)(i := v)" "nxt (setb i (\<lambda>x. x\<lparr>b_prev := v\<rparr>) s) = nxt s"
  using assms by (auto simp: nxt_def prv_def getb_setb)

lemma setb_out: "\<not> i < length (bufs s) \<Longrightarrow> setb i f s = s"
  by (simp add: setb_def list_update_beyond)

lemma core_setb_same: "(\<And>x. core (f x) = core x) \<Longrightarrow> core (getb (setb i f s) j) = core (getb s j)"
  by (cases "i < length (bufs s)") (simp_all add: getb_setb setb_out)

lemma links_same_core:
  assumes "\<And>x. b_next (f x) = b_next x" "\<And>x. b_prev (f x) = b_prev x"
  shows "nxt (setb i f s) = nxt s \<and> prv (setb i f s) = prv s"
  by (cases "i < length (bufs s)") (auto simp: nxt_def prv_def getb_setb setb_out assms)

section \<open>The two searches\<close>

lemma bget_find_list:
  assumes "lru_list s (ys @ zs)" "length zs \<le> n"
  shows "bget_find n s (hd (zs @ [NBUF])) dev bn
     = Inr (List.find (\<lambda>b. b_dev (getb s b) = dev \<and> b_blockno (getb s b) = bn) zs)"
  using assms
proof (induction zs arbitrary: ys n)
  case Nil
  then show ?case by (cases n) simp_all
next
  case (Cons z zs)
  then obtain k where n: "n = Suc k" "length zs \<le> k" by (cases n) auto
  have "z < NBUF" using Cons.prems(1) by (auto simp: lru_list_def)
  moreover have "b_next (getb s z) = hd (zs @ [NBUF])"
    using Cons.prems(1) links_ends(1) [of "nxt s" "prv s" z zs NBUF] by (simp add: lru_list_def links_append nxt_def)
  moreover have "lru_list s ((ys @ [z]) @ zs)" using Cons.prems(1) by simp
  ultimately show ?case using Cons.IH [of "ys @ [z]" k] n by simp
qed

lemma bget_lru_list:
  assumes "lru_list s (ys @ zs)" "length ys \<le> n"
  shows "bget_lru n s (last (NBUF # ys)) = Inr (List.find (\<lambda>b. b_refcnt (getb s b) = 0) (rev ys))"
  using assms
proof (induction ys arbitrary: zs n rule: rev_induct)
  case Nil
  then show ?case by (cases n) simp_all
next
  case (snoc y ys)
  then obtain k where n: "n = Suc k" "length ys \<le> k" by (cases n) auto
  have "y < NBUF" using snoc.prems(1) by (auto simp: lru_list_def)
  moreover have "b_prev (getb s y) = last (NBUF # ys)"
    using snoc.prems(1) links_ends(2) [of "nxt s" "prv s" NBUF ys y] by (simp add: lru_list_def links_append prv_def)
  moreover have "lru_list s (ys @ (y # zs))" using snoc.prems(1) by simp
  ultimately show ?case using snoc.IH [of "y # zs" k] n by simp
qed

lemma lru_searches:
  assumes "lru_list s xs"
  shows "bget_find NBUF s (b_next (getb s NBUF)) dev bn
       = Inr (List.find (\<lambda>b. b_dev (getb s b) = dev \<and> b_blockno (getb s b) = bn) xs)"
    "bget_lru NBUF s (b_prev (getb s NBUF)) = Inr (List.find (\<lambda>b. b_refcnt (getb s b) = 0) (rev xs))"
proof -
  have l: "length xs = NBUF" using assms distinct_card [of xs] by (simp add: lru_list_def)
  have e: "b_next (getb s NBUF) = hd (xs @ [NBUF])" "b_prev (getb s NBUF) = last (NBUF # xs)"
    using assms links_ends [of "nxt s" "prv s" NBUF xs NBUF] by (auto simp: lru_list_def nxt_def prv_def)
  show "bget_find NBUF s (b_next (getb s NBUF)) dev bn
       = Inr (List.find (\<lambda>b. b_dev (getb s b) = dev \<and> b_blockno (getb s b) = bn) xs)"
    unfolding e using bget_find_list [of s "[]" xs NBUF] assms l by simp
  show "bget_lru NBUF s (b_prev (getb s NBUF)) = Inr (List.find (\<lambda>b. b_refcnt (getb s b) = 0) (rev xs))"
    unfolding e using bget_lru_list [of s xs "[]" NBUF] assms l by simp
qed

section \<open>Moving a buffer to the front\<close>

definition to_front :: "nat \<Rightarrow> 'a bio_state_scheme \<Rightarrow> 'a bio_state_scheme" where
  "to_front b s =
     (let s = setb (b_next (getb s b)) (\<lambda>x. x\<lparr>b_prev := b_prev (getb s b)\<rparr>) s;
          s = setb (b_prev (getb s b)) (\<lambda>x. x\<lparr>b_next := b_next (getb s b)\<rparr>) s;
          s = setb b (\<lambda>x. x\<lparr>b_next := b_next (getb s NBUF)\<rparr>) s;
          s = setb b (\<lambda>x. x\<lparr>b_prev := NBUF\<rparr>) s;
          s = setb (b_next (getb s NBUF)) (\<lambda>x. x\<lparr>b_prev := b\<rparr>) s
      in setb NBUF (\<lambda>x. x\<lparr>b_next := b\<rparr>) s)"

lemma to_front_core [simp]: "core (getb (to_front b s) j) = core (getb s j)"
  by (simp add: to_front_def Let_def core_setb_same)

definition bufs_only :: "'a bio_state_scheme \<Rightarrow> 'a bio_state_scheme \<Rightarrow> bool" where
  "bufs_only s t \<longleftrightarrow> (\<exists>bs. t = s\<lparr>bufs := bs\<rparr>)"

lemma bufs_only_refl: "bufs_only s s"
  unfolding bufs_only_def by (rule exI [of _ "bufs s"]) simp

lemma bufs_only_setb: "bufs_only s t \<Longrightarrow> bufs_only s (setb i f t)"
  by (auto simp: bufs_only_def setb_def)

lemma bufs_only_trans: "bufs_only s t \<Longrightarrow> bufs_only t u \<Longrightarrow> bufs_only s u"
  by (auto simp: bufs_only_def)

lemma to_front_frame: "bufs_only s (to_front b s)"
  unfolding to_front_def Let_def by (intro bufs_only_setb bufs_only_refl)

lemma lru_list_neighbours:
  assumes "lru_list s (ys @ b # zs)"
  shows "nxt s b \<in> set ys \<union> set zs \<union> {NBUF}" "prv s b \<in> set ys \<union> set zs \<union> {NBUF}"
proof -
  have "links (nxt s) (prv s) NBUF ys b" "links (nxt s) (prv s) b zs NBUF"
    using assms by (simp_all add: lru_list_def links_append)
  then have "nxt s b = hd (zs @ [NBUF])" "prv s b = last (NBUF # ys)" by (metis links_ends)+
  moreover have "hd (zs @ [NBUF]) \<in> set zs \<union> {NBUF}" "last (NBUF # ys) \<in> set ys \<union> {NBUF}"
    by (cases zs; simp) (metis last_in_set list.simps(3) set_ConsD Un_iff insert_iff list.set(2))
  ultimately show "nxt s b \<in> set ys \<union> set zs \<union> {NBUF}" "prv s b \<in> set ys \<union> set zs \<union> {NBUF}" by auto
qed

lemma to_front_list:
  assumes "lru_list s (ys @ b # zs)"
  shows "lru_list (to_front b s) (b # ys @ zs)"
proof -
  let ?n = "nxt s" and ?p = "prv s"
  have len: "length (bufs s) = Suc NBUF" and d: "distinct (ys @ b # zs)" and st: "set (ys @ b # zs) = {..<NBUF}"
    and lk: "links ?n ?p NBUF (ys @ b # zs) NBUF"
    using assms by (simp_all add: lru_list_def)
  have bN: "b < NBUF" and sub: "set ys \<union> set zs \<subseteq> {..<NBUF}" using st by auto
  then have dN: "distinct (NBUF # ys @ b # zs)" using d by auto
  note nb = lru_list_neighbours [OF assms]
  have nl: "?n b < Suc NBUF" "?p b < Suc NBUF" using nb sub by (auto simp: less_Suc_eq)
  have neq: "?n b \<noteq> b" "?p b \<noteq> b" using nb d bN by auto
  define n1 p1 where "n1 = ?n(?p b := ?n b)" and "p1 = ?p(?n b := ?p b)"
  have u: "links n1 p1 NBUF (ys @ zs) NBUF" unfolding n1_def p1_def by (rule ring_unlink [OF lk dN])
  have push: "links (n1(b := n1 NBUF, NBUF := b)) (p1(b := NBUF, n1 NBUF := b)) NBUF (b # ys @ zs) NBUF"
    using dN bN by (intro ring_push [OF u]) auto
  have hd: "n1 NBUF \<in> set ys \<union> set zs \<union> {NBUF}"
    using links_ends(1) [OF u] hd_in_set [of "(ys @ zs) @ [NBUF]"] by auto
  have hl: "n1 NBUF < Suc NBUF" "n1 NBUF \<noteq> b" using hd sub d bN by (auto simp: less_Suc_eq)
  let ?s1 = "setb (?n b) (\<lambda>x. x\<lparr>b_prev := ?p b\<rparr>) s"
  let ?s2 = "setb (?p b) (\<lambda>x. x\<lparr>b_next := ?n b\<rparr>) ?s1"
  let ?s3 = "setb b (\<lambda>x. x\<lparr>b_next := n1 NBUF\<rparr>) ?s2"
  let ?s4 = "setb b (\<lambda>x. x\<lparr>b_prev := NBUF\<rparr>) ?s3"
  let ?s5 = "setb (n1 NBUF) (\<lambda>x. x\<lparr>b_prev := b\<rparr>) ?s4"
  let ?s6 = "setb NBUF (\<lambda>x. x\<lparr>b_next := b\<rparr>) ?s5"
  have f1: "nxt ?s1 = ?n" "prv ?s1 = p1" using nl len by (simp_all add: nxt_prv_setb p1_def)
  have f2: "nxt ?s2 = n1" "prv ?s2 = p1" using nl len f1 by (simp_all add: nxt_prv_setb n1_def)
  have f4: "nxt ?s4 = n1(b := n1 NBUF)" "prv ?s4 = p1(b := NBUF)" using bN len f2 by (simp_all add: nxt_prv_setb)
  have f6: "nxt ?s6 = n1(b := n1 NBUF, NBUF := b)" "prv ?s6 = p1(b := NBUF, n1 NBUF := b)"
    using hl len f4 by (simp_all add: nxt_prv_setb)
  have g1: "b_prev (getb ?s1 b) = ?p b" "b_next (getb ?s1 b) = ?n b"
    using f1 neq by (simp_all add: nxt_def [symmetric] prv_def [symmetric] p1_def)
  have g2: "b_next (getb ?s2 NBUF) = n1 NBUF" using f2(1) by (simp add: fun_eq_iff nxt_def)
  have g4: "b_next (getb ?s4 NBUF) = n1 NBUF" using f4(1) bN by (auto simp: fun_eq_iff nxt_def)
  have "to_front b s = ?s6"
    unfolding to_front_def Let_def using g1 g2 g4 by (simp add: nxt_def prv_def)
  then show ?thesis
    using f6 push dN st len by (auto simp: lru_list_def)
qed

section \<open>The invariant\<close>

definition data_sep :: "'a bio_state_scheme \<Rightarrow> bool" where
  "data_sep s \<longleftrightarrow> (\<forall>b<NBUF. unat (a_bufdata s b) + BSIZE < 18446744073709551616)
     \<and> (\<forall>b<NBUF. \<forall>c<NBUF. b \<noteq> c \<longrightarrow> unat (a_bufdata s b) + BSIZE \<le> unat (a_bufdata s c)
         \<or> unat (a_bufdata s c) + BSIZE \<le> unat (a_bufdata s b))"

definition buf_data :: "'a bio_state_scheme \<Rightarrow> nat \<Rightarrow> u8 list" where
  "buf_data s b = ld_bytes (mem s) (a_bufdata s b) BSIZE"

definition bio_ok :: "'a bio_state_scheme \<Rightarrow> nat list \<Rightarrow> bool" where
  "bio_ok s xs \<longleftrightarrow> lru_list s xs \<and> data_sep s \<and> (\<forall>n. length (disk s n) = BSIZE)
     \<and> (\<forall>b<NBUF. b_refcnt (getb s b) = 0 \<longrightarrow> \<not> sl_locked (b_lock (getb s b)))
     \<and> (\<forall>b<NBUF. b_valid (getb s b) \<longrightarrow> buf_data s b = disk s (b_blockno (getb s b)))
     \<and> (\<forall>b<NBUF. \<forall>c<NBUF. b \<noteq> c \<longrightarrow> b_dev (getb s b) \<noteq> 0 \<longrightarrow> b_dev (getb s b) = b_dev (getb s c)
         \<longrightarrow> b_blockno (getb s b) \<noteq> b_blockno (getb s c))"

text \<open>The addresses of the buffers' data.\<close>

definition buf_area :: "'a bio_state_scheme \<Rightarrow> u64 set" where
  "buf_area s = {x. \<exists>b<NBUF. unat (x - a_bufdata s b) < BSIZE}"

lemma buf_data_cong: "(\<And>i. i < BSIZE \<Longrightarrow> mem s (a_bufdata s b + of_nat i) = mem t (a_bufdata s b + of_nat i))
    \<Longrightarrow> a_bufdata t b = a_bufdata s b \<Longrightarrow> buf_data s b = buf_data t b"
  by (simp add: buf_data_def ld_bytes_def)

text \<open>Processes that were woken, and nothing else of the table; the running process is not touched.\<close>

definition woke :: "nat option \<Rightarrow> proc list \<Rightarrow> proc list \<Rightarrow> bool" where
  "woke me ps qs \<longleftrightarrow> length qs = length ps
     \<and> (\<forall>i<length ps. qs ! i = ps ! i \<or> (me \<noteq> Some i \<and> p_state (ps ! i) = SLEEPING \<and> qs ! i = (ps ! i)\<lparr>p_state := RUNNABLE\<rparr>))"

lemma woke_refl: "woke me ps ps"
  by (simp add: woke_def)

lemma woke_trans: "woke me ps qs \<Longrightarrow> woke me qs rs \<Longrightarrow> woke me ps rs"
  unfolding woke_def by (intro conjI allI impI; simp; metis procstate.distinct(21) proc.select_convs(1) proc.surjective proc.update_convs(1))

lemma woke_woken: "woke me ps (woken n chan me ps)"
  by (simp add: woke_def wake_one_def)

lemma woke_me: "woke (Some i) ps qs \<Longrightarrow> i < length ps \<Longrightarrow> qs ! i = ps ! i"
  by (auto simp: woke_def)

definition bio_frame :: "'a bio_state_scheme \<Rightarrow> 'a bio_state_scheme \<Rightarrow> bool" where
  "bio_frame s t \<longleftrightarrow> (\<exists>m ps bs. t = s\<lparr>mem := m, procs := ps, bufs := bs\<rparr>
     \<and> woke (myproc s) (procs s) ps \<and> (\<forall>x. x \<notin> buf_area s \<longrightarrow> m x = mem s x))"

lemma bio_frame_keeps:
  assumes "bio_frame s t"
  shows "disk t = disk s" "a_bufdata t = a_bufdata s" "buf_area t = buf_area s" "cur t = cur s" "myproc t = myproc s"
    "woke (myproc s) (procs s) (procs t)" "x \<notin> buf_area s \<Longrightarrow> mem t x = mem s x"
  using assms by (auto simp: bio_frame_def buf_area_def cur_def myproc_def mycpu_def cpuid_def)

lemma bio_frame_trans: "bio_frame s t \<Longrightarrow> bio_frame t u \<Longrightarrow> bio_frame s u"
proof -
  assume f: "bio_frame s t" and g: "bio_frame t u"
  note k = bio_frame_keeps [OF f] and k' = bio_frame_keeps [OF g]
  obtain m ps bs where t: "t = s\<lparr>mem := m, procs := ps, bufs := bs\<rparr>" using f by (auto simp: bio_frame_def)
  obtain m' ps' bs' where u: "u = t\<lparr>mem := m', procs := ps', bufs := bs'\<rparr>" using g by (auto simp: bio_frame_def)
  have "u = s\<lparr>mem := m', procs := ps', bufs := bs'\<rparr>" by (simp add: u t)
  moreover have "woke (myproc s) (procs s) ps'" using woke_trans [OF k(6)] k'(6) k(5) u by simp
  moreover have "\<forall>x. x \<notin> buf_area s \<longrightarrow> m' x = mem s x" using k(7) k'(7) k(3) u by simp
  ultimately show ?thesis unfolding bio_frame_def by blast
qed

lemma bio_frame_bufs_only: "bufs_only s t \<Longrightarrow> bio_frame s t"
  unfolding bufs_only_def bio_frame_def by (auto intro!: exI [of _ "mem s"] exI [of _ "procs s"] simp: woke_refl)

section \<open>bget\<close>

definition caches :: "'a bio_state_scheme \<Rightarrow> u32 \<Rightarrow> u32 \<Rightarrow> nat \<Rightarrow> bool" where
  "caches s dev bn b \<longleftrightarrow> b_dev (getb s b) = dev \<and> b_blockno (getb s b) = bn"

text \<open>The buffer a block gets: the one that caches it, else the least recently used free one.\<close>

definition chosen :: "'a bio_state_scheme \<Rightarrow> nat list \<Rightarrow> u32 \<Rightarrow> u32 \<Rightarrow> nat option" where
  "chosen s xs dev bn = (case List.find (caches s dev bn) xs of
     Some b \<Rightarrow> Some b | None \<Rightarrow> List.find (\<lambda>b. b_refcnt (getb s b) = 0) (rev xs))"

text \<open>What a caller must ensure to get a block without waiting: the block is not locked, and there is a
  buffer for it.\<close>

definition block_free :: "'a bio_state_scheme \<Rightarrow> nat list \<Rightarrow> u32 \<Rightarrow> u32 \<Rightarrow> bool" where
  "block_free s xs dev bn \<longleftrightarrow> (\<exists>b. chosen s xs dev bn = Some b)
     \<and> (\<forall>b<NBUF. b_refcnt (getb s b) \<noteq> - 1 \<and> (caches s dev bn b \<longrightarrow> \<not> sl_locked (b_lock (getb s b))))"

definition locked_by :: "nat \<Rightarrow> nat \<Rightarrow> 'a bio_state_scheme \<Rightarrow> bool" where
  "locked_by p b s \<longleftrightarrow> sl_locked (b_lock (getb s b)) \<and> sl_pid (b_lock (getb s b)) = p_pid (getp s p)"

lemma find_cache: "List.find (\<lambda>b. b_dev (getb s b) = dev \<and> b_blockno (getb s b) = bn) xs = List.find (caches s dev bn) xs"
  by (rule arg_cong [where f = "\<lambda>P. List.find P xs"]) (simp add: caches_def fun_eq_iff)

lemma chosen_lt: "lru_list s xs \<Longrightarrow> chosen s xs dev bn = Some b \<Longrightarrow> b < NBUF"
  by (auto simp: chosen_def lru_list_def find_Some_iff split: option.splits) (metis lessThan_iff nth_mem length_rev set_rev)+

lemma bget_result:
  assumes "bio_ok s xs" "cur s = Inr p" "block_free s xs dev bn" "chosen s xs dev bn = Some b"
  shows "\<exists>f. bget dev bn s = Inr (b, setb b f s)
    \<and> (\<forall>x. b_next (f x) = b_next x \<and> b_prev (f x) = b_prev x \<and> sl_locked (b_lock (f x)) \<and> sl_pid (b_lock (f x)) = p_pid (getp s p))
    \<and> (if caches s dev bn b then \<forall>x. b_refcnt (f x) = b_refcnt x + 1 \<and> b_valid (f x) = b_valid x \<and> b_dev (f x) = b_dev x \<and> b_blockno (f x) = b_blockno x
       else (\<forall>c<NBUF. \<not> caches s dev bn c) \<and> b_refcnt (getb s b) = 0
         \<and> (\<forall>x. b_refcnt (f x) = 1 \<and> \<not> b_valid (f x) \<and> b_dev (f x) = dev \<and> b_blockno (f x) = bn))"
proof -
  have lru: "lru_list s xs" using assms(1) by (simp add: bio_ok_def)
  then have len: "length (bufs s) = Suc NBUF" and st: "set xs = {..<NBUF}" by (simp_all add: lru_list_def)
  have bN: "b < NBUF" by (rule chosen_lt [OF lru assms(4)])
  let ?pid = "p_pid (getp s p)"
  have lock: "block_lock b (setb b g s) = Inr (b, setb b (\<lambda>x. (g x)\<lparr>b_lock := (b_lock (getb s b))\<lparr>sl_locked := True, sl_pid := ?pid\<rparr>\<rparr>) s)"
    if "b_lock (g (getb s b)) = b_lock (getb s b)" "\<not> sl_locked (b_lock (getb s b))" for g
    using that assms(2) bN len
    by (simp add: block_lock_def acquiresleep_def getb_setb) (simp add: setb_def)
  show ?thesis
  proof (cases "List.find (caches s dev bn) xs")
    case (Some c)
    have cb: "c = b" using assms(4) Some by (simp add: chosen_def)
    then have c: "c = b" "caches s dev bn b" using Some by (auto simp: find_Some_iff)
    have ul: "\<not> sl_locked (b_lock (getb s b))" using assms(3) bN c(2) by (simp add: block_free_def)
    show ?thesis
      using lru_searches(1) [OF lru, of dev bn, unfolded find_cache] Some c
        lock [of "\<lambda>x. x\<lparr>b_refcnt := b_refcnt x + 1\<rparr>"] ul
      by (intro exI [of _ "\<lambda>x. x\<lparr>b_refcnt := b_refcnt x + 1, b_lock := (b_lock (getb s b))\<lparr>sl_locked := True, sl_pid := ?pid\<rparr>\<rparr>"])
        (simp add: bget_def)
  next
    case None
    then have none: "\<forall>c<NBUF. \<not> caches s dev bn c" using st by (auto simp: find_None_iff)
    have fr: "List.find (\<lambda>b. b_refcnt (getb s b) = 0) (rev xs) = Some b" using assms(4) None by (simp add: chosen_def)
    then have r0: "b_refcnt (getb s b) = 0" by (auto simp: find_Some_iff)
    then have ul: "\<not> sl_locked (b_lock (getb s b))" using assms(1) bN by (simp add: bio_ok_def)
    show ?thesis
      using lru_searches(1) [OF lru, of dev bn, unfolded find_cache] lru_searches(2) [OF lru] None fr none r0 bN
        lock [of "\<lambda>x. x\<lparr>b_dev := dev, b_blockno := bn, b_valid := False, b_refcnt := 1\<rparr>"] ul
      by (intro exI [of _ "\<lambda>x. x\<lparr>b_dev := dev, b_blockno := bn, b_valid := False, b_refcnt := 1,
            b_lock := (b_lock (getb s b))\<lparr>sl_locked := True, sl_pid := ?pid\<rparr>\<rparr>"])
        (simp add: bget_def)
  qed
qed

section \<open>bread\<close>

lemma bread_spec:
  assumes "bio_ok s xs" "cur s = Inr p" "dev \<noteq> 0" "block_free s xs dev bn" "chosen s xs dev bn = Some b"
  shows "\<exists>t. bread dev bn s = Inr (b, t) \<and> bio_ok t xs \<and> bio_frame s t \<and> procs t = procs s \<and> locked_by p b t
    \<and> caches t dev bn b \<and> b_valid (getb t b) \<and> buf_data t b = disk s bn
    \<and> b_refcnt (getb t b) = (if caches s dev bn b then b_refcnt (getb s b) + 1 else 1)
    \<and> (\<forall>c. c \<noteq> b \<longrightarrow> getb t c = getb s c)"
proof -
  have ok: "lru_list s xs" "data_sep s" "\<And>n. length (disk s n) = BSIZE"
      "\<And>c. c < NBUF \<Longrightarrow> b_refcnt (getb s c) = 0 \<Longrightarrow> \<not> sl_locked (b_lock (getb s c))"
      "\<And>c. c < NBUF \<Longrightarrow> b_valid (getb s c) \<Longrightarrow> buf_data s c = disk s (b_blockno (getb s c))"
      "\<And>c d. c < NBUF \<Longrightarrow> d < NBUF \<Longrightarrow> c \<noteq> d \<Longrightarrow> b_dev (getb s c) \<noteq> 0 \<Longrightarrow> b_dev (getb s c) = b_dev (getb s d)
        \<Longrightarrow> b_blockno (getb s c) \<noteq> b_blockno (getb s d)"
    using assms(1) by (simp_all add: bio_ok_def)
  have bN: "b < NBUF" and len: "length (bufs s) = Suc NBUF"
    using chosen_lt [OF ok(1) assms(5)] ok(1) by (simp_all add: lru_list_def)
  then have bl: "b < length (bufs s)" by simp
  obtain f where f: "bget dev bn s = Inr (b, setb b f s)"
      "\<And>x. b_next (f x) = b_next x" "\<And>x. b_prev (f x) = b_prev x" "\<And>x. sl_locked (b_lock (f x))"
      "\<And>x. sl_pid (b_lock (f x)) = p_pid (getp s p)"
    and f2: "if caches s dev bn b then \<forall>x. b_refcnt (f x) = b_refcnt x + 1 \<and> b_valid (f x) = b_valid x \<and> b_dev (f x) = b_dev x \<and> b_blockno (f x) = b_blockno x
       else (\<forall>c<NBUF. \<not> caches s dev bn c) \<and> b_refcnt (getb s b) = 0
         \<and> (\<forall>x. b_refcnt (f x) = 1 \<and> \<not> b_valid (f x) \<and> b_dev (f x) = dev \<and> b_blockno (f x) = bn)"
    using bget_result [OF assms(1,2,4,5)] by blast
  define u where "u = setb b f s"
  have gu: "getb u c = (if c = b then f (getb s b) else getb s c)" for c using bl by (simp add: u_def getb_setb)
  have cu: "b_dev (getb u b) = dev" "b_blockno (getb u b) = bn"
    using f2 gu by (auto simp: caches_def split: if_splits)
  define t where "t = (if b_valid (getb u b) then u else setb b (\<lambda>x. x\<lparr>b_valid := True\<rparr>) (disk_transfer b False u))"
  have run: "bread dev bn s = Inr (b, t)" using f(1) by (simp add: bread_def u_def [symmetric] t_def)
  have lu: "length (bufs u) = Suc NBUF" using len by (simp add: u_def)
  have tf: "bufs (disk_transfer b False u) = bufs u" "length (bufs (disk_transfer b False u)) = Suc NBUF"
    using lu by (simp_all add: disk_transfer_def)
  have gt: "getb t c = (if c = b then (f (getb s b))\<lparr>b_valid := True\<rparr> else getb s c)" for c
  proof (cases "b_valid (getb u b)")
    case True
    have "x\<lparr>b_valid := True\<rparr> = x" if "b_valid x" for x :: buf using that by (cases x) simp
    with True show ?thesis by (simp add: t_def gu)
  next
    case False
    then show ?thesis using bN tf by (simp add: t_def getb_setb gu)
  qed
  have mt: "mem t x = (if \<not> b_valid (getb u b) \<and> unat (x - a_bufdata s b) < BSIZE then disk s bn ! unat (x - a_bufdata s b) else mem s x)" for x
  proof -
    have "st_bytes (mem s) (a_bufdata s b) (disk s bn) x
        = (if unat (x - a_bufdata s b) < BSIZE then disk s bn ! unat (x - a_bufdata s b) else mem s x)"
      using st_bytes_apply [of "disk s bn" "mem s" "a_bufdata s b" x] ok(3) by (simp add: BSIZE_def)
    then show ?thesis
      by (simp add: t_def disk_transfer_def u_def cu [unfolded u_def])
  qed
  have tk: "disk t = disk s" "a_bufdata t = a_bufdata s" "procs t = procs s" "cur t = cur s" "length (bufs t) = Suc NBUF"
    using len by (simp_all add: t_def u_def disk_transfer_def cur_def myproc_def mycpu_def cpuid_def setb_def)
  have other: "buf_data t c = buf_data s c" if c: "c < NBUF" "c \<noteq> b" for c
  proof (rule buf_data_cong)
    fix i assume i: "i < BSIZE"
    have sep: "unat (a_bufdata s b) + BSIZE \<le> unat (a_bufdata s c) \<or> unat (a_bufdata s c) + BSIZE \<le> unat (a_bufdata s b)"
      and rb: "unat (a_bufdata s b) + BSIZE \<le> 18446744073709551616" and rc: "unat (a_bufdata s c) + BSIZE \<le> 18446744073709551616"
      using ok(2) c bN by (auto simp: data_sep_def intro: less_imp_le)
    have "unat (a_bufdata s c + of_nat i) = unat (a_bufdata s c) + i"
      using rc i by (simp add: unat_add_nowrap unat_of_nat64 BSIZE_def)
    then have "\<not> unat (a_bufdata s c + of_nat i - a_bufdata s b) < BSIZE"
      using unat_diff_lt_iff [OF rb] sep i by auto
    then show "mem t (a_bufdata t c + of_nat i) = mem s (a_bufdata t c + of_nat i)" by (simp add: mt tk)
  qed (simp add: tk)
  have mine: "buf_data t b = disk s bn"
  proof (cases "b_valid (getb u b)")
    case True
    then have "caches s dev bn b" "b_valid (getb s b)" using f2 gu by (auto split: if_splits)
    then have "buf_data s b = disk s bn" using ok(5) [OF bN] by (simp add: caches_def)
    moreover have "buf_data t b = buf_data s b" using True by (simp add: buf_data_def tk mt ld_bytes_def)
    ultimately show ?thesis by simp
  next
    case False
    then show ?thesis
      using ok(3) by (intro list_eq_nthI) (simp_all add: buf_data_def tk mt unat_of_nat64 BSIZE_def)
  qed
  have lru: "lru_list t xs"
  proof -
    have "nxt t = nxt s" "prv t = prv s" by (auto simp: nxt_def prv_def gt f)
    then show ?thesis using ok(1) tk by (simp add: lru_list_def)
  qed
  have rc: "b_refcnt (getb t b) = (if caches s dev bn b then b_refcnt (getb s b) + 1 else 1)"
    using f2 by (simp add: gt split: if_splits)
  have rnz: "b_refcnt (getb t b) \<noteq> 0"
    using assms(4) bN rc by (auto simp: block_free_def eq_neg_iff_add_eq_0 split: if_splits)
  have uniq: "b_blockno (getb t c) \<noteq> b_blockno (getb t d)"
    if "c < NBUF" "d < NBUF" "c \<noteq> d" "b_dev (getb t c) \<noteq> 0" "b_dev (getb t c) = b_dev (getb t d)" for c d
  proof (cases "caches s dev bn b")
    case True
    then have "b_dev (getb t e) = b_dev (getb s e) \<and> b_blockno (getb t e) = b_blockno (getb s e)" for e
      using f2 by (simp add: gt)
    then show ?thesis using ok(6) that by metis
  next
    case False
    then have no: "\<forall>c<NBUF. \<not> caches s dev bn c" using f2 by (simp split: if_splits)
    have new: "b_dev (getb t b) = dev" "b_blockno (getb t b) = bn" using cu by (simp_all add: gt gu)
    show ?thesis
    proof (cases "c = b \<or> d = b")
      case True
      then show ?thesis using that new no by (auto simp: gt caches_def)
    next
      case False
      then show ?thesis using ok(6) [of c d] that by (simp add: gt)
    qed
  qed
  have "bio_ok t xs"
    unfolding bio_ok_def
  proof (intro conjI allI impI)
    show "lru_list t xs" by (rule lru)
    show "data_sep t" using ok(2) by (simp add: data_sep_def tk)
    show "length (disk t n) = BSIZE" for n using ok(3) by (simp add: tk)
    show "\<not> sl_locked (b_lock (getb t c))" if "c < NBUF" "b_refcnt (getb t c) = 0" for c
      using that rnz ok(4) by (cases "c = b") (auto simp: gt)
    show "buf_data t c = disk t (b_blockno (getb t c))" if "c < NBUF" "b_valid (getb t c)" for c
      using that other mine ok(5) cu by (cases "c = b") (simp_all add: gt gu tk)
    show "b_blockno (getb t c) \<noteq> b_blockno (getb t d)"
      if "c < NBUF" "d < NBUF" "c \<noteq> d" "b_dev (getb t c) \<noteq> 0" "b_dev (getb t c) = b_dev (getb t d)" for c d
      by (rule uniq [OF that])
  qed
  moreover have "bio_frame s t"
    unfolding bio_frame_def
  proof (intro exI conjI)
    show "t = s\<lparr>mem := mem t, procs := procs s, bufs := bufs t\<rparr>"
      by (simp add: t_def u_def disk_transfer_def setb_def)
    show "\<forall>x. x \<notin> buf_area s \<longrightarrow> mem t x = mem s x" using bN by (auto simp: mt buf_area_def)
  qed (rule woke_refl)
  moreover have "locked_by p b t" using f by (simp add: locked_by_def gt tk)
  moreover have "caches t dev bn b" "b_valid (getb t b)" using cu by (simp_all add: caches_def gt gu)
  ultimately show ?thesis using run mine rc gt tk(3) by (intro exI [of _ t]) simp
qed

section \<open>brelse\<close>

lemma brelse_spec:
  assumes "bio_ok s xs" "cur s = Inr p" "b < NBUF" "locked_by p b s" "b_refcnt (getb s b) \<noteq> 0"
  defines "ys \<equiv> if b_refcnt (getb s b) = 1 then b # remove1 b xs else xs"
  shows "\<exists>t. brelse b s = Inr t \<and> bio_ok t ys \<and> bio_frame s t \<and> mem t = mem s
    \<and> \<not> sl_locked (b_lock (getb t b)) \<and> b_refcnt (getb t b) = b_refcnt (getb s b) - 1 \<and> b_valid (getb t b) = b_valid (getb s b)
    \<and> (\<forall>dev bn. caches t dev bn b = caches s dev bn b) \<and> (\<forall>c. c \<noteq> b \<longrightarrow> core (getb t c) = core (getb s c))"
proof -
  have lru: "lru_list s xs" using assms(1) by (simp add: bio_ok_def)
  have bl: "b < length (bufs s)" using lru assms(3) by (simp add: lru_list_def)
  define lk where "lk = (b_lock (getb s b))\<lparr>sl_locked := False, sl_pid := 0\<rparr>"
  define u where "u = setb b (\<lambda>x. x\<lparr>b_lock := lk, b_refcnt := b_refcnt x - 1\<rparr>) (wakeup (BufLock b) s)"
  have bw: "bufs (wakeup c s) = bufs s" for c by (simp add: wakeup_eq)
  have gu: "getb u c = (if c = b then (getb s b)\<lparr>b_lock := lk, b_refcnt := b_refcnt (getb s b) - 1\<rparr> else getb s c)" for c
    using bl by (simp add: u_def getb_setb bw)
  define t where "t = (if b_refcnt (getb u b) = 0 then to_front b u else u)"
  have hold: "holdingsleep (b_lock (getb s b)) s = Inr True"
    using assms(2,4) by (simp add: holdingsleep_def locked_by_def)
  have two: "setb b (\<lambda>x. x\<lparr>b_refcnt := b_refcnt x - 1\<rparr>) (setb b (\<lambda>x. x\<lparr>b_lock := lk\<rparr>) (wakeup (BufLock b) s)) = u"
    using bl by (simp add: u_def setb_def bw)
  have run: "brelse b s = Inr t"
    unfolding brelse_def hold rbind_simps releasesleep_def prod.case Let_def lk_def [symmetric] two t_def to_front_def
    by (simp only: if_False simp_thms if_distrib [where f = Inr])
  have lu: "lru_list u xs"
  proof -
    have "nxt u = nxt s" "prv u = prv s" by (auto simp: nxt_def prv_def gu)
    then show ?thesis using lru by (simp add: lru_list_def u_def bw)
  qed
  have core_t: "core (getb t c) = core (getb u c)" for c by (simp add: t_def)
  have lt: "lru_list t ys"
  proof (cases "b_refcnt (getb s b) = 1")
    case True
    have "b \<in> set xs" using lru assms(3) by (simp add: lru_list_def)
    then obtain as bs where xs: "xs = as @ b # bs" "b \<notin> set as" by (meson split_list_first)
    then have "ys = b # as @ bs" using True by (simp add: ys_def remove1_append)
    with to_front_list [of u as b bs] lu xs True show ?thesis by (simp add: t_def gu)
  next
    case False
    then show ?thesis using lu by (simp add: t_def gu ys_def)
  qed
  have bo: "bufs_only (wakeup (BufLock b) s) t"
  proof -
    have "bufs_only (wakeup (BufLock b) s) u" unfolding u_def by (rule bufs_only_setb [OF bufs_only_refl])
    from this bufs_only_trans [OF this to_front_frame] show ?thesis by (simp add: t_def)
  qed
  then obtain bs where tb: "t = (wakeup (BufLock b) s)\<lparr>bufs := bs\<rparr>" by (auto simp: bufs_only_def)
  have tk: "mem t = mem s" "disk t = disk s" "a_bufdata t = a_bufdata s" by (simp_all add: tb wakeup_eq)
  have fr: "bio_frame s t"
    unfolding bio_frame_def using woke_woken [of "myproc s" "procs s" NPROC "BufLock b"]
    by (intro exI [of _ "mem s"] exI [of _ "woken NPROC (BufLock b) (myproc s) (procs s)"] exI [of _ bs]) (simp add: tb wakeup_eq)
  have gb: "core (getb t b) = core ((getb s b)\<lparr>b_lock := lk, b_refcnt := b_refcnt (getb s b) - 1\<rparr>)"
    using core_t gu by simp
  have gc: "core (getb t c) = core (getb s c)" if "c \<noteq> b" for c using core_t gu that by simp
  have val: "b_valid (getb t c) = b_valid (getb s c)" "b_dev (getb t c) = b_dev (getb s c)" "b_blockno (getb t c) = b_blockno (getb s c)" for c
    using gb gc [of c] by (cases "c = b"; simp add: core_def)+
  have ul: "\<not> sl_locked (b_lock (getb t b))" using coreD(5) [OF gb] by (simp add: lk_def)
  have dat: "buf_data t = buf_data s" by (simp add: buf_data_def tk fun_eq_iff)
  have "\<not> sl_locked (b_lock (getb t c))" if "c < NBUF" "b_refcnt (getb t c) = 0" for c
    using that ul assms(1) coreD(5,6) [OF gc [of c]] by (cases "c = b") (simp_all add: bio_ok_def)
  then have "bio_ok t ys"
    using assms(1) lt unfolding bio_ok_def val dat tk data_sep_def by blast
  then show ?thesis
    using run fr tk ul val coreD(6) [OF gb] gc by (auto simp: caches_def)
qed

section \<open>binit\<close>

lemma binit_one_push:
  assumes "length (bufs s) = Suc NBUF" "n < NBUF" "links (nxt s) (prv s) NBUF (rev [0..<n]) NBUF"
  shows "length (bufs (binit_one n s)) = Suc NBUF" "links (nxt (binit_one n s)) (prv (binit_one n s)) NBUF (rev [0..<Suc n]) NBUF"
    "\<forall>c<NBUF. c \<noteq> n \<longrightarrow> core (getb (binit_one n s) c) = core (getb s c)"
    "core (getb (binit_one n s) n) = core ((getb s n)\<lparr>b_lock := initsleeplock ''buffer''\<rparr>)"
    "bufs_only s (binit_one n s)"
proof -
  let ?h = "nxt s NBUF"
  let ?s1 = "setb n (\<lambda>x. x\<lparr>b_next := ?h\<rparr>) s"
  let ?s2 = "setb n (\<lambda>x. x\<lparr>b_prev := NBUF\<rparr>) ?s1"
  let ?s3 = "setb n (\<lambda>x. x\<lparr>b_lock := initsleeplock ''buffer''\<rparr>) ?s2"
  let ?s4 = "setb ?h (\<lambda>x. x\<lparr>b_prev := n\<rparr>) ?s3"
  let ?s5 = "setb NBUF (\<lambda>x. x\<lparr>b_next := n\<rparr>) ?s4"
  have h: "?h \<in> {..<n} \<union> {NBUF}" using links_ends(1) [OF assms(3)] hd_in_set [of "rev [0..<n] @ [NBUF]"] by auto
  then have hl: "?h < Suc NBUF" "?h \<noteq> n" using assms(2) by auto
  have f3: "nxt ?s3 = (nxt s)(n := ?h)" "prv ?s3 = (prv s)(n := NBUF)"
    using assms(1,2) links_same_core [of "\<lambda>x. x\<lparr>b_lock := initsleeplock ''buffer''\<rparr>" n ?s2] by (simp_all add: nxt_prv_setb)
  have f5: "nxt ?s5 = (nxt s)(n := ?h, NBUF := n)" "prv ?s5 = (prv s)(n := NBUF, ?h := n)"
    using assms(1) hl f3 by (simp_all add: nxt_prv_setb)
  have "b_next (getb ?s3 NBUF) = ?h" using f3(1) assms(2) by (auto simp: nxt_def fun_eq_iff)
  then have eq: "binit_one n s = ?s5" by (simp add: binit_one_def Let_def nxt_def)
  show "length (bufs (binit_one n s)) = Suc NBUF" using assms(1) by (simp add: eq)
  show "links (nxt (binit_one n s)) (prv (binit_one n s)) NBUF (rev [0..<Suc n]) NBUF"
    unfolding eq f5 using ring_push [OF assms(3), of n] assms(2) by simp
  show "\<forall>c<NBUF. c \<noteq> n \<longrightarrow> core (getb (binit_one n s) c) = core (getb s c)"
    using assms(1,2) by (simp add: eq core_setb_same getb_setb)
  show "core (getb (binit_one n s) n) = core ((getb s n)\<lparr>b_lock := initsleeplock ''buffer''\<rparr>)"
    using assms(1,2) hl by (simp add: eq getb_setb) (simp add: core_def)
  show "bufs_only s (binit_one n s)" unfolding eq by (intro bufs_only_setb bufs_only_refl)
qed

lemma binit_ring:
  assumes "length (bufs s) = Suc NBUF" "n \<le> NBUF" "links (nxt s) (prv s) NBUF [] NBUF"
  defines "t \<equiv> fold binit_one [0..<n] s"
  shows "length (bufs t) = Suc NBUF \<and> links (nxt t) (prv t) NBUF (rev [0..<n]) NBUF \<and> bufs_only s t
    \<and> (\<forall>c<NBUF. core (getb t c) = core (if c < n then (getb s c)\<lparr>b_lock := initsleeplock ''buffer''\<rparr> else getb s c))"
  using assms(2) unfolding t_def
proof (induction n)
  case 0
  then show ?case using assms bufs_only_refl [of s] by simp
next
  case (Suc n)
  let ?u = "fold binit_one [0..<n] s"
  have ih: "length (bufs ?u) = Suc NBUF" "links (nxt ?u) (prv ?u) NBUF (rev [0..<n]) NBUF" "bufs_only s ?u"
      "\<And>c. c < NBUF \<Longrightarrow> core (getb ?u c) = core (if c < n then (getb s c)\<lparr>b_lock := initsleeplock ''buffer''\<rparr> else getb s c)"
    using Suc by auto
  have n: "n < NBUF" using Suc.prems by simp
  note p = binit_one_push [OF ih(1) n ih(2)]
  have "core (getb (binit_one n ?u) c) = core (if c < Suc n then (getb s c)\<lparr>b_lock := initsleeplock ''buffer''\<rparr> else getb s c)" if "c < NBUF" for c
  proof (cases "c = n")
    case True
    then show ?thesis using p(4) ih(4) [OF n] by (simp add: core_def)
  next
    case False
    then show ?thesis using p(3) ih(4) [OF that] that by (simp add: less_Suc_eq)
  qed
  moreover have "bufs_only s (binit_one n ?u)" using bufs_only_trans [OF ih(3) p(5)] .
  ultimately show ?case using p(1,2) by (simp del: upt_Suc add: upt_Suc_append)
qed

text \<open>A machine as it comes out of reset: zeroed buffers.\<close>

definition zero_bufs :: "'a bio_state_scheme \<Rightarrow> bool" where
  "zero_bufs s \<longleftrightarrow> length (bufs s) = Suc NBUF
     \<and> (\<forall>b<NBUF. \<not> b_valid (getb s b) \<and> b_dev (getb s b) = 0 \<and> b_refcnt (getb s b) = 0)"

lemma cur_bufs: "cur (s\<lparr>bufs := bs\<rparr>) = cur s"
  by (simp add: cur_def myproc_def mycpu_def cpuid_def)

lemma binit_ok:
  assumes "zero_bufs s" "data_sep s" "\<And>n. length (disk s n) = BSIZE"
  shows "bio_ok (binit s) (rev [0..<NBUF])" "\<And>b. b < NBUF \<Longrightarrow> b_refcnt (getb (binit s) b) = 0" "\<And>b. b < NBUF \<Longrightarrow> b_dev (getb (binit s) b) = 0"
    "cur (binit s) = cur s" "disk (binit s) = disk s"
proof -
  let ?s = "setb NBUF (\<lambda>x. x\<lparr>b_prev := NBUF, b_next := NBUF\<rparr>) (initlock BcacheLock ''bcache'' s)"
  have i: "bufs (initlock l nm s) = bufs s" "mem (initlock l nm s) = mem s" "disk (initlock l nm s) = disk s"
      "a_bufdata (initlock l nm s) = a_bufdata s" "cur (initlock l nm s) = cur s" for l nm
    by (simp_all add: initlock_def cur_def myproc_def mycpu_def cpuid_def)
  have len: "length (bufs ?s) = Suc NBUF" using assms(1) by (simp add: zero_bufs_def i)
  have "links (nxt ?s) (prv ?s) NBUF [] NBUF" using assms(1) by (simp add: nxt_def prv_def getb_setb i zero_bufs_def)
  note r = binit_ring [OF len le_refl this, folded binit_def]
  have c: "core (getb (binit s) b) = core ((getb s b)\<lparr>b_lock := initsleeplock ''buffer''\<rparr>)" if "b < NBUF" for b
    using r that assms(1) by (simp add: getb_setb i zero_bufs_def)
  obtain bs where bs: "binit s = ?s\<lparr>bufs := bs\<rparr>" using r by (auto simp: bufs_only_def)
  have k: "disk (binit s) = disk s" "a_bufdata (binit s) = a_bufdata s" by (simp_all add: bs i)
  have z: "\<not> b_valid (getb (binit s) b)" "b_dev (getb (binit s) b) = 0" "b_refcnt (getb (binit s) b) = 0"
      "\<not> sl_locked (b_lock (getb (binit s) b))" if "b < NBUF" for b
    using coreD [OF c [OF that]] assms(1) that by (simp_all add: zero_bufs_def initsleeplock_def)
  have "lru_list (binit s) (rev [0..<NBUF])" using r by (auto simp: lru_list_def)
  then show "bio_ok (binit s) (rev [0..<NBUF])"
    using assms(2,3) z by (simp add: bio_ok_def data_sep_def k)
  show "cur (binit s) = cur s" unfolding bs cur_bufs by (simp add: i)
  show "disk (binit s) = disk s" by (rule k)
  show "b_refcnt (getb (binit s) b) = 0" "b_dev (getb (binit s) b) = 0" if "b < NBUF" for b using z [OF that] by simp_all
qed


section \<open>Reading a block with the cache idle\<close>

text \<open>Between system calls every buffer is free.  A reader takes one block at a time, may do with other
  memory what it likes while it holds it, and leaves the cache idle again.\<close>

definition idle :: "'a bio_state_scheme \<Rightarrow> bool" where
  "idle s \<longleftrightarrow> (\<exists>xs. bio_ok s xs) \<and> (\<forall>b<NBUF. b_refcnt (getb s b) = 0)"

definition bio_same :: "'a bio_state_scheme \<Rightarrow> 'a bio_state_scheme \<Rightarrow> bool" where
  "bio_same s t \<longleftrightarrow> bufs t = bufs s \<and> disk t = disk s \<and> a_bufdata t = a_bufdata s \<and> procs t = procs s
     \<and> csr t = csr s \<and> cpus t = cpus s \<and> (\<forall>x\<in>buf_area s. mem t x = mem s x)"

lemma bio_same_refl: "bio_same s s"
  by (simp add: bio_same_def)

lemma buf_area_mem: "b < NBUF \<Longrightarrow> i < BSIZE \<Longrightarrow> a_bufdata s b + of_nat i \<in> buf_area s"
  by (auto simp: buf_area_def unat_of_nat64 BSIZE_def intro!: exI [of _ b])

lemma bio_same_data: "bio_same s t \<Longrightarrow> b < NBUF \<Longrightarrow> buf_data t b = buf_data s b"
  unfolding buf_data_def bio_same_def ld_bytes_def by (auto simp: buf_area_mem)

lemma bio_same_ok:
  assumes "bio_same s t" "bio_ok s xs"
  shows "bio_ok t xs"
proof -
  have e: "bufs t = bufs s" "disk t = disk s" "a_bufdata t = a_bufdata s" using assms(1) by (simp_all add: bio_same_def)
  have "nxt t = nxt s" "prv t = prv s" by (simp_all add: nxt_def prv_def fun_eq_iff e)
  then show ?thesis
    using assms(2) bio_same_data [OF assms(1)] by (simp add: bio_ok_def lru_list_def data_sep_def e)
qed

lemma bio_same_keeps:
  assumes "bio_same s t"
  shows "cur t = cur s" "locked_by p b t = locked_by p b s" "buf_area t = buf_area s"
  using assms by (simp_all add: bio_same_def cur_def myproc_def mycpu_def cpuid_def locked_by_def buf_area_def)

lemma idle_block_free:
  assumes "bio_ok s xs" "\<forall>b<NBUF. b_refcnt (getb s b) = 0"
  shows "block_free s xs dev bn"
proof -
  have st: "set xs = {..<NBUF}" using assms(1) by (simp add: bio_ok_def lru_list_def)
  have "\<exists>b. List.find (\<lambda>b. b_refcnt (getb s b) = 0) (rev xs) = Some b"
  proof (rule ccontr)
    assume "\<not> ?thesis"
    then have "\<forall>b\<in>set xs. b_refcnt (getb s b) \<noteq> 0" by (auto simp: find_None_iff)
    moreover have "0 \<in> set xs" using st by (simp add: NBUF_def)
    ultimately show False using assms(2) st by auto
  qed
  then show ?thesis
    using assms by (auto simp: block_free_def chosen_def bio_ok_def split: option.splits)
qed

lemma with_block:
  assumes "idle s" "cur s = Inr p" "dev \<noteq> 0"
  shows "\<exists>b t. bread dev bn s = Inr (b, t) \<and> b < NBUF \<and> bio_frame s t \<and> procs t = procs s \<and> buf_data t b = disk s bn
    \<and> (\<forall>t'. bio_same t t' \<longrightarrow> (\<exists>u. brelse b t' = Inr u \<and> idle u \<and> bio_frame t' u \<and> mem u = mem t'))"
proof -
  obtain xs where xs: "bio_ok s xs" "\<forall>b<NBUF. b_refcnt (getb s b) = 0" using assms(1) by (auto simp: idle_def)
  note fr = idle_block_free [OF xs, of dev bn]
  then obtain b where b: "chosen s xs dev bn = Some b" by (auto simp: block_free_def)
  have bN: "b < NBUF" using chosen_lt [OF _ b] xs(1) by (simp add: bio_ok_def)
  obtain t where t: "bread dev bn s = Inr (b, t)" "bio_ok t xs" "bio_frame s t" "procs t = procs s" "locked_by p b t"
      "buf_data t b = disk s bn" "b_refcnt (getb t b) = (if caches s dev bn b then b_refcnt (getb s b) + 1 else 1)"
      "\<And>c. c \<noteq> b \<Longrightarrow> getb t c = getb s c"
    using bread_spec [OF xs(1) assms(2,3) fr b] by blast
  have one: "b_refcnt (getb t b) = 1" using t(7) xs(2) bN by simp
  have "\<exists>u. brelse b t' = Inr u \<and> idle u \<and> bio_frame t' u \<and> mem u = mem t'" if same: "bio_same t t'" for t'
  proof -
    have bt: "bufs t' = bufs t" using same by (simp add: bio_same_def)
    have "cur t' = Inr p" using bio_same_keeps(1) [OF same] bio_frame_keeps(4) [OF t(3)] assms(2) by simp
    then obtain u where u: "brelse b t' = Inr u" "bio_ok u (b # remove1 b xs)" "bio_frame t' u" "mem u = mem t'"
        "b_refcnt (getb u b) = b_refcnt (getb t' b) - 1" "\<And>c. c \<noteq> b \<Longrightarrow> core (getb u c) = core (getb t' c)"
      using brelse_spec [OF bio_same_ok [OF same t(2)] _ bN, of p] bio_same_keeps(2) [OF same] t(5) one bt by auto
    have "b_refcnt (getb u c) = 0" if "c < NBUF" for c
      using u(5) coreD(6) [OF u(6)] bt one t(8) xs(2) that by (cases "c = b") auto
    then show ?thesis using u by (auto simp: idle_def)
  qed
  then show ?thesis using t bN by blast
qed

text \<open>A machine at boot: one hart, running process 0, before \<^verbatim>\<open>binit\<close>, with the disk image \<open>D\<close>.\<close>

definition boot_bio :: "(u32 \<Rightarrow> u8 list) \<Rightarrow> 'a bio_state_scheme \<Rightarrow> 'a bio_state_scheme" where
  "boot_bio D z = z\<lparr>csr := boot_csrs 0, cpus := (\<lambda>h. idle_cpu\<lparr>c_proc := Some 0\<rparr>),
     bufs := replicate 31 \<lparr>b_valid = False, b_disk = False, b_dev = 0, b_blockno = 0, b_lock = initsleeplock [], b_refcnt = 0, b_prev = 0, b_next = 0\<rparr>,
     disk := D, a_bufdata := (\<lambda>b. of_nat (1024 * b))\<rparr>"

lemma boot_bio_ok:
  assumes l: "\<And>n. length (D n) = BSIZE"
  shows "bio_ok (binit (boot_bio D z)) (rev [0..<NBUF])" "cur (binit (boot_bio D z)) = Inr 0"
  "block_free (binit (boot_bio D z)) (rev [0..<NBUF]) 1 7" "chosen (binit (boot_bio D z)) (rev [0..<NBUF]) 1 7 = Some 0"
  "disk (binit (boot_bio D z)) = D" "b < NBUF \<Longrightarrow> b_refcnt (getb (binit (boot_bio D z)) b) = 0"
proof -
  let ?s = "boot_bio D z"
  have z: "zero_bufs ?s" by (simp add: zero_bufs_def boot_bio_def NBUF_def)
  have u: "unat (of_nat (1024 * b) :: u64) = 1024 * b" if "b < 30" for b
    using that by (intro unat_of_nat64) simp
  have d: "data_sep ?s"
    unfolding data_sep_def
  proof (intro conjI allI impI)
    fix b c assume "b < NBUF"
    then show "unat (a_bufdata ?s b) + BSIZE < 18446744073709551616"
      using u [of b] by (simp add: boot_bio_def BSIZE_def NBUF_def)
    assume "c < NBUF" "b \<noteq> c"
    then show "unat (a_bufdata ?s b) + BSIZE \<le> unat (a_bufdata ?s c) \<or> unat (a_bufdata ?s c) + BSIZE \<le> unat (a_bufdata ?s b)"
      using u [of b] u [of c] \<open>b < NBUF\<close> by (auto simp: boot_bio_def BSIZE_def NBUF_def)
  qed
  have "length (disk ?s n) = BSIZE" for n using l by (simp add: boot_bio_def)
  note ok = binit_ok [OF z d this]
  show "bio_ok (binit ?s) (rev [0..<NBUF])" by (rule ok)
  show "b < NBUF \<Longrightarrow> b_refcnt (getb (binit ?s) b) = 0" by (rule ok(2))
  show "cur (binit ?s) = Inr 0" using ok(4) by (simp add: boot_bio_def cur_def myproc_def mycpu_def)
  show "disk (binit ?s) = D" using ok(5) by (simp add: boot_bio_def)
  have no: "\<not> caches (binit ?s) 1 7 b" if "b < NBUF" for b using ok(3) [OF that] by (simp add: caches_def)
  have "List.find (caches (binit ?s) 1 7) (rev [0..<NBUF]) = None" using no by (auto simp: find_None_iff)
  moreover have "rev (rev [0..<NBUF]) = 0 # [1..<NBUF]" by (simp add: NBUF_def upt_conv_Cons)
  ultimately show ch: "chosen (binit ?s) (rev [0..<NBUF]) 1 7 = Some 0"
    using ok(2) [of 0] by (simp add: chosen_def NBUF_def)
  show "block_free (binit ?s) (rev [0..<NBUF]) 1 7" using ch no ok(2) by (simp add: block_free_def)
qed

lemma binit_frame: "\<exists>l bs. binit s = s\<lparr>locks := l, bufs := bs\<rparr>"
proof -
  have one: "bufs_only s t \<Longrightarrow> bufs_only s (binit_one b t)" for s t :: "'a bio_state_scheme" and b
    unfolding binit_one_def Let_def by (intro bufs_only_setb)
  have fold: "bufs_only s t \<Longrightarrow> bufs_only s (fold binit_one bs t)" for s t :: "'a bio_state_scheme" and bs
    by (induction bs arbitrary: t) (auto intro: one)
  have "bufs_only (initlock BcacheLock ''bcache'' s) (binit s)"
    unfolding binit_def by (intro fold bufs_only_setb bufs_only_refl)
  then show ?thesis by (auto simp: bufs_only_def initlock_def)
qed

lemma boot_bio_idle: "(\<And>n. length (D n) = BSIZE) \<Longrightarrow> idle (binit (boot_bio D z))"
  using boot_bio_ok(1) [of D z] boot_bio_ok(6) [of D _ z] unfolding idle_def by blast

abbreviation fresh_disk :: "'a bio_state_scheme \<Rightarrow> 'a bio_state_scheme" where
  "fresh_disk \<equiv> boot_bio (\<lambda>n. replicate 1024 (ucast n))"

lemmas fresh_disk_ok = boot_bio_ok [where D = "\<lambda>n. replicate 1024 (ucast n)", simplified BSIZE_def length_replicate, OF refl]
lemmas fresh_disk_idle = boot_bio_idle [where D = "\<lambda>n. replicate 1024 (ucast n)", simplified BSIZE_def length_replicate, OF refl]


end
