(* ===== verification/Fsread.thy ===== *)
theory Fsread
  imports Fs Cache
begin

text \<open>
  Reading files: \<^verbatim>\<open>bmap\<close> finds the disk block of every file block through the direct, indirect and
  doubly indirect addresses, and \<^verbatim>\<open>readi\<close> delivers exactly the bytes of the file.  The specification is
  a function of the disk alone.
\<close>

section \<open>Numbers in a block\<close>

fun le_list :: "u8 list \<Rightarrow> u64" where
  "le_list [] = 0"
| "le_list (b # bs) = ucast b OR push_bit 8 (le_list bs)"

lemma ld_bytes_Suc: "ld_bytes m a (Suc n) = m a # ld_bytes m (a + 1) n"
  unfolding ld_bytes_def by (simp only: upt_conv_Cons zero_less_Suc list.map map_Suc_upt [symmetric] map_map) (simp add: o_def add.assoc)

lemma ld_le_list: "ld_le n m a = le_list (ld_bytes m a n)"
  by (induction n arbitrary: a) (simp_all add: ld_bytes_Suc, simp add: ld_bytes_def)

lemma ld_bytes_part: "k + n \<le> N \<Longrightarrow> ld_bytes m (a + of_nat k) n = take n (drop k (ld_bytes m a N))"
  by (rule list_eq_nthI) (simp_all add: add.assoc)

definition blk32 :: "u8 list \<Rightarrow> nat \<Rightarrow> u32" where "blk32 bs off = ucast (le_list (take 4 (drop off bs)))"
definition blk16 :: "u8 list \<Rightarrow> nat \<Rightarrow> u16" where "blk16 bs off = ucast (le_list (take 2 (drop off bs)))"

lemma ld_block:
  assumes "buf_data s b = bs"
  shows "off + 4 \<le> 1024 \<Longrightarrow> ld32 (mem s) (a_bufdata s b + of_nat off) = blk32 bs off"
    "off + 2 \<le> 1024 \<Longrightarrow> ld16 (mem s) (a_bufdata s b + of_nat off) = blk16 bs off"
  using assms ld_bytes_part [of off 4 1024 "mem s" "a_bufdata s b"] ld_bytes_part [of off 2 1024 "mem s" "a_bufdata s b"]
  by (simp_all add: ld32_def ld16_def ld_le_list blk32_def blk16_def buf_data_def BSIZE_def)

section \<open>The blocks and bytes of a file\<close>

definition file_block :: "(u32 \<Rightarrow> u8 list) \<Rightarrow> u32 list \<Rightarrow> nat \<Rightarrow> u32" where
  "file_block D addrs n =
     (if n < NDIRECT then addrs ! n
      else if n < NDIRECT + NINDIRECT
      then if addrs ! NDIRECT = 0 then 0 else blk32 (D (addrs ! NDIRECT)) (4 * (n - NDIRECT))
      else let k = n - NDIRECT - NINDIRECT; top = addrs ! (NDIRECT + 1) in
        if top = 0 then 0
        else let a = blk32 (D top) (4 * (k div NINDIRECT)) in
          if a = 0 then 0 else blk32 (D a) (4 * (k mod NINDIRECT)))"

definition file_byte :: "(u32 \<Rightarrow> u8 list) \<Rightarrow> u32 list \<Rightarrow> nat \<Rightarrow> u8" where
  "file_byte D addrs j = D (file_block D addrs (j div 1024)) ! (j mod 1024)"

text \<open>Changes a reader may make: the buffers, woken processes, and the bytes of its destination.\<close>

definition span :: "u64 \<Rightarrow> nat \<Rightarrow> u64 set" where "span a n = {x. unat (x - a) < n}"

definition read_frame :: "u64 set \<Rightarrow> 'a bio_state_scheme \<Rightarrow> 'a bio_state_scheme \<Rightarrow> bool" where
  "read_frame A s t \<longleftrightarrow> (\<exists>m ps bs. t = s\<lparr>mem := m, procs := ps, bufs := bs\<rparr>
     \<and> woke (myproc s) (procs s) ps \<and> (\<forall>x. x \<notin> buf_area s \<longrightarrow> x \<notin> A \<longrightarrow> m x = mem s x))"

lemma read_frame_bio: "bio_frame s t \<Longrightarrow> read_frame A s t"
  by (auto simp: bio_frame_def read_frame_def)

lemma read_frame_keeps:
  assumes "read_frame A s t"
  shows "disk t = disk s" "a_bufdata t = a_bufdata s" "buf_area t = buf_area s" "cur t = cur s" "myproc t = myproc s"
    "woke (myproc s) (procs s) (procs t)" "x \<notin> buf_area s \<Longrightarrow> x \<notin> A \<Longrightarrow> mem t x = mem s x"
  using assms by (auto simp: read_frame_def buf_area_def cur_def myproc_def mycpu_def cpuid_def)

lemma read_frame_fs:
  assumes "read_frame A s t"
  shows "itable t = itable s" "sb t = sb s" "a_de t = a_de s"
  using assms by (auto simp: read_frame_def)

lemma read_frame_trans:
  assumes "read_frame A s t" "read_frame B t u" "A \<subseteq> C" "B \<subseteq> C"
  shows "read_frame C s u"
proof -
  note k = read_frame_keeps [OF assms(1)] and k' = read_frame_keeps [OF assms(2)]
  obtain m ps bs where t: "t = s\<lparr>mem := m, procs := ps, bufs := bs\<rparr>" using assms(1) by (auto simp: read_frame_def)
  obtain m' ps' bs' where u: "u = t\<lparr>mem := m', procs := ps', bufs := bs'\<rparr>" using assms(2) by (auto simp: read_frame_def)
  have "u = s\<lparr>mem := m', procs := ps', bufs := bs'\<rparr>" by (simp add: u t)
  moreover have "woke (myproc s) (procs s) ps'" using woke_trans [OF k(6)] k'(6) k(5) u by simp
  moreover have "m' x = mem s x" if "x \<notin> buf_area s" "x \<notin> C" for x
  proof -
    have "x \<notin> A" "x \<notin> B" using that(2) assms(3,4) by blast+
    then show ?thesis using k(7) [of x] k'(7) [of x] k(3) u that(1) by simp
  qed
  ultimately show ?thesis unfolding read_frame_def by blast
qed

section \<open>bmap\<close>

lemma indirect_spec:
  fixes s :: "'a fs_state_scheme"
  assumes "idle s" "cur s = Inr p" "dev \<noteq> 0" "k < 256"
  shows "\<exists>t. indirect dev addr k s = Inr (blk32 (disk s addr) (4 * k), t) \<and> idle t \<and> bio_frame s t"
proof -
  obtain b t where t: "bread dev addr s = Inr (b, t)" "bio_frame s t" "buf_data t b = disk s addr"
      "\<forall>t'. bio_same t t' \<longrightarrow> (\<exists>u. brelse b t' = Inr u \<and> idle u \<and> bio_frame t' u \<and> mem u = mem t')"
    using with_block [OF assms(1-3), of addr] by blast
  obtain u where u: "brelse b t = Inr u" "idle u" "bio_frame t u" using t(4) bio_same_refl [of t] by blast
  have "ld32 (mem t) (a_bufdata t b + of_nat (4 * k)) = blk32 (disk s addr) (4 * k)"
    using assms(4) by (intro ld_block(1) [OF t(3)]) simp
  then show ?thesis
    using t(1) u bio_frame_trans [OF t(2) u(3)] by (simp add: indirect_def Let_def)
qed

lemma bmap_spec:
  fixes s :: "'a fs_state_scheme"
  assumes "idle s" "cur s = Inr p" "i_dev (geti s i) \<noteq> 0" "unat bn < MAXFILE"
  shows "\<exists>t. bmap i bn s = Inr (file_block (disk s) (i_addrs (geti s i)) (unat bn), t) \<and> idle t \<and> bio_frame s t"
proof -
  let ?n = "unat bn" and ?ip = "geti s i"
  have refl: "bio_frame s s" by (rule bio_frame_bufs_only [OF bufs_only_refl])
  note ind = indirect_spec [OF assms(1-3)]
  consider "?n < NDIRECT" | "\<not> ?n < NDIRECT" "?n - NDIRECT < NINDIRECT"
    | "\<not> ?n < NDIRECT" "\<not> ?n - NDIRECT < NINDIRECT" by blast
  then show ?thesis
  proof cases
    case 1
    then show ?thesis using assms(1) refl by (auto simp: bmap_def file_block_def Let_def)
  next
    case 2
    then have k: "?n - NDIRECT < 256" by (simp add: NINDIRECT_def)
    show ?thesis
    proof (cases "i_addrs ?ip ! NDIRECT = 0")
      case True
      with 2 show ?thesis using assms(1) refl by (auto simp: bmap_def file_block_def Let_def)
    next
      case False
      with 2 ind [OF k, of "i_addrs ?ip ! NDIRECT"] show ?thesis by (auto simp: bmap_def file_block_def Let_def)
    qed
  next
    case 3
    let ?k = "?n - NDIRECT - NINDIRECT" and ?top = "i_addrs ?ip ! (NDIRECT + 1)"
    have k: "?k < NDINDIRECT" using assms(4) 3 by (simp add: MAXFILE_def)
    then have q: "?k div NINDIRECT < 256" "?k mod NINDIRECT < 256"
      by (simp_all add: NDINDIRECT_def NINDIRECT_def less_mult_imp_div_less)
    show ?thesis
    proof (cases "?top = 0")
      case True
      with 3 k show ?thesis using assms(1) refl by (auto simp: bmap_def file_block_def Let_def)
    next
      case False
      obtain t where t: "indirect (i_dev ?ip) ?top (?k div NINDIRECT) s = Inr (blk32 (disk s ?top) (4 * (?k div NINDIRECT)), t)"
          "idle t" "bio_frame s t"
        using ind [OF q(1), of ?top] by blast
      let ?a = "blk32 (disk s ?top) (4 * (?k div NINDIRECT))"
      show ?thesis
      proof (cases "?a = 0")
        case True
        with 3 k False t show ?thesis by (auto simp: bmap_def file_block_def Let_def)
      next
        case nz: False
        have "cur t = Inr p" "disk t = disk s" using bio_frame_keeps [OF t(3)] assms(2) by simp_all
        then obtain u where "indirect (i_dev ?ip) ?a (?k mod NINDIRECT) t = Inr (blk32 (disk s ?a) (4 * (?k mod NINDIRECT)), u)"
            "idle u" "bio_frame t u"
          using indirect_spec [OF t(2) _ assms(3) q(2), of p ?a] by auto
        with 3 k False nz t bio_frame_trans [OF t(3)] show ?thesis by (auto simp: bmap_def file_block_def Let_def)
      qed
    qed
  qed
qed

section \<open>readi into kernel memory\<close>

definition file_ok :: "'a fs_state_scheme \<Rightarrow> nat \<Rightarrow> bool" where
  "file_ok s i \<longleftrightarrow> i_dev (geti s i) \<noteq> 0 \<and> unat (i_size (geti s i)) \<le> MAXFILE * 1024
     \<and> (\<forall>bn. bn * 1024 < unat (i_size (geti s i)) \<longrightarrow> file_block (disk s) (i_addrs (geti s i)) bn \<noteq> 0)"

lemma unat_min: "unat (min a b :: 'a :: len word) = min (unat a) (unat b)"
  by (simp add: min_def word_le_nat_alt)

text \<open>One block's worth: the copy out of the buffer, then the release.\<close>

lemma copy_block:
  fixes s :: "'a fs_state_scheme"
  assumes "idle s" "cur s = Inr p" "dev \<noteq> 0" "unat o1 + unat m \<le> 1024"
    "unat dst + unat m < 18446744073709551616" "span dst (unat m) \<inter> buf_area s = {}"
  shows "\<exists>b t u. bread dev addr s = Inr (b, t)
    \<and> either_copyout False dst (a_bufdata t b + ucast o1) (ucast (m :: u32)) t = Inr (0, u)
    \<and> (\<exists>v. brelse b u = Inr v \<and> idle v \<and> read_frame (span dst (unat m)) s v
         \<and> (\<forall>j<unat m. mem v (dst + of_nat j) = disk s addr ! (unat (o1 :: u32) + j)))"
proof -
  obtain b t where t: "bread dev addr s = Inr (b, t)" "b < NBUF" "bio_frame s t" "procs t = procs s" "buf_data t b = disk s addr"
      "\<forall>t'. bio_same t t' \<longrightarrow> (\<exists>u. brelse b t' = Inr u \<and> idle u \<and> bio_frame t' u \<and> mem u = mem t')"
    using with_block [OF assms(1-3), of addr] by blast
  note k = bio_frame_keeps [OF t(3)]
  let ?src = "a_bufdata t b + ucast o1"
  define u where "u = t\<lparr>mem := memmove (mem t) dst ?src m\<rparr>"
  have run: "either_copyout False dst ?src (ucast m) t = Inr (0, u)"
    by (simp add: either_copyout_def u_def)
  have sep: "unat (a_bufdata t b) + 1024 < 18446744073709551616"
    using assms(1) t(2) k(2) by (auto simp: idle_def bio_ok_def data_sep_def BSIZE_def)
  have us: "unat ?src = unat (a_bufdata t b) + unat o1"
    using sep assms(4) by (subst unat_add_nowrap) (simp_all add: unat_ucast_32_64)
  have mu: "mem u x = (if unat (x - dst) < unat m then mem t (?src + (x - dst)) else mem t x)" for x
    using memmove_spec [of ?src m dst "mem t"] us sep assms(4,5) by (simp add: u_def move_spec_def)
  have same: "bio_same t u"
    using assms(6) k(3) by (auto simp: bio_same_def u_def [symmetric] mu span_def) (simp_all add: u_def)
  then obtain v where v: "brelse b u = Inr v" "idle v" "bio_frame u v" "mem v = mem u" using t(6) by blast
  have "mem v (dst + of_nat j) = disk s addr ! (unat o1 + j)" if j: "j < unat m" for j
  proof -
    have "unat (of_nat j :: u64) = j" using j unat_lt32 [of m] by (intro unat_of_nat64) simp
    then have "mem v (dst + of_nat j) = mem t (a_bufdata t b + of_nat (unat o1 + j))"
      using j by (simp add: v(4) mu add.assoc)
    also have "\<dots> = buf_data t b ! (unat o1 + j)" using j assms(4) by (simp add: buf_data_def BSIZE_def)
    finally show ?thesis by (simp add: t(5))
  qed
  moreover have "read_frame (span dst (unat m)) t u"
    unfolding read_frame_def using woke_refl
    by (intro exI [of _ "mem u"] exI [of _ "procs t"] exI [of _ "bufs t"]) (auto simp: mu span_def, simp add: u_def)
  ultimately show ?thesis
    using t(1) run v read_frame_trans [OF read_frame_trans [OF read_frame_bio [OF t(3)]] read_frame_bio [OF v(3)]]
    by blast
qed

lemma span_split:
  assumes "m \<le> n" "unat dst + n < 18446744073709551616"
  shows "span dst n = span dst m \<union> span (dst + of_nat m) (n - m)"
proof -
  have d: "unat (dst + of_nat m) = unat dst + m"
    using assms by (subst unat_add_nowrap) (simp_all add: unat_of_nat64)
  have "unat (x - dst) < n \<longleftrightarrow> unat (x - dst) < m \<or> unat (x - (dst + of_nat m)) < n - m" for x
    using assms d by (subst (1 2 3) unat_diff_lt_iff) auto
  then show ?thesis by (auto simp: span_def)
qed

lemma span_mem: "j < n \<Longrightarrow> n \<le> 4294967296 \<Longrightarrow> dst + of_nat j \<in> span dst n"
  by (simp add: span_def unat_of_nat64)

lemma span_disjoint:
  assumes "unat dst + n < 18446744073709551616" "m \<le> n"
  shows "span dst m \<inter> span (dst + of_nat m) (n - m) = {}"
proof -
  have d: "unat (dst + of_nat m) = unat dst + m"
    using assms by (subst unat_add_nowrap) (simp_all add: unat_of_nat64)
  show ?thesis using assms d by (auto simp: span_def unat_diff_lt_iff)
qed

lemma next_block: "(r :: nat) < 1024 \<Longrightarrow> 1024 * q + r = x \<Longrightarrow> x + (1024 - r) = 1024 * (q + 1)"
  by simp

lemma block_pos:
  assumes "(x :: nat) mod 1024 + j < 1024"
  shows "(x + j) div 1024 = x div 1024 \<and> (x + j) mod 1024 = x mod 1024 + j"
proof -
  define q r where "q = x div 1024" and "r = x mod 1024 + j"
  have "x + j = r + 1024 * q" unfolding q_def r_def by (metis add.assoc add.commute mult_div_mod_eq)
  moreover have "r < 1024" using assms by (simp add: r_def)
  ultimately show ?thesis unfolding q_def [symmetric] r_def [symmetric] by simp
qed

lemma readi_loop_spec:
  fixes s :: "'a fs_state_scheme" and n tot off :: u32
  assumes "idle s" "cur s = Inr p" "file_ok s i" "tot \<le> n"
    "unat off + (unat n - unat tot) \<le> unat (i_size (geti s i))"
    "unat n = unat tot \<or> unat off mod 1024 + (unat n - unat tot) \<le> k * 1024"
    "unat dst + (unat n - unat tot) < 18446744073709551616" "span dst (unat n - unat tot) \<inter> buf_area s = {}"
  shows "\<exists>t. readi_loop k i False dst off n tot s = Inr (n, t) \<and> idle t \<and> read_frame (span dst (unat n - unat tot)) s t
    \<and> (\<forall>j<unat n - unat tot. mem t (dst + of_nat j) = file_byte (disk s) (i_addrs (geti s i)) (unat off + j))"
  using assms
proof (induction k arbitrary: s dst off tot)
  case 0
  then have "tot = n" by (auto simp: word_le_nat_alt word_unat_eq_iff)
  with 0 show ?case using read_frame_bio [OF bio_frame_bufs_only [OF bufs_only_refl]] by auto
next
  case (Suc k)
  let ?r = "unat n - unat tot" and ?ip = "geti s i"
  let ?D = "disk s" and ?A = "i_addrs ?ip"
  have le: "unat tot \<le> unat n" using Suc.prems(4) by (simp add: word_le_nat_alt)
  show ?case
  proof (cases "tot = n")
    case True
    then show ?thesis using Suc.prems(1) read_frame_bio [OF bio_frame_bufs_only [OF bufs_only_refl]] by auto
  next
    case False
    then have lt: "tot < n" "0 < ?r" using le by (auto simp: word_less_nat_alt word_unat_eq_iff)
    define o1 where "o1 = off mod 1024"
    define m where "m = min (n - tot) (1024 - o1)"
    have uo: "unat o1 = unat off mod 1024" by (simp add: o1_def unat_mod_distrib)
    have um: "unat m = min ?r (1024 - unat off mod 1024)"
      using le by (simp add: m_def o1_def unat_min unat_sub word_le_nat_alt unat_mod_distrib)
    have mr: "unat m \<le> ?r" "0 < unat m" "unat o1 + unat m \<le> 1024"
      using um uo lt mod_less_divisor [of 1024 "unat off"] by (auto simp: min_def)
    have szlt: "unat (i_size ?ip) < 4294967296" by (rule unat_lt32)
    have bn: "unat (off div 1024) = unat off div 1024" by (simp add: unat_div_distrib)
    have offlt: "unat off < unat (i_size ?ip)" using Suc.prems(5) lt by linarith
    then have bnlt: "unat (off div 1024) < MAXFILE"
      using Suc.prems(3) by (simp add: file_ok_def bn less_mult_imp_div_less)
    have dev: "i_dev ?ip \<noteq> 0" using Suc.prems(3) by (simp add: file_ok_def)
    define addr where "addr = file_block ?D ?A (unat off div 1024)"
    have nz: "addr \<noteq> 0" using Suc.prems(3) offlt unfolding file_ok_def addr_def by auto
    obtain s1 where s1: "bmap i (off div 1024) s = Inr (addr, s1)" "idle s1" "bio_frame s s1"
      using bmap_spec [OF Suc.prems(1,2) dev bnlt] by (auto simp: bn addr_def)
    note k1 = bio_frame_keeps [OF s1(3)] and i1 = read_frame_fs [OF read_frame_bio [OF s1(3)]]
    have sp: "span dst ?r = span dst (unat m) \<union> span (dst + of_nat (unat m)) (?r - unat m)"
      using Suc.prems(7) mr by (intro span_split) simp_all
    obtain b t u v where B: "bread (i_dev ?ip) addr s1 = Inr (b, t)"
        "either_copyout False dst (a_bufdata t b + ucast o1) (ucast m) t = Inr (0, u)"
        "brelse b u = Inr v" "idle v" "read_frame (span dst (unat m)) s1 v"
        "\<And>j. j < unat m \<Longrightarrow> mem v (dst + of_nat j) = disk s1 addr ! (unat o1 + j)"
      using copy_block [OF s1(2) _ dev mr(3), of p dst addr] Suc.prems(2,7,8) k1 mr sp by (auto simp: Int_Un_distrib2)
    note kv = read_frame_keeps [OF B(5)] and iv = read_frame_fs [OF B(5)]
    have e: "itable v = itable s" "disk v = ?D" "cur v = Inr p" "buf_area v = buf_area s"
      using kv k1 iv i1 Suc.prems(2) by simp_all
    have uo': "unat (off + m) = unat off + unat m"
      using Suc.prems(5) szlt mr by (simp add: unat_word_ariths)
    have ut': "unat (tot + m) = unat tot + unat m"
      using le mr unat_lt32 [of n] by (simp add: unat_word_ariths)
    have r': "unat n - unat (tot + m) = ?r - unat m" using ut' by simp
    have ud: "unat (dst + ucast m) = unat dst + unat m"
      using Suc.prems(7) mr by (subst unat_add_nowrap) (simp_all add: unat_ucast_32_64)
    have dm: "dst + ucast m = dst + of_nat (unat m)" by simp
    have fuel: "unat n = unat (tot + m) \<or> unat (off + m) mod 1024 + (?r - unat m) \<le> k * 1024"
    proof (cases "?r \<le> 1024 - unat off mod 1024")
      case True
      then show ?thesis using le by (simp add: um ut')
    next
      case False
      then have m: "unat m = 1024 - unat off mod 1024" by (simp add: um)
      have "unat (off + m) = 1024 * (unat off div 1024 + 1)"
      proof -
        have "unat off mod 1024 < 1024" "1024 * (unat off div 1024) + unat off mod 1024 = unat off" by simp_all
        then show ?thesis unfolding uo' m by (rule next_block)
      qed
      then have "unat (off + m) mod 1024 = 0" by simp
      then show ?thesis using Suc.prems(6) m False lt by auto
    qed
    have ok: "file_ok v i" using Suc.prems(3) by (simp add: file_ok_def e)
    have le': "tot + m \<le> n" using ut' mr le by (simp add: word_le_nat_alt)
    have P: "unat (off + m) + (unat n - unat (tot + m)) \<le> unat (i_size (geti v i))"
        "unat n = unat (tot + m) \<or> unat (off + m) mod 1024 + (unat n - unat (tot + m)) \<le> k * 1024"
        "unat (dst + ucast m) + (unat n - unat (tot + m)) < 18446744073709551616"
        "span (dst + ucast m) (unat n - unat (tot + m)) \<inter> buf_area v = {}"
      using Suc.prems(5,7,8) mr fuel sp unfolding r' uo' ud e by (simp_all add: Int_Un_distrib2)
    obtain t' where T: "readi_loop k i False (dst + ucast m) (off + m) n (tot + m) v = Inr (n, t')" "idle t'"
        "read_frame (span (dst + ucast m) (?r - unat m)) v t'"
        "\<And>j. j < ?r - unat m \<Longrightarrow> mem t' (dst + ucast m + of_nat j) = file_byte ?D ?A (unat off + unat m + j)"
      using Suc.IH [OF B(4) e(3) ok le' P] unfolding r' uo' e by blast
    have fin: "mem t' (dst + of_nat j) = file_byte ?D ?A (unat off + j)" if j: "j < ?r" for j
    proof (cases "j < unat m")
      case True
      have "dst + of_nat j \<in> span dst (unat m)" using True unat_lt32 [of m] by (intro span_mem) simp_all
      then have "dst + of_nat j \<notin> span (dst + ucast m) (?r - unat m)" "dst + of_nat j \<notin> buf_area v"
        using span_disjoint [of dst ?r "unat m"] Suc.prems(7,8) mr sp unfolding dm e by blast+
      then have "mem t' (dst + of_nat j) = mem v (dst + of_nat j)" using read_frame_keeps(7) [OF T(3)] by blast
      also have "\<dots> = ?D addr ! (unat off mod 1024 + j)" using B(6) [OF True] k1 uo by simp
      also have "\<dots> = file_byte ?D ?A (unat off + j)"
        using True mr(3) uo block_pos [of "unat off" j] by (simp add: file_byte_def addr_def)
      finally show ?thesis .
    next
      case False
      then have "dst + of_nat j = dst + ucast m + of_nat (j - unat m)" by (simp add: of_nat_diff)
      then show ?thesis using T(4) [of "j - unat m"] False j by simp
    qed
    have f1: "read_frame (span dst (unat m)) s v"
      using read_frame_trans [OF read_frame_bio [OF s1(3), of "{}"] B(5)] by blast
    have "read_frame (span dst ?r) s t'"
      using read_frame_trans [OF f1 T(3), of "span dst ?r"] unfolding sp dm by blast
    moreover have "readi_loop (Suc k) i False dst off n tot s = Inr (n, t')"
      using lt s1(1) nz B(1-3) T(1) i1(1) by (simp add: Let_def m_def [symmetric] o1_def [symmetric])
    ultimately show ?thesis using T(2) fin by blast
  qed
qed

text \<open>How much \<^verbatim>\<open>readi\<close> is to read: nothing beyond the end of the file or when the offset wraps.\<close>

definition read_len :: "u32 \<Rightarrow> u32 \<Rightarrow> u32 \<Rightarrow> nat" where
  "read_len sz off n = (if unat off > unat sz \<or> unat off + unat n \<ge> 4294967296 then 0 else min (unat n) (unat sz - unat off))"

lemma blocks_enough: "(a :: nat) < 1024 \<Longrightarrow> r < 1024 \<Longrightarrow> q * 1024 + r = n \<Longrightarrow> a + n \<le> (q + 2) * 1024"
  by simp

lemma readi_spec:
  fixes s :: "'a fs_state_scheme"
  assumes "idle s" "cur s = Inr p" "file_ok s i"
    "unat dst + unat n < 18446744073709551616" "span dst (unat n) \<inter> buf_area s = {}"
  shows "\<exists>t. readi i False dst off n s = Inr (of_nat (read_len (i_size (geti s i)) off n), t) \<and> idle t
    \<and> read_frame (span dst (unat n)) s t
    \<and> (\<forall>j<read_len (i_size (geti s i)) off n. mem t (dst + of_nat j) = file_byte (disk s) (i_addrs (geti s i)) (unat off + j))"
proof -
  let ?sz = "i_size (geti s i)"
  have wrap: "off + n < off \<longleftrightarrow> unat off + unat n \<ge> 4294967296"
  proof (cases "unat off + unat n < 4294967296")
    case True
    then have "unat (off + n) = unat off + unat n" by (simp add: unat_word_ariths)
    then show ?thesis using True by (simp add: word_less_nat_alt)
  next
    case False
    then have "unat (off + n) = unat off + unat n - 4294967296"
      using unat_lt32 [of off] unat_lt32 [of n] by (simp add: unat_word_ariths mod_if)
    then show ?thesis using False unat_lt32 [of off] unat_lt32 [of n] by (simp add: word_less_nat_alt)
  qed
  show ?thesis
  proof (cases "off > ?sz \<or> off + n < off")
    case True
    then have "read_len ?sz off n = 0" using wrap by (auto simp: read_len_def word_less_nat_alt)
    then show ?thesis
      using True assms(1) read_frame_bio [OF bio_frame_bufs_only [OF bufs_only_refl]] by (auto simp: readi_def Let_def)
  next
    case False
    then have o: "unat off \<le> unat ?sz" "unat off + unat n < 4294967296" using wrap by (auto simp: word_less_nat_alt)
    define n' where "n' = (if off + n > ?sz then ?sz - off else n)"
    have un: "unat n' = min (unat n) (unat ?sz - unat off)"
    proof -
      have "unat (off + n) = unat off + unat n" using o(2) by (simp add: unat_word_ariths)
      then have "off + n > ?sz \<longleftrightarrow> unat ?sz < unat off + unat n" by (simp add: word_less_nat_alt)
      moreover have "unat (?sz - off) = unat ?sz - unat off" using o(1) by (simp add: unat_sub word_le_nat_alt)
      ultimately show ?thesis using o(1) by (auto simp: n'_def)
    qed
    then have rl: "read_len ?sz off n = unat n'" using o by (simp add: read_len_def)
    have le: "unat n' \<le> unat n" using un by simp
    have sub: "span dst (unat n') \<subseteq> span dst (unat n)" using le by (auto simp: span_def)
    have fuel: "unat n' = unat (0 :: u32) \<or> unat off mod 1024 + (unat n' - unat (0 :: u32)) \<le> (unat n' div 1024 + 2) * 1024"
    proof -
      have "unat off mod 1024 + unat n' \<le> (unat n' div 1024 + 2) * 1024"
        by (rule blocks_enough [OF _ _ div_mult_mod_eq]) simp_all
      then show ?thesis by (simp only: unat_0 diff_zero simp_thms)
    qed
    have P: "(0 :: u32) \<le> n'" "unat off + (unat n' - unat (0 :: u32)) \<le> unat ?sz"
        "unat dst + (unat n' - unat (0 :: u32)) < 18446744073709551616" "span dst (unat n' - unat (0 :: u32)) \<inter> buf_area s = {}"
      using un o le assms(4,5) sub unfolding unat_0 diff_zero by auto
    obtain t where "readi_loop (unat n' div 1024 + 2) i False dst off n' 0 s = Inr (n', t)" "idle t"
        "read_frame (span dst (unat n')) s t"
        "\<And>j. j < unat n' \<Longrightarrow> mem t (dst + of_nat j) = file_byte (disk s) (i_addrs (geti s i)) (unat off + j)"
      using readi_loop_spec [OF assms(1-3) P(1,2) fuel P(3,4)] unfolding unat_0 diff_zero by blast
    moreover from this have "read_frame (span dst (unat n)) s t"
      using read_frame_trans [OF read_frame_bio [OF bio_frame_bufs_only [OF bufs_only_refl], of "{}"]] sub by blast
    ultimately show ?thesis
      using False unfolding rl by (intro exI [of _ t]) (simp add: readi_def Let_def n'_def [symmetric])
  qed
qed


lemma boot_area:
  assumes "a_bufdata s = (\<lambda>b. of_nat (1024 * b))" "n \<le> 0x100000"
  shows "span 0x100000 n \<inter> buf_area s = {}"
proof -
  have "\<not> unat (x - of_nat (1024 * b)) < 1024" if "unat (x - 0x100000 :: u64) < n" "b < 30" for x b
  proof -
    have u: "unat (of_nat (1024 * b) :: u64) = 1024 * b" using that(2) by (intro unat_of_nat64) simp
    show ?thesis using that u assms(2) unat_diff_lt_iff [of "0x100000" n x] unat_diff_lt_iff [of "of_nat (1024 * b)" 1024 x] by auto
  qed
  then show ?thesis by (auto simp: span_def buf_area_def assms(1) NBUF_def BSIZE_def)
qed

definition sample_fs :: "fs_state \<Rightarrow> fs_state" where
  "sample_fs z = binit (fresh_disk (z\<lparr>itable := [\<lparr>i_dev = 1, i_inum = 2, i_ref = 1, i_lock = initsleeplock [], i_valid = True,
     i_type = 2, i_major = 0, i_minor = 0, i_nlink = 1, i_size = 1500, i_addrs = 5 # 6 # replicate 11 0\<rparr>]\<rparr>))"

lemma sample_fs_simps:
  "itable (sample_fs z) = [\<lparr>i_dev = 1, i_inum = 2, i_ref = 1, i_lock = initsleeplock [], i_valid = True,
     i_type = 2, i_major = 0, i_minor = 0, i_nlink = 1, i_size = 1500, i_addrs = 5 # 6 # replicate 11 0\<rparr>]"
  "idle (sample_fs z)" "cur (sample_fs z) = Inr 0" "disk (sample_fs z) = (\<lambda>n. replicate 1024 (ucast n))"
  "a_bufdata (sample_fs z) = (\<lambda>b. of_nat (1024 * b))"
proof -
  let ?z = "fresh_disk (z\<lparr>itable := [\<lparr>i_dev = 1, i_inum = 2, i_ref = 1, i_lock = initsleeplock [], i_valid = True,
     i_type = 2, i_major = 0, i_minor = 0, i_nlink = 1, i_size = 1500, i_addrs = 5 # 6 # replicate 11 0\<rparr>]\<rparr>)"
  obtain l bs where b: "binit ?z = ?z\<lparr>locks := l, bufs := bs\<rparr>" using binit_frame by blast
  show "itable (sample_fs z) = [\<lparr>i_dev = 1, i_inum = 2, i_ref = 1, i_lock = initsleeplock [], i_valid = True,
     i_type = 2, i_major = 0, i_minor = 0, i_nlink = 1, i_size = 1500, i_addrs = 5 # 6 # replicate 11 0\<rparr>]"
    "a_bufdata (sample_fs z) = (\<lambda>b. of_nat (1024 * b))"
    by (simp_all add: sample_fs_def b) (simp_all add: boot_bio_def)
  show "idle (sample_fs z)" "cur (sample_fs z) = Inr 0" "disk (sample_fs z) = (\<lambda>n. replicate 1024 (ucast n))"
    by (simp_all add: sample_fs_def fresh_disk_idle fresh_disk_ok fun_eq_iff)
qed


end
