(* ===== verification/Dirs.thy ===== *)
theory Dirs
  imports Fsread
begin

text \<open>
  Directories: \<^verbatim>\<open>dirlookup\<close> finds the first entry in use whose name is the one asked for, where names
  are compared as the C strings they hold.
\<close>

section \<open>Names\<close>

definition cstr :: "nat \<Rightarrow> (nat \<Rightarrow> u8) \<Rightarrow> u8 list" where
  "cstr n q = takeWhile (\<lambda>c. c \<noteq> 0) (map q [0..<n])"

lemma cstr_Suc: "cstr (Suc n) q = (if q 0 = 0 then [] else q 0 # cstr n (\<lambda>i. q (Suc i)))"
  unfolding cstr_def by (simp only: upt_conv_Cons zero_less_Suc list.map map_Suc_upt [symmetric] map_map) (simp add: o_def)

lemma strncmp_cstr: "strncmp p q n = 0 \<longleftrightarrow> cstr n p = cstr n q"
proof (induction n arbitrary: p q)
  case 0
  then show ?case by (simp add: cstr_def)
next
  case (Suc n)
  have "uint (p 0) - uint (q 0) = 0 \<longleftrightarrow> p 0 = q 0" by simp (metis word_of_int_uint)
  then show ?case using Suc.IH by (auto simp: cstr_Suc)
qed

lemma cstr_cong: "(\<And>i. i < n \<Longrightarrow> p i = q i) \<Longrightarrow> cstr n p = cstr n q"
  unfolding cstr_def by (metis (mono_tags, lifting) atLeastLessThan_iff map_cong set_upt)

lemma namecmp_cstr: "namecmp p q = 0 \<longleftrightarrow> cstr DIRSIZ p = cstr DIRSIZ q"
  by (simp add: namecmp_def strncmp_cstr)

section \<open>Entries\<close>

definition de_inum :: "(u32 \<Rightarrow> u8 list) \<Rightarrow> u32 list \<Rightarrow> nat \<Rightarrow> u16" where
  "de_inum D addrs j = ucast (le_list (map (\<lambda>k. file_byte D addrs (16 * j + k)) [0..<2]))"

definition de_name :: "(u32 \<Rightarrow> u8 list) \<Rightarrow> u32 list \<Rightarrow> nat \<Rightarrow> u8 list" where
  "de_name D addrs j = cstr DIRSIZ (\<lambda>k. file_byte D addrs (16 * j + 2 + k))"

definition de_match :: "(u32 \<Rightarrow> u8 list) \<Rightarrow> u32 list \<Rightarrow> u8 list \<Rightarrow> nat \<Rightarrow> bool" where
  "de_match D addrs name j \<longleftrightarrow> de_inum D addrs j \<noteq> 0 \<and> name = de_name D addrs j"

definition dir_find :: "(u32 \<Rightarrow> u8 list) \<Rightarrow> u32 list \<Rightarrow> u8 list \<Rightarrow> nat \<Rightarrow> nat \<Rightarrow> nat option" where
  "dir_find D addrs name j n = List.find (de_match D addrs name) [j..<n]"

lemma dir_find_step: "j < n \<Longrightarrow> dir_find D addrs name j n =
    (if de_match D addrs name j then Some j else dir_find D addrs name (Suc j) n)"
  by (simp add: dir_find_def upt_conv_Cons)

lemma file_ok_frame: "read_frame A s t \<Longrightarrow> file_ok s i \<Longrightarrow> file_ok t i"
  by (simp add: file_ok_def read_frame_keeps read_frame_fs)

definition de_buf :: "'a fs_state_scheme \<Rightarrow> bool" where
  "de_buf s \<longleftrightarrow> unat (a_de s) + 16 < 18446744073709551616 \<and> span (a_de s) 16 \<inter> buf_area s = {}"

abbreviation de_frame :: "'a fs_state_scheme \<Rightarrow> 'a fs_state_scheme \<Rightarrow> bool" where
  "de_frame s t \<equiv> read_frame (span (a_de s) 16) s t"

lemma de_frame_trans: "de_frame s t \<Longrightarrow> de_frame t u \<Longrightarrow> de_frame s u"
  using read_frame_trans [of "span (a_de s) 16" s t "span (a_de s) 16" u "span (a_de s) 16"] read_frame_fs(3) by fastforce

lemma de_buf_frame: "read_frame A s t \<Longrightarrow> de_buf s \<Longrightarrow> de_buf t"
  by (simp add: de_buf_def read_frame_keeps read_frame_fs)

text \<open>One entry of the directory, read into the local \<^verbatim>\<open>de\<close>.\<close>

lemma read_entry:
  fixes s :: "'a fs_state_scheme"
  assumes "idle s" "cur s = Inr p" "file_ok s dp" "de_buf s" "16 * j + 16 \<le> unat (i_size (geti s dp))"
  shows "\<exists>t. readi dp False (a_de s) (of_nat (16 * j)) 16 s = Inr (16, t) \<and> idle t \<and> de_frame s t
    \<and> ld16 (mem t) (a_de s) = de_inum (disk s) (i_addrs (geti s dp)) j
    \<and> cstr DIRSIZ (\<lambda>k. mem t (a_de s + 2 + of_nat k)) = de_name (disk s) (i_addrs (geti s dp)) j"
proof -
  let ?A = "i_addrs (geti s dp)"
  have u: "unat (of_nat (16 * j) :: u32) = 16 * j" using assms(5) unat_lt32 [of "i_size (geti s dp)"] by (intro unat_of_nat32) simp
  have sz: "unat (i_size (geti s dp)) \<le> 67382272" using assms(3) by (simp add: file_ok_def MAXFILE_def NDIRECT_def NINDIRECT_def NDINDIRECT_def)
  have len: "read_len (i_size (geti s dp)) (of_nat (16 * j)) 16 = 16"
    using assms(5) sz unfolding read_len_def u by simp
  obtain t where t: "readi dp False (a_de s) (of_nat (16 * j)) 16 s = Inr (16, t)" "idle t" "de_frame s t"
      "\<forall>k<16. mem t (a_de s + of_nat k) = file_byte (disk s) ?A (16 * j + k)"
    using readi_spec [OF assms(1-3), of "a_de s" 16 "of_nat (16 * j)"] assms(4) unfolding len u de_buf_def by auto
  have "ld_bytes (mem t) (a_de s) 2 = map (\<lambda>k. file_byte (disk s) ?A (16 * j + k)) [0..<2]"
    using t(4) by (auto simp: ld_bytes_def)
  then have "ld16 (mem t) (a_de s) = de_inum (disk s) ?A j" by (simp add: ld16_def ld_le_list de_inum_def)
  moreover have "mem t (a_de s + 2 + of_nat k) = file_byte (disk s) ?A (16 * j + 2 + k)" if "k < DIRSIZ" for k
    using t(4) [rule_format, of "2 + k"] that by (simp add: DIRSIZ_def add.assoc)
  then have "cstr DIRSIZ (\<lambda>k. mem t (a_de s + 2 + of_nat k)) = de_name (disk s) ?A j"
    unfolding de_name_def by (rule cstr_cong)
  ultimately show ?thesis using t(1-3) by blast
qed

lemma of_nat_size: "unat (x :: u32) = n \<Longrightarrow> of_nat n = x"
  by (metis of_nat_unat ucast_id)

lemma dirlookup_loop_spec:
  fixes s :: "'a fs_state_scheme"
  assumes "idle s" "cur s = Inr p" "file_ok s dp" "de_buf s" "unat (i_size (geti s dp)) = 16 * n" "j \<le> n" "n \<le> k + j"
  shows "\<exists>t. idle t \<and> de_frame s t \<and> dirlookup_loop k dp name (of_nat (16 * j)) s =
    (case dir_find (disk s) (i_addrs (geti s dp)) (cstr DIRSIZ (nth name)) j n of None \<Rightarrow> Inr (None, t)
     | Some m \<Rightarrow> rbind (iget (i_dev (geti s dp)) (ucast (de_inum (disk s) (i_addrs (geti s dp)) m)) t)
         (\<lambda>(ip, u). Inr (Some (ip, of_nat (16 * m)), u)))"
  using assms
proof (induction k arbitrary: j s)
  case 0
  have "\<not> (of_nat (16 * n) :: u32) < i_size (geti s dp)" using of_nat_size [OF 0(5)] by simp
  then show ?case using 0 read_frame_bio [OF bio_frame_bufs_only [OF bufs_only_refl]] by (auto simp: dir_find_def)
next
  case (Suc k)
  let ?A = "i_addrs (geti s dp)" and ?nm = "cstr DIRSIZ (nth name)"
  show ?case
  proof (cases "j = n")
    case True
    have "\<not> (of_nat (16 * n) :: u32) < i_size (geti s dp)" using of_nat_size [OF Suc.prems(5)] by simp
    then show ?thesis using True Suc.prems read_frame_bio [OF bio_frame_bufs_only [OF bufs_only_refl]] by (auto simp: dir_find_def)
  next
    case False
    then have j: "j < n" "16 * j + 16 \<le> unat (i_size (geti s dp))" using Suc.prems(5,6) by auto
    have u: "unat (of_nat (16 * j) :: u32) = 16 * j" using j unat_lt32 [of "i_size (geti s dp)"] by (intro unat_of_nat32) simp
    have lt: "(of_nat (16 * j) :: u32) < i_size (geti s dp)" using j u by (simp add: word_less_nat_alt)
    have nx: "(of_nat (16 * j) :: u32) + 16 = of_nat (16 * Suc j)" by simp
    obtain t where t: "readi dp False (a_de s) (of_nat (16 * j)) 16 s = Inr (16, t)" "idle t" "de_frame s t"
        "ld16 (mem t) (a_de s) = de_inum (disk s) ?A j"
        "cstr DIRSIZ (\<lambda>k. mem t (a_de s + 2 + of_nat k)) = de_name (disk s) ?A j"
      using read_entry [OF Suc.prems(1-4) j(2)] by blast
    note fr = read_frame_keeps(1,4) [OF t(3)] read_frame_fs [OF t(3)]
    have step: "dirlookup_loop (Suc k) dp name (of_nat (16 * j)) s =
        (if de_match (disk s) ?A ?nm j
         then rbind (iget (i_dev (geti s dp)) (ucast (de_inum (disk s) ?A j)) t) (\<lambda>(ip, u). Inr (Some (ip, of_nat (16 * j)), u))
         else dirlookup_loop k dp name (of_nat (16 * Suc j)) t)"
      using t lt nx fr by (simp add: namecmp_cstr de_match_def Let_def del: of_nat_mult of_nat_Suc mult_Suc_right)
    show ?thesis
    proof (cases "de_match (disk s) ?A ?nm j")
      case True
      then show ?thesis unfolding step dir_find_step [OF j(1)] using t(2,3) by auto
    next
      case False
      have "\<exists>u. idle u \<and> de_frame t u \<and> dirlookup_loop k dp name (of_nat (16 * Suc j)) t =
          (case dir_find (disk t) (i_addrs (geti t dp)) ?nm (Suc j) n of None \<Rightarrow> Inr (None, u)
           | Some m \<Rightarrow> rbind (iget (i_dev (geti t dp)) (ucast (de_inum (disk t) (i_addrs (geti t dp)) m)) u)
               (\<lambda>(ip, u). Inr (Some (ip, of_nat (16 * m)), u)))"
        using Suc.prems j fr file_ok_frame [OF t(3)] de_buf_frame [OF t(3)] t(2) by (intro Suc.IH) auto
      then obtain u where u: "idle u" "de_frame t u" "dirlookup_loop k dp name (of_nat (16 * Suc j)) t =
          (case dir_find (disk s) ?A ?nm (Suc j) n of None \<Rightarrow> Inr (None, u)
           | Some m \<Rightarrow> rbind (iget (i_dev (geti s dp)) (ucast (de_inum (disk s) ?A m)) u)
               (\<lambda>(ip, u). Inr (Some (ip, of_nat (16 * m)), u)))" unfolding fr by blast
      show ?thesis
        unfolding step dir_find_step [OF j(1)] if_not_P [OF False]
        by (intro exI [of _ u] conjI u(1,3) de_frame_trans [OF t(3) u(2)])
    qed
  qed
qed

lemma dirlookup_spec:
  fixes s :: "'a fs_state_scheme"
  assumes "idle s" "cur s = Inr p" "file_ok s dp" "de_buf s" "unat (i_size (geti s dp)) = 16 * n" "i_type (geti s dp) = T_DIR"
  shows "\<exists>t. idle t \<and> de_frame s t \<and> dirlookup dp name s =
    (case dir_find (disk s) (i_addrs (geti s dp)) (cstr DIRSIZ (nth name)) 0 n of None \<Rightarrow> Inr (None, t)
     | Some m \<Rightarrow> rbind (iget (i_dev (geti s dp)) (ucast (de_inum (disk s) (i_addrs (geti s dp)) m)) t)
         (\<lambda>(ip, u). Inr (Some (ip, of_nat (16 * m)), u)))"
  using dirlookup_loop_spec [OF assms(1-5), of 0 "Suc n" name] assms(5,6) by (simp add: dirlookup_def)

end
