(* ===== verification/Itable.thy ===== *)
theory Itable
  imports Dirs
begin

text \<open>
  The inode table: which inodes are in memory, how often each is referenced, and what the entries that
  are valid hold.  Seen from outside the table counts references by inode number; \<^verbatim>\<open>iget\<close>, \<^verbatim>\<open>idup\<close> and
  \<^verbatim>\<open>iput\<close> change that count by one, and \<^verbatim>\<open>ilock\<close> makes the entry hold the inode on disk.
\<close>

section \<open>Inodes on disk\<close>

definition d_off :: "u32 \<Rightarrow> nat" where "d_off inum = 64 * unat (inum mod IPB)"

definition d_type :: "(u32 \<Rightarrow> u8 list) \<Rightarrow> superblock \<Rightarrow> u32 \<Rightarrow> u16" where
  "d_type D b inum = blk16 (D (IBLOCK inum b)) (d_off inum)"

definition d_size :: "(u32 \<Rightarrow> u8 list) \<Rightarrow> superblock \<Rightarrow> u32 \<Rightarrow> u32" where
  "d_size D b inum = blk32 (D (IBLOCK inum b)) (d_off inum + 8)"

definition d_addrs :: "(u32 \<Rightarrow> u8 list) \<Rightarrow> superblock \<Rightarrow> u32 \<Rightarrow> u32 list" where
  "d_addrs D b inum = map (\<lambda>k. blk32 (D (IBLOCK inum b)) (d_off inum + 12 + 4 * k)) [0..<NDIRECT + 2]"

lemma d_off_bound: "d_off inum + 64 \<le> 1024"
proof -
  have "unat (inum mod IPB) < 16" by (simp add: IPB_def unat_mod)
  then show ?thesis by (simp add: d_off_def)
qed

section \<open>The table\<close>

definition loaded :: "(u32 \<Rightarrow> u8 list) \<Rightarrow> superblock \<Rightarrow> inode \<Rightarrow> bool" where
  "loaded D b ip \<longleftrightarrow> i_type ip = d_type D b (i_inum ip) \<and> i_size ip = d_size D b (i_inum ip)
     \<and> i_addrs ip = d_addrs D b (i_inum ip)"

text \<open>\<open>lk\<close> is the entry whose sleep lock is held, by the process with number \<open>pid\<close>.\<close>

definition entry_ok :: "(u32 \<Rightarrow> u8 list) \<Rightarrow> superblock \<Rightarrow> u32 \<Rightarrow> nat option \<Rightarrow> nat \<Rightarrow> inode \<Rightarrow> bool" where
  "entry_ok D b pid lk i ip \<longleftrightarrow> 0 \<le> i_ref ip \<and> (0 < i_ref ip \<longrightarrow> i_dev ip = ROOTDEV) \<and> (i_valid ip \<longrightarrow> loaded D b ip)
     \<and> (sl_locked (i_lock ip) \<longleftrightarrow> lk = Some i) \<and> (lk = Some i \<longrightarrow> sl_pid (i_lock ip) = pid)"

definition in_use :: "inode list \<Rightarrow> u32 \<Rightarrow> nat \<Rightarrow> bool" where
  "in_use T inum i \<longleftrightarrow> i < NINODE \<and> 0 < i_ref (T ! i) \<and> i_inum (T ! i) = inum"

definition table_ok :: "(u32 \<Rightarrow> u8 list) \<Rightarrow> superblock \<Rightarrow> u32 \<Rightarrow> nat option \<Rightarrow> inode list \<Rightarrow> bool" where
  "table_ok D b pid lk T \<longleftrightarrow> length T = NINODE \<and> (\<forall>i<NINODE. entry_ok D b pid lk i (T ! i))
     \<and> (\<forall>inum i j. in_use T inum i \<longrightarrow> in_use T inum j \<longrightarrow> i = j)"

definition refs :: "inode list \<Rightarrow> u32 \<Rightarrow> int" where
  "refs T inum = (\<Sum>i<NINODE. if i_inum (T ! i) = inum then i_ref (T ! i) else 0)"

definition live :: "inode list \<Rightarrow> u32 set" where
  "live T = {inum. 0 < refs T inum}"

lemma table_okD:
  assumes "table_ok D b pid lk T"
  shows "i < NINODE \<Longrightarrow> 0 \<le> i_ref (T ! i)" "i < NINODE \<Longrightarrow> entry_ok D b pid lk i (T ! i)" "length T = NINODE"
    "in_use T inum i \<Longrightarrow> in_use T inum j \<Longrightarrow> i = j"
  using assms by (simp_all add: table_ok_def entry_ok_def)

lemma refs_update:
  assumes "length T = NINODE" "i < NINODE" "i_inum ip = i_inum (T ! i) \<or> i_ref (T ! i) = 0"
  shows "refs (T[i := ip]) = (refs T)(i_inum ip := refs T (i_inum ip) + (i_ref ip - i_ref (T ! i)))"
proof
  fix inum
  define f where "f T j = (if i_inum (T ! j) = inum then i_ref (T ! j) else 0)" for T :: "inode list" and j
  have "sum (f U) {..<NINODE} = f U i + sum (f U) ({..<NINODE} - {i})" for U
    using assms(2) by (intro sum.remove) auto
  moreover have "sum (f (T[i := ip])) ({..<NINODE} - {i}) = sum (f T) ({..<NINODE} - {i})"
    by (intro sum.cong) (auto simp: f_def)
  moreover have "f (T[i := ip]) i = (if i_inum ip = inum then i_ref ip else 0)" "f T i = (if i_inum ip = inum then i_ref (T ! i) else 0)"
    using assms by (auto simp: f_def)
  moreover have "refs U inum = sum (f U) {..<NINODE}" for U by (simp add: refs_def f_def)
  ultimately show "refs (T[i := ip]) inum = ((refs T)(i_inum ip := refs T (i_inum ip) + (i_ref ip - i_ref (T ! i)))) inum"
    by auto
qed

lemma refs_in_use:
  assumes "table_ok D b pid lk T" "in_use T inum i"
  shows "refs T inum = i_ref (T ! i)"
proof -
  have "(if i_inum (T ! j) = inum then i_ref (T ! j) else 0) = (if j = i then i_ref (T ! i) else 0)" if "j < NINODE" for j
  proof (cases "j = i \<or> i_inum (T ! j) \<noteq> inum")
    case True
    then show ?thesis using assms(2) by (auto simp: in_use_def)
  next
    case False
    then have "\<not> in_use T inum j" using assms by (auto simp: table_ok_def)
    then have "i_ref (T ! j) = 0" using False assms(1) that by (force simp: in_use_def table_ok_def entry_ok_def)
    then show ?thesis using False by simp
  qed
  then have "refs T inum = (\<Sum>j<NINODE. if j = i then i_ref (T ! i) else 0)" unfolding refs_def by (intro sum.cong) auto
  also have "\<dots> = i_ref (T ! i)" using assms(2) by (simp add: in_use_def)
  finally show ?thesis .
qed

lemma refs_pos: "table_ok D b pid lk T \<Longrightarrow> 0 < refs T inum \<longleftrightarrow> (\<exists>i. in_use T inum i)"
proof
  assume ok: "table_ok D b pid lk T" and "0 < refs T inum"
  then obtain i where "i < NINODE" "0 < (if i_inum (T ! i) = inum then i_ref (T ! i) else 0)"
    unfolding refs_def by (meson lessThan_iff linorder_not_le sum_nonpos)
  then show "\<exists>i. in_use T inum i" by (auto simp: in_use_def split: if_splits)
next
  assume ok: "table_ok D b pid lk T" and "\<exists>i. in_use T inum i"
  then obtain i where "in_use T inum i" by blast
  then show "0 < refs T inum" using refs_in_use [OF ok, of inum i] by (simp add: in_use_def)
qed

lemma free_entry:
  assumes "table_ok D b pid lk T" "card (live T) < NINODE"
  shows "\<exists>i<NINODE. i_ref (T ! i) = 0"
proof (rule ccontr)
  assume "\<not> ?thesis"
  then have pos: "0 < i_ref (T ! i)" if "i < NINODE" for i
    using table_okD(1) [OF assms(1) that] that by (metis order_le_less)
  then have use: "in_use T (i_inum (T ! i)) i" if "i < NINODE" for i using that by (simp add: in_use_def)
  have "inj_on (\<lambda>i. i_inum (T ! i)) {..<NINODE}"
  proof (rule inj_onI)
    fix i j assume "i \<in> {..<NINODE}" "j \<in> {..<NINODE}" "i_inum (T ! i) = i_inum (T ! j)"
    then show "i = j" using table_okD(4) [OF assms(1)] use [of i] use [of j] by simp
  qed
  moreover have "(\<lambda>i. i_inum (T ! i)) ` {..<NINODE} \<subseteq> live T"
  proof
    fix x assume "x \<in> (\<lambda>i. i_inum (T ! i)) ` {..<NINODE}"
    then obtain i where "i < NINODE" "x = i_inum (T ! i)" by auto
    then show "x \<in> live T" using refs_pos [OF assms(1), of x] use [of i] by (auto simp: live_def)
  qed
  moreover have "finite (live T)" by (rule finite_subset [OF subset_UNIV]) simp
  ultimately have "NINODE \<le> card (live T)" by (metis card_image card_lessThan card_mono)
  then show False using assms(2) by simp
qed

section \<open>The frame of the file system's readers\<close>

definition fs_frame :: "'a fs_state_scheme \<Rightarrow> 'a fs_state_scheme \<Rightarrow> bool" where
  "fs_frame s t \<longleftrightarrow> de_frame (s\<lparr>itable := itable t\<rparr>) t"

definition running :: "nat \<Rightarrow> 'a proc_state_scheme \<Rightarrow> bool" where
  "running p s \<longleftrightarrow> cur s = Inr p \<and> p < length (procs s)"

lemma woke_pid: "woke me ps qs \<Longrightarrow> p < length ps \<Longrightarrow> p_pid (qs ! p) = p_pid (ps ! p)"
  by (auto simp: woke_def)

lemma itable_update_keeps [simp]:
  "buf_area (s\<lparr>itable := T\<rparr>) = buf_area s" "cur (s\<lparr>itable := T\<rparr>) = cur s" "myproc (s\<lparr>itable := T\<rparr>) = myproc s"
  "idle (s\<lparr>itable := T\<rparr>) = idle s" "running p (s\<lparr>itable := T\<rparr>) = running p s" "de_buf (s\<lparr>itable := T\<rparr>) = de_buf s"
  by (simp_all add: buf_area_def cur_def myproc_def mycpu_def cpuid_def idle_def bio_ok_def lru_list_def nxt_def [abs_def]
    prv_def [abs_def] data_sep_def buf_data_def running_def de_buf_def)

lemma idle_procs: "idle (s\<lparr>procs := ps\<rparr>) = idle s"
  by (simp add: idle_def bio_ok_def lru_list_def nxt_def [abs_def] prv_def [abs_def] data_sep_def buf_data_def)

lemma fs_frame_keeps:
  assumes "fs_frame s t"
  shows "disk t = disk s" "sb t = sb s" "a_de t = a_de s" "buf_area t = buf_area s" "cur t = cur s"
    "de_buf s \<Longrightarrow> de_buf t" "running p s \<Longrightarrow> running p t" "running p s \<Longrightarrow> p_pid (getp t p) = p_pid (getp s p)"
proof -
  have f: "read_frame (span (a_de s) 16) (s\<lparr>itable := itable t\<rparr>) t" using assms by (simp add: fs_frame_def)
  note k = read_frame_keeps [OF f] and k' = read_frame_fs [OF f]
  show "disk t = disk s" "sb t = sb s" "a_de t = a_de s" "buf_area t = buf_area s" "cur t = cur s"
    using k(1,3,4) k'(2,3) by simp_all
  show "de_buf s \<Longrightarrow> de_buf t" using de_buf_frame [OF f] by simp
  show "running p s \<Longrightarrow> running p t" "running p s \<Longrightarrow> p_pid (getp t p) = p_pid (getp s p)"
    using k(4,6) woke_pid [of "myproc s" "procs s" "procs t" p] by (auto simp: running_def woke_def)
qed

lemma fs_frame_trans: "fs_frame s t \<Longrightarrow> fs_frame t u \<Longrightarrow> fs_frame s u"
proof -
  assume f: "fs_frame s t" and g: "fs_frame t u"
  let ?A = "span (a_de s) 16"
  have g': "read_frame ?A (t\<lparr>itable := itable u\<rparr>) u" using g fs_frame_keeps(3) [OF f] by (simp add: fs_frame_def)
  have "read_frame ?A (s\<lparr>itable := itable u\<rparr>) (t\<lparr>itable := itable u\<rparr>)"
  proof -
    obtain m ps bs where t: "t = s\<lparr>itable := itable t, mem := m, procs := ps, bufs := bs\<rparr>" "woke (myproc s) (procs s) ps"
        "\<forall>x. x \<notin> buf_area s \<longrightarrow> x \<notin> ?A \<longrightarrow> m x = mem s x"
      using f by (auto simp: fs_frame_def read_frame_def)
    have "t\<lparr>itable := itable u\<rparr> = s\<lparr>itable := itable u, mem := m, procs := ps, bufs := bs\<rparr>" by (subst t(1)) simp
    then show ?thesis using t(2,3) by (auto simp: read_frame_def)
  qed
  then show ?thesis using read_frame_trans [OF _ g' subset_refl subset_refl] by (simp add: fs_frame_def)
qed

lemma fs_frame_itable: "fs_frame s (s\<lparr>itable := T\<rparr>)"
  using read_frame_bio [OF bio_frame_bufs_only [OF bufs_only_refl]] by (simp add: fs_frame_def)

lemma fs_frame_read: "de_frame s t \<Longrightarrow> fs_frame s t"
  using read_frame_fs(1) [of _ s t] by (simp add: fs_frame_def)

lemma fs_frame_bio: "bio_frame s t \<Longrightarrow> fs_frame s t"
  by (intro fs_frame_read read_frame_bio)

lemma fs_frame_refl: "fs_frame s s"
  using fs_frame_itable [of s "itable s"] by simp

section \<open>Operations\<close>

abbreviation itable_ok :: "nat \<Rightarrow> nat option \<Rightarrow> 'a fs_state_scheme \<Rightarrow> bool" where
  "itable_ok p lk s \<equiv> table_ok (disk s) (sb s) (p_pid (getp s p)) lk (itable s)"

lemma table_ok_update:
  assumes "table_ok D b pid lk T" "entry_ok D b pid lk i ip" "i < NINODE"
    "0 < i_ref ip \<Longrightarrow> i_ref (T ! i) \<le> 0 \<or> i_inum ip \<noteq> i_inum (T ! i) \<Longrightarrow> \<forall>j. \<not> in_use T (i_inum ip) j"
  shows "table_ok D b pid lk (T[i := ip])"
proof -
  have len: "length T = NINODE" using assms(1) by (simp add: table_ok_def)
  have use: "in_use (T[i := ip]) inum j \<longleftrightarrow> (if j = i then 0 < i_ref ip \<and> i_inum ip = inum else in_use T inum j)" for inum j
    using assms(3) len by (auto simp: in_use_def)
  note uniq = table_okD(4) [OF assms(1)]
  have new: "j = i" if "0 < i_ref ip" "in_use T (i_inum ip) j" for j
  proof (cases "in_use T (i_inum ip) i")
    case True
    then show ?thesis using uniq [OF that(2)] by simp
  next
    case False
    then have "i_ref (T ! i) \<le> 0 \<or> i_inum ip \<noteq> i_inum (T ! i)" using assms(3) by (auto simp: in_use_def)
    then show ?thesis using assms(4) that by blast
  qed
  have "j = k" if "in_use (T[i := ip]) inum j" "in_use (T[i := ip]) inum k" for inum j k
    using that(1) [unfolded use] that(2) [unfolded use] new uniq by metis
  then show ?thesis using table_okD(2) [OF assms(1)] assms(2,3) len by (simp add: table_ok_def nth_list_update)
qed

lemma iget_scan_eq:
  "fst (iget_scan is T dev inum emp) = List.find (\<lambda>i. 0 < i_ref (T ! i) \<and> i_dev (T ! i) = dev \<and> i_inum (T ! i) = inum) is"
  "fst (iget_scan is T dev inum emp) = None \<Longrightarrow> snd (iget_scan is T dev inum emp) =
    (if emp = None then List.find (\<lambda>i. i_ref (T ! i) = 0) is else emp)"
  by (induction "is" arbitrary: emp) auto

lemma iget_spec:
  fixes s :: "'a fs_state_scheme"
  assumes ok: "table_ok D b pid lk (itable s)" and room: "inum \<in> live (itable s) \<or> card (live (itable s)) < NINODE"
  shows "\<exists>i T. iget ROOTDEV inum s = Inr (i, s\<lparr>itable := T\<rparr>) \<and> table_ok D b pid lk T \<and> in_use T inum i
    \<and> refs T = (refs (itable s))(inum := refs (itable s) inum + 1) \<and> (\<forall>m k. in_use (itable s) m k \<longrightarrow> in_use T m k)"
proof -
  let ?T = "itable s" and ?P = "\<lambda>i. 0 < i_ref (itable s ! i) \<and> i_dev (itable s ! i) = ROOTDEV \<and> i_inum (itable s ! i) = inum"
  note len = table_okD(3) [OF ok] and entry = table_okD(2) [OF ok]
  have P: "?P i \<longleftrightarrow> in_use ?T inum i" if "i < NINODE" for i
    using entry [OF that] that by (auto simp: in_use_def entry_ok_def)
  show ?thesis
  proof (cases "List.find ?P [0..<NINODE]")
    case (Some i)
    then have i: "i < NINODE" "?P i" by (auto simp: find_Some_iff)
    let ?ip = "(?T ! i)\<lparr>i_ref := i_ref (?T ! i) + 1\<rparr>"
    have "iget ROOTDEV inum s = Inr (i, s\<lparr>itable := ?T[i := ?ip]\<rparr>)"
      using Some iget_scan_eq(1) [of "[0..<NINODE]" ?T ROOTDEV inum None]
      by (auto simp: iget_def seti_def split: prod.splits option.splits)
    moreover have "table_ok D b pid lk (?T[i := ?ip])"
      using i entry [OF i(1)] by (intro table_ok_update [OF ok]) (auto simp: entry_ok_def loaded_def)
    moreover have "refs (?T[i := ?ip]) = (refs ?T)(inum := refs ?T inum + 1)"
      using i by (subst refs_update [OF len]) auto
    ultimately show ?thesis using i len by (intro exI [of _ i] exI [of _ "?T[i := ?ip]"]) (auto simp: in_use_def nth_list_update)
  next
    case None
    then have no: "\<not> in_use ?T inum i" for i using P [of i] by (auto simp: find_None_iff in_use_def)
    then have "inum \<notin> live ?T" using refs_pos [OF ok] by (simp add: live_def)
    then obtain k where "k < NINODE" "i_ref (?T ! k) = 0" using free_entry [OF ok] room by blast
    then obtain i where fi: "List.find (\<lambda>i. i_ref (?T ! i) = 0) [0..<NINODE] = Some i"
      by (cases "List.find (\<lambda>i. i_ref (?T ! i) = 0) [0..<NINODE]") (auto simp: find_None_iff)
    then have i: "i < NINODE" "i_ref (?T ! i) = 0" by (auto simp: find_Some_iff)
    let ?ip = "(?T ! i)\<lparr>i_dev := ROOTDEV, i_inum := inum, i_ref := 1, i_valid := False\<rparr>"
    have "iget ROOTDEV inum s = Inr (i, s\<lparr>itable := ?T[i := ?ip]\<rparr>)"
      using None fi iget_scan_eq [of "[0..<NINODE]" ?T ROOTDEV inum None]
      by (auto simp: iget_def seti_def split: prod.splits option.splits)
    moreover have "table_ok D b pid lk (?T[i := ?ip])"
      using i entry [OF i(1)] no by (intro table_ok_update [OF ok]) (auto simp: entry_ok_def)
    moreover have "refs (?T[i := ?ip]) = (refs ?T)(inum := refs ?T inum + 1)"
      using i by (subst refs_update [OF len]) auto
    ultimately show ?thesis using i len by (intro exI [of _ i] exI [of _ "?T[i := ?ip]"]) (auto simp: in_use_def nth_list_update)
  qed
qed

lemma idup_spec:
  fixes s :: "'a fs_state_scheme"
  assumes ok: "table_ok D b pid lk (itable s)" and use: "in_use (itable s) inum i"
  shows "\<exists>T. idup (Some i) s = Inr (i, s\<lparr>itable := T\<rparr>) \<and> table_ok D b pid lk T \<and> in_use T inum i
    \<and> refs T = (refs (itable s))(inum := refs (itable s) inum + 1)"
proof -
  let ?T = "itable s" let ?ip = "(?T ! i)\<lparr>i_ref := i_ref (?T ! i) + 1\<rparr>"
  have i: "i < NINODE" "0 < i_ref (?T ! i)" "i_inum (?T ! i) = inum" using use by (auto simp: in_use_def)
  have "table_ok D b pid lk (?T[i := ?ip])"
    using i table_okD(2) [OF ok i(1)] by (intro table_ok_update [OF ok]) (auto simp: entry_ok_def loaded_def)
  moreover have "refs (?T[i := ?ip]) = (refs ?T)(inum := refs ?T inum + 1)"
    using i by (subst refs_update [OF table_okD(3) [OF ok]]) auto
  ultimately show ?thesis using i table_okD(3) [OF ok] by (auto simp: idup_def seti_def in_use_def)
qed

lemma iput_spec:
  fixes s :: "'a fs_state_scheme"
  assumes ok: "table_ok D b pid lk (itable s)" and use: "in_use (itable s) inum i"
  shows "\<exists>T. iput (Some i) s = Inr (s\<lparr>itable := T\<rparr>) \<and> table_ok D b pid lk T
    \<and> refs T = (refs (itable s))(inum := refs (itable s) inum - 1)
    \<and> (\<forall>m k. in_use (itable s) m k \<longrightarrow> k \<noteq> i \<or> 1 < refs (itable s) inum \<longrightarrow> in_use T m k)"
proof -
  let ?T = "itable s" let ?ip = "(?T ! i)\<lparr>i_ref := i_ref (?T ! i) - 1\<rparr>"
  have i: "i < NINODE" "0 < i_ref (?T ! i)" "i_inum (?T ! i) = inum" using use by (auto simp: in_use_def)
  have "table_ok D b pid lk (?T[i := ?ip])"
    using i table_okD(2) [OF ok i(1)] by (intro table_ok_update [OF ok]) (auto simp: entry_ok_def loaded_def)
  moreover have "refs (?T[i := ?ip]) = (refs ?T)(inum := refs ?T inum - 1)"
    using i by (subst refs_update [OF table_okD(3) [OF ok]]) auto
  ultimately show ?thesis using i table_okD(3) [OF ok] refs_in_use [OF ok use]
    by (intro exI [of _ "?T[i := ?ip]"]) (auto simp: iput_def seti_def in_use_def nth_list_update)
qed

text \<open>Taking or giving back the lock of an entry changes neither counts nor the entries in use.\<close>

definition same_refs :: "inode list \<Rightarrow> inode list \<Rightarrow> bool" where
  "same_refs T U \<longleftrightarrow> refs U = refs T \<and> (\<forall>inum k. in_use U inum k = in_use T inum k)"

lemma same_refs_refl: "same_refs T T"
  by (simp add: same_refs_def)

lemma same_refs_trans: "same_refs T U \<Longrightarrow> same_refs U V \<Longrightarrow> same_refs T V"
  by (simp add: same_refs_def)

lemma same_refs_update:
  assumes "length T = NINODE" "i < NINODE" "i_inum ip = i_inum (T ! i)" "i_ref ip = i_ref (T ! i)"
  shows "same_refs T (T[i := ip])"
proof -
  have "refs (T[i := ip]) = refs T" using assms by (subst refs_update) auto
  moreover have "in_use (T[i := ip]) inum k = in_use T inum k" for inum k
    using assms by (cases "k = i") (auto simp: in_use_def)
  ultimately show ?thesis by (simp add: same_refs_def)
qed

lemma table_ok_relock:
  assumes "table_ok D b pid lk T" "lk = None \<or> lk = Some i" "i < NINODE" "entry_ok D b pid lk' i ip" "lk' = None \<or> lk' = Some i"
    "i_inum ip = i_inum (T ! i)" "i_ref ip = i_ref (T ! i)"
  shows "table_ok D b pid lk' (T[i := ip])"
proof -
  note same = same_refs_update [OF table_okD(3) [OF assms(1)] assms(3,6,7)]
  have "entry_ok D b pid lk' k (T[i := ip] ! k)" if "k < NINODE" for k
    using table_okD(2) [OF assms(1) that] assms(2,4,5) table_okD(3) [OF assms(1)] that
    by (cases "k = i") (auto simp: entry_ok_def)
  then show ?thesis
    using table_okD(3,4) [OF assms(1)] same unfolding table_ok_def same_refs_def by (metis length_list_update)
qed

lemma load_inode:
  assumes "buf_data t bp = D (IBLOCK inum b)"
  shows "ld16 (mem t) (a_bufdata t bp + 64 * ucast (inum mod IPB)) = d_type D b inum"
    "ld32 (mem t) (a_bufdata t bp + 64 * ucast (inum mod IPB) + 8) = d_size D b inum"
    "map (\<lambda>k. ld32 (mem t) (a_bufdata t bp + 64 * ucast (inum mod IPB) + 12 + 4 * of_nat k)) [0..<NDIRECT + 2] = d_addrs D b inum"
proof -
  have off: "64 * ucast (inum mod IPB) = (of_nat (d_off inum) :: u64)"
    by (simp add: d_off_def)
  note ld = ld_block [OF assms] and bound = d_off_bound [of inum]
  show "ld16 (mem t) (a_bufdata t bp + 64 * ucast (inum mod IPB)) = d_type D b inum"
    unfolding off d_type_def using bound by (intro ld(2)) simp
  show "ld32 (mem t) (a_bufdata t bp + 64 * ucast (inum mod IPB) + 8) = d_size D b inum"
    unfolding off d_size_def using ld(1) [of "d_off inum + 8"] bound by (simp add: add.assoc)
  have "ld32 (mem t) (a_bufdata t bp + of_nat (d_off inum) + 12 + 4 * of_nat k) = blk32 (D (IBLOCK inum b)) (d_off inum + 12 + 4 * k)"
    if "k < 13" for k using ld(1) [of "d_off inum + 12 + 4 * k"] bound that by (simp add: add.assoc)
  then show "map (\<lambda>k. ld32 (mem t) (a_bufdata t bp + 64 * ucast (inum mod IPB) + 12 + 4 * of_nat k)) [0..<NDIRECT + 2] = d_addrs D b inum"
    unfolding off d_addrs_def by (intro map_cong) (auto simp: NDIRECT_def)
qed

lemma iunlock_spec:
  fixes s :: "'a fs_state_scheme"
  assumes "idle s" "running p s" "itable_ok p (Some i) s" "in_use (itable s) inum i"
  shows "\<exists>t. iunlock (Some i) s = Inr t \<and> idle t \<and> fs_frame s t \<and> itable_ok p None t \<and> same_refs (itable s) (itable t)"
proof -
  have i: "i < NINODE" "0 < i_ref (geti s i)" using assms(4) by (auto simp: in_use_def)
  note e = table_okD(2) [OF assms(3) i(1)]
  let ?lk = "(i_lock (geti s i))\<lparr>sl_locked := False, sl_pid := 0\<rparr>"
  let ?w = "s\<lparr>procs := woken NPROC (InodeLock i) (myproc s) (procs s)\<rparr>"
  let ?t = "?w\<lparr>itable := (itable s)[i := (geti s i)\<lparr>i_lock := ?lk\<rparr>]\<rparr>"
  have t: "iunlock (Some i) s = Inr ?t"
    using e i assms(2) by (simp add: iunlock_def holdingsleep_def releasesleep_def seti_def wakeup_eq entry_ok_def running_def)
  have fr: "fs_frame s ?t"
    unfolding fs_frame_def read_frame_def
    by (rule exI [of _ "mem s"], rule exI [of _ "procs ?w"], rule exI [of _ "bufs s"]) (simp add: woke_woken)
  have "itable_ok p None ?t"
    using table_ok_relock [OF assms(3) _ i(1), of None "(geti s i)\<lparr>i_lock := ?lk\<rparr>"] e fs_frame_keeps(8) [OF fr assms(2)]
    by (simp add: entry_ok_def loaded_def)
  moreover have "idle ?t" using assms(1) by (simp add: idle_procs)
  moreover have "same_refs (itable s) (itable ?t)"
    using same_refs_update [OF table_okD(3) [OF assms(3)] i(1), of "(geti s i)\<lparr>i_lock := ?lk\<rparr>"] by simp
  ultimately show ?thesis using t fr by blast
qed

lemma ilock_spec:
  fixes s :: "'a fs_state_scheme"
  assumes "idle s" "running p s" "itable_ok p None s" "in_use (itable s) inum i" "d_type (disk s) (sb s) inum \<noteq> 0"
  shows "\<exists>t. ilock (Some i) s = Inr t \<and> idle t \<and> fs_frame s t \<and> itable_ok p (Some i) t \<and> same_refs (itable s) (itable t)
    \<and> loaded (disk s) (sb s) (geti t i)"
proof -
  have i: "i < NINODE" "0 < i_ref (geti s i)" "i_inum (geti s i) = inum" using assms(4) by (auto simp: in_use_def)
  note e = table_okD(2) [OF assms(3) i(1)] and len = table_okD(3) [OF assms(3)]
  have dev: "i_dev (geti s i) = 1" using e i(2) by (simp add: entry_ok_def ROOTDEV_def)
  have cur: "cur s = Inr p" using assms(2) by (simp add: running_def)
  let ?lk = "(i_lock (geti s i))\<lparr>sl_locked := True, sl_pid := p_pid (getp s p)\<rparr>"
  let ?l = "(geti s i)\<lparr>i_lock := ?lk\<rparr>"
  let ?s = "s\<lparr>itable := (itable s)[i := ?l]\<rparr>"
  have acq: "acquiresleep (i_lock (geti s i)) s = Inr ?lk" "seti i (\<lambda>ip. ip\<lparr>i_lock := ?lk\<rparr>) s = ?s"
    using e cur by (simp_all add: acquiresleep_def entry_ok_def seti_def)
  have ok1: "itable_ok p (Some i) ?s"
    using table_ok_relock [OF assms(3) _ i(1), of "Some i" ?l] e by (simp add: entry_ok_def loaded_def)
  have sm1: "same_refs (itable s) (itable ?s)" using same_refs_update [OF len i(1), of ?l] by simp
  show ?thesis
  proof (cases "i_valid (geti s i)")
    case True
    then have "ilock (Some i) s = Inr ?s" using i acq len by (simp add: ilock_def)
    moreover have "loaded (disk s) (sb s) (geti ?s i)" using True e i len by (simp add: entry_ok_def loaded_def)
    ultimately show ?thesis using ok1 sm1 assms(1) fs_frame_itable by (intro exI [of _ ?s]) simp
  next
    case False
    obtain bp t where t: "bread 1 (IBLOCK inum (sb s)) ?s = Inr (bp, t)" "bio_frame ?s t" "buf_data t bp = disk s (IBLOCK inum (sb s))"
        "\<forall>t'. bio_same t t' \<longrightarrow> (\<exists>u. brelse bp t' = Inr u \<and> idle u \<and> bio_frame t' u \<and> mem u = mem t')"
      using with_block [of ?s p 1 "IBLOCK inum (sb s)"] assms(1) cur by auto
    have it: "itable t = (itable s)[i := ?l]" using read_frame_fs(1) [OF read_frame_bio [OF t(2)]] by simp
    let ?m = "mem t" and ?d = "a_bufdata t bp + 64 * ucast (inum mod IPB)"
    let ?n = "load_dinode ?m ?d ?l"
    let ?t = "t\<lparr>itable := (itable t)[i := ?n]\<rparr>"
    have "bio_same t ?t" by (simp add: bio_same_def)
    then obtain u where u: "brelse bp ?t = Inr u" "idle u" "bio_frame ?t u" using t(4) by blast
    have iu: "itable u = (itable s)[i := ?n]" using read_frame_fs(1) [OF read_frame_bio [OF u(3)]] it by simp
    note ld = load_inode [where D = "disk s" and b = "sb s" and inum = inum, OF t(3)]
    have load: "i_type ?n = d_type (disk s) (sb s) inum" "i_size ?n = d_size (disk s) (sb s) inum"
        "i_addrs ?n = d_addrs (disk s) (sb s) inum" "i_inum ?n = inum" "i_ref ?n = i_ref (geti s i)" "i_dev ?n = i_dev (geti s i)" "i_lock ?n = ?lk"
      using i(3) unfolding load_dinode_def ld(3) by (simp_all add: ld(1,2))
    let ?v = "u\<lparr>itable := (itable s)[i := ?n\<lparr>i_valid := True\<rparr>]\<rparr>"
    have lock: "ilock (Some i) s = Inr ?v"
      using i acq len False t(1) u(1) it iu dev load(1) assms(5) by (simp add: ilock_def Let_def seti_def)
    have fr: "fs_frame s ?v"
      using fs_frame_trans [OF fs_frame_itable fs_frame_trans [OF fs_frame_bio [OF t(2)] fs_frame_trans [OF fs_frame_itable
        fs_frame_trans [OF fs_frame_bio [OF u(3)] fs_frame_itable]]]] .
    have l: "loaded (disk s) (sb s) (?n\<lparr>i_valid := True\<rparr>)" using load i(3) by (simp add: loaded_def)
    have "itable_ok p (Some i) ?v"
      using table_ok_relock [OF assms(3) _ i(1), of "Some i" "?n\<lparr>i_valid := True\<rparr>"] e l fs_frame_keeps(1,2) [OF fr] fs_frame_keeps(8) [OF fr assms(2)] load i
      by (simp add: entry_ok_def)
    moreover have "same_refs (itable s) (itable ?v)" using same_refs_update [OF len i(1), of "?n\<lparr>i_valid := True\<rparr>"] load i by simp
    ultimately show ?thesis using lock fr u(2) l i(1) len by (intro exI [of _ ?v]) simp
  qed
qed

lemma iunlockput_spec:
  fixes s :: "'a fs_state_scheme"
  assumes "idle s" "running p s" "itable_ok p (Some i) s" "in_use (itable s) inum i"
  shows "\<exists>t. iunlockput (Some i) s = Inr t \<and> idle t \<and> fs_frame s t \<and> itable_ok p None t
    \<and> refs (itable t) = (refs (itable s))(inum := refs (itable s) inum - 1)
    \<and> (\<forall>m k. in_use (itable s) m k \<longrightarrow> k \<noteq> i \<or> 1 < refs (itable s) inum \<longrightarrow> in_use (itable t) m k)"
proof -
  obtain t where t: "iunlock (Some i) s = Inr t" "idle t" "fs_frame s t" "itable_ok p None t" "same_refs (itable s) (itable t)"
    using iunlock_spec [OF assms] by blast
  have "in_use (itable t) inum i" using t(5) assms(4) by (simp add: same_refs_def)
  from iput_spec [OF t(4) this] obtain T where T: "iput (Some i) t = Inr (t\<lparr>itable := T\<rparr>)"
      "table_ok (disk t) (sb t) (p_pid (getp t p)) None T" "refs T = (refs (itable t))(inum := refs (itable t) inum - 1)"
      "\<forall>m k. in_use (itable t) m k \<longrightarrow> k \<noteq> i \<or> 1 < refs (itable t) inum \<longrightarrow> in_use T m k" by blast
  show ?thesis
    using t T fs_frame_trans [OF t(3) fs_frame_itable] by (intro exI [of _ "t\<lparr>itable := T\<rparr>"]) (simp add: iunlockput_def same_refs_def)
qed

end
