(* ===== verification/Paths.thy ===== *)
theory Paths
  imports Itable
begin

text \<open>
  Path names: \<^verbatim>\<open>namei\<close> follows the directories on disk, element by element, and returns a counted
  reference to the inode the path names.
\<close>

section \<open>The elements of a path\<close>

function elems :: "u8 list \<Rightarrow> u8 list list" where
  "elems path = (case dropWhile (\<lambda>c. c = SLASH) path of [] \<Rightarrow> []
     | c # cs \<Rightarrow> takeWhile (\<lambda>c. c \<noteq> SLASH) (c # cs) # elems (dropWhile (\<lambda>c. c \<noteq> SLASH) (c # cs)))"
  by auto
termination
proof (relation "measure length")
  fix path :: "u8 list" and c cs assume e: "dropWhile (\<lambda>c. c = SLASH) path = c # cs"
  have "length (c # cs) \<le> length path" using length_dropWhile_le [of "\<lambda>c. c = SLASH" path] e by simp
  moreover have "c \<noteq> SLASH" using hd_dropWhile [of "\<lambda>c. c = SLASH" path] e by auto
  moreover have "length (dropWhile (\<lambda>c. c \<noteq> SLASH) cs) \<le> length cs" by (rule length_dropWhile_le)
  ultimately show "(dropWhile (\<lambda>c. c \<noteq> SLASH) (c # cs), path) \<in> measure length" by simp
qed simp

declare elems.simps [simp del]

lemma elems_eq:
  "dropWhile (\<lambda>c. c = SLASH) path = [] \<Longrightarrow> elems path = []"
  "dropWhile (\<lambda>c. c = SLASH) path = c # cs \<Longrightarrow>
    elems path = takeWhile (\<lambda>c. c \<noteq> SLASH) (c # cs) # elems (dropWhile (\<lambda>c. c \<noteq> SLASH) (c # cs))"
  by (subst elems.simps, simp only: list.case)+

lemma elems_dropWhile: "elems (dropWhile (\<lambda>c. c = SLASH) path) = elems path"
  by (subst (1 2) elems.simps) simp

lemma elems_length: "length (elems path) \<le> length path"
proof (induction path rule: elems.induct)
  case (1 path)
  show ?case
  proof (cases "dropWhile (\<lambda>c. c = SLASH) path")
    case Nil
    then show ?thesis by (simp only: elems_eq list.size)
  next
    case (Cons c cs)
    have "length (elems (dropWhile (\<lambda>c. c \<noteq> SLASH) (c # cs))) \<le> length (dropWhile (\<lambda>c. c \<noteq> SLASH) (c # cs))"
      using 1 Cons by blast
    moreover have "length (c # cs) \<le> length path" using length_dropWhile_le [of "\<lambda>c. c = SLASH" path] Cons by simp
    moreover have "c \<noteq> SLASH" using hd_dropWhile [of "\<lambda>c. c = SLASH" path] Cons by auto
    moreover have "length (dropWhile (\<lambda>c. c \<noteq> SLASH) cs) \<le> length cs" by (rule length_dropWhile_le)
    ultimately show ?thesis using elems_eq(2) [OF Cons] by simp
  qed
qed

lemma cstr_nth:
  assumes "0 \<notin> set e" "length e < n"
  shows "cstr n (nth (e @ 0 # xs)) = e"
  using assms
proof (induction e arbitrary: n)
  case Nil
  then show ?case by (cases n) (simp_all add: cstr_Suc)
next
  case (Cons c e)
  then show ?case by (cases n) (auto simp: cstr_Suc)
qed

lemma cstr_full:
  assumes "0 \<notin> set e" "n \<le> length e"
  shows "cstr n (nth e) = take n e"
  using assms
proof (induction e arbitrary: n)
  case Nil
  then show ?case by (simp add: cstr_def)
next
  case (Cons c e)
  then show ?case by (cases n) (auto simp: cstr_Suc, simp add: cstr_def)
qed

lemma cstr_name:
  assumes "0 \<notin> set e"
  shows "cstr n (nth (if n \<le> length e then take n e else e @ 0 # xs)) = take n e"
proof (cases "n \<le> length e")
  case True
  have "0 \<notin> set (take n e)" using assms in_set_takeD by fast
  then show ?thesis using True cstr_full [of "take n e" n] by simp
next
  case False
  then show ?thesis using cstr_nth [OF assms] by simp
qed

lemma skipelem_elems:
  assumes "0 \<notin> set path"
  shows "case elems path of [] \<Rightarrow> skipelem path name = None
    | e # es \<Rightarrow> \<exists>rest name'. skipelem path name = Some (rest, name') \<and> elems rest = es \<and> 0 \<notin> set rest
        \<and> cstr DIRSIZ (nth name') = take DIRSIZ e"
proof (cases "dropWhile (\<lambda>c. c = SLASH) path")
  case Nil
  then show ?thesis using elems_eq(1) [OF Nil] unfolding skipelem_def Let_def by (simp only: list.case simp_thms if_True)
next
  case (Cons c cs)
  let ?s = "takeWhile (\<lambda>c. c \<noteq> SLASH) (c # cs)" and ?r = "dropWhile (\<lambda>c. c \<noteq> SLASH) (c # cs)"
  have z: "0 \<notin> set (c # cs)" using assms Cons set_dropWhileD [of _ "\<lambda>c. c = SLASH" path] by metis
  then have "0 \<notin> set ?s" "0 \<notin> set (dropWhile (\<lambda>c. c = SLASH) ?r)"
    using set_takeWhileD [of _ "\<lambda>c. c \<noteq> SLASH" "c # cs"] set_dropWhileD [of _ "\<lambda>c. c \<noteq> SLASH" "c # cs"]
      set_dropWhileD [of _ "\<lambda>c. c = SLASH" ?r] by blast+
  moreover from this have "cstr DIRSIZ (nth (if length ?s \<ge> DIRSIZ then take DIRSIZ ?s else ?s @ 0 # drop (length ?s + 1) name)) = take DIRSIZ ?s"
    by (intro cstr_name)
  moreover have "skipelem path name = Some (dropWhile (\<lambda>c. c = SLASH) ?r,
      if length ?s \<ge> DIRSIZ then take DIRSIZ ?s else ?s @ 0 # drop (length ?s + 1) name)"
    unfolding skipelem_def Let_def Cons by simp
  moreover have "elems path = ?s # elems (dropWhile (\<lambda>c. c = SLASH) ?r)"
    unfolding elems_dropWhile by (rule elems_eq(2) [OF Cons])
  ultimately show ?thesis by auto
qed

section \<open>What a path names\<close>

definition dir_entry :: "(u32 \<Rightarrow> u8 list) \<Rightarrow> superblock \<Rightarrow> u32 \<Rightarrow> u8 list \<Rightarrow> u32 option" where
  "dir_entry D b inum name = (let A = d_addrs D b inum in
     map_option (\<lambda>j. ucast (de_inum D A j)) (dir_find D A name 0 (unat (d_size D b inum) div 16)))"

fun resolve :: "(u32 \<Rightarrow> u8 list) \<Rightarrow> superblock \<Rightarrow> u32 \<Rightarrow> u8 list list \<Rightarrow> u32 option" where
  "resolve D b inum [] = Some inum"
| "resolve D b inum (e # es) =
     (if d_type D b inum \<noteq> T_DIR then None
      else case dir_entry D b inum (take DIRSIZ e) of None \<Rightarrow> None | Some inum \<Rightarrow> resolve D b inum es)"

text \<open>A set of inode numbers closed under directory entries, all of them in use.\<close>

definition blocks_ok :: "(u32 \<Rightarrow> u8 list) \<Rightarrow> u32 \<Rightarrow> u32 list \<Rightarrow> bool" where
  "blocks_ok D sz A \<longleftrightarrow> unat sz \<le> MAXFILE * 1024 \<and> (\<forall>bn. bn * 1024 < unat sz \<longrightarrow> file_block D A bn \<noteq> 0)"

definition fs_ok :: "(u32 \<Rightarrow> u8 list) \<Rightarrow> superblock \<Rightarrow> u32 set \<Rightarrow> bool" where
  "fs_ok D b I \<longleftrightarrow> (\<forall>inum\<in>I. d_type D b inum \<noteq> 0 \<and> (d_type D b inum = T_DIR \<longrightarrow>
     16 dvd unat (d_size D b inum) \<and> blocks_ok D (d_size D b inum) (d_addrs D b inum)
     \<and> (\<forall>name m. dir_entry D b inum name = Some m \<longrightarrow> m \<in> I)))"

lemma entry_file_ok:
  assumes "loaded (disk s) (sb s) (geti s i)" "i_inum (geti s i) = inum" "i_dev (geti s i) = ROOTDEV"
    "blocks_ok (disk s) (d_size (disk s) (sb s) inum) (d_addrs (disk s) (sb s) inum)"
  shows "file_ok s i"
  using assms by (simp add: loaded_def file_ok_def blocks_ok_def ROOTDEV_def)

lemma live_bound:
  assumes "refs T = R(inum := R inum + 1)" "card {x. 0 < R x} + 2 \<le> n"
  shows "card (live T) < n"
proof -
  have fin: "finite {x :: u32. 0 < R x}" by (rule finite_subset [OF subset_UNIV]) simp
  have "live T \<subseteq> insert inum {x. 0 < R x}" using assms(1) by (auto simp: live_def split: if_splits)
  then have "card (live T) \<le> card (insert inum {x. 0 < R x})" by (rule card_mono [rotated]) (simp add: fin)
  also have "\<dots> \<le> card {x. 0 < R x} + 1" by (simp add: card_insert_le_m1 fin card_insert_if)
  finally show ?thesis using assms(2) by simp
qed

text \<open>One directory: the entry is looked up in the inode on disk, and a reference to it is taken.\<close>

lemma lookup_step:
  fixes s :: "'a fs_state_scheme"
  assumes s: "idle s" "running p s" "itable_ok p (Some i) s" "de_buf s" "in_use (itable s) inum i"
    and l: "loaded (disk s) (sb s) (geti s i)" and dir: "d_type (disk s) (sb s) inum = T_DIR"
    and ok: "fs_ok (disk s) (sb s) I" "inum \<in> I" and room: "card (live (itable s)) < NINODE"
  shows "\<exists>t. idle t \<and> fs_frame s t \<and> itable_ok p (Some i) t \<and> in_use (itable t) inum i \<and>
    (case dir_entry (disk s) (sb s) inum (cstr DIRSIZ (nth name)) of
       None \<Rightarrow> dirlookup i name s = Inr (None, t) \<and> refs (itable t) = refs (itable s)
     | Some m \<Rightarrow> \<exists>nx off. dirlookup i name s = Inr (Some (nx, off), t) \<and> in_use (itable t) m nx
         \<and> refs (itable t) = (refs (itable s))(m := refs (itable s) m + 1))"
proof -
  have i: "i < NINODE" "0 < i_ref (geti s i)" "i_inum (geti s i) = inum" using s(5) by (auto simp: in_use_def)
  have dev: "i_dev (geti s i) = ROOTDEV" using table_okD(2) [OF s(3) i(1)] i(2) by (simp add: entry_ok_def)
  have f: "i_addrs (geti s i) = d_addrs (disk s) (sb s) inum" "i_size (geti s i) = d_size (disk s) (sb s) inum"
      "i_type (geti s i) = T_DIR" using l i(3) dir by (simp_all add: loaded_def)
  let ?n = "unat (d_size (disk s) (sb s) inum) div 16"
  have "blocks_ok (disk s) (d_size (disk s) (sb s) inum) (d_addrs (disk s) (sb s) inum)" and sz: "unat (i_size (geti s i)) = 16 * ?n"
    using ok dir f(2) by (auto simp: fs_ok_def)
  then have fo: "file_ok s i" using entry_file_ok [OF l i(3) dev] by simp
  have cur: "cur s = Inr p" using s(2) by (simp add: running_def)
  let ?A = "d_addrs (disk s) (sb s) inum"
  obtain t where t: "idle t" "de_frame s t" "dirlookup i name s =
    (case dir_find (disk s) ?A (cstr DIRSIZ (nth name)) 0 ?n of None \<Rightarrow> Inr (None, t)
     | Some m \<Rightarrow> rbind (iget ROOTDEV (ucast (de_inum (disk s) ?A m)) t) (\<lambda>(ip, u). Inr (Some (ip, of_nat (16 * m)), u)))"
    using dirlookup_spec [OF s(1) cur fo s(4) sz f(3), of name] unfolding f dev by blast
  note fr = fs_frame_read [OF t(2)] and it = read_frame_fs(1) [OF t(2)]
  note k = fs_frame_keeps(1,2) [OF fr] fs_frame_keeps(8) [OF fr s(2)]
  have tok: "itable_ok p (Some i) t" using s(3) it k by simp
  show ?thesis
  proof (cases "dir_find (disk s) ?A (cstr DIRSIZ (nth name)) 0 ?n")
    case None
    then show ?thesis using t fr it tok s(5) by (intro exI [of _ t]) (simp add: dir_entry_def)
  next
    case (Some j)
    let ?m = "ucast (de_inum (disk s) ?A j) :: u32"
    have "card (live (itable t)) < NINODE" using room it by simp
    then obtain nx T where T: "iget ROOTDEV ?m t = Inr (nx, t\<lparr>itable := T\<rparr>)"
        "table_ok (disk t) (sb t) (p_pid (getp t p)) (Some i) T" "in_use T ?m nx"
        "refs T = (refs (itable t))(?m := refs (itable t) ?m + 1)" "\<forall>m k. in_use (itable t) m k \<longrightarrow> in_use T m k"
      using iget_spec [OF tok, of ?m] by blast
    show ?thesis
      using Some t T it s(5) fs_frame_trans [OF fr fs_frame_itable]
      by (intro exI [of _ "t\<lparr>itable := T\<rparr>"]) (simp add: dir_entry_def)
  qed
qed

lemma namex_loop_spec:
  fixes s :: "'a fs_state_scheme"
  assumes "idle s" "running p s" "itable_ok p None s" "de_buf s" "fs_ok (disk s) (sb s) I" "inum \<in> I"
    "in_use (itable s) inum ip" "refs (itable s) = R(inum := R inum + 1)" "\<forall>x. 0 \<le> R x" "card {x. 0 < R x} + 2 \<le> NINODE"
    "0 \<notin> set path" "length (elems path) \<le> k"
  shows "\<exists>t. idle t \<and> fs_frame s t \<and> itable_ok p None t \<and>
    (case resolve (disk s) (sb s) inum (elems path) of
       None \<Rightarrow> namex_loop k ip path name s = Inr (None, t) \<and> refs (itable t) = R
     | Some m \<Rightarrow> \<exists>i. namex_loop k ip path name s = Inr (Some i, t) \<and> in_use (itable t) m i \<and> refs (itable t) = R(m := R m + 1))"
  using assms
proof (induction k arbitrary: inum ip path name s)
  case 0
  then have "elems path = []" by simp
  moreover have "skipelem path name = None" using skipelem_elems [OF 0(11), of name] \<open>elems path = []\<close> by simp
  ultimately show ?case using 0(1,3,7,8) fs_frame_refl [of s] by (intro exI [of _ s]) (simp del: fun_upd_apply)
next
  case (Suc k)
  note IH = Suc.IH and A = Suc.prems
  show ?case
  proof (cases "elems path")
    case Nil
    then have "skipelem path name = None" using skipelem_elems [OF A(11), of name] by simp
    then show ?thesis using Nil A(1,3,7,8) fs_frame_refl [of s] by (intro exI [of _ s]) (simp del: fun_upd_apply)
  next
    case (Cons e es)
    obtain rest nm where sk: "skipelem path name = Some (rest, nm)" "elems rest = es" "0 \<notin> set rest" "cstr DIRSIZ (nth nm) = take DIRSIZ e"
      using skipelem_elems [OF A(11), of name] Cons by auto
    let ?D = "disk s" and ?b = "sb s"
    have "d_type ?D ?b inum \<noteq> 0" using A(5,6) by (simp add: fs_ok_def)
    then obtain t where t: "ilock (Some ip) s = Inr t" "idle t" "fs_frame s t" "itable_ok p (Some ip) t"
        "same_refs (itable s) (itable t)" "loaded ?D ?b (geti t ip)"
      using ilock_spec [OF A(1-3,7)] by blast
    note kt = fs_frame_keeps(1,2) [OF t(3)] fs_frame_keeps(6) [OF t(3) A(4)] fs_frame_keeps(7) [OF t(3) A(2)]
    have use: "in_use (itable t) inum ip" and rt: "refs (itable t) = R(inum := R inum + 1)"
      using t(5) A(7,8) by (simp_all add: same_refs_def del: fun_upd_apply)
    have ty: "i_type (geti t ip) = d_type ?D ?b inum" using t(6) use by (simp add: loaded_def in_use_def)
    show ?thesis
    proof (cases "d_type ?D ?b inum = T_DIR")
      case False
      obtain u where u: "iunlockput (Some ip) t = Inr u" "idle u" "fs_frame t u" "itable_ok p None u"
          "refs (itable u) = (refs (itable t))(inum := refs (itable t) inum - 1)"
        using iunlockput_spec [OF t(2) kt(4) t(4) use] by blast
      show ?thesis
        using False Cons sk t(1) u(1,2,4) u(5) [unfolded rt] ty fs_frame_trans [OF t(3) u(3)] by (intro exI [of _ u]) (simp add: fun_eq_iff)
    next
      case True
      have "card (live (itable t)) < NINODE" by (rule live_bound [OF rt A(10)])
      from lookup_step [OF t(2) kt(4) t(4) kt(3) use, unfolded kt(1,2), OF t(6) True A(5,6) this, of nm]
      obtain u where u: "idle u" "fs_frame t u" "itable_ok p (Some ip) u" "in_use (itable u) inum ip"
          "case dir_entry ?D ?b inum (take DIRSIZ e) of
             None \<Rightarrow> dirlookup ip nm t = Inr (None, u) \<and> refs (itable u) = refs (itable t)
           | Some m \<Rightarrow> \<exists>nx off. dirlookup ip nm t = Inr (Some (nx, off), u) \<and> in_use (itable u) m nx
               \<and> refs (itable u) = (refs (itable t))(m := refs (itable t) m + 1)"
        unfolding sk(4) by blast
      note ku = fs_frame_keeps(7) [OF u(2) kt(4)]
      obtain v where v: "iunlockput (Some ip) u = Inr v" "idle v" "fs_frame u v" "itable_ok p None v"
          "refs (itable v) = (refs (itable u))(inum := refs (itable u) inum - 1)"
          "\<forall>m k. in_use (itable u) m k \<longrightarrow> k \<noteq> ip \<or> 1 < refs (itable u) inum \<longrightarrow> in_use (itable v) m k"
        using iunlockput_spec [OF u(1) ku u(3,4)] by blast
      note frv = fs_frame_trans [OF fs_frame_trans [OF t(3) u(2)] v(3)]
      show ?thesis
      proof (cases "dir_entry ?D ?b inum (take DIRSIZ e)")
        case None
        then show ?thesis
          using True Cons sk t(1) u(5) v(1,2,4,5) ty rt frv by (intro exI [of _ v]) (simp add: fun_eq_iff)
      next
        case (Some m)
        then obtain nx off where nx: "dirlookup ip nm t = Inr (Some (nx, off), u)" "in_use (itable u) m nx"
            "refs (itable u) = (refs (itable t))(m := refs (itable t) m + 1)" using u(5) by auto
        have step: "namex_loop (Suc k) ip path name s = namex_loop k nx rest nm v"
          using True sk t(1) nx(1) v(1) ty by simp
        have rv: "refs (itable v) = R(m := R m + 1)" using v(5) nx(3) rt by (auto simp: fun_eq_iff)
        have "nx \<noteq> ip \<or> 1 < refs (itable u) inum"
          using nx(2) u(4) nx(3) rt A(9) by (auto simp: in_use_def fun_upd_def add_pos_nonneg)
        then have uv: "in_use (itable v) m nx" using v(6) nx(2) by blast
        have mI: "m \<in> I" using A(5,6) True Some by (auto simp: fs_ok_def)
        note kv = fs_frame_keeps(1,2) [OF frv] fs_frame_keeps(6) [OF frv A(4)] fs_frame_keeps(7) [OF frv A(2)]
        have "fs_ok (disk v) (sb v) I" "length (elems rest) \<le> k" using A(5,12) kv Cons sk(2) by auto
        from IH [OF v(2) kv(4) v(4) kv(3) this(1) mI uv rv A(9,10) sk(3) this(2), of nm] obtain w where
          w: "idle w" "fs_frame v w" "itable_ok p None w" "case resolve ?D ?b m es of
             None \<Rightarrow> namex_loop k nx rest nm v = Inr (None, w) \<and> refs (itable w) = R
           | Some m \<Rightarrow> \<exists>i. namex_loop k nx rest nm v = Inr (Some i, w) \<and> in_use (itable w) m i \<and> refs (itable w) = R(m := R m + 1)"
          unfolding kv sk(2) by blast
        show ?thesis
          unfolding step Cons
          using True Some w fs_frame_trans [OF frv w(2)] by (intro exI [of _ w]) simp
      qed
    qed
  qed
qed

section \<open>namei\<close>

text \<open>The inode a path starts from: the root, or the current directory.\<close>

definition starts_at :: "'a fs_state_scheme \<Rightarrow> nat \<Rightarrow> u8 list \<Rightarrow> u32 \<Rightarrow> bool" where
  "starts_at s p path inum \<longleftrightarrow>
     (if path \<noteq> [] \<and> hd path = SLASH then inum = ROOTINO
      else \<exists>c. p_cwd (getp s p) = Some c \<and> in_use (itable s) inum c)"

lemma refs_nonneg: "table_ok D b pid lk T \<Longrightarrow> 0 \<le> refs T inum"
  unfolding refs_def by (intro sum_nonneg) (auto simp: table_okD(1))

lemma namex_start:
  fixes s :: "'a fs_state_scheme"
  assumes "running p s" "itable_ok p None s" "starts_at s p path inum" "card (live (itable s)) + 2 \<le> NINODE"
  shows "\<exists>ip T. namex path nm s = namex_loop (length path) ip path nm (s\<lparr>itable := T\<rparr>)
    \<and> table_ok (disk s) (sb s) (p_pid (getp s p)) None T \<and> in_use T inum ip
    \<and> refs T = (refs (itable s))(inum := refs (itable s) inum + 1)"
proof (cases "path \<noteq> [] \<and> hd path = SLASH")
  case True
  then have "inum = ROOTINO" using assms(3) by (simp add: starts_at_def)
  with iget_spec [OF assms(2), of inum] assms(4) obtain ip T where "iget ROOTDEV ROOTINO s = Inr (ip, s\<lparr>itable := T\<rparr>)"
      "table_ok (disk s) (sb s) (p_pid (getp s p)) None T" "in_use T inum ip" "refs T = (refs (itable s))(inum := refs (itable s) inum + 1)"
    by auto
  then show ?thesis using True by (auto simp: namex_def)
next
  case False
  then obtain c where c: "p_cwd (getp s p) = Some c" "in_use (itable s) inum c" using assms(3) by (auto simp: starts_at_def)
  with idup_spec [OF assms(2) c(2)] obtain T where "idup (Some c) s = Inr (c, s\<lparr>itable := T\<rparr>)"
      "table_ok (disk s) (sb s) (p_pid (getp s p)) None T" "in_use T inum c" "refs T = (refs (itable s))(inum := refs (itable s) inum + 1)"
    by auto
  moreover have "cur s = Inr p" using assms(1) by (simp add: running_def)
  ultimately show ?thesis using False c(1) by (auto simp: namex_def)
qed


text \<open>A file system with a root directory that holds itself and one file, \<^verbatim>\<open>a\<close>.\<close>

definition sample_img :: "u32 \<Rightarrow> u8 list" where
  "sample_img n =
     (if n = 2 then replicate 64 0
        @ ([1, 0, 0, 0, 0, 0, 1, 0, 32, 0, 0, 0, 5, 0, 0, 0] @ replicate 48 0) @ ([2, 0, 0, 0, 0, 0, 1, 0] @ replicate 56 0) @ replicate 832 0
      else if n = 5 then [1, 0, 46] @ replicate 13 0 @ [2, 0, 97] @ replicate 13 0 @ replicate 992 0
      else replicate 1024 0)"

definition sample_sb :: superblock where
  "sample_sb = \<lparr>sb_magic = FSMAGIC, sb_size = 6, sb_nblocks = 1, sb_ninodes = 16, sb_nlog = 0, sb_logstart = 2,
     sb_inodestart = 2, sb_bmapstart = 3\<rparr>"

definition sample_tree :: "fs_state \<Rightarrow> fs_state" where
  "sample_tree z = binit (boot_bio sample_img (z\<lparr>procs := replicate NPROC (procs z ! 0), sb := sample_sb, a_de := 0x100000,
     itable := replicate NINODE \<lparr>i_dev = 0, i_inum = 0, i_ref = 0, i_lock = initsleeplock ''inode'', i_valid = False,
       i_type = 0, i_major = 0, i_minor = 0, i_nlink = 0, i_size = 0, i_addrs = []\<rparr>\<rparr>))"

lemma sample_root:
  "d_type sample_img sample_sb 1 = T_DIR" "d_size sample_img sample_sb 1 = 32" "d_addrs sample_img sample_sb 1 = 5 # replicate 12 0"
  "d_type sample_img sample_sb 2 = T_FILE"
  by code_simp+

lemma sample_entries:
  "de_inum sample_img (5 # replicate 12 0) 0 = 1" "de_inum sample_img (5 # replicate 12 0) (Suc 0) = 2"
  "resolve sample_img sample_sb ROOTINO (elems [47, 97]) = Some 2"
  by code_simp+

lemma sample_fs_ok: "fs_ok sample_img sample_sb {1, 2}"
proof -
  have "m \<in> {1, 2}" if d: "dir_entry sample_img sample_sb 1 name = Some m" for name m
  proof -
    obtain j where "dir_find sample_img (5 # replicate 12 0) name 0 2 = Some j" "m = ucast (de_inum sample_img (5 # replicate 12 0) j)"
      using d by (auto simp: dir_entry_def sample_root Let_def simp del: replicate.simps)
    moreover from this have "j = 0 \<or> j = Suc 0" by (auto simp: dir_find_def numeral_2_eq_2 split: if_splits)
    ultimately show ?thesis using sample_entries by auto
  qed
  moreover have "blocks_ok sample_img 32 (5 # replicate 12 0)"
    by (auto simp: blocks_ok_def MAXFILE_def NDIRECT_def NINDIRECT_def NDINDIRECT_def file_block_def)
  ultimately show ?thesis by (auto simp: fs_ok_def sample_root T_DIR_def T_FILE_def simp del: replicate.simps)
qed

lemma sample_tree_ok:
  "idle (sample_tree z)" "running 0 (sample_tree z)" "itable_ok 0 None (sample_tree z)" "de_buf (sample_tree z)"
  "disk (sample_tree z) = sample_img" "sb (sample_tree z) = sample_sb" "live (itable (sample_tree z)) = {}"
proof -
  have l: "length (sample_img n) = BSIZE" for n by (simp add: sample_img_def BSIZE_def)
  let ?e = "\<lparr>i_dev = 0, i_inum = 0, i_ref = 0, i_lock = initsleeplock ''inode'', i_valid = False,
       i_type = 0, i_major = 0, i_minor = 0, i_nlink = 0, i_size = 0, i_addrs = []\<rparr>"
  let ?z = "boot_bio sample_img (z\<lparr>procs := replicate NPROC (procs z ! 0), sb := sample_sb, a_de := 0x100000, itable := replicate NINODE ?e\<rparr>)"
  obtain lk bs where b: "binit ?z = ?z\<lparr>locks := lk, bufs := bs\<rparr>" using binit_frame by blast
  have f: "itable (sample_tree z) = replicate NINODE ?e" "sb (sample_tree z) = sample_sb" "a_de (sample_tree z) = 0x100000"
      "length (procs (sample_tree z)) = NPROC" "a_bufdata (sample_tree z) = (\<lambda>b. of_nat (1024 * b))"
    unfolding sample_tree_def b by (simp_all add: boot_bio_def)
  show "sb (sample_tree z) = sample_sb" by (rule f(2))
  show "idle (sample_tree z)" "disk (sample_tree z) = sample_img"
    unfolding sample_tree_def by (simp_all add: boot_bio_idle [of sample_img] boot_bio_ok(5) [of sample_img] l)
  have "cur (sample_tree z) = Inr 0" unfolding sample_tree_def by (rule boot_bio_ok(2) [OF l])
  then show "running 0 (sample_tree z)" by (simp add: running_def f NPROC_def)
  show "itable_ok 0 None (sample_tree z)"
    by (auto simp: table_ok_def f entry_ok_def in_use_def initsleeplock_def)
  show "de_buf (sample_tree z)" using boot_area [OF f(5), of 16] by (simp add: de_buf_def f)
  have "refs (replicate NINODE ?e) x = 0" for x unfolding refs_def by (rule sum.neutral) simp
  then show "live (itable (sample_tree z)) = {}" by (simp add: live_def f)
qed


end
