(* ===== verification/Procmem.thy ===== *)
theory Procmem
  imports Proc Vmprops
begin

text \<open>
  The memory of a process: \<^verbatim>\<open>allocproc\<close> takes a trap frame and a page table with the trampoline and the
  trap frame mapped, or gives back everything it took, and \<^verbatim>\<open>freeproc\<close> returns every page of a process.
\<close>

section \<open>Mapping the two pages above the user's\<close>

definition as_same :: "'a mm_state_scheme \<Rightarrow> u64 \<Rightarrow> 'a mm_state_scheme \<Rightarrow> bool" where
  "as_same s p s' \<longleftrightarrow> mm_frame s s' \<and> as_inv s' p \<and> as_total s' p = as_total s p
     \<and> (\<forall>q. q \<notin> as_total s p \<longrightarrow> agree_page (mem s) (mem s') q) \<and> aspace (mem s') p = aspace (mem s) p"

lemma as_sameD:
  assumes "as_same s p s'"
  shows "mm_frame s s'" "as_inv s' p" "as_total s' p = as_total s p" "q \<notin> as_total s p \<Longrightarrow> agree_page (mem s) (mem s') q"
    "aspace (mem s') p = aspace (mem s) p"
  using assms unfolding as_same_def by blast+

lemma as_same_trans:
  assumes "as_same s p t" "as_same t p u"
  shows "as_same s p u"
proof -
  note a = as_sameD [OF assms(1)] and b = as_sameD [OF assms(2)]
  have "agree_page (mem s) (mem u) q" if "q \<notin> as_total s p" for q
    using agree_page_trans [OF a(4) b(4)] a(3) that by simp
  then show ?thesis using mm_frame_trans [OF a(1) b(1)] a(3,5) b(2,3,5) unfolding as_same_def by simp
qed

lemma high_uleaf:
  assumes "TRAPFRAME \<le> a" "\<And>va. va39 va \<Longrightarrow> \<not> vrange a 1 va \<Longrightarrow> lookup m' p va = lookup m p va"
  shows "uleaf m' p va = uleaf m p va"
proof (cases "va < TRAPFRAME")
  case True
  then have "va39 va" "\<not> vrange a 1 va" using assms(1) by (auto simp: va39_def vrange_def word_less_nat_alt word_le_nat_alt)
  then show ?thesis using assms(2) by (simp add: uleaf_def)
next
  case False
  then show ?thesis by (simp add: uleaf_def)
qed

lemma map_high:
  fixes s :: "'a mm_state_scheme"
  assumes inv: "as_inv s p" and a: "page_aligned a" "TRAPFRAME \<le> a" "unat a + 4096 \<le> unat MAXVA"
    and none: "\<And>va. vrange a 1 va \<Longrightarrow> lookup (mem s) p va = None"
  shows "\<exists>r s'. mappages s p a PGSIZE pa perm = Inr (r, s') \<and> as_same s p s'
    \<and> (r = 0 \<and> (\<forall>va. va39 va \<longrightarrow> lookup (mem s') p va = (if vrange a 1 va then Some (map_entry a pa perm va) else lookup (mem s) p va))
       \<or> r = -1 \<and> avail s' = {} \<and> (\<forall>va. va39 va \<longrightarrow> lookup (mem s') p va = lookup (mem s) p va))"
proof -
  note I = as_invD [OF inv]
  have "unat PGSIZE div 4096 = 1" "PGSIZE \<noteq> 0" by (simp_all add: PGSIZE_def)
  then have mp: "mappages s p a PGSIZE pa perm = mappages_loop 1 s p a a pa perm"
    using a(1) by (simp add: mappages_def mod_PGSIZE_0 page_aligned_def del: mappages_loop.simps One_nat_def)
  obtain r s' k where r: "mappages_loop 1 s p a a pa perm = Inr (r, s')" and ext: "pt_ext s p s'"
      and look: "\<forall>va. va39 va \<longrightarrow> lookup (mem s') p va = (if vrange a k va then Some (map_entry a pa perm va) else lookup (mem s) p va)"
      and k: "r = 0 \<and> k = 1 \<or> r = -1 \<and> k < 1 \<and> avail s' = {}"
    using mappages_loop_spec [OF I(1) a(1), of 1 a pa perm] a(3) none by auto
  have up: "uleaf (mem s') p va = uleaf (mem s) p va" for va
    by (rule high_uleaf [OF a(2)]) (use look k in auto)
  then have us: "upages s' p = upages s p" by (simp add: upages_def)
  note E = pt_extD [OF ext]
  have "as_inv s' p"
  proof (rule as_invI [OF E(2)])
    fix q assume "q \<in> upages s' p"
    then have q: "q \<in> upages s p" using us by simp
    show "q \<notin> ptp s' p" "q \<notin> avail s'" using I(2,3) [OF q] E(4,5) by blast+
    show "valid_page s' q" using I(4) [OF q] mm_frame_valid [OF E(1)] by simp
  qed (use up as_inv_inj [OF inv] in simp)
  moreover have "as_total s' p = as_total s p" using E(3,4,5) us by (auto simp: as_total_def)
  moreover have "agree_page (mem s) (mem s') q" if "q \<notin> as_total s p" for q
    using that E(4) by (intro E(6)) (auto simp: as_total_def)
  moreover have "aspace (mem s') p = aspace (mem s) p" using pt_ext_aspace [OF inv ext up] by blast
  ultimately have "as_same s p s'" using E(1) by (simp add: as_same_def)
  then show ?thesis using mp r look k by auto
qed

lemma unmap_high:
  fixes s :: "'a mm_state_scheme"
  assumes inv: "as_inv s p" and a: "page_aligned a" "TRAPFRAME \<le> a" "unat a + 4096 \<le> unat MAXVA"
  shows "\<exists>s'. uvmunmap s p a 1 False = Inr s' \<and> as_same s p s' \<and> avail s' = avail s
    \<and> (\<forall>va. va39 va \<longrightarrow> lookup (mem s') p va = (if vrange a 1 va then None else lookup (mem s) p va))"
proof -
  have "a + PGSIZE = a + of_nat (4096 * 1)" by (simp add: PGSIZE_def)
  with uvmunmap_loop_spec [OF inv a(1), of 1 False "a + PGSIZE"] a(3) obtain s' where
    s': "uvmunmap_loop 1 s p a (a + PGSIZE) False = Inr s'" "mm_frame s s'" "as_inv s' p" "ptp s' p = ptp s p" "avail s' = avail s"
      "\<And>va. va39 va \<Longrightarrow> lookup (mem s') p va = (if vrange a 1 va then None else lookup (mem s) p va)"
      "\<And>q. q \<notin> ptp s p \<Longrightarrow> agree_page (mem s) (mem s') q" by auto
  have up: "uleaf (mem s') p va = uleaf (mem s) p va" for va
    by (rule high_uleaf [OF a(2)]) (use s'(6) in auto)
  then have "as_total s' p = as_total s p" using s'(4,5) by (simp add: as_total_def upages_def)
  moreover have "aspace (mem s') p va = aspace (mem s) p va" for va
    using as_invD(2) [OF inv upagesI] by (intro aspace_eqI [OF inv up] s'(7)) blast
  ultimately have "as_same s p s'" using s'(2,3,7) by (auto simp: as_same_def as_total_def)
  then show ?thesis using s'(1,5,6) a(1) by (simp add: uvmunmap_def mod_PGSIZE_0 page_aligned_def)
qed

lemma mm_frame_proc:
  fixes s :: "'a proc_state_scheme"
  assumes "mm_frame s t"
  shows "procs t = procs s" "a_trampoline t = a_trampoline s" "a_forkret t = a_forkret s" "nextpid t = nextpid s"
proof -
  have e: "t = s\<lparr>mem := mem t, freelist := freelist t\<rparr>" using assms by (simp add: mm_frame_def)
  show "procs t = procs s" "a_trampoline t = a_trampoline s" "a_forkret t = a_forkret s" "nextpid t = nextpid s"
    by (subst e, simp)+
qed

text \<open>Giving up a table with nothing mapped: everything it holds becomes free.\<close>

lemma uvmfree_empty:
  assumes "as_same s0 p s" "\<And>va. va39 va \<Longrightarrow> lookup (mem s) p va = None"
  shows "\<exists>s'. uvmfree s p 0 = Inr s' \<and> kmem_inv s' \<and> mm_frame s0 s' \<and> avail s' = as_total s0 p
    \<and> (\<forall>q. q \<notin> as_total s0 p \<longrightarrow> agree_page (mem s0) (mem s') q)"
proof -
  note m = as_sameD [OF assms(1)]
  obtain s' where s': "uvmfree s p 0 = Inr s'" "kmem_inv s'" "mm_frame s s'" "avail s' = as_total s p"
      "\<forall>q. q \<notin> as_total s p \<longrightarrow> agree_page (mem s) (mem s') q"
    using uvmfree_spec [OF m(2), of 0] assms(2) by auto
  have "agree_page (mem s0) (mem s') q" if "q \<notin> as_total s0 p" for q
    using agree_page_trans [OF m(4)] s'(5) m(3) that by simp
  then show ?thesis using s' m(3) mm_frame_trans [OF m(1) s'(3)] by auto
qed

section \<open>The page table of a process\<close>

text \<open>Above the user's pages exactly the trampoline and the trap frame are mapped.\<close>

definition high_maps :: "u64 \<Rightarrow> u64 \<Rightarrow> u64 \<Rightarrow> u64 option" where
  "high_maps tramp tf va =
     (if vrange TRAMPOLINE 1 va then Some (map_entry TRAMPOLINE tramp (PTE_R OR PTE_X) va)
      else if vrange TRAPFRAME 1 va then Some (map_entry TRAPFRAME tf (PTE_R OR PTE_W) va) else None)"

definition proc_as :: "'a proc_state_scheme \<Rightarrow> u64 \<Rightarrow> u64 \<Rightarrow> bool" where
  "proc_as s pt tf \<longleftrightarrow> as_inv s pt
     \<and> (\<forall>va. va39 va \<and> TRAPFRAME \<le> va \<longrightarrow> lookup (mem s) pt va = high_maps (a_trampoline s) tf va)"

lemma high_addrs:
  "page_aligned TRAMPOLINE" "TRAPFRAME \<le> TRAMPOLINE" "unat TRAMPOLINE + 4096 \<le> unat MAXVA"
  "page_aligned TRAPFRAME" "TRAPFRAME \<le> TRAPFRAME" "unat TRAPFRAME + 4096 \<le> unat MAXVA"
  "vrange TRAPFRAME 1 va \<Longrightarrow> \<not> vrange TRAMPOLINE 1 va"
proof -
  show "page_aligned TRAMPOLINE" "page_aligned TRAPFRAME" by (simp_all add: page_aligned_def)
qed (auto simp: word_le_nat_alt vrange_def)

lemma proc_pagetable_spec:
  fixes s :: "'a proc_state_scheme"
  assumes k: "kmem_inv s" and tf: "p_trapframe (getp s p) = tf"
  shows "\<exists>pt t. proc_pagetable p s = Inr (pt, t) \<and> mm_frame s t \<and> kmem_inv t
    \<and> (\<forall>q. q \<notin> avail s \<longrightarrow> agree_page (mem s) (mem t) q)
    \<and> (if pt = 0 then avail t = avail s \<and> card (avail s) < 5
       else proc_as t pt tf \<and> as_total t pt = avail s \<and> aspace (mem t) pt = (\<lambda>_. None))"
proof -
  obtain pt s0 where c: "uvmcreate s = (pt, s0)" by (cases "uvmcreate s")
  note cr = uvmcreate_spec [OF k c]
  show ?thesis
  proof (cases "pt = 0")
    case True
    then show ?thesis using c cr k by (intro exI [of _ 0] exI [of _ s]) (simp add: proc_pagetable_def)
  next
    case False
    then have s0: "as_inv s0 pt" "mm_frame s s0" "avail s0 = avail s - {pt}" "pt \<in> avail s" "as_total s0 pt = avail s"
        "\<And>va. lookup (mem s0) pt va = None" "\<And>q. q \<notin> avail s \<Longrightarrow> agree_page (mem s) (mem s0) q"
      using cr uasD(1) [of s0 pt] by simp_all metis
    have e0: "aspace (mem s0) pt = (\<lambda>_. None)" using s0(6) by (simp add: aspace_def uleaf_def fun_eq_iff)
    have card0: "card (avail s) = card (avail s0) + 1" using card_Suc_Diff1 [OF finite_avail s0(4)] s0(3) by simp
    obtain r1 s1 where r1: "mappages s0 pt TRAMPOLINE PGSIZE (a_trampoline s0) (PTE_R OR PTE_X) = Inr (r1, s1)" "as_same s0 pt s1"
        "r1 = 0 \<and> (\<forall>va. va39 va \<longrightarrow> lookup (mem s1) pt va
             = (if vrange TRAMPOLINE 1 va then Some (map_entry TRAMPOLINE (a_trampoline s0) (PTE_R OR PTE_X) va) else None))
         \<or> r1 = -1 \<and> avail s1 = {} \<and> (\<forall>va. va39 va \<longrightarrow> lookup (mem s1) pt va = None)"
      using map_high [OF s0(1) high_addrs(1-3), of "a_trampoline s0" "PTE_R OR PTE_X"] s0(6) by auto
    note m1 = as_sameD [OF r1(2)]
    have c1: "card (avail s0) \<le> card (avail s1) + 2" "r1 \<noteq> 0 \<longrightarrow> card (avail s0) < 2"
      using mappages_count [OF as_invD(1) [OF s0(1)] high_addrs(1) _ r1(1)] by (simp_all add: word_less_nat_alt)
    have tf0: "p_trapframe (getp s1 p) = tf" "a_trampoline s0 = a_trampoline s"
      using tf mm_frame_proc [OF s0(2)] mm_frame_proc [OF m1(1)] by simp_all
    show ?thesis
    proof (cases "r1 = 0")
      case False
      then have "\<And>va. va39 va \<Longrightarrow> lookup (mem s1) pt va = None" using r1(3) by auto
      from uvmfree_empty [OF r1(2) this] obtain t where t: "uvmfree s1 pt 0 = Inr t" "kmem_inv t" "mm_frame s0 t"
          "avail t = as_total s0 pt" "\<forall>q. q \<notin> as_total s0 pt \<longrightarrow> agree_page (mem s0) (mem t) q" by blast
      have "proc_pagetable p s = Inr (0, t)" using c \<open>pt \<noteq> 0\<close> r1(1,3) False t(1) by (simp add: proc_pagetable_def)
      moreover have "agree_page (mem s) (mem t) q" if "q \<notin> avail s" for q
        using agree_page_trans [OF s0(7) [OF that]] t(5) s0(5) that by simp
      ultimately show ?thesis using t s0(5) c1(2) False card0 mm_frame_trans [OF s0(2) t(3)] by auto
    next
      case True
      then have l1: "lookup (mem s1) pt va = (if vrange TRAMPOLINE 1 va
          then Some (map_entry TRAMPOLINE (a_trampoline s) (PTE_R OR PTE_X) va) else None)" if "va39 va" for va
        using r1(3) tf0(2) that by auto
      have "lookup (mem s1) pt va = None" if "vrange TRAPFRAME 1 va" for va
        using l1 [of va] high_addrs(7) [OF that] that by (auto simp: va39_def vrange_def)
      from map_high [OF m1(2) high_addrs(4-6) this, of tf "PTE_R OR PTE_W"]
      obtain r2 s2 where r2: "mappages s1 pt TRAPFRAME PGSIZE tf (PTE_R OR PTE_W) = Inr (r2, s2)" "as_same s1 pt s2"
        "r2 = 0 \<and> (\<forall>va. va39 va \<longrightarrow> lookup (mem s2) pt va = (if vrange TRAPFRAME 1 va
             then Some (map_entry TRAPFRAME tf (PTE_R OR PTE_W) va) else lookup (mem s1) pt va))
         \<or> r2 = -1 \<and> avail s2 = {} \<and> (\<forall>va. va39 va \<longrightarrow> lookup (mem s2) pt va = lookup (mem s1) pt va)" by blast
      note s02 = as_sameD [OF as_same_trans [OF r1(2) r2(2)]]
      have fr: "mm_frame s s2" by (rule mm_frame_trans [OF s0(2) s02(1)])
      show ?thesis
      proof (cases "r2 = 0")
        case False
        have c2: "card (avail s1) < 2"
          using mappages_count [OF as_invD(1) [OF m1(2)] high_addrs(4) _ r2(1)] False by (simp add: word_less_nat_alt)
        obtain s3 where s3: "uvmunmap s2 pt TRAMPOLINE 1 False = Inr s3" "as_same s2 pt s3"
            "\<forall>va. va39 va \<longrightarrow> lookup (mem s3) pt va = (if vrange TRAMPOLINE 1 va then None else lookup (mem s2) pt va)"
          using unmap_high [OF s02(2) high_addrs(1-3)] by blast
        have "lookup (mem s3) pt va = None" if "va39 va" for va using s3(3) r2(3) l1 False that by auto
        from uvmfree_empty [OF as_same_trans [OF as_same_trans [OF r1(2) r2(2)] s3(2)] this] obtain t where
          t: "uvmfree s3 pt 0 = Inr t" "kmem_inv t" "mm_frame s0 t"
            "avail t = as_total s0 pt" "\<forall>q. q \<notin> as_total s0 pt \<longrightarrow> agree_page (mem s0) (mem t) q" by blast
        have "proc_pagetable p s = Inr (0, t)"
          using c \<open>pt \<noteq> 0\<close> r1(1) True tf0 r2(1,3) False s3(1) t(1) by (simp add: proc_pagetable_def)
        moreover have "agree_page (mem s) (mem t) q" if "q \<notin> avail s" for q
          using agree_page_trans [OF s0(7) [OF that]] t(5) s0(5) that by simp
        ultimately show ?thesis using t s0(5) c1(1) c2 card0 mm_frame_trans [OF s0(2) t(3)] by auto
      next
        case True
        have "proc_pagetable p s = Inr (pt, s2)"
          using c \<open>pt \<noteq> 0\<close> r1(1) \<open>r1 = 0\<close> tf0 r2(1) True by (simp add: proc_pagetable_def)
        moreover have "proc_as s2 pt tf"
          using s02(2) r2(3) l1 True high_addrs(7) mm_frame_proc(2) [OF fr] by (auto simp: proc_as_def high_maps_def)
        moreover have "agree_page (mem s) (mem s2) q" if "q \<notin> avail s" for q
          using agree_page_trans [OF s0(7) [OF that] s02(4)] s0(5) that by simp
        ultimately show ?thesis using \<open>pt \<noteq> 0\<close> fr as_invD(5) [OF s02(2)] s02(3,5) s0(5) e0 by auto
      qed
    qed
  qed
qed

lemma proc_freepagetable_spec:
  fixes s :: "'a proc_state_scheme"
  assumes as: "proc_as s pt tf" and sz: "unat sz \<le> unat TRAPFRAME"
    and low: "\<And>va. aspace (mem s) pt va \<noteq> None \<Longrightarrow> unat va < 4096 * npg sz"
  shows "\<exists>t. proc_freepagetable pt sz s = Inr t \<and> kmem_inv t \<and> mm_frame s t \<and> avail t = as_total s pt
    \<and> (\<forall>q. q \<notin> as_total s pt \<longrightarrow> agree_page (mem s) (mem t) q)"
proof -
  have inv: "as_inv s pt" using as by (simp add: proc_as_def)
  obtain s1 where s1: "uvmunmap s pt TRAMPOLINE 1 False = Inr s1" "as_same s pt s1"
      "\<forall>va. va39 va \<longrightarrow> lookup (mem s1) pt va = (if vrange TRAMPOLINE 1 va then None else lookup (mem s) pt va)"
    using unmap_high [OF inv high_addrs(1-3)] by blast
  obtain s2 where s2: "uvmunmap s1 pt TRAPFRAME 1 False = Inr s2" "as_same s1 pt s2"
      "\<forall>va. va39 va \<longrightarrow> lookup (mem s2) pt va = (if vrange TRAPFRAME 1 va then None else lookup (mem s1) pt va)"
    using unmap_high [OF as_sameD(2) [OF s1(2)] high_addrs(4-6)] by blast
  note m = as_sameD [OF as_same_trans [OF s1(2) s2(2)]]
  have "unat va < 4096 * npg sz" if v: "va39 va" "lookup (mem s2) pt va \<noteq> None" for va
  proof -
    have "va < TRAPFRAME"
    proof (rule ccontr)
      assume "\<not> va < TRAPFRAME"
      then have "lookup (mem s) pt va = high_maps (a_trampoline s) tf va" using as v(1) by (simp add: proc_as_def)
      then show False using v s1(3) s2(3) by (auto simp: high_maps_def split: if_splits)
    qed
    then have "unat va < 274877898752" by (simp add: word_less_nat_alt)
    let ?b = "PGROUNDDOWN va"
    have b: "page_aligned ?b" "unat ?b \<le> unat va" "unat va < unat ?b + 4096"
      using dividend_less_div_times [of 4096 "unat va"] by (simp_all add: unat_PGROUNDDOWN add.commute)
    have "uleaf (mem s2) pt ?b \<noteq> None"
      using v(2) b \<open>unat va < 274877898752\<close> lookup_page [of ?b va "mem s2" pt] PGROUNDDOWN_idem [OF b(1)]
      by (simp add: uleaf_def word_less_nat_alt)
    then have "unat ?b < 4096 * npg sz" using low [of ?b] m(5) by (simp add: aspace_None [symmetric])
    moreover obtain k where "unat ?b = 4096 * k" using unat_PGROUNDDOWN [of va] by (metis mult.commute)
    ultimately show ?thesis using b(3) by simp
  qed
  from uvmfree_spec [OF m(2) sz this] obtain t where t: "uvmfree s2 pt sz = Inr t" "kmem_inv t" "mm_frame s2 t" "avail t = as_total s2 pt"
      "\<forall>q. q \<notin> as_total s2 pt \<longrightarrow> agree_page (mem s2) (mem t) q" by blast
  have "agree_page (mem s) (mem t) q" if "q \<notin> as_total s pt" for q
    using agree_page_trans [OF m(4) [OF that]] t(5) m(3) that by simp
  then show ?thesis
    using s1(1) s2(1) t(1,2,4) m(3) mm_frame_trans [OF m(1) t(3)] by (simp add: proc_freepagetable_def)
qed

section \<open>Entries of the process table\<close>

lemma proc_mm [simp]:
  "mem (setp p f s) = mem s" "avail (setp p f s) = avail s" "kmem_inv (setp p f s) = kmem_inv s"
  "valid_page (setp p f s) = valid_page s" "as_inv (setp p f s) pt = as_inv s pt" "as_total (setp p f s) pt = as_total s pt"
  "a_trampoline (setp p f s) = a_trampoline s" "a_forkret (setp p f s) = a_forkret s" "nextpid (setp p f s) = nextpid s"
  "avail (s\<lparr>nextpid := n\<rparr>) = avail s" "kmem_inv (s\<lparr>nextpid := n\<rparr>) = kmem_inv s" "valid_page (s\<lparr>nextpid := n\<rparr>) = valid_page s"
  by (simp_all add: setp_def avail_def free_pages_def max_pages_def kmem_inv_def valid_page_def [abs_def] as_inv_def
    as_total_def pt_owned_def ptp_def upages_def)

lemma proc_as_setp [simp]: "proc_as (setp p f s) pt tf = proc_as s pt tf"
  by (simp add: proc_as_def)

lemma procs_setp [simp]: "procs (setp p f s) = (procs s)[p := f (procs s ! p)]"
  by (simp add: setp_def)

text \<open>What a process in use owns: its trap frame, its tables and its user pages, all distinct.\<close>

definition proc_mem :: "'a proc_state_scheme \<Rightarrow> proc \<Rightarrow> bool" where
  "proc_mem s q \<longleftrightarrow> valid_page s (p_trapframe q) \<and> p_trapframe q \<notin> as_total s (p_pagetable q) \<and> p_pagetable q \<noteq> 0
     \<and> proc_as s (p_pagetable q) (p_trapframe q) \<and> unat (p_sz q) \<le> unat TRAPFRAME
     \<and> (\<forall>va. aspace (mem s) (p_pagetable q) va \<noteq> None \<longrightarrow> unat va < 4096 * npg (p_sz q))"

definition cleared :: "proc \<Rightarrow> proc" where
  "cleared q = q\<lparr>p_trapframe := 0, p_pagetable := 0, p_sz := 0, p_pid := 0, p_fpu := fpu_zero, p_fpu_used := False,
       p_fpu_active := False, p_parent := None, p_name := (p_name q)[0 := 0], p_chan := None,
       p_killed := False, p_xstate := 0, p_state := UNUSED\<rparr>"

definition pm_frame :: "'a proc_state_scheme \<Rightarrow> 'a proc_state_scheme \<Rightarrow> bool" where
  "pm_frame s t \<longleftrightarrow> t = s\<lparr>mem := mem t, freelist := freelist t, procs := procs t, nextpid := nextpid t\<rparr>"

lemma pm_frame_upd: "pm_frame s t \<Longrightarrow> pm_frame s (t\<lparr>mem := m, freelist := fl, procs := ps, nextpid := n\<rparr>)"
proof -
  assume "pm_frame s t"
  then have t: "t = s\<lparr>mem := mem t, freelist := freelist t, procs := procs t, nextpid := nextpid t\<rparr>" by (simp only: pm_frame_def)
  show ?thesis unfolding pm_frame_def by (subst t) simp
qed

lemma pm_frame_refl: "pm_frame s s"
  by (simp add: pm_frame_def)

lemma proc_mm_id: "t\<lparr>mem := m, freelist := fl, procs := procs t, nextpid := nextpid t\<rparr> = t\<lparr>mem := m, freelist := fl\<rparr>"
  by simp

lemma pm_frame_mm: "pm_frame s t \<Longrightarrow> mm_frame t u \<Longrightarrow> pm_frame s u"
proof -
  assume t: "pm_frame s t" and u: "mm_frame t u"
  have e: "u = t\<lparr>mem := mem u, freelist := freelist u, procs := procs t, nextpid := nextpid t\<rparr>"
    unfolding proc_mm_id using u unfolding mm_frame_def .
  show ?thesis by (subst e) (rule pm_frame_upd [OF t])
qed

lemma pm_frame_setp: "pm_frame s t \<Longrightarrow> pm_frame s (setp p f t)"
  using pm_frame_upd [where m = "mem t" and fl = "freelist t" and n = "nextpid t" and t = t] by (simp add: setp_def)

lemma pm_frame_pid: "pm_frame s t \<Longrightarrow> pm_frame s (t\<lparr>nextpid := n\<rparr>)"
  using pm_frame_upd [where m = "mem t" and fl = "freelist t" and ps = "procs t" and t = t] by simp

lemma pm_frame_trans: "pm_frame s t \<Longrightarrow> pm_frame t u \<Longrightarrow> pm_frame s u"
  using pm_frame_upd [of s t "nextpid u" "procs u" "freelist u" "mem u"] by (simp add: pm_frame_def [of t u] del: pm_frame_def)

lemmas pm_frame_intros = pm_frame_refl pm_frame_setp pm_frame_pid

lemma freeproc_spec:
  fixes s :: "'a proc_state_scheme"
  assumes "p < length (procs s)" "proc_mem s (getp s p)"
  shows "\<exists>t. freeproc p s = Inr t \<and> kmem_inv t \<and> pm_frame s t \<and> procs t = (procs s)[p := cleared (getp s p)]
    \<and> nextpid t = nextpid s \<and> avail t = insert (p_trapframe (getp s p)) (as_total s (p_pagetable (getp s p)))
    \<and> (\<forall>q. q \<notin> avail t \<longrightarrow> agree_page (mem s) (mem t) q)"
proof -
  let ?q = "getp s p" let ?tf = "p_trapframe ?q" and ?pt = "p_pagetable ?q"
  have q: "valid_page s ?tf" "?tf \<notin> as_total s ?pt" "?pt \<noteq> 0" "proc_as s ?pt ?tf" "unat (p_sz ?q) \<le> unat TRAPFRAME"
      "\<And>va. aspace (mem s) ?pt va \<noteq> None \<Longrightarrow> unat va < 4096 * npg (p_sz ?q)"
    using assms(2) by (auto simp: proc_mem_def)
  have inv: "as_inv s ?pt" using q(4) by (simp add: proc_as_def)
  note k = as_invD(5) [OF inv]
  have tfa: "?tf \<notin> avail s" using q(2) by (simp add: as_total_def)
  obtain s1 where s1: "kfree s ?tf = Inr s1" "kmem_inv s1" "avail s1 = insert ?tf (avail s)" "\<forall>q. q \<noteq> ?tf \<longrightarrow> agree_page (mem s) (mem s1) q"
    using kmem.free_page [OF k q(1) tfa] by auto
  note f1 = kfree_mm_frame [OF s1(1)] and p1 = mm_frame_proc [OF kfree_mm_frame [OF s1(1)]]
  have own: "\<forall>x \<in> ptp s ?pt \<union> upages s ?pt. agree_page (mem s) (mem s1) x \<and> x \<notin> avail s1"
  proof
    fix x assume "x \<in> ptp s ?pt \<union> upages s ?pt"
    then have "x \<noteq> ?tf" "x \<notin> avail s" using q(2) as_invD(3,6) [OF inv, of x] by (auto simp: as_total_def)
    then show "agree_page (mem s) (mem s1) x \<and> x \<notin> avail s1" using s1(3,4) by simp
  qed
  note a1 = as_frame [OF inv s1(2) f1 own]
  have as1: "proc_as s1 ?pt ?tf" using q(4) a1 p1 by (simp add: proc_as_def)
  let ?s1 = "setp p (\<lambda>q. q\<lparr>p_trapframe := 0\<rparr>) s1"
  have tot: "as_total s1 ?pt = insert ?tf (as_total s ?pt)" using a1 s1(3) by (auto simp: as_total_def)
  obtain s2 where s2: "proc_freepagetable ?pt (p_sz ?q) ?s1 = Inr s2" "kmem_inv s2" "mm_frame ?s1 s2" "avail s2 = as_total s1 ?pt"
      "\<forall>q. q \<notin> as_total s1 ?pt \<longrightarrow> agree_page (mem s1) (mem s2) q"
    using proc_freepagetable_spec [of ?s1 ?pt ?tf "p_sz ?q"] as1 q(5,6) a1(5) by auto
  have p2: "procs s2 = (procs s)[p := ?q\<lparr>p_trapframe := 0\<rparr>]" "nextpid s2 = nextpid s"
    using mm_frame_proc [OF s2(3)] p1 by simp_all
  let ?t = "setp p (\<lambda>q. q\<lparr>p_pagetable := 0, p_sz := 0, p_pid := 0, p_fpu := fpu_zero, p_fpu_used := False,
       p_fpu_active := False, p_parent := None, p_name := (p_name q)[0 := 0], p_chan := None,
       p_killed := False, p_xstate := 0, p_state := UNUSED\<rparr>) s2"
  have "?tf \<noteq> 0" using valid_page_nz [OF k q(1)] .
  then have t: "freeproc p s = Inr ?t" using s1(1) s2(1) q(3) p1 assms(1) by (simp add: freeproc_def)
  have "pm_frame s ?t" by (intro pm_frame_setp pm_frame_mm [OF _ s2(3)] pm_frame_mm [OF pm_frame_refl f1])
  moreover have "agree_page (mem s) (mem ?t) x" if "x \<notin> avail ?t" for x
  proof -
    have "x \<noteq> ?tf" "x \<notin> as_total s1 ?pt" using that s2(4) tot by auto
    then show ?thesis using agree_page_trans [of "mem s" "mem s1" x "mem s2"] s1(4) s2(5) by simp
  qed
  ultimately show ?thesis
    using t s2(2,4) tot p2 assms(1) by (intro exI [of _ ?t]) (simp add: cleared_def)
qed

lemma freeproc_bare:
  fixes s :: "'a proc_state_scheme"
  assumes "p < length (procs s)" "p_pagetable (getp s p) = 0" "kmem_inv s" "p_trapframe (getp s p) = tf"
    "tf = 0 \<or> valid_page s tf \<and> tf \<notin> avail s"
  shows "\<exists>t. freeproc p s = Inr t \<and> kmem_inv t \<and> pm_frame s t \<and> procs t = (procs s)[p := cleared (getp s p)]
    \<and> nextpid t = nextpid s \<and> avail t = (if tf = 0 then avail s else insert tf (avail s))
    \<and> (\<forall>q. tf = 0 \<or> q \<noteq> tf \<longrightarrow> agree_page (mem s) (mem t) q)"
proof -
  obtain s1 where s1: "(if tf \<noteq> 0 then kfree s tf else Inr s) = Inr s1" "kmem_inv s1" "mm_frame s s1"
      "avail s1 = (if tf = 0 then avail s else insert tf (avail s))" "\<forall>q. tf = 0 \<or> q \<noteq> tf \<longrightarrow> agree_page (mem s) (mem s1) q"
  proof (cases "tf = 0")
    case True
    then show ?thesis using that [of s] assms(3) by simp
  next
    case False
    then obtain s1 where "kfree s tf = Inr s1" "kmem_inv s1" "avail s1 = insert tf (avail s)" "\<forall>q. q \<noteq> tf \<longrightarrow> agree_page (mem s) (mem s1) q"
      using kmem.free_page [OF assms(3), of tf] assms(5) by auto
    then show ?thesis using that [of s1] False kfree_mm_frame [of s tf s1] by auto
  qed
  note p1 = mm_frame_proc [OF s1(3)]
  let ?t = "setp p (\<lambda>q. q\<lparr>p_pagetable := 0, p_sz := 0, p_pid := 0, p_fpu := fpu_zero, p_fpu_used := False,
       p_fpu_active := False, p_parent := None, p_name := (p_name q)[0 := 0], p_chan := None,
       p_killed := False, p_xstate := 0, p_state := UNUSED\<rparr>) (setp p (\<lambda>q. q\<lparr>p_trapframe := 0\<rparr>) s1)"
  have "freeproc p s = Inr ?t" unfolding freeproc_def assms(4) s1(1) using assms(1,2) p1 by simp
  moreover have "pm_frame s ?t" by (intro pm_frame_setp pm_frame_mm [OF pm_frame_refl s1(3)])
  ultimately show ?thesis using s1(2,4,5) p1 assms(1) by (intro exI [of _ ?t]) (simp add: cleared_def)
qed

text \<open>Undoing an allocation gives back the trap frame.\<close>

lemma freeproc_undo:
  fixes s :: "'a proc_state_scheme"
  assumes p: "p < length (procs s)" and u: "pm_frame s u" "kmem_inv u" "procs u = (procs s)[p := q]"
    and q: "p_pagetable q = 0" "cleared q = cleared (getp s p)"
    and tf: "if p_trapframe q = 0 then avail u = avail s
      else valid_page u (p_trapframe q) \<and> p_trapframe q \<in> avail s \<and> avail u = avail s - {p_trapframe q}"
    and ag: "\<forall>q. q \<notin> avail s \<longrightarrow> agree_page (mem s) (mem u) q"
  shows "\<exists>t. freeproc p u = Inr t \<and> kmem_inv t \<and> pm_frame s t \<and> nextpid t = nextpid u \<and> avail t = avail s
      \<and> procs t = (procs s)[p := cleared (getp s p)] \<and> (\<forall>q. q \<notin> avail s \<longrightarrow> agree_page (mem s) (mem t) q)"
proof -
  let ?tf = "p_trapframe q"
  have gp: "p < length (procs u)" "getp u p = q" "p_pagetable (getp u p) = 0" "p_trapframe (getp u p) = ?tf" using u(3) p q by simp_all
  have "?tf = 0 \<or> valid_page u ?tf \<and> ?tf \<notin> avail u" using tf by (auto split: if_splits)
  from freeproc_bare [OF gp(1,3) u(2) gp(4) this] obtain t where t: "freeproc p u = Inr t" "kmem_inv t" "pm_frame u t"
      "procs t = (procs u)[p := cleared (getp u p)]" "nextpid t = nextpid u" "avail t = (if ?tf = 0 then avail u else insert ?tf (avail u))"
      "\<forall>x. ?tf = 0 \<or> x \<noteq> ?tf \<longrightarrow> agree_page (mem u) (mem t) x" by blast
  have "agree_page (mem s) (mem t) x" if "x \<notin> avail s" for x
  proof -
    have "?tf = 0 \<or> x \<noteq> ?tf" using tf that by auto
    then show ?thesis using agree_page_trans [OF ag [rule_format, OF that]] t(7) by blast
  qed
  moreover have "avail t = avail s" using t(6) tf by (auto split: if_splits)
  moreover have "procs t = (procs s)[p := cleared (getp s p)]" using t(4) u(3) gp(2) q(2) by simp
  ultimately show ?thesis using t(1,2,5) pm_frame_trans [OF u(1) t(3)] by auto
qed

lemma find_unused_Some: "find_unused is ps = Some p \<Longrightarrow> p \<in> set is \<and> p_state (ps ! p) = UNUSED"
  by (induction "is") (auto split: if_splits)

definition unused_bare :: "'a proc_state_scheme \<Rightarrow> bool" where
  "unused_bare s \<longleftrightarrow> length (procs s) = NPROC
     \<and> (\<forall>i<NPROC. p_state (getp s i) = UNUSED \<longrightarrow> p_pagetable (getp s i) = 0 \<and> p_sz (getp s i) = 0)"

text \<open>The entry \<^verbatim>\<open>allocproc\<close> hands out, when it takes process number \<open>pid\<close>, trap frame \<open>tf\<close> and table \<open>pt\<close>.\<close>

definition fresh_entry :: "u32 \<Rightarrow> u64 \<Rightarrow> u64 \<Rightarrow> u64 \<Rightarrow> proc \<Rightarrow> proc" where
  "fresh_entry pid tf pt ra q = q\<lparr>p_pid := pid, p_state := USED, p_trapframe := tf, p_pagetable := pt,
     p_context := \<lparr>ctx_ra = ra, ctx_sp = p_kstack q + PGSIZE, ctx_s = replicate 12 0\<rparr>\<rparr>"

lemma allocproc_spec:
  fixes s :: "'a proc_state_scheme"
  assumes k: "kmem_inv s" and bare: "unused_bare s" and f: "find_unused [0..<NPROC] (procs s) = Some p"
  shows "\<exists>r t. allocproc s = Inr (r, t) \<and> kmem_inv t \<and> pm_frame s t \<and> nextpid t = nextpid s + 1
    \<and> (\<forall>q. q \<notin> avail s \<longrightarrow> agree_page (mem s) (mem t) q)
    \<and> (r = None \<and> card (avail s) < 6 \<and> avail t = avail s \<and> procs t = (procs s)[p := cleared (getp s p)]
       \<or> (\<exists>tf pt. r = Some p \<and> procs t = (procs s)[p := fresh_entry (nextpid s) tf pt (a_forkret s) (getp s p)]
           \<and> proc_mem t (getp t p) \<and> aspace (mem t) pt = (\<lambda>_. None) \<and> insert tf (as_total t pt) = avail s))"
proof -
  have p: "p < length (procs s)" "p_pagetable (getp s p) = 0" "p_sz (getp s p) = 0"
    using find_unused_Some [OF f] bare by (auto simp: unused_bare_def)
  let ?s1 = "setp p (\<lambda>q. q\<lparr>p_pid := nextpid s, p_state := USED\<rparr>) (s\<lparr>nextpid := nextpid s + 1\<rparr>)"
  have k1: "kmem_inv ?s1" "avail ?s1 = avail s" using k by simp_all
  obtain tf s2 where ka: "kalloc ?s1 = (tf, s2)" by (cases "kalloc ?s1")
  note f2 = kalloc_mm_frame [OF ka] and r2 = kmem.alloc_result [OF k1(1) ka]
  have ag2: "agree_page (mem s) (mem s2) q" if "q \<notin> avail s" for q
    using r2 that k1(2) by (auto split: if_splits)
  let ?s3 = "setp p (\<lambda>q. q\<lparr>p_trapframe := tf\<rparr>) s2"
  have q3: "procs ?s3 = (procs s)[p := (getp s p)\<lparr>p_pid := nextpid s, p_state := USED, p_trapframe := tf\<rparr>]"
      "nextpid ?s3 = nextpid s + 1" "a_forkret ?s3 = a_forkret s"
    using mm_frame_proc [OF f2] p(1) by simp_all
  have fr3: "pm_frame s ?s3" by (intro pm_frame_setp pm_frame_mm [OF _ f2] pm_frame_intros)
  have al: "allocproc s = (if tf = 0 then rbind (freeproc p ?s3) (\<lambda>s. Inr (None, s))
       else rbind (proc_pagetable p ?s3) (\<lambda>(pt, s).
         let s = setp p (\<lambda>q. q\<lparr>p_pagetable := pt\<rparr>) s in
         if pt = 0 then rbind (freeproc p s) (\<lambda>s. Inr (None, s))
         else Inr (Some p, setp p (\<lambda>q. q\<lparr>p_context :=
           \<lparr>ctx_ra = a_forkret s, ctx_sp = p_kstack q + PGSIZE, ctx_s = replicate 12 0\<rparr>\<rparr>) s)))"
    using f ka by (simp add: allocproc_def allocpid_def Let_def)
  let ?q = "(getp s p)\<lparr>p_pid := nextpid s, p_state := USED, p_trapframe := tf\<rparr>"
  show ?thesis
  proof (cases "tf = 0")
    case True
    then have e: "avail s = {}" "s2 = ?s1" using r2 k1(2) by auto
    have "\<exists>t. freeproc p ?s3 = Inr t \<and> kmem_inv t \<and> pm_frame s t \<and> nextpid t = nextpid ?s3 \<and> avail t = avail s
      \<and> procs t = (procs s)[p := cleared (getp s p)] \<and> (\<forall>q. q \<notin> avail s \<longrightarrow> agree_page (mem s) (mem t) q)"
      using True r2 p k1(2) e(1) ag2 by (intro freeproc_undo [OF p(1) fr3 _ q3(1)]) (auto simp: cleared_def)
    then show ?thesis using al True e(1) q3(2) by auto
  next
    case False
    then have tf: "tf \<in> avail s" "valid_page s tf" "avail s2 = avail s - {tf}" "kmem_inv s2" using r2 k1(2) by auto
    have "kmem_inv ?s3" "p_trapframe (getp ?s3 p) = tf" using tf(4) q3(1) p(1) by simp_all
    from proc_pagetable_spec [OF this] obtain pt s4 where s4: "proc_pagetable p ?s3 = Inr (pt, s4)" "mm_frame ?s3 s4" "kmem_inv s4"
        "\<forall>q. q \<notin> avail ?s3 \<longrightarrow> agree_page (mem ?s3) (mem s4) q"
        "if pt = 0 then avail s4 = avail ?s3 \<and> card (avail ?s3) < 5
         else proc_as s4 pt tf \<and> as_total s4 pt = avail ?s3 \<and> aspace (mem s4) pt = (\<lambda>_. None)" by blast
    note p4 = mm_frame_proc [OF s4(2)]
    have fr4: "pm_frame s s4" by (rule pm_frame_mm [OF fr3 s4(2)])
    have ag4: "\<forall>q. q \<notin> avail s \<longrightarrow> agree_page (mem s) (mem s4) q"
      using agree_page_trans [OF ag2] s4(4) tf(3) by simp
    have v4: "valid_page s4 = valid_page s" using mm_frame_valid [OF s4(2)] mm_frame_valid [OF f2] by simp
    let ?s5 = "setp p (\<lambda>q. q\<lparr>p_pagetable := pt\<rparr>) s4"
    have q5: "procs ?s5 = (procs s)[p := ?q\<lparr>p_pagetable := pt\<rparr>]" using p4 q3(1) p(1) by simp
    show ?thesis
    proof (cases "pt = 0")
      case True
      have "card (avail s) < 6" using s4(5) True tf(1,3) card_Suc_Diff1 [OF finite_avail tf(1)] by simp
      moreover have "\<exists>t. freeproc p ?s5 = Inr t \<and> kmem_inv t \<and> pm_frame s t \<and> nextpid t = nextpid ?s5 \<and> avail t = avail s
          \<and> procs t = (procs s)[p := cleared (getp s p)] \<and> (\<forall>q. q \<notin> avail s \<longrightarrow> agree_page (mem s) (mem t) q)"
        using True s4(3,5) tf v4 ag4 False by (intro freeproc_undo [OF p(1) pm_frame_setp [OF fr4] _ q5]) (auto simp: cleared_def)
      ultimately show ?thesis using al False s4(1) True p4(4) q3(2) by auto
    next
      case nz: False
      let ?t = "setp p (\<lambda>q. q\<lparr>p_context := \<lparr>ctx_ra = a_forkret s, ctx_sp = p_kstack q + PGSIZE, ctx_s = replicate 12 0\<rparr>\<rparr>) ?s5"
      have qt: "procs ?t = (procs s)[p := fresh_entry (nextpid s) tf pt (a_forkret s) (getp s p)]"
        using q5 p(1) by (simp add: fresh_entry_def)
      have "proc_mem ?t (fresh_entry (nextpid s) tf pt (a_forkret s) (getp s p))"
        using s4(5) nz tf v4 p(3) by (simp add: proc_mem_def fresh_entry_def)
      moreover have "allocproc s = Inr (Some p, ?t)" using al False nz s4(1) p4(3) q3(3) by simp
      moreover have "pm_frame s ?t" by (intro pm_frame_setp fr4)
      moreover have "insert tf (as_total ?t pt) = avail s" "aspace (mem ?t) pt = (\<lambda>_. None)" using s4(5) nz tf by auto
      ultimately show ?thesis
        using qt s4(3) ag4 p(1) p4(4) q3(2) by (intro exI [of _ "Some p"] exI [of _ ?t] conjI disjI2 exI [of _ tf] exI [of _ pt]) simp_all
    qed
  qed
qed

section \<open>Properties\<close>

text \<open>
  C19: \<^verbatim>\<open>allocproc\<close> takes the first unused entry, or returns null and leaves the kernel as it was when
  there is none.  It never panics.  The entry gets the next process number, a trap frame of its own and
  a page table in which the user has no page and exactly the trampoline and the trap frame are mapped
  above; all pages come from the free list.  If memory runs out, which needs fewer than six free pages,
  null is returned, the entry is unused again and every page is back on the free list.\<close>

theorem allocproc_fresh:
  fixes s :: "'a proc_state_scheme"
  assumes "kmem_inv s" "unused_bare s"
  shows "\<exists>r t. allocproc s = Inr (r, t) \<and> kmem_inv t \<and> pm_frame s t
    \<and> (\<forall>q. q \<notin> avail s \<longrightarrow> agree_page (mem s) (mem t) q)
    \<and> (case find_unused [0..<NPROC] (procs s) of
         None \<Rightarrow> r = None \<and> t = s
       | Some p \<Rightarrow> nextpid t = nextpid s + 1
           \<and> (r = None \<and> card (avail s) < 6 \<and> avail t = avail s \<and> procs t = (procs s)[p := cleared (getp s p)]
              \<or> (\<exists>tf pt. r = Some p \<and> procs t = (procs s)[p := fresh_entry (nextpid s) tf pt (a_forkret s) (getp s p)]
                  \<and> proc_mem t (getp t p) \<and> aspace (mem t) pt = (\<lambda>_. None) \<and> insert tf (as_total t pt) = avail s)))"
proof (cases "find_unused [0..<NPROC] (procs s)")
  case None
  then show ?thesis using assms(1) by (intro exI [of _ None] exI [of _ s]) (simp add: allocproc_def pm_frame_refl)
next
  case (Some p)
  then show ?thesis using allocproc_spec [OF assms Some] by simp blast
qed

text \<open>A machine with fourteen free pages and an empty process table.\<close>

definition blank_proc :: proc where
  "blank_proc = \<lparr>p_state = UNUSED, p_chan = None, p_killed = False, p_xstate = 0, p_pid = 0, p_parent = None,
     p_kstack = 0, p_sz = 0, p_pagetable = 0, p_trapframe = 0, p_context = \<lparr>ctx_ra = 0, ctx_sp = 0, ctx_s = []\<rparr>,
     p_fpu = fpu_zero, p_fpu_used = False, p_fpu_active = False, p_ofile = replicate NOFILE None, p_cwd = None,
     p_name = replicate 16 0\<rparr>"

lemma blank_machine:
  fixes z :: "'a proc_state_scheme"
  shows "\<exists>s :: 'a proc_state_scheme. kmem_inv s \<and> avail s = set boot_pages \<and> procs s = replicate NPROC blank_proc \<and> nextpid s = 1"
proof -
  let ?s = "z\<lparr>mem := (\<lambda>_. 0), freelist := 0, phys_top := 0x88000000, kernel_end := 0x80001000, procs := replicate NPROC blank_proc, nextpid := 1\<rparr>"
  have k: "kmem_inv ?s" "avail ?s = {}"
    using kmem_invI [of ?s "[]"] by (simp_all add: avail_def)
  have v: "\<forall>p \<in> set boot_pages. valid_page ?s p" "distinct boot_pages"
    by (simp_all add: boot_pages_def valid_page_def page_aligned_def)
  obtain s where "kmem_inv s" "mm_frame ?s s" "avail s = set boot_pages"
    using free_pages_exist [OF v(2,1) k(1)] k(2) by auto
  then show ?thesis using mm_frame_proc(1,4) [of ?s s] by auto
qed

lemma blank_facts:
  assumes "procs s = replicate NPROC blank_proc"
  shows "unused_bare s" "find_unused [0..<NPROC] (procs s) = Some 0" "card (set boot_pages) = 14"
  by (simp_all add: assms unused_bare_def blank_proc_def NPROC_def upt_conv_Cons boot_pages_def)

theorem allocproc_fresh_witness:
  "\<exists>s t :: proc_state. kmem_inv s \<and> unused_bare s \<and> allocproc s = Inr (Some 0, t) \<and> p_pid (getp t 0) = 1
     \<and> aspace (mem t) (p_pagetable (getp t 0)) = (\<lambda>_. None)"
proof -
  obtain s :: proc_state where s: "kmem_inv s" "avail s = set boot_pages" "procs s = replicate NPROC blank_proc" "nextpid s = 1"
    using blank_machine by blast
  note b = blank_facts [OF s(3)]
  obtain r t where t: "allocproc s = Inr (r, t)"
      "r = None \<and> card (avail s) < 6 \<and> avail t = avail s \<and> procs t = (procs s)[0 := cleared (getp s 0)]
       \<or> (\<exists>tf pt. r = Some 0 \<and> procs t = (procs s)[0 := fresh_entry (nextpid s) tf pt (a_forkret s) (getp s 0)]
           \<and> proc_mem t (getp t 0) \<and> aspace (mem t) pt = (\<lambda>_. None) \<and> insert tf (as_total t pt) = avail s)"
    using allocproc_fresh [OF s(1) b(1)] unfolding b(2) option.case by blast
  then obtain tf pt where "r = Some 0" "procs t = (procs s)[0 := fresh_entry (nextpid s) tf pt (a_forkret s) (getp s 0)]"
      "aspace (mem t) pt = (\<lambda>_. None)" using s(2) b(3) by auto
  then show "\<exists>s t :: proc_state. kmem_inv s \<and> unused_bare s \<and> allocproc s = Inr (Some 0, t) \<and> p_pid (getp t 0) = 1
     \<and> aspace (mem t) (p_pagetable (getp t 0)) = (\<lambda>_. None)"
    using t(1) s b(1) by (intro exI [of _ s] exI [of _ t]) (simp add: fresh_entry_def NPROC_def)
qed

text \<open>
  C20: \<^verbatim>\<open>freeproc\<close> loses no page: freeing a process gives back its trap frame, every user page and every
  page of its table, without a panic, clears the entry and touches no other page or process.\<close>

theorem freeproc_frees_all:
  fixes s :: "'a proc_state_scheme"
  assumes "p < length (procs s)" "proc_mem s (getp s p)"
  shows "\<exists>t. freeproc p s = Inr t \<and> kmem_inv t \<and> pm_frame s t \<and> procs t = (procs s)[p := cleared (getp s p)]
    \<and> avail t = avail s \<union> {p_trapframe (getp s p)} \<union> ptp s (p_pagetable (getp s p)) \<union> upages s (p_pagetable (getp s p))
    \<and> (\<forall>q. q \<notin> avail t \<longrightarrow> agree_page (mem s) (mem t) q)"
  using freeproc_spec [OF assms] by (auto simp: as_total_def)

theorem freeproc_frees_all_witness:
  "\<exists>s t u :: proc_state. allocproc s = Inr (Some 0, t) \<and> freeproc 0 t = Inr u \<and> avail u = avail s \<and> p_state (getp u 0) = UNUSED"
proof -
  obtain s :: proc_state where s: "kmem_inv s" "avail s = set boot_pages" "procs s = replicate NPROC blank_proc" "nextpid s = 1"
    using blank_machine by blast
  note b = blank_facts [OF s(3)]
  obtain t tf pt where t: "allocproc s = Inr (Some 0, t)" "procs t = (procs s)[0 := fresh_entry (nextpid s) tf pt (a_forkret s) (getp s 0)]"
      "proc_mem t (getp t 0)" "insert tf (as_total t pt) = avail s"
    using allocproc_spec [OF s(1) b(1,2)] s(2) b(3) by auto
  have q: "0 < length (procs t)" "p_trapframe (getp t 0) = tf" "p_pagetable (getp t 0) = pt" "0 < length (procs s)"
    using t(2) s(3) by (simp_all add: fresh_entry_def NPROC_def)
  from freeproc_frees_all [OF q(1) t(3)] obtain u where "freeproc 0 t = Inr u" "procs u = (procs t)[0 := cleared (getp t 0)]"
      "avail u = avail t \<union> {tf} \<union> ptp t pt \<union> upages t pt" unfolding q by blast
  moreover from this have "avail u = avail s" using t(4) by (auto simp: as_total_def)
  ultimately show "\<exists>s t u :: proc_state. allocproc s = Inr (Some 0, t) \<and> freeproc 0 t = Inr u \<and> avail u = avail s \<and> p_state (getp u 0) = UNUSED"
    using t(1) q(1) by (intro exI [of _ s] exI [of _ t] exI [of _ u]) (simp add: cleared_def)
qed

lemma kkill_loop_zero:
  "(\<And>i. i \<in> set is \<Longrightarrow> p_pid (getp s i) = 0 \<longleftrightarrow> p_state (getp s i) = UNUSED) \<Longrightarrow> find_unused is (procs s) = Some p
    \<Longrightarrow> p < length (procs s) \<Longrightarrow> kkill_loop is 0 s = (0, setp p (\<lambda>q. q\<lparr>p_killed := True\<rparr>) s)"
  by (induction "is") (auto split: if_splits)

text \<open>
  C21: \<^verbatim>\<open>kkill(0)\<close> succeeds although no process has number 0: unused entries of the table carry that
  number, and the first of them is marked killed.  \<^verbatim>\<open>allocproc\<close> does not clear the mark, so the next
  process made from that entry starts out killed.\<close>

theorem kkill_zero_marks_next:
  fixes s :: "'a proc_state_scheme"
  assumes "kmem_inv s" "unused_bare s" "\<forall>i<NPROC. p_pid (getp s i) = 0 \<longleftrightarrow> p_state (getp s i) = UNUSED"
    "find_unused [0..<NPROC] (procs s) = Some p" "6 \<le> card (avail s)"
  shows "\<exists>t u. kkill 0 s = (0, t) \<and> allocproc t = Inr (Some p, u) \<and> p_killed (getp u p)"
proof -
  let ?t = "setp p (\<lambda>q. q\<lparr>p_killed := True\<rparr>) s"
  have p: "p < length (procs s)" "p_state (getp s p) = UNUSED"
    using find_unused_Some [OF assms(4)] assms(2) by (auto simp: unused_bare_def)
  have k: "kkill 0 s = (0, ?t)" unfolding kkill_def using assms(3) by (intro kkill_loop_zero [OF _ assms(4) p(1)]) auto
  have same: "p_state (procs ?t ! i) = p_state (procs s ! i)" for i using p(1) by (cases "i = p") auto
  have "find_unused is (procs ?t) = find_unused is (procs s)" for "is" by (induction "is") (simp_all only: find_unused.simps same)
  then have f: "find_unused [0..<NPROC] (procs ?t) = Some p" using assms(4) by simp
  have "unused_bare ?t" using assms(2) p(1) by (auto simp: unused_bare_def nth_list_update)
  from allocproc_spec [OF _ this f] assms(1,5) obtain u tf pt where
    "allocproc ?t = Inr (Some p, u)" "procs u = (procs ?t)[p := fresh_entry (nextpid ?t) tf pt (a_forkret ?t) (getp ?t p)]" by auto
  then show ?thesis using k p(1) by (intro exI [of _ ?t] exI [of _ u]) (simp add: fresh_entry_def)
qed

theorem kkill_zero_marks_next_witness:
  "\<exists>s t u :: proc_state. kkill 0 s = (0, t) \<and> allocproc t = Inr (Some 0, u) \<and> p_killed (getp u 0) \<and> \<not> p_killed (getp s 0)"
proof -
  obtain s :: proc_state where s: "kmem_inv s" "avail s = set boot_pages" "procs s = replicate NPROC blank_proc" "nextpid s = 1"
    using blank_machine by blast
  note b = blank_facts [OF s(3)]
  have "\<forall>i<NPROC. p_pid (getp s i) = 0 \<longleftrightarrow> p_state (getp s i) = UNUSED" "6 \<le> card (avail s)" "\<not> p_killed (getp s 0)"
    using s b(3) by (simp_all add: blank_proc_def NPROC_def)
  then show "\<exists>s t u :: proc_state. kkill 0 s = (0, t) \<and> allocproc t = Inr (Some 0, u) \<and> p_killed (getp u 0) \<and> \<not> p_killed (getp s 0)"
    using kkill_zero_marks_next [OF s(1) b(1) _ b(2)] by blast
qed

end
