(* ===== verification/Refs.thy ===== *)
theory Refs
  imports Sys Procmem
begin

text \<open>
  Reference counts of open files and inodes.  A reference is held by a slot: an entry of a process's
  descriptor table or its current directory holds a file or an inode, an open file holds its inode, and
  a running kernel function holds what it took and has not stored yet.  The counts in the tables are the
  numbers of their holders, for every operation that takes, copies or drops a reference.
\<close>

section \<open>Counting holders\<close>

definition holders :: "'k set \<Rightarrow> ('k \<Rightarrow> 'h option) \<Rightarrow> 'h \<Rightarrow> int" where
  "holders K own h = int (card {k \<in> K. own k = Some h})"

lemma holders_upd:
  assumes "finite K" "k \<in> K"
  shows "holders K (own(k := x)) h = holders K own h - (if own k = Some h then 1 else 0) + (if x = Some h then 1 else 0)"
proof -
  let ?A = "{j \<in> K - {k}. own j = Some h}"
  have e: "{j \<in> K. (own(k := x)) j = Some h} = (if x = Some h then insert k ?A else ?A)"
      "{j \<in> K. own j = Some h} = (if own k = Some h then insert k ?A else ?A)"
    using assms(2) by auto
  have "finite ?A" "k \<notin> ?A" using assms(1) by auto
  then show ?thesis unfolding holders_def e by auto
qed

lemma holders_pos: "finite K \<Longrightarrow> k \<in> K \<Longrightarrow> own k = Some h \<Longrightarrow> 0 < holders K own h"
  unfolding holders_def by (simp add: card_gt_0_iff) blast

lemma holders_nonneg [simp]: "0 \<le> holders K own h"
  by (simp add: holders_def)

lemma holders_cong: "(\<And>k. k \<in> K \<Longrightarrow> own k = own' k) \<Longrightarrow> holders K own h = holders K own' h"
  unfolding holders_def by (metis (mono_tags, lifting) Collect_cong)

section \<open>The slots\<close>

definition fd_slot :: "proc list \<Rightarrow> nat \<times> nat \<Rightarrow> nat option" where
  "fd_slot ps = (\<lambda>(p, fd). p_ofile (ps ! p) ! fd)"

definition cwd_slot :: "proc list \<Rightarrow> nat \<Rightarrow> nat option" where
  "cwd_slot ps = (\<lambda>p. p_cwd (ps ! p))"

definition file_slot :: "kfile list \<Rightarrow> nat \<Rightarrow> nat option" where
  "file_slot fs = (\<lambda>f. if 0 < f_ref (fs ! f) \<and> f_type (fs ! f) \<noteq> FD_NONE then f_ip (fs ! f) else None)"

definition fd_set :: "(nat \<times> nat) set" where "fd_set = {..<NPROC} \<times> {..<NOFILE}"

lemma fd_set_finite [simp]: "finite fd_set" "(p, fd) \<in> fd_set \<longleftrightarrow> p < NPROC \<and> fd < NOFILE"
  by (simp_all add: fd_set_def)

text \<open>
  \<open>X\<close> and \<open>Y\<close> are the references to files and inodes held outside the tables.  A count may be below the
  number of slots while a function drops a reference before it clears the slot, which \<open>X f < 0\<close> says.
\<close>

definition slots_ok :: "proc \<Rightarrow> bool" where
  "slots_ok q \<longleftrightarrow> length (p_ofile q) = NOFILE \<and> (\<forall>fd<NOFILE. \<forall>f. p_ofile q ! fd = Some f \<longrightarrow> f < NFILE)
     \<and> (\<forall>i. p_cwd q = Some i \<longrightarrow> i < NINODE)"

definition kfile_ok :: "kfile \<Rightarrow> bool" where
  "kfile_ok x \<longleftrightarrow> 0 \<le> f_ref x \<and> (0 < f_ref x \<and> f_type x \<noteq> FD_NONE \<longrightarrow> (\<exists>i<NINODE. f_ip x = Some i))"

definition tables_ok :: "proc list \<Rightarrow> kfile list \<Rightarrow> inode list \<Rightarrow> bool" where
  "tables_ok ps fs T \<longleftrightarrow> length ps = NPROC \<and> length fs = NFILE \<and> length T = NINODE
     \<and> (\<forall>p<NPROC. slots_ok (ps ! p)) \<and> (\<forall>f<NFILE. kfile_ok (fs ! f))"

lemma all_update: "length xs = n \<Longrightarrow> \<forall>i<n. P (xs ! i) \<Longrightarrow> P x \<Longrightarrow> \<forall>i<n. P (xs[k := x] ! i)"
  by (metis nth_list_update_eq nth_list_update_neq)

lemma tables_ok_upd:
  assumes "tables_ok ps fs T"
  shows "slots_ok q \<Longrightarrow> tables_ok (ps[p := q]) fs T" "kfile_ok x \<Longrightarrow> tables_ok ps (fs[f := x]) T" "tables_ok ps fs (T[i := y])"
  using assms all_update [where P = slots_ok and xs = ps and x = q and k = p and n = NPROC]
    all_update [where P = kfile_ok and xs = fs and x = x and k = f and n = NFILE]
  unfolding tables_ok_def by simp_all

definition counts :: "(nat \<Rightarrow> int) \<Rightarrow> (nat \<Rightarrow> int) \<Rightarrow> proc list \<Rightarrow> kfile list \<Rightarrow> inode list \<Rightarrow> bool" where
  "counts X Y ps fs T \<longleftrightarrow> tables_ok ps fs T
     \<and> (\<forall>f<NFILE. f_ref (fs ! f) = holders fd_set (fd_slot ps) f + X f)
     \<and> (\<forall>i<NINODE. i_ref (T ! i) = holders {..<NPROC} (cwd_slot ps) i + holders {..<NFILE} (file_slot fs) i + Y i)"

abbreviation refs_ok :: "(nat \<Rightarrow> int) \<Rightarrow> (nat \<Rightarrow> int) \<Rightarrow> 'a file_state_scheme \<Rightarrow> bool" where
  "refs_ok X Y s \<equiv> counts X Y (procs s) (ftable s) (itable s)"

lemma countsD:
  assumes "counts X Y ps fs T"
  shows "length ps = NPROC" "length fs = NFILE" "length T = NINODE" "p < NPROC \<Longrightarrow> slots_ok (ps ! p)" "f < NFILE \<Longrightarrow> kfile_ok (fs ! f)"
    "f < NFILE \<Longrightarrow> f_ref (fs ! f) = holders fd_set (fd_slot ps) f + X f"
    "i < NINODE \<Longrightarrow> i_ref (T ! i) = holders {..<NPROC} (cwd_slot ps) i + holders {..<NFILE} (file_slot fs) i + Y i"
    "p < NPROC \<Longrightarrow> length (p_ofile (ps ! p)) = NOFILE" "tables_ok ps fs T"
  using assms unfolding counts_def tables_ok_def slots_ok_def by blast+

section \<open>Moving a reference between a slot and the hand\<close>

lemma fd_slot_upd:
  assumes "length ps = NPROC" "p < NPROC" "length (p_ofile (ps ! p)) = NOFILE" "fd < NOFILE"
  shows "fd_slot (ps[p := (ps ! p)\<lparr>p_ofile := (p_ofile (ps ! p))[fd := x]\<rparr>]) = (fd_slot ps)((p, fd) := x)"
proof
  fix k :: "nat \<times> nat"
  obtain q d where "k = (q, d)" by (cases k)
  then show "fd_slot (ps[p := (ps ! p)\<lparr>p_ofile := (p_ofile (ps ! p))[fd := x]\<rparr>]) k = ((fd_slot ps)((p, fd) := x)) k"
    using assms by (auto simp: fd_slot_def nth_list_update)
qed

definition unit_at :: "nat option \<Rightarrow> nat \<Rightarrow> int" where
  "unit_at x f = (if x = Some f then 1 else 0)"

lemma counts_set_fd:
  assumes h: "counts X Y ps fs T" and p: "p < NPROC" "fd < NOFILE" and x: "\<And>f. x = Some f \<Longrightarrow> f < NFILE"
  shows "counts (\<lambda>f. X f + unit_at (p_ofile (ps ! p) ! fd) f - unit_at x f) Y
    (ps[p := (ps ! p)\<lparr>p_ofile := (p_ofile (ps ! p))[fd := x]\<rparr>]) fs T"
proof -
  note H = countsD [OF h]
  let ?ps = "ps[p := (ps ! p)\<lparr>p_ofile := (p_ofile (ps ! p))[fd := x]\<rparr>]"
  note sl = fd_slot_upd [OF H(1) p(1) H(8) [OF p(1)] p(2), of x]
  have "cwd_slot ?ps q = cwd_slot ps q" if "q < NPROC" for q using H(1) that by (cases "q = p") (auto simp: cwd_slot_def)
  then have cw: "holders {..<NPROC} (cwd_slot ?ps) i = holders {..<NPROC} (cwd_slot ps) i" for i by (intro holders_cong) simp
  have fc: "holders fd_set (fd_slot ?ps) f = holders fd_set (fd_slot ps) f - unit_at (p_ofile (ps ! p) ! fd) f + unit_at x f" for f
    unfolding sl using p by (subst holders_upd) (auto simp: unit_at_def fd_slot_def)
  have "slots_ok ((ps ! p)\<lparr>p_ofile := (p_ofile (ps ! p))[fd := x]\<rparr>)"
  proof -
    have "\<forall>d<NOFILE. \<forall>f. (p_ofile (ps ! p))[fd := x] ! d = Some f \<longrightarrow> f < NFILE"
      by (rule all_update [where P = "\<lambda>v. \<forall>f. v = Some f \<longrightarrow> f < NFILE"]) (use H(4) [OF p(1)] x in \<open>auto simp: slots_ok_def\<close>)
    then show ?thesis using H(4) [OF p(1)] unfolding slots_ok_def by simp
  qed
  then have "tables_ok ?ps fs T" by (rule tables_ok_upd(1) [OF H(9)])
  then show ?thesis using h unfolding counts_def cw fc by auto
qed

lemma counts_set_cwd:
  assumes h: "counts X Y ps fs T" and p: "p < NPROC" and x: "\<And>i. x = Some i \<Longrightarrow> i < NINODE"
  shows "counts X (\<lambda>i. Y i + unit_at (p_cwd (ps ! p)) i - unit_at x i) (ps[p := (ps ! p)\<lparr>p_cwd := x\<rparr>]) fs T"
proof -
  note H = countsD [OF h]
  let ?ps = "ps[p := (ps ! p)\<lparr>p_cwd := x\<rparr>]"
  have "fd_slot ?ps k = fd_slot ps k" if "k \<in> fd_set" for k
    using H(1) that by (cases k; cases "fst k = p") (auto simp: fd_slot_def)
  then have fc: "holders fd_set (fd_slot ?ps) f = holders fd_set (fd_slot ps) f" for f by (intro holders_cong) simp
  have "cwd_slot ?ps = (cwd_slot ps)(p := x)" using H(1) p by (auto simp: cwd_slot_def fun_eq_iff nth_list_update)
  then have cw: "holders {..<NPROC} (cwd_slot ?ps) i = holders {..<NPROC} (cwd_slot ps) i - unit_at (p_cwd (ps ! p)) i + unit_at x i" for i
    using p by (simp add: holders_upd unit_at_def cwd_slot_def)
  have "slots_ok ((ps ! p)\<lparr>p_cwd := x\<rparr>)" using H(4) [OF p] x unfolding slots_ok_def by simp
  then have "tables_ok ?ps fs T" by (rule tables_ok_upd(1) [OF H(9)])
  then show ?thesis using h unfolding counts_def cw fc by auto
qed

section \<open>The operations\<close>

lemma counts_file_upd:
  assumes h: "counts X Y ps fs T" and f: "f < NFILE" and ok: "kfile_ok x" and slot: "file_slot (fs[f := x]) f = file_slot fs f"
  shows "counts (X(f := X f + (f_ref x - f_ref (fs ! f)))) Y ps (fs[f := x]) T"
proof -
  note H = countsD [OF h]
  have "file_slot (fs[f := x]) g = file_slot fs g" for g using slot by (cases "g = f") (auto simp: file_slot_def)
  then have "file_slot (fs[f := x]) = file_slot fs" by blast
  moreover have "tables_ok ps (fs[f := x]) T" by (rule tables_ok_upd(2) [OF H(9) ok])
  ultimately show ?thesis using h f H(2) unfolding counts_def by (auto simp: nth_list_update)
qed

lemma counts_inode_upd:
  assumes h: "counts X Y ps fs T" and i: "i < NINODE" and d: "i_ref x = i_ref (T ! i) + d"
  shows "counts X (Y(i := Y i + d)) ps fs (T[i := x])"
proof -
  have "tables_ok ps fs (T[i := x])" by (rule tables_ok_upd(3) [OF countsD(9) [OF h]])
  then show ?thesis using h i d countsD(3) [OF h] unfolding counts_def by (auto simp: nth_list_update)
qed

lemma filedup_counts:
  fixes s :: "'a file_state_scheme"
  assumes "refs_ok X Y s" "f < NFILE" "0 < f_ref (getf s f)"
  shows "\<exists>t. filedup f s = Inr (f, t) \<and> refs_ok (X(f := X f + 1)) Y t \<and> (\<exists>fs. t = s\<lparr>ftable := fs\<rparr>)"
proof -
  let ?x = "(getf s f)\<lparr>f_ref := f_ref (getf s f) + 1\<rparr>"
  have "kfile_ok ?x" using countsD(5) [OF assms(1,2)] assms(3) by (simp add: kfile_ok_def)
  moreover have "file_slot ((ftable s)[f := ?x]) f = file_slot (ftable s) f"
    using assms(2,3) countsD(2) [OF assms(1)] by (simp add: file_slot_def)
  ultimately show ?thesis
    using counts_file_upd [OF assms(1,2), of ?x] assms(3) by (simp add: filedup_def setf_def) blast
qed

lemma iput_counts:
  fixes s :: "'a file_state_scheme"
  assumes "refs_ok X Y s" "i < NINODE"
  shows "\<exists>t. iput (Some i) s = Inr t \<and> refs_ok X (Y(i := Y i - 1)) t \<and> (\<exists>T. t = s\<lparr>itable := T\<rparr>)"
  using counts_inode_upd [OF assms, of "(geti s i)\<lparr>i_ref := i_ref (geti s i) - 1\<rparr>" "-1"] by (auto simp: iput_def seti_def)

lemma idup_counts:
  fixes s :: "'a file_state_scheme"
  assumes "refs_ok X Y s" "i < NINODE"
  shows "\<exists>t. idup (Some i) s = Inr (i, t) \<and> refs_ok X (Y(i := Y i + 1)) t \<and> (\<exists>T. t = s\<lparr>itable := T\<rparr>)"
  using counts_inode_upd [OF assms, of "(geti s i)\<lparr>i_ref := i_ref (geti s i) + 1\<rparr>" 1] by (auto simp: idup_def seti_def)

text \<open>The last reference to a file gives up the file's reference to its inode.\<close>

lemma counts_file_close:
  assumes h: "counts X Y ps fs T" and f: "f < NFILE" "f_ref (fs ! f) = 1" "f_type (fs ! f) \<noteq> FD_NONE" "f_ip (fs ! f) = Some i"
  shows "counts (X(f := X f - 1)) (Y(i := Y i + 1)) ps (fs[f := (fs ! f)\<lparr>f_ref := 0, f_type := FD_NONE\<rparr>]) T"
proof -
  note H = countsD [OF h]
  let ?x = "(fs ! f)\<lparr>f_ref := 0, f_type := FD_NONE\<rparr>"
  have "file_slot (fs[f := ?x]) = (file_slot fs)(f := None)"
    using f H(2) by (auto simp: file_slot_def fun_eq_iff nth_list_update)
  moreover have "file_slot fs f = Some i" using f by (simp add: file_slot_def)
  ultimately have fc: "holders {..<NFILE} (file_slot (fs[f := ?x])) j = holders {..<NFILE} (file_slot fs) j - (if j = i then 1 else 0)" for j
    using f(1) by (simp add: holders_upd)
  have "tables_ok ps (fs[f := ?x]) T" by (rule tables_ok_upd(2) [OF H(9)]) (simp add: kfile_ok_def)
  then show ?thesis using h f H(2) unfolding counts_def fc by (auto simp: nth_list_update)
qed

lemma fileclose_counts:
  fixes s :: "'a file_state_scheme"
  assumes h: "refs_ok X Y s" and f: "f < NFILE" "0 < f_ref (getf s f)"
  shows "\<exists>t. fileclose f s = Inr t \<and> refs_ok (X(f := X f - 1)) Y t \<and> (\<exists>fs T. t = s\<lparr>ftable := fs, itable := T\<rparr>)"
proof -
  let ?x = "getf s f"
  note H = countsD [OF h]
  have len: "f < length (ftable s)" using f H(2) by simp
  consider "1 < f_ref ?x" | "f_ref ?x = 1" "f_type ?x = FD_NONE" | "f_ref ?x = 1" "f_type ?x \<noteq> FD_NONE" using f(2) by linarith
  then show ?thesis
  proof cases
    case 1
    let ?y = "?x\<lparr>f_ref := f_ref ?x - 1\<rparr>"
    have "counts (X(f := X f - 1)) Y (procs s) ((ftable s)[f := ?y]) (itable s)"
      using counts_file_upd [OF h f(1), of ?y] 1 H(5) [OF f(1)] len by (auto simp: kfile_ok_def file_slot_def)
    then show ?thesis using 1 len by (auto simp: fileclose_def setf_def intro!: exI [of _ "(ftable s)[f := ?y]"] exI [of _ "itable s"])
  next
    case 2
    let ?y = "?x\<lparr>f_ref := 0, f_type := FD_NONE\<rparr>"
    have "counts (X(f := X f - 1)) Y (procs s) ((ftable s)[f := ?y]) (itable s)"
      using counts_file_upd [OF h f(1), of ?y] 2 len by (auto simp: kfile_ok_def file_slot_def)
    then show ?thesis using 2 len by (auto simp: fileclose_def setf_def Let_def intro!: exI [of _ "(ftable s)[f := ?y]"] exI [of _ "itable s"])
  next
    case 3
    let ?t = "s\<lparr>ftable := (ftable s)[f := ?x\<lparr>f_ref := 0, f_type := FD_NONE\<rparr>]\<rparr>"
    obtain i where i: "i < NINODE" "f_ip ?x = Some i" using H(5) [OF f(1)] 3 by (auto simp: kfile_ok_def)
    have "refs_ok (X(f := X f - 1)) (Y(i := Y i + 1)) ?t" using counts_file_close [OF h f(1) 3 i(2)] by simp
    from iput_counts [OF this i(1)] obtain u T where u: "iput (Some i) ?t = Inr u" "refs_ok (X(f := X f - 1)) Y u" "u = ?t\<lparr>itable := T\<rparr>"
      by auto
    have "f_type ?x = FD_INODE \<or> f_type ?x = FD_DEVICE" using 3(2) by (cases "f_type ?x") auto
    then have "fileclose f s = Inr u" using 3 len i(2) u(1) by (simp add: fileclose_def setf_def Let_def)
    then show ?thesis using u(2,3) by auto
  qed
qed

section \<open>All descriptors of a process\<close>

definition fd_frame :: "'a file_state_scheme \<Rightarrow> 'a file_state_scheme \<Rightarrow> bool" where
  "fd_frame s t \<longleftrightarrow> t = s\<lparr>procs := procs t, ftable := ftable t, itable := itable t\<rparr>"

lemma fd_frame_upd: "fd_frame s t \<Longrightarrow> fd_frame s (t\<lparr>procs := ps, ftable := fs, itable := T\<rparr>)"
proof -
  assume "fd_frame s t"
  then have t: "t = s\<lparr>procs := procs t, ftable := ftable t, itable := itable t\<rparr>" by (simp only: fd_frame_def)
  show ?thesis unfolding fd_frame_def by (subst t) simp
qed

lemma fd_frame_refl: "fd_frame s s"
  by (simp add: fd_frame_def)

lemma fd_frame_trans: "fd_frame s t \<Longrightarrow> fd_frame t u \<Longrightarrow> fd_frame s u"
  using fd_frame_upd [of s t "itable u" "ftable u" "procs u"] by (simp add: fd_frame_def [of t u] del: fd_frame_def)

lemma slot_counted:
  assumes "counts X Y ps fs T" "p < NPROC" "fd < NOFILE" "p_ofile (ps ! p) ! fd = Some f" "\<forall>f. 0 \<le> X f"
  shows "f < NFILE" "0 < f_ref (fs ! f)"
proof -
  show f: "f < NFILE" using countsD(4) [OF assms(1,2)] assms(3,4) by (simp add: slots_ok_def)
  have "0 < holders fd_set (fd_slot ps) f" using assms(2,3,4) by (intro holders_pos [of _ "(p, fd)"]) (simp_all add: fd_slot_def)
  then show "0 < f_ref (fs ! f)" using countsD(6) [OF assms(1) f] assms(5) by (simp add: add_pos_nonneg)
qed

lemma unit_at_simps [simp]: "unit_at None = (\<lambda>_. 0)" "unit_at (Some f) = (\<lambda>g. if g = f then 1 else 0)"
  by (auto simp: unit_at_def)

lemma close_slot:
  fixes s :: "'a file_state_scheme"
  assumes "refs_ok X Y s" "p < NPROC" "fd < NOFILE" "\<forall>f. 0 \<le> X f"
  shows "\<exists>t. (case p_ofile (getp s p) ! fd of None \<Rightarrow> Inr s
       | Some f \<Rightarrow> rbind (fileclose f s) (\<lambda>s. Inr (setp p (\<lambda>q. q\<lparr>p_ofile := (p_ofile q)[fd := None]\<rparr>) s))) = Inr t
    \<and> refs_ok X Y t \<and> fd_frame s t \<and> procs t = (procs s)[p := (getp s p)\<lparr>p_ofile := (p_ofile (getp s p))[fd := None]\<rparr>]"
proof (cases "p_ofile (getp s p) ! fd")
  case None
  then have "(p_ofile (getp s p))[fd := None] = p_ofile (getp s p)" by (metis list_update_id)
  then show ?thesis using None assms(1) by (intro exI [of _ s]) (simp add: fd_frame_refl)
next
  case (Some f)
  note f = slot_counted [OF assms(1-3) Some assms(4)]
  obtain u fs T where u: "fileclose f s = Inr u" "refs_ok (X(f := X f - 1)) Y u" "u = s\<lparr>ftable := fs, itable := T\<rparr>"
    using fileclose_counts [OF assms(1) f] by blast
  let ?t = "setp p (\<lambda>q. q\<lparr>p_ofile := (p_ofile q)[fd := None]\<rparr>) u"
  have "(\<lambda>g. (X(f := X f - 1)) g + unit_at (p_ofile (getp u p) ! fd) g - unit_at None g) = X" using Some u(3) by auto
  then have "refs_ok X Y ?t" using counts_set_fd [OF u(2) assms(2,3), of None] by (simp add: setp_def)
  moreover have "fd_frame s ?t" by (simp add: fd_frame_def setp_def u(3))
  ultimately show ?thesis using Some u(1,3) by (intro exI [of _ ?t]) (simp add: setp_def)
qed

lemma rfold_close:
  fixes s :: "'a file_state_scheme"
  assumes "refs_ok X Y s" "p < NPROC" "\<forall>fd\<in>set fds. fd < NOFILE" "\<forall>f. 0 \<le> X f"
  shows "\<exists>t. rfold (\<lambda>fd s. case p_ofile (getp s p) ! fd of None \<Rightarrow> Inr s
       | Some f \<Rightarrow> rbind (fileclose f s) (\<lambda>s. Inr (setp p (\<lambda>q. q\<lparr>p_ofile := (p_ofile q)[fd := None]\<rparr>) s))) fds s = Inr t
    \<and> refs_ok X Y t \<and> fd_frame s t
    \<and> procs t = (procs s)[p := (getp s p)\<lparr>p_ofile := fold (\<lambda>fd xs. xs[fd := None]) fds (p_ofile (getp s p))\<rparr>]"
  using assms
proof (induction fds arbitrary: s)
  case Nil
  then show ?case by (intro exI [of _ s]) (simp add: fd_frame_refl)
next
  case (Cons fd fds)
  have fd: "fd < NOFILE" using Cons.prems(3) by simp
  obtain t where t: "(case p_ofile (getp s p) ! fd of None \<Rightarrow> Inr s
       | Some f \<Rightarrow> rbind (fileclose f s) (\<lambda>s. Inr (setp p (\<lambda>q. q\<lparr>p_ofile := (p_ofile q)[fd := None]\<rparr>) s))) = Inr t"
      "refs_ok X Y t" "fd_frame s t" "procs t = (procs s)[p := (getp s p)\<lparr>p_ofile := (p_ofile (getp s p))[fd := None]\<rparr>]"
    using close_slot [OF Cons.prems(1,2) fd Cons.prems(4)] by blast
  have p: "p < length (procs s)" using countsD(1) [OF Cons.prems(1)] Cons.prems(2) by simp
  have "\<forall>fd\<in>set fds. fd < NOFILE" using Cons.prems(3) by simp
  from Cons.IH [OF t(2) Cons.prems(2) this Cons.prems(4)] show ?case
    using t(1,3,4) fd_frame_trans [OF t(3)] p by auto
qed

lemma fold_clear: "n \<le> length xs \<Longrightarrow> fold (\<lambda>fd xs. xs[fd := None]) [0..<n] xs = replicate n None @ drop n xs"
proof (induction n)
  case (Suc n)
  then show ?case by (auto simp: list_update_append Cons_nth_drop_Suc [symmetric] replicate_append_same)
qed simp

lemma close_files_counts:
  fixes s :: "'a file_state_scheme"
  assumes "refs_ok X Y s" "p < NPROC" "\<forall>f. 0 \<le> X f"
  shows "\<exists>t. close_files p s = Inr t \<and> refs_ok X Y t \<and> fd_frame s t
    \<and> procs t = (procs s)[p := (getp s p)\<lparr>p_ofile := replicate NOFILE None\<rparr>]"
  using rfold_close [OF assms(1,2) _ assms(3), of "[0..<NOFILE]"] fold_clear [of NOFILE "p_ofile (getp s p)"]
    countsD(8) [OF assms(1,2)] by (simp add: close_files_def)

lemma dup_slot:
  fixes s :: "'a file_state_scheme"
  assumes "refs_ok X Y s" "p < NPROC" "np < NPROC" "fd < NOFILE" "\<forall>f. 0 \<le> X f" "p_ofile (getp s np) ! fd = None"
  shows "\<exists>t. (case p_ofile (getp s p) ! fd of None \<Rightarrow> Inr s
       | Some f \<Rightarrow> rbind (filedup f s) (\<lambda>(f, s). Inr (setp np (\<lambda>q. q\<lparr>p_ofile := (p_ofile q)[fd := Some f]\<rparr>) s))) = Inr t
    \<and> refs_ok X Y t \<and> fd_frame s t
    \<and> procs t = (procs s)[np := (getp s np)\<lparr>p_ofile := (p_ofile (getp s np))[fd := p_ofile (getp s p) ! fd]\<rparr>]"
proof (cases "p_ofile (getp s p) ! fd")
  case None
  then have "(p_ofile (getp s np))[fd := None] = p_ofile (getp s np)" using assms(6) by (metis list_update_id)
  then show ?thesis using None assms(1) by (intro exI [of _ s]) (simp add: fd_frame_refl)
next
  case (Some f)
  note f = slot_counted [OF assms(1,2,4) Some assms(5)]
  obtain u fs where u: "filedup f s = Inr (f, u)" "refs_ok (X(f := X f + 1)) Y u" "u = s\<lparr>ftable := fs\<rparr>"
    using filedup_counts [OF assms(1) f] by blast
  let ?t = "setp np (\<lambda>q. q\<lparr>p_ofile := (p_ofile q)[fd := Some f]\<rparr>) u"
  have "(\<lambda>g. (X(f := X f + 1)) g + unit_at (p_ofile (getp u np) ! fd) g - unit_at (Some f) g) = X" using assms(6) u(3) by auto
  then have "refs_ok X Y ?t" using counts_set_fd [OF u(2) assms(3,4), of "Some f"] f(1) by (simp add: setp_def)
  moreover have "fd_frame s ?t" by (simp add: fd_frame_def setp_def u(3))
  ultimately show ?thesis using Some u(1,3) by (intro exI [of _ ?t]) (simp add: setp_def)
qed

lemma rfold_dup:
  fixes s :: "'a file_state_scheme"
  assumes "refs_ok X Y s" "p < NPROC" "np < NPROC" "p \<noteq> np" "m \<le> NOFILE" "\<forall>f. 0 \<le> X f"
    "\<forall>fd<NOFILE. p_ofile (getp s np) ! fd = None"
  shows "\<exists>t. rfold (\<lambda>fd s. case p_ofile (getp s p) ! fd of None \<Rightarrow> Inr s
       | Some f \<Rightarrow> rbind (filedup f s) (\<lambda>(f, s). Inr (setp np (\<lambda>q. q\<lparr>p_ofile := (p_ofile q)[fd := Some f]\<rparr>) s))) [0..<m] s = Inr t
    \<and> refs_ok X Y t \<and> fd_frame s t
    \<and> procs t = (procs s)[np := (getp s np)\<lparr>p_ofile := take m (p_ofile (getp s p)) @ drop m (p_ofile (getp s np))\<rparr>]"
  using assms(5)
proof (induction m)
  case 0
  then show ?case using assms(1) by (intro exI [of _ s]) (simp add: fd_frame_refl)
next
  case (Suc m)
  let ?o = "p_ofile (getp s p)" and ?c = "p_ofile (getp s np)"
  obtain t where t: "rfold (\<lambda>fd s. case p_ofile (getp s p) ! fd of None \<Rightarrow> Inr s
       | Some f \<Rightarrow> rbind (filedup f s) (\<lambda>(f, s). Inr (setp np (\<lambda>q. q\<lparr>p_ofile := (p_ofile q)[fd := Some f]\<rparr>) s))) [0..<m] s = Inr t"
      "refs_ok X Y t" "fd_frame s t" "procs t = (procs s)[np := (getp s np)\<lparr>p_ofile := take m ?o @ drop m ?c\<rparr>]"
    using Suc by fastforce
  have m: "m < NOFILE" using Suc.prems by simp
  have l: "length ?o = NOFILE" "length ?c = NOFILE" "np < length (procs s)" using countsD(1,8) [OF assms(1)] assms(2,3) by simp_all
  have g: "getp t p = getp s p" "getp t np = (getp s np)\<lparr>p_ofile := take m ?o @ drop m ?c\<rparr>" using t(4) l(3) assms(4) by simp_all
  have "(take m ?o @ drop m ?c) ! m = ?c ! m" using l m by (simp add: nth_append)
  then have none: "p_ofile (getp t np) ! m = None" using g(2) assms(7) m by simp
  have "(take m ?o @ drop m ?c)[m := ?o ! m] = take (Suc m) ?o @ drop (Suc m) ?c"
    using l m by (simp add: list_update_append take_Suc_conv_app_nth Cons_nth_drop_Suc [symmetric])
  then show ?case
    using dup_slot [OF t(2) assms(2,3) m assms(6) none] t(1,3,4) g l(3) fd_frame_trans [OF t(3)] by (auto simp: rfold_append)
qed

lemma dup_files_counts:
  fixes s :: "'a file_state_scheme"
  assumes "refs_ok X Y s" "p < NPROC" "np < NPROC" "p \<noteq> np" "\<forall>f. 0 \<le> X f" "\<forall>fd<NOFILE. p_ofile (getp s np) ! fd = None"
  shows "\<exists>t. dup_files p np s = Inr t \<and> refs_ok X Y t \<and> fd_frame s t
    \<and> procs t = (procs s)[np := (getp s np)\<lparr>p_ofile := p_ofile (getp s p)\<rparr>]"
  using rfold_dup [OF assms(1-4) _ assms(5,6), of NOFILE] countsD(8) [OF assms(1)] assms(2,3) by (simp add: dup_files_def)

section \<open>dup and close\<close>

lemma sint_pos_u32: "0 \<le> sint (x :: u32) \<Longrightarrow> int (unat x) = sint x"
proof -
  assume h: "0 \<le> sint x"
  have "sint x = (uint x + 2147483648) mod 4294967296 - 2147483648"
    by (simp add: sint_uint signed_take_bit_eq_take_bit_shift take_bit_eq_mod add.commute)
  moreover have "0 \<le> uint x" "uint x < 4294967296" using uint_lt2p [of x] by simp_all
  moreover have "(uint x + 2147483648) mod 4294967296 = uint x - 2147483648" if "2147483648 \<le> uint x"
    using that \<open>uint x < 4294967296\<close> minus_mod_self2 [of "uint x + 2147483648" 4294967296] by simp
  ultimately have "sint x = uint x" using h by (cases "uint x < 2147483648") simp_all
  then show ?thesis by simp
qed

lemma argfd_cases:
  fixes s :: "'a file_state_scheme"
  assumes "refs_ok (\<lambda>_. 0) Y s" "cur s = Inr p" "p < NPROC" "argfd 0 s = Inr (Some (fd, f))"
  shows "fd < NOFILE" "p_ofile (getp s p) ! fd = Some f" "f < NFILE" "0 < f_ref (getf s f)"
proof -
  show a: "fd < NOFILE" "p_ofile (getp s p) ! fd = Some f"
  proof -
    obtain x where x: "argint 0 s = Inr x" using assms(4) by (cases "argint 0 s") (simp_all add: argfd_def)
    then have "\<not> sint x < 0 \<and> sint x < int NOFILE \<and> fd = unat x \<and> p_ofile (getp s p) ! fd = Some f"
      using assms(2,4) by (auto simp: argfd_def split: if_splits option.splits)
    moreover from this have "int (unat x) = sint x" by (intro sint_pos_u32) simp
    ultimately show "fd < NOFILE" "p_ofile (getp s p) ! fd = Some f" by linarith+
  qed
  show "f < NFILE" "0 < f_ref (getf s f)" using slot_counted [OF assms(1,3) a] by simp_all
qed

lemma find_fd_Some: "find_fd fds xs = Some fd \<Longrightarrow> fd \<in> set fds \<and> xs ! fd = None"
  by (induction fds) (auto split: if_splits)

lemma argfd_ok:
  fixes s :: "'a file_state_scheme"
  assumes "cur s = Inr p"
  shows "\<exists>x. argfd 0 s = Inr x"
  using assms by (auto simp: argfd_def argint_def argraw_def split: option.splits)

definition dup_result :: "nat \<Rightarrow> 'a file_state_scheme \<Rightarrow> u64 \<Rightarrow> 'a file_state_scheme \<Rightarrow> bool" where
  "dup_result p s r t \<longleftrightarrow> (case argfd 0 s of
      Inr (Some (fd, f)) \<Rightarrow> (case find_fd [0..<NOFILE] (p_ofile (getp s p)) of
         Some new \<Rightarrow> r = of_nat new \<and> f_ref (getf t f) = f_ref (getf s f) + 1
           \<and> procs t = (procs s)[p := (getp s p)\<lparr>p_ofile := (p_ofile (getp s p))[new := Some f]\<rparr>]
       | None \<Rightarrow> r = -1 \<and> t = s)
    | _ \<Rightarrow> r = -1 \<and> t = s)"

lemma counts_dup_fd:
  fixes s :: "'a file_state_scheme"
  assumes h: "refs_ok (\<lambda>_. 0) Y s" and p: "p < NPROC" "new < NOFILE" "p_ofile (getp s p) ! new = None" and f: "f < NFILE" "0 < f_ref (getf s f)"
  shows "\<exists>t. filedup f (setp p (\<lambda>q. q\<lparr>p_ofile := (p_ofile q)[new := Some f]\<rparr>) s) = Inr (f, t) \<and> refs_ok (\<lambda>_. 0) Y t \<and> fd_frame s t
    \<and> f_ref (getf t f) = f_ref (getf s f) + 1 \<and> procs t = (procs s)[p := (getp s p)\<lparr>p_ofile := (p_ofile (getp s p))[new := Some f]\<rparr>]"
proof -
  let ?s1 = "setp p (\<lambda>q. q\<lparr>p_ofile := (p_ofile q)[new := Some f]\<rparr>) s"
  have e: "?s1 = s\<lparr>procs := (procs s)[p := (getp s p)\<lparr>p_ofile := (p_ofile (getp s p))[new := Some f]\<rparr>]\<rparr>" by (simp add: setp_def)
  have c1: "refs_ok ((\<lambda>_. 0)(f := -1)) Y ?s1"
    using counts_set_fd [OF h p(1,2), of "Some f"] f(1) p(3) unfolding e by (simp add: fun_upd_def if_distrib [of uminus] cong: if_cong)
  obtain t fs where t: "filedup f ?s1 = Inr (f, t)" "refs_ok (((\<lambda>_. 0)(f := -1))(f := ((\<lambda>_. 0)(f := -1)) f + 1)) Y t" "t = ?s1\<lparr>ftable := fs\<rparr>"
    using filedup_counts [OF c1 f(1)] f(2) e by auto
  have "t = s\<lparr>procs := (procs s)[p := (getp s p)\<lparr>p_ofile := (p_ofile (getp s p))[new := Some f]\<rparr>], ftable := fs, itable := itable s\<rparr>"
    using t(3) e by simp
  then have fr: "fd_frame s t" using fd_frame_upd [OF fd_frame_refl] by metis
  have "f_ref (getf t f) = f_ref (getf s f) + 1"
    using t(1) f countsD(2) [OF h] by (auto simp: filedup_def setf_def e split: if_splits)
  moreover have "((\<lambda>_. 0)(f := -1))(f := ((\<lambda>_. 0)(f := -1)) f + 1) = (\<lambda>_. 0 :: int)" by auto
  ultimately show ?thesis using t fr e by simp
qed

lemma counts_drop_fd:
  fixes s :: "'a file_state_scheme"
  assumes h: "refs_ok (\<lambda>_. 0) Y s" and p: "p < NPROC" "fd < NOFILE" "p_ofile (getp s p) ! fd = Some f"
  shows "\<exists>t. fileclose f (setp p (\<lambda>q. q\<lparr>p_ofile := (p_ofile q)[fd := None]\<rparr>) s) = Inr t \<and> refs_ok (\<lambda>_. 0) Y t \<and> fd_frame s t
    \<and> f_ref (getf t f) = f_ref (getf s f) - 1 \<and> procs t = (procs s)[p := (getp s p)\<lparr>p_ofile := (p_ofile (getp s p))[fd := None]\<rparr>]"
proof -
  let ?s1 = "setp p (\<lambda>q. q\<lparr>p_ofile := (p_ofile q)[fd := None]\<rparr>) s"
  have F: "f < NFILE" "0 < f_ref (getf s f)" using slot_counted [OF h p] by simp_all
  have e: "?s1 = s\<lparr>procs := (procs s)[p := (getp s p)\<lparr>p_ofile := (p_ofile (getp s p))[fd := None]\<rparr>]\<rparr>" by (simp add: setp_def)
  have c1: "refs_ok ((\<lambda>_. 0)(f := 1)) Y ?s1" using counts_set_fd [OF h p(1,2), of None] p(3) unfolding e by (simp add: fun_upd_def)
  have f1: "0 < f_ref (getf ?s1 f)" using F(2) e by simp
  obtain t fs T where t: "fileclose f ?s1 = Inr t" "refs_ok (((\<lambda>_. 0)(f := 1))(f := ((\<lambda>_. 0)(f := 1)) f - 1)) Y t" "t = ?s1\<lparr>ftable := fs, itable := T\<rparr>"
    using fileclose_counts [OF c1 F(1) f1] by blast
  have z: "((\<lambda>_. 0)(f := 1))(f := ((\<lambda>_. 0)(f := 1)) f - 1) = (\<lambda>_. 0 :: int)" by auto
  have "t = s\<lparr>procs := (procs s)[p := (getp s p)\<lparr>p_ofile := (p_ofile (getp s p))[fd := None]\<rparr>], ftable := fs, itable := T\<rparr>"
    using t(3) e by simp
  then have fr: "fd_frame s t" using fd_frame_upd [OF fd_frame_refl] by metis
  have "procs t = procs ?s1" using t(3) by simp
  then have "f_ref (getf t f) = f_ref (getf s f) - 1"
    using countsD(6) [OF c1 F(1)] countsD(6) [OF t(2) F(1)] e by simp
  then show ?thesis using t fr e z by simp
qed

text \<open>
  C23: \<^verbatim>\<open>dup\<close> of an open descriptor installs the same file in the lowest free descriptor of the calling
  process, returns it and counts one more holder; a bad descriptor or a full table gives -1 and changes
  nothing.  No panic of the file table is reachable, and every count stays the number of its holders.\<close>

theorem sys_dup_shares:
  fixes s :: "'a file_state_scheme"
  assumes "refs_ok (\<lambda>_. 0) (\<lambda>_. 0) s" "cur s = Inr p" "p < NPROC"
  shows "\<exists>r t. sys_dup s = Inr (r, t) \<and> dup_result p s r t \<and> refs_ok (\<lambda>_. 0) (\<lambda>_. 0) t \<and> fd_frame s t"
proof -
  obtain x where x: "argfd 0 s = Inr x" using argfd_ok [OF assms(2)] by blast
  show ?thesis
  proof (cases x)
    case None
    then show ?thesis using x assms(1) by (simp add: sys_dup_def dup_result_def fd_frame_refl)
  next
    case (Some y)
    obtain fd f where y: "y = (fd, f)" by (cases y)
    note a = argfd_cases [OF assms(1-3) x [unfolded Some y]]
    show ?thesis
    proof (cases "find_fd [0..<NOFILE] (p_ofile (getp s p))")
      case None
      then show ?thesis using x Some y assms by (simp add: sys_dup_def fdalloc_def dup_result_def fd_frame_refl)
    next
      case new: (Some new)
      have n: "new < NOFILE" "p_ofile (getp s p) ! new = None" using find_fd_Some [OF new] by auto
      from counts_dup_fd [OF assms(1,3) n a(3,4)] show ?thesis
        using x Some y assms(2) new by (auto simp: sys_dup_def fdalloc_def dup_result_def)
    qed
  qed
qed

text \<open>
  C24: \<^verbatim>\<open>close\<close> of an open descriptor returns 0 and frees that descriptor only; the file loses one holder,
  and with the last one it gives its inode back.  A bad descriptor gives -1 and changes nothing.  No
  panic of the file table is reachable, and every count stays the number of its holders.\<close>

theorem sys_close_releases:
  fixes s :: "'a file_state_scheme"
  assumes "refs_ok (\<lambda>_. 0) (\<lambda>_. 0) s" "cur s = Inr p" "p < NPROC"
  shows "\<exists>r t. sys_close s = Inr (r, t) \<and> refs_ok (\<lambda>_. 0) (\<lambda>_. 0) t \<and> fd_frame s t
    \<and> (case argfd 0 s of
         Inr (Some (fd, f)) \<Rightarrow> r = 0 \<and> f_ref (getf t f) = f_ref (getf s f) - 1
           \<and> procs t = (procs s)[p := (getp s p)\<lparr>p_ofile := (p_ofile (getp s p))[fd := None]\<rparr>]
       | _ \<Rightarrow> r = -1 \<and> t = s)"
proof -
  obtain x where x: "argfd 0 s = Inr x" using argfd_ok [OF assms(2)] by blast
  show ?thesis
  proof (cases x)
    case None
    then show ?thesis using x assms(1) by (simp add: sys_close_def fd_frame_refl)
  next
    case (Some y)
    obtain fd f where y: "y = (fd, f)" by (cases y)
    note a = argfd_cases [OF assms(1-3) x [unfolded Some y]]
    from counts_drop_fd [OF assms(1,3) a(1,2)] show ?thesis
      using x Some y assms(2) by (auto simp: sys_close_def)
  qed
qed

section \<open>A machine with one process and one open file\<close>

lemma holders_single:
  assumes "k \<in> K" "\<And>j. j \<in> K \<Longrightarrow> own j = (if j = k then Some h else None)"
  shows "holders K own i = (if i = h then 1 else 0)"
proof -
  have "{j \<in> K. own j = Some i} = (if i = h then {k} else {})" using assms by (auto split: if_splits)
  then show ?thesis by (simp add: holders_def)
qed

definition one_ofile :: "nat option list" where "one_ofile = (replicate NOFILE None)[0 := Some 0]"

definition one_ftable :: "kfile list" where
  "one_ftable = (let x = \<lparr>f_type = FD_NONE, f_ref = 0, f_readable = True, f_writable = True, f_ip = None, f_off = 0, f_major = 0\<rparr>
     in (replicate NFILE x)[0 := x\<lparr>f_type := FD_INODE, f_ref := 1, f_ip := Some 0\<rparr>])"

definition one_itable :: "inode list" where
  "one_itable = (let x = \<lparr>i_dev = 0, i_inum = 0, i_ref = 0, i_lock = initsleeplock ''inode'', i_valid = False, i_type = 0, i_major = 0,
       i_minor = 0, i_nlink = 0, i_size = 0, i_addrs = replicate 13 0\<rparr>
     in (replicate NINODE x)[0 := x\<lparr>i_ref := 2\<rparr>])"

lemma one_counts:
  assumes "length ps = NPROC" "p_ofile (ps ! 0) = one_ofile" "p_cwd (ps ! 0) = Some 0"
    "\<And>p. 0 < p \<Longrightarrow> p < NPROC \<Longrightarrow> p_ofile (ps ! p) = replicate NOFILE None \<and> p_cwd (ps ! p) = None"
  shows "counts (\<lambda>_. 0) (\<lambda>_. 0) ps one_ftable one_itable"
proof -
  have n: "0 < NPROC" "0 < NOFILE" "0 < NFILE" "0 < NINODE" by (simp_all add: NPROC_def NOFILE_def NFILE_def NINODE_def)
  have "fd_slot ps k = (if k = (0, 0) then Some 0 else None)" if "k \<in> fd_set" for k
    using that assms by (cases k; cases "fst k = 0") (auto simp: fd_slot_def one_ofile_def nth_list_update)
  then have f: "holders fd_set (fd_slot ps) f = (if f = 0 then 1 else 0)" for f using n by (intro holders_single [of "(0, 0)"]) simp_all
  have "cwd_slot ps k = (if k = 0 then Some 0 else None)" if "k < NPROC" for k
    using that assms by (cases "k = 0") (auto simp: cwd_slot_def)
  then have c: "holders {..<NPROC} (cwd_slot ps) i = (if i = 0 then 1 else 0)" for i using n by (intro holders_single [of 0]) simp_all
  have "file_slot one_ftable k = (if k = 0 then Some 0 else None)" if "k < NFILE" for k
    using that by (simp add: file_slot_def one_ftable_def Let_def nth_list_update)
  then have s: "holders {..<NFILE} (file_slot one_ftable) i = (if i = 0 then 1 else 0)" for i using n by (intro holders_single [of 0]) simp_all
  have "slots_ok (ps ! p)" if "p < NPROC" for p
    using that assms n by (cases "p = 0") (auto simp: slots_ok_def one_ofile_def nth_list_update)
  moreover have "kfile_ok (one_ftable ! k)" if "k < NFILE" for k
    using that n by (simp add: kfile_ok_def one_ftable_def Let_def nth_list_update)
  ultimately have "tables_ok ps one_ftable one_itable"
    using assms(1) by (simp add: tables_ok_def one_ftable_def one_itable_def Let_def)
  then show ?thesis
    unfolding counts_def f c s by (simp add: one_ftable_def one_itable_def Let_def nth_list_update)
qed

definition one_machine :: "'a file_state_scheme \<Rightarrow> 'a file_state_scheme" where
  "one_machine z = z\<lparr>mem := (\<lambda>_. 0), cpus := (\<lambda>_. (mycpu z)\<lparr>c_proc := Some 0\<rparr>),
     procs := (replicate NPROC blank_proc)[0 := blank_proc\<lparr>p_ofile := one_ofile, p_cwd := Some 0\<rparr>],
     ftable := one_ftable, itable := one_itable\<rparr>"

lemma one_machine_ok:
  "refs_ok (\<lambda>_. 0) (\<lambda>_. 0) (one_machine z)" "cur (one_machine z) = Inr 0" "argfd 0 (one_machine z) = Inr (Some (0, 0))"
  "p_ofile (getp (one_machine z) 0) = one_ofile" "getf (one_machine z) 0 = one_ftable ! 0"
proof -
  have n: "0 < NPROC" "0 < NOFILE" by (simp_all add: NPROC_def NOFILE_def)
  show c: "cur (one_machine z) = Inr 0" by (simp add: one_machine_def cur_def myproc_def mycpu_def cpuid_def)
  show "refs_ok (\<lambda>_. 0) (\<lambda>_. 0) (one_machine z)"
    unfolding one_machine_def by (simp, rule one_counts) (use n in \<open>simp_all add: blank_proc_def\<close>)
  have "ld_le k (\<lambda>_. 0) a = 0" for k a by (induction k arbitrary: a) simp_all
  then have "tf_get 0 TF_a0 (one_machine z) = 0"
    by (simp add: tf_get_def one_machine_def ld64_def)
  then show "argfd 0 (one_machine z) = Inr (Some (0, 0))"
    using c n by (simp add: argfd_def argint_def argraw_def) (simp add: one_machine_def one_ofile_def)
  show "p_ofile (getp (one_machine z) 0) = one_ofile" "getf (one_machine z) 0 = one_ftable ! 0"
    using n by (simp_all add: one_machine_def)
qed

theorem sys_dup_shares_witness:
  "\<forall>z :: file_state. \<exists>t. sys_dup (one_machine z) = Inr (1, t) \<and> f_ref (getf t 0) = 2
     \<and> p_ofile (getp t 0) = (replicate NOFILE None)[0 := Some 0, 1 := Some 0]"
proof
  fix z :: file_state
  note m = one_machine_ok [of z]
  have n: "0 < NPROC" by (simp add: NPROC_def)
  have f: "find_fd [0..<NOFILE] one_ofile = Some 1" "f_ref (one_ftable ! 0) = 1"
    by (simp_all add: NOFILE_def one_ofile_def upt_conv_Cons one_ftable_def Let_def NFILE_def)
  obtain r t where t: "sys_dup (one_machine z) = Inr (r, t)" "dup_result 0 (one_machine z) r t"
    using sys_dup_shares [OF m(1,2) n] by blast
  then show "\<exists>t. sys_dup (one_machine z) = Inr (1, t) \<and> f_ref (getf t 0) = 2
     \<and> p_ofile (getp t 0) = (replicate NOFILE None)[0 := Some 0, 1 := Some 0]"
    using m f countsD(1) [OF m(1)] n by (simp add: dup_result_def one_ofile_def)
qed

theorem sys_close_releases_witness:
  "\<forall>z :: file_state. \<exists>t. sys_close (one_machine z) = Inr (0, t) \<and> f_ref (getf t 0) = 0
     \<and> p_ofile (getp t 0) = replicate NOFILE None"
proof
  fix z :: file_state
  note m = one_machine_ok [of z]
  have n: "0 < NPROC" by (simp add: NPROC_def)
  have f: "f_ref (one_ftable ! 0) = 1" "one_ofile[0 := None] = replicate NOFILE None"
    by (simp_all add: one_ofile_def one_ftable_def Let_def NFILE_def list_update_same_conv NOFILE_def)
  obtain r t where t: "sys_close (one_machine z) = Inr (r, t)" "r = 0" "f_ref (getf t 0) = 0"
      "procs t = (procs (one_machine z))[0 := (getp (one_machine z) 0)\<lparr>p_ofile := one_ofile[0 := None]\<rparr>]"
    using sys_close_releases [OF m(1,2) n] m f by auto
  then show "\<exists>t. sys_close (one_machine z) = Inr (0, t) \<and> f_ref (getf t 0) = 0
     \<and> p_ofile (getp t 0) = replicate NOFILE None"
    using countsD(1) [OF m(1)] n f(2) by simp
qed

end
