(* ===== verification/Fork.thy ===== *)
theory Fork
  imports Refs
begin

text \<open>
  \<^verbatim>\<open>fork\<close>: the child has a copy of the parent's memory and registers, the same open files and current
  directory, and nothing of the parent changes; when memory runs out nothing is left behind.
\<close>

section \<open>Facts that depend on the memory only\<close>

definition mm_eq :: "'a mm_state_scheme \<Rightarrow> 'a mm_state_scheme \<Rightarrow> bool" where
  "mm_eq s t \<longleftrightarrow> mem t = mem s \<and> freelist t = freelist s \<and> phys_top t = phys_top s \<and> kernel_end t = kernel_end s"

lemma mm_eqD:
  assumes "mm_eq s t"
  shows "mem t = mem s" "avail t = avail s" "kmem_inv t = kmem_inv s" "valid_page t = valid_page s"
    "as_inv t pt = as_inv s pt" "as_total t pt = as_total s pt" "ptp t pt = ptp s pt" "upages t pt = upages s pt"
  using assms by (simp_all add: mm_eq_def avail_def free_pages_def max_pages_def kmem_inv_def valid_page_def [abs_def] as_inv_def
    as_total_def pt_owned_def ptp_def upages_def)

lemma mm_frame_fixed: "mm_frame s t \<Longrightarrow> phys_top t = phys_top s \<and> kernel_end t = kernel_end s"
  by (cases s; cases t) (simp add: mm_frame_def)

lemma pm_frame_fixed:
  fixes s t :: "'a proc_state_scheme"
  assumes "pm_frame s t"
  shows "phys_top t = phys_top s" "kernel_end t = kernel_end s" "a_trampoline t = a_trampoline s" "csr t = csr s" "cpus t = cpus s"
proof -
  have t: "t = s\<lparr>mem := mem t, freelist := freelist t, procs := procs t, nextpid := nextpid t\<rparr>" using assms by (simp only: pm_frame_def)
  show "phys_top t = phys_top s" "kernel_end t = kernel_end s" "a_trampoline t = a_trampoline s" "csr t = csr s" "cpus t = cpus s"
    by (subst t, simp)+
qed

section \<open>Copying the trap frame\<close>

definition tf_bytes :: "memory \<Rightarrow> u64 \<Rightarrow> u8 list" where
  "tf_bytes m tf = ld_bytes m tf 288"

lemma memmove_frame:
  assumes "page_aligned d" "page_aligned s" "d \<noteq> s"
  shows "q \<noteq> d \<Longrightarrow> agree_page m (memmove m d s 288) q" "tf_bytes (memmove m d s 288) d = tf_bytes m s"
proof -
  have mv: "memmove m d s 288 = move_spec m d s 288"
    using memmove_spec [of s 288 d m] page_aligned_max [OF assms(1)] page_aligned_max [OF assms(2)] by simp
  show "agree_page m (memmove m d s 288) q" if "q \<noteq> d"
    unfolding agree_page_def
  proof (intro allI impI)
    fix a assume "PGROUNDDOWN a = q"
    then have "\<not> unat (a - d) < 4096" using in_page_iff [OF assms(1), of a] that by simp
    then show "m a = memmove m d s 288 a" by (simp add: mv move_spec_def)
  qed
  show "tf_bytes (memmove m d s 288) d = tf_bytes m s"
    unfolding mv tf_bytes_def by (rule list_eq_nthI) (simp_all add: move_spec_def unat_of_nat64)
qed

text \<open>The child's trap frame: the parent's, with 0 in the register of the result.\<close>

definition child_frame :: "memory \<Rightarrow> u64 \<Rightarrow> u64 \<Rightarrow> memory" where
  "child_frame m tfn tfp = st64 (memmove m tfn tfp 288) (tfn + TF_a0) 0"

lemma child_frame_spec:
  assumes "page_aligned tfn" "page_aligned tfp" "tfn \<noteq> tfp"
  shows "q \<noteq> tfn \<Longrightarrow> agree_page m (child_frame m tfn tfp) q"
    "k < 288 \<Longrightarrow> child_frame m tfn tfp (tfn + of_nat k) = (if 112 \<le> k \<and> k < 120 then 0 else m (tfp + of_nat k))"
proof -
  note mv = memmove_frame [OF assms]
  show "agree_page m (child_frame m tfn tfp) q" if "q \<noteq> tfn"
  proof -
    have "agree_page (child_frame m tfn tfp) (memmove m tfn tfp 288) q"
      unfolding child_frame_def TF_a0_def using that assms(1) by (intro agree_page_st64) auto
    then show ?thesis using mv(1) [OF that] agree_page_sym agree_page_trans by blast
  qed
  show "child_frame m tfn tfp (tfn + of_nat k) = (if 112 \<le> k \<and> k < 120 then 0 else m (tfp + of_nat k))" if k: "k < 288"
  proof -
    have b: "memmove m tfn tfp 288 (tfn + of_nat k) = m (tfp + of_nat k)"
      using arg_cong [OF mv(2), of "\<lambda>xs. xs ! k"] k by (simp add: tf_bytes_def)
    have "unat (of_nat k - 112 :: u64) < 8 \<longleftrightarrow> 112 \<le> k \<and> k < 120"
      using unat_diff_lt_iff [of 112 8 "of_nat k"] k by (simp add: unat_of_nat64)
    then show ?thesis using b by (simp add: child_frame_def TF_a0_def st64_apply)
  qed
qed

section \<open>Memory\<close>

lemma aligned_below:
  assumes "page_aligned va" "unat va < 4096 * npg sz" "unat sz \<le> unat TRAPFRAME"
  shows "va < sz"
proof -
  obtain k where k: "unat va = 4096 * k" using assms(1) unfolding page_aligned_def by (auto simp: mod_eq_0_iff_dvd)
  then have "k < npg sz" using assms(2) by simp
  then have "4096 * k < unat sz" by (auto simp: npg_def)
  then show ?thesis using k by (simp add: word_less_nat_alt)
qed

lemma proc_mem_frame:
  fixes s :: "'a proc_state_scheme"
  assumes pm: "proc_mem s q" and k: "kmem_inv t" "mm_frame s t"
    and ag: "\<And>x. x \<in> ptp s (p_pagetable q) \<union> upages s (p_pagetable q) \<Longrightarrow> agree_page (mem s) (mem t) x \<and> x \<notin> avail t"
    and tf: "p_trapframe q \<notin> avail t"
  shows "proc_mem t q" "aspace (mem t) (p_pagetable q) = aspace (mem s) (p_pagetable q)"
    "ptp t (p_pagetable q) = ptp s (p_pagetable q)" "upages t (p_pagetable q) = upages s (p_pagetable q)"
proof -
  have inv: "as_inv s (p_pagetable q)" using pm by (simp add: proc_mem_def proc_as_def)
  note F = as_frame [OF inv k] 
  have F': "as_inv t (p_pagetable q)" "ptp t (p_pagetable q) = ptp s (p_pagetable q)" "upages t (p_pagetable q) = upages s (p_pagetable q)"
      "\<And>va. lookup (mem t) (p_pagetable q) va = lookup (mem s) (p_pagetable q) va" "aspace (mem t) (p_pagetable q) = aspace (mem s) (p_pagetable q)"
    using F ag by blast+
  show "aspace (mem t) (p_pagetable q) = aspace (mem s) (p_pagetable q)"
    "ptp t (p_pagetable q) = ptp s (p_pagetable q)" "upages t (p_pagetable q) = upages s (p_pagetable q)" by (rule F')+
  show "proc_mem t q"
    using pm F' tf mm_frame_valid [OF k(2)] mm_frame_proc(2) [OF k(2)] by (auto simp: proc_mem_def proc_as_def as_total_def)
qed

text \<open>
  What \<^verbatim>\<open>fork\<close> starts from: a parent, and a fresh child whose pages were taken from the free list of an
  earlier state \<open>s\<close>.
\<close>

definition fresh_child :: "'a proc_state_scheme \<Rightarrow> 'a proc_state_scheme \<Rightarrow> proc \<Rightarrow> bool" where
  "fresh_child s s1 qn \<longleftrightarrow> proc_mem s1 qn \<and> aspace (mem s1) (p_pagetable qn) = (\<lambda>_. None)
     \<and> insert (p_trapframe qn) (as_total s1 (p_pagetable qn)) = avail s"

lemma parent_survives:
  fixes s t :: "'a proc_state_scheme"
  assumes pm: "proc_mem s q" and k: "kmem_inv t" "phys_top t = phys_top s" "kernel_end t = kernel_end s" "a_trampoline t = a_trampoline s"
    and ag: "\<And>x. x \<notin> avail s \<Longrightarrow> agree_page (mem s) (mem t) x" and sub: "avail t \<subseteq> avail s"
  shows "proc_mem t q" "aspace (mem t) (p_pagetable q) = aspace (mem s) (p_pagetable q)"
    "ptp t (p_pagetable q) = ptp s (p_pagetable q)" "upages t (p_pagetable q) = upages s (p_pagetable q)"
proof -
  let ?t = "s\<lparr>mem := mem t, freelist := freelist t\<rparr>"
  have eq: "mm_eq ?t t" using k(2,3) by (simp add: mm_eq_def)
  note E = mm_eqD [OF eq]
  have inv: "as_inv s (p_pagetable q)" "p_trapframe q \<notin> as_total s (p_pagetable q)" using pm by (auto simp: proc_mem_def proc_as_def)
  have "mm_frame s ?t" by (simp add: mm_frame_def)
  moreover have "kmem_inv ?t" using k(1) E(3) by simp
  moreover have "agree_page (mem s) (mem ?t) x \<and> x \<notin> avail ?t" if "x \<in> ptp s (p_pagetable q) \<union> upages s (p_pagetable q)" for x
  proof -
    have "x \<notin> avail s" using that as_invD(3,6) [OF inv(1), of x] by blast
    then show ?thesis using ag [of x] sub E(2) by auto
  qed
  moreover have "p_trapframe q \<notin> avail ?t" using inv(2) sub E(2) by (auto simp: as_total_def)
  ultimately have F: "proc_mem ?t q" "aspace (mem ?t) (p_pagetable q) = aspace (mem s) (p_pagetable q)"
      "ptp ?t (p_pagetable q) = ptp s (p_pagetable q)" "upages ?t (p_pagetable q) = upages s (p_pagetable q)"
    using proc_mem_frame [OF pm, of ?t] by blast+
  show "proc_mem t q" using F(1) E k(4) by (simp add: proc_mem_def proc_as_def)
  show "aspace (mem t) (p_pagetable q) = aspace (mem s) (p_pagetable q)"
    "ptp t (p_pagetable q) = ptp s (p_pagetable q)" "upages t (p_pagetable q) = upages s (p_pagetable q)" using F(2-4) E by simp_all
qed

lemma fork_memory:
  fixes s s1 :: "'a proc_state_scheme"
  assumes par: "proc_mem s qp" and fr: "pm_frame s s1" and k1: "kmem_inv s1"
    and ag: "\<And>x. x \<notin> avail s \<Longrightarrow> agree_page (mem s) (mem s1) x" and ch: "fresh_child s s1 qn" "p_sz qn = 0"
  shows "\<exists>r s2. uvmcopy s1 (p_pagetable qp) (p_pagetable qn) (p_sz qp) = Inr (r, s2) \<and> mm_frame s1 s2
    \<and> (r = -1 \<and> fresh_child s s2 qn \<and> (\<forall>x. x \<notin> avail s \<longrightarrow> agree_page (mem s) (mem s2) x) \<and> card (avail s1) < 3 * npg (p_sz qp)
       \<or> r = 0 \<and> proc_mem s2 (qn\<lparr>p_sz := p_sz qp\<rparr>) \<and> aspace (mem s2) (p_pagetable qn) = aspace (mem s) (p_pagetable qp)
           \<and> insert (p_trapframe qn) (as_total s2 (p_pagetable qn)) = avail s
           \<and> (\<forall>x. x \<notin> avail s \<longrightarrow> agree_page (mem s) (mem s2) x))"
proof -
  let ?P = "p_pagetable qp" and ?N = "p_pagetable qn" and ?tf = "p_trapframe qn"
  have c: "proc_mem s1 qn" "aspace (mem s1) ?N = (\<lambda>_. None)" "insert ?tf (as_total s1 ?N) = avail s" using ch(1) by (auto simp: fresh_child_def)
  have fx: "phys_top s1 = phys_top s" "kernel_end s1 = kernel_end s" "a_trampoline s1 = a_trampoline s"
    using pm_frame_fixed [OF fr] by simp_all
  have sub: "avail s1 \<subseteq> avail s" using c(3) by (auto simp: as_total_def)
  note par1 = parent_survives [OF par k1 fx ag sub]
  have inv: "as_inv s1 ?P" "as_inv s1 ?N" using par1(1) c(1) by (auto simp: proc_mem_def proc_as_def)
  have psz: "unat (p_sz qp) \<le> unat TRAPFRAME" using par by (simp add: proc_mem_def)
  have parent_pages: "x \<notin> avail s" if "x \<in> ptp s ?P \<union> upages s ?P" for x
    using that as_invD(3,6) [of s ?P x] par by (auto simp: proc_mem_def proc_as_def)
  have dis: "as_disjoint s1 ?P ?N" using parent_pages c(3) par1(3,4) by (auto simp: as_disjoint_def)
  from uvmcopy_spec [OF inv dis psz, of] c(2) obtain r s2 where s2: "uvmcopy s1 ?P ?N (p_sz qp) = Inr (r, s2)"
      "r = 0 \<and> as_step s1 ?N s2 (\<lambda>va. if va < p_sz qp then aspace (mem s1) ?P va else aspace (mem s1) ?N va)
       \<or> r = -1 \<and> as_step s1 ?N s2 (aspace (mem s1) ?N) \<and> card (avail s1) < 3 * npg (p_sz qp)" by auto
  have step: "\<exists>f. as_step s1 ?N s2 f" using s2(2) by blast
  then obtain f where f: "as_step s1 ?N s2 f" by blast
  note st = as_stepD [OF f]
  have tot: "insert ?tf (as_total s2 ?N) = avail s" using st(3) c(3) by simp
  have ag2: "agree_page (mem s) (mem s2) x" if "x \<notin> avail s" for x
    using agree_page_trans [OF ag [OF that] st(4)] c(3) that by auto
  have high: "proc_as s2 ?N ?tf"
    using c(1) st(2,5) mm_frame_proc(2) [OF st(1)] by (simp add: proc_mem_def proc_as_def)
  have base: "valid_page s2 ?tf" "?tf \<notin> as_total s2 ?N" "?N \<noteq> 0" using c(1) st(3) mm_frame_valid [OF st(1)] by (auto simp: proc_mem_def)
  show ?thesis
  proof (cases "r = 0")
    case True
    then have as: "aspace (mem s2) ?N = (\<lambda>va. if va < p_sz qp then aspace (mem s) ?P va else None)"
      using s2(2) as_stepD(6) [of s1 ?N s2] c(2) par1(2) by auto
    have low: "va < p_sz qp" if "aspace (mem s) ?P va \<noteq> None" for va
    proof (rule aligned_below [OF _ _ psz])
      show "page_aligned va" by (rule ccontr) (use that aspace_unaligned [of va "mem s" ?P] in simp)
      show "unat va < 4096 * npg (p_sz qp)" using that par by (simp add: proc_mem_def)
    qed
    have as': "aspace (mem s2) ?N = aspace (mem s) ?P"
    proof
      fix va
      show "aspace (mem s2) ?N va = aspace (mem s) ?P va" using low [of va] as by (cases "aspace (mem s) ?P va") simp_all
    qed
    then have "proc_mem s2 (qn\<lparr>p_sz := p_sz qp\<rparr>)"
      using base high psz par by (simp add: proc_mem_def)
    then show ?thesis using True s2(1) st(1) as' tot ag2 by blast
  next
    case False
    then have as: "aspace (mem s2) ?N = (\<lambda>_. None)" "r = -1" "card (avail s1) < 3 * npg (p_sz qp)"
      using s2(2) as_stepD(6) [of s1 ?N s2] c(2) by auto
    have "fresh_child s s2 qn" using base high as(1) tot ch(2) by (simp add: fresh_child_def proc_mem_def)
    then show ?thesis using s2(1) st(1) as(2,3) ag2 by blast
  qed
qed

section \<open>Registers, files and names\<close>

definition saved_fpu :: "'a proc_state_scheme \<Rightarrow> nat \<Rightarrow> fpu_state" where
  "saved_fpu s p = (if p_fpu_active (getp s p) then \<lparr>fpu_f = fregs (fpu_on (csr s)), fpu_fcsr = r_fcsr (fpu_on (csr s))\<rparr>
     else p_fpu (getp s p))"

lemma fpu_save_eq:
  assumes "p < length (procs s)"
  shows "\<exists>h. fpu_save_proc (Some p) s
    = Inr (s\<lparr>csr := h, procs := (procs s)[p := (getp s p)\<lparr>p_fpu := saved_fpu s p, p_fpu_active := False\<rparr>]\<rparr>)"
proof (cases "p_fpu_active (getp s p)")
  case True
  then show ?thesis using assms
    by (intro exI [of _ "fpu_off (fpu_on (csr s))"]) (simp add: fpu_save_proc_def fpu_save_regs_def setp_def saved_fpu_def Let_def)
next
  case False
  then have e: "(getp s p)\<lparr>p_fpu_active := False\<rparr> = getp s p" by (cases "getp s p") simp
  from False show ?thesis by (intro exI [of _ "fpu_off (csr s)"]) (simp add: fpu_save_proc_def saved_fpu_def e)
qed

lemma counts_proc_upd:
  assumes h: "counts X Y ps fs T" and p: "p < NPROC" and q: "p_ofile q = p_ofile (ps ! p)" "p_cwd q = p_cwd (ps ! p)"
  shows "counts X Y (ps[p := q]) fs T"
proof -
  note H = countsD [OF h]
  have "fd_slot (ps[p := q]) k = fd_slot ps k" if "k \<in> fd_set" for k
    using H(1) that q by (cases k; cases "fst k = p") (auto simp: fd_slot_def)
  then have fc: "holders fd_set (fd_slot (ps[p := q])) f = holders fd_set (fd_slot ps) f" for f by (intro holders_cong) simp
  have "cwd_slot (ps[p := q]) j = cwd_slot ps j" if "j < NPROC" for j using H(1) that q by (cases "j = p") (auto simp: cwd_slot_def)
  then have cw: "holders {..<NPROC} (cwd_slot (ps[p := q])) i = holders {..<NPROC} (cwd_slot ps) i" for i by (intro holders_cong) simp
  have "tables_ok (ps[p := q]) fs T" using H(4) [OF p] q by (intro tables_ok_upd(1) [OF H(9)]) (simp add: slots_ok_def)
  then show ?thesis using h unfolding counts_def cw fc by auto
qed

text \<open>The child's share of the parent's files, directory and name.\<close>

lemma child_shares:
  fixes s :: "'a file_state_scheme"
  assumes r: "refs_ok (\<lambda>_. 0) (\<lambda>_. 0) s" and p: "p < NPROC" "np < NPROC" "p \<noteq> np"
    and ch: "\<forall>fd<NOFILE. p_ofile (getp s np) ! fd = None" "p_cwd (getp s np) = None" "length (p_name (getp s np)) = 16"
    and cwd: "p_cwd (getp s p) = Some c"
  shows "\<exists>t nm. rbind (dup_files p np s) (\<lambda>s.
         rbind (idup (p_cwd (getp s p)) s) (\<lambda>(ip, s).
         let s = setp np (\<lambda>q. q\<lparr>p_cwd := Some ip\<rparr>) s in
         rbind (safestrcpy (p_name (getp s np)) (nth (p_name (getp s p))) 16) (\<lambda>nm.
         let s = setp np (\<lambda>q. q\<lparr>p_name := nm\<rparr>) s;
             pid = p_pid (getp s np);
             s = setp np (\<lambda>q. q\<lparr>p_parent := Some p\<rparr>) s;
             s = setp np (\<lambda>q. q\<lparr>p_state := RUNNABLE\<rparr>) s in
         Inr (pid, s)))) = Inr (p_pid (getp s np), t)
    \<and> fd_frame s t \<and> refs_ok (\<lambda>_. 0) (\<lambda>_. 0) t \<and> safestrcpy (p_name (getp s np)) (nth (p_name (getp s p))) 16 = Inr nm
    \<and> procs t = (procs s)[np := (getp s np)\<lparr>p_ofile := p_ofile (getp s p), p_cwd := Some c, p_name := nm,
         p_parent := Some p, p_state := RUNNABLE\<rparr>]"
proof -
  have np: "np < length (procs s)" using countsD(1) [OF r] p by simp
  obtain s1 where s1: "dup_files p np s = Inr s1" "refs_ok (\<lambda>_. 0) (\<lambda>_. 0) s1" "fd_frame s s1"
      "procs s1 = (procs s)[np := (getp s np)\<lparr>p_ofile := p_ofile (getp s p)\<rparr>]"
    using dup_files_counts [OF r p _ ch(1)] by auto
  have g: "getp s1 p = getp s p" "getp s1 np = (getp s np)\<lparr>p_ofile := p_ofile (getp s p)\<rparr>" using s1(4) np p(3) by simp_all
  have c: "c < NINODE" using countsD(4) [OF r p(1)] cwd by (simp add: slots_ok_def)
  obtain s2 T where s2: "idup (Some c) s1 = Inr (c, s2)" "refs_ok (\<lambda>_. 0) ((\<lambda>_. 0)(c := 0 + 1)) s2" "s2 = s1\<lparr>itable := T\<rparr>"
    using idup_counts [OF s1(2) c] by blast
  obtain nm where nm: "safestrcpy (p_name (getp s np)) (nth (p_name (getp s p))) 16 = Inr nm"
    using safestrcpy_loop_ok [of 16 0 "p_name (getp s np)" "nth (p_name (getp s p))"] ch(3) by (auto simp: safestrcpy_def)
  let ?q = "(getp s np)\<lparr>p_ofile := p_ofile (getp s p), p_cwd := Some c\<rparr>"
  let ?q' = "?q\<lparr>p_name := nm, p_parent := Some p, p_state := RUNNABLE\<rparr>"
  let ?t = "s2\<lparr>procs := (procs s)[np := ?q']\<rparr>"
  have p2: "procs s2 = procs s1" by (simp add: s2(3))
  have "(\<lambda>i. ((\<lambda>_. 0)(c := 0 + 1)) i + unit_at (p_cwd (getp s2 np)) i - unit_at (Some c) i) = (\<lambda>_. 0 :: int)"
    using ch(2) g p2 by (auto simp: fun_eq_iff)
  then have "counts (\<lambda>_. 0) (\<lambda>_. 0) ((procs s)[np := ?q]) (ftable s2) (itable s2)"
    using counts_set_cwd [OF s2(2) p(2), of "Some c"] c p2 s1(4) g np by simp
  from counts_proc_upd [OF this p(2), of ?q'] np have "refs_ok (\<lambda>_. 0) (\<lambda>_. 0) ?t" by simp
  moreover have "fd_frame s ?t"
  proof -
    have e: "?t = s1\<lparr>procs := (procs s)[np := ?q'], ftable := ftable s1, itable := T\<rparr>" by (simp add: s2(3))
    show ?thesis unfolding e by (rule fd_frame_upd [OF s1(3)])
  qed
  ultimately show ?thesis
    using s1(1) g s2(1) cwd nm p2 s1(4) np p(3) by (intro exI [of _ ?t] exI [of _ nm]) (simp add: setp_def Let_def)
qed

section \<open>fork\<close>

definition fork_ready :: "'a file_state_scheme \<Rightarrow> nat \<Rightarrow> bool" where
  "fork_ready s p \<longleftrightarrow> cur s = Inr p \<and> p < NPROC \<and> p_state (getp s p) \<noteq> UNUSED \<and> proc_mem s (getp s p) \<and> unused_bare s
     \<and> refs_ok (\<lambda>_. 0) (\<lambda>_. 0) s \<and> p_cwd (getp s p) \<noteq> None
     \<and> (\<forall>i<NPROC. p_state (getp s i) = UNUSED \<longrightarrow>
          (\<forall>fd<NOFILE. p_ofile (getp s i) ! fd = None) \<and> p_cwd (getp s i) = None \<and> length (p_name (getp s i)) = 16)"

text \<open>The state in which the child's files are shared: memory, registers and sizes are copied.\<close>

definition forked :: "nat \<Rightarrow> nat \<Rightarrow> csrs \<Rightarrow> 'a proc_state_scheme \<Rightarrow> 'a proc_state_scheme" where
  "forked p np h s2 = s2\<lparr>csr := h,
     procs := (procs s2)[p := (getp s2 p)\<lparr>p_fpu := saved_fpu s2 p, p_fpu_active := False\<rparr>,
       np := (getp s2 np)\<lparr>p_sz := p_sz (getp s2 p), p_fpu := saved_fpu s2 p, p_fpu_used := p_fpu_used (getp s2 p),
         p_fpu_active := False\<rparr>],
     mem := child_frame (mem s2) (p_trapframe (getp s2 np)) (p_trapframe (getp s2 p))\<rparr>"

lemma upd_again: "i \<noteq> j \<Longrightarrow> xs[j := a, i := b, j := c] = xs[i := b, j := c]"
  by (metis list_update_overwrite list_update_swap)

lemma fork_copy:
  assumes "p < length (procs s2)" "np < length (procs s2)" "p \<noteq> np"
  shows "\<exists>h. (let s = setp np (\<lambda>q. q\<lparr>p_sz := p_sz (getp s2 p)\<rparr>) s2;
             s = s\<lparr>mem := memmove (mem s) (p_trapframe (getp s np)) (p_trapframe (getp s p)) 288\<rparr> in
         rbind (fpu_save_proc (Some p) s) (\<lambda>s.
         let s = setp np (\<lambda>q. q\<lparr>p_fpu := p_fpu (getp s p), p_fpu_used := p_fpu_used (getp s p),
               p_fpu_active := False\<rparr>) s;
             s = tf_set np TF_a0 0 s in k s)) = k (forked p np h s2)"
proof -
  let ?s3 = "setp np (\<lambda>q. q\<lparr>p_sz := p_sz (getp s2 p)\<rparr>) s2"
  let ?s4 = "?s3\<lparr>mem := memmove (mem ?s3) (p_trapframe (getp ?s3 np)) (p_trapframe (getp ?s3 p)) 288\<rparr>"
  have l: "p < length (procs ?s4)" using assms by simp
  obtain h where h: "fpu_save_proc (Some p) ?s4
      = Inr (?s4\<lparr>csr := h, procs := (procs ?s4)[p := (getp ?s4 p)\<lparr>p_fpu := saved_fpu ?s4 p, p_fpu_active := False\<rparr>]\<rparr>)"
    using fpu_save_eq [OF l] by blast
  show ?thesis
    unfolding Let_def h rbind_simps
    using assms by (intro exI [of _ h] arg_cong [of _ _ k] proc_state.equality)
      (simp_all add: forked_def setp_def tf_set_def child_frame_def saved_fpu_def upd_again)
qed

lemma kfork_steps:
  fixes s :: "'a file_state_scheme"
  assumes "cur s = Inr p" "allocproc s = Inr (Some np, s1)"
    "uvmcopy s1 (p_pagetable (getp s1 p)) (p_pagetable (getp s1 np)) (p_sz (getp s1 p)) = Inr (r, s2)"
    "p < length (procs s2)" "np < length (procs s2)" "p \<noteq> np"
  shows "r < 0 \<Longrightarrow> kfork s = rbind (freeproc np s2) (\<lambda>s. Inr (-1, s))"
    "\<not> r < 0 \<Longrightarrow> \<exists>h. kfork s = rbind (dup_files p np (forked p np h s2)) (\<lambda>s.
         rbind (idup (p_cwd (getp s p)) s) (\<lambda>(ip, s).
         let s = setp np (\<lambda>q. q\<lparr>p_cwd := Some ip\<rparr>) s in
         rbind (safestrcpy (p_name (getp s np)) (nth (p_name (getp s p))) 16) (\<lambda>nm.
         let s = setp np (\<lambda>q. q\<lparr>p_name := nm\<rparr>) s;
             pid = p_pid (getp s np);
             s = setp np (\<lambda>q. q\<lparr>p_parent := Some p\<rparr>) s;
             s = setp np (\<lambda>q. q\<lparr>p_state := RUNNABLE\<rparr>) s in
         Inr (pid, s))))"
proof -
  note d = kfork_def [of s, unfolded assms(1,2) rbind_simps prod.case option.case assms(3)]
  show "r < 0 \<Longrightarrow> kfork s = rbind (freeproc np s2) (\<lambda>s. Inr (-1, s))" unfolding d by simp
  assume r: "\<not> r < 0"
  show "\<exists>h. kfork s = rbind (dup_files p np (forked p np h s2)) (\<lambda>s.
         rbind (idup (p_cwd (getp s p)) s) (\<lambda>(ip, s).
         let s = setp np (\<lambda>q. q\<lparr>p_cwd := Some ip\<rparr>) s in
         rbind (safestrcpy (p_name (getp s np)) (nth (p_name (getp s p))) 16) (\<lambda>nm.
         let s = setp np (\<lambda>q. q\<lparr>p_name := nm\<rparr>) s;
             pid = p_pid (getp s np);
             s = setp np (\<lambda>q. q\<lparr>p_parent := Some p\<rparr>) s;
             s = setp np (\<lambda>q. q\<lparr>p_state := RUNNABLE\<rparr>) s in
         Inr (pid, s))))"
    unfolding d if_not_P [OF r] by (rule fork_copy [OF assms(4-6)])
qed

lemma file_frames:
  fixes s t :: "'a file_state_scheme"
  shows "pm_frame s t \<Longrightarrow> ftable t = ftable s \<and> itable t = itable s"
    "mm_frame s t \<Longrightarrow> ftable t = ftable s \<and> itable t = itable s"
    "fd_frame s t \<Longrightarrow> mm_eq s t \<and> a_trampoline t = a_trampoline s \<and> nextpid t = nextpid s"
proof -
  show "ftable t = ftable s \<and> itable t = itable s" if "pm_frame s t"
  proof -
    have e: "t = s\<lparr>mem := mem t, freelist := freelist t, procs := procs t, nextpid := nextpid t\<rparr>" using that by (simp only: pm_frame_def)
    show ?thesis by (subst (1 2) e) simp
  qed
  show "ftable t = ftable s \<and> itable t = itable s" if "mm_frame s t"
  proof -
    have e: "t = s\<lparr>mem := mem t, freelist := freelist t\<rparr>" using that by (simp only: mm_frame_def)
    show ?thesis by (subst (1 2) e) simp
  qed
  show "mm_eq s t \<and> a_trampoline t = a_trampoline s \<and> nextpid t = nextpid s" if "fd_frame s t"
  proof -
    have e: "t = s\<lparr>procs := procs t, ftable := ftable t, itable := itable t\<rparr>" using that by (simp only: fd_frame_def)
    have "mem t = mem s" "freelist t = freelist s" "phys_top t = phys_top s" "kernel_end t = kernel_end s"
      "a_trampoline t = a_trampoline s" "nextpid t = nextpid s" by (subst e, simp)+
    then show ?thesis by (simp add: mm_eq_def)
  qed
qed

text \<open>The memory of parent and child once the trap frame is filled.\<close>

lemma forked_memory:
  fixes s s2 t :: "'a proc_state_scheme"
  assumes par: "proc_mem s qp" and ch: "proc_mem s2 qn" "insert (p_trapframe qn) (as_total s2 (p_pagetable qn)) = avail s"
    and fx: "phys_top s2 = phys_top s" "kernel_end s2 = kernel_end s" "a_trampoline s2 = a_trampoline s"
    and ag: "\<And>x. x \<notin> avail s \<Longrightarrow> agree_page (mem s) (mem s2) x"
    and t: "mm_eq (s2\<lparr>mem := child_frame (mem s2) (p_trapframe qn) (p_trapframe qp)\<rparr>) t" "a_trampoline t = a_trampoline s"
  shows "kmem_inv t" "proc_mem t qp" "aspace (mem t) (p_pagetable qp) = aspace (mem s) (p_pagetable qp)"
    "proc_mem t qn" "aspace (mem t) (p_pagetable qn) = aspace (mem s2) (p_pagetable qn)"
    "insert (p_trapframe qn) (as_total t (p_pagetable qn)) = avail s" "x \<notin> avail s \<Longrightarrow> agree_page (mem s) (mem t) x"
    "k < 288 \<Longrightarrow> mem t (p_trapframe qn + of_nat k) = (if 112 \<le> k \<and> k < 120 then 0 else mem s (p_trapframe qp + of_nat k))"
proof -
  let ?n = "p_trapframe qn" and ?p = "p_trapframe qp" let ?N = "p_pagetable qn"
  let ?u = "s2\<lparr>mem := child_frame (mem s2) ?n ?p\<rparr>"
  note E = mm_eqD [OF t(1)]
  have inv2: "as_inv s2 ?N" "?n \<notin> as_total s2 ?N" "valid_page s2 ?n" using ch(1) by (auto simp: proc_mem_def proc_as_def)
  have tp: "?p \<notin> avail s" "valid_page s ?p" using par by (auto simp: proc_mem_def as_total_def)
  have nA: "?n \<in> avail s" "as_total s2 ?N \<subseteq> avail s" using ch(2) by (metis insertI1) (metis ch(2) subset_insertI)
  have ne: "?n \<noteq> ?p" using tp(1) nA(1) by metis
  note cf = child_frame_spec [OF valid_page_aligned [OF inv2(3)] valid_page_aligned [OF tp(2)] ne]
  have na: "?n \<notin> avail s2" using inv2(2) by (simp add: as_total_def)
  have agu: "agree_page (mem s2) (mem ?u) x" if "x \<noteq> ?n" for x using cf(1) [OF that] by simp
  have "\<And>x. x \<in> avail s2 \<Longrightarrow> agree_page (mem s2) (child_frame (mem s2) ?n ?p) x" using na cf(1) by metis
  note ku = kmem_inv_frame [OF as_invD(5) [OF inv2(1)] this]
  have av: "avail ?u = avail s2" using ku(2) by (simp add: avail_def)
  show kt: "kmem_inv t" using ku(1) E(3) by simp
  have "agree_page (mem s2) (mem ?u) x \<and> x \<notin> avail ?u" if "x \<in> ptp s2 ?N \<union> upages s2 ?N" for x
  proof -
    have "x \<noteq> ?n" "x \<notin> avail s2" using that inv2(2) as_invD(3,6) [OF inv2(1), of x] by (auto simp: as_total_def)
    then show ?thesis using agu av by simp
  qed
  then have F: "proc_mem ?u qn" "aspace (mem ?u) ?N = aspace (mem s2) ?N" "ptp ?u ?N = ptp s2 ?N" "upages ?u ?N = upages s2 ?N"
    using proc_mem_frame [OF ch(1), of ?u] ku(1) na av by (auto simp: mm_frame_def)
  show "proc_mem t qn" using F(1) E t(2) fx(3) by (simp add: proc_mem_def proc_as_def)
  show "aspace (mem t) ?N = aspace (mem s2) ?N" using F(2) E(1) by simp
  have tot: "as_total t ?N = as_total s2 ?N" using F(3,4) av E by (simp add: as_total_def)
  then show "insert ?n (as_total t ?N) = avail s" using ch(2) by simp
  have agt: "agree_page (mem s) (mem t) x" if "x \<notin> avail s" for x
  proof -
    have "x \<noteq> ?n" using that nA(1) by metis
    then show ?thesis using agree_page_trans [OF ag [OF that]] agu [of x] E(1) by simp
  qed
  then show "x \<notin> avail s \<Longrightarrow> agree_page (mem s) (mem t) x" .
  have "avail t \<subseteq> avail s" using nA(2) av E(2) by (auto simp: as_total_def)
  moreover have "phys_top t = phys_top s" "kernel_end t = kernel_end s" using t(1) fx by (simp_all add: mm_eq_def)
  ultimately show "proc_mem t qp" "aspace (mem t) (p_pagetable qp) = aspace (mem s) (p_pagetable qp)"
    using parent_survives [OF par kt _ _ t(2) agt] by auto
  show "mem t (?n + of_nat k) = (if 112 \<le> k \<and> k < 120 then 0 else mem s (?p + of_nat k))" if k: "k < 288"
  proof -
    have "PGROUNDDOWN (?p + of_nat k) = ?p"
      using k by (intro PGROUNDDOWN_off [OF valid_page_aligned [OF tp(2)]]) (simp add: unat_of_nat64)
    then have "mem s2 (?p + of_nat k) = mem s (?p + of_nat k)" using ag [OF tp(1)] by (simp add: agree_page_def)
    then show ?thesis using cf(2) [OF k, of "mem s2"] E(1) by simp
  qed
qed

text \<open>The two outcomes.\<close>

definition fork_failed :: "'a file_state_scheme \<Rightarrow> nat \<Rightarrow> 'a file_state_scheme \<Rightarrow> bool" where
  "fork_failed s p t \<longleftrightarrow> avail t = avail s \<and> getp t p = getp s p
     \<and> (\<exists>np q. procs t = (procs s)[np := q] \<and> p_state (getp s np) = p_state q)
     \<and> (find_unused [0..<NPROC] (procs s) = None \<or> card (avail s) < 6
        \<or> (\<exists>np u. allocproc s = Inr (Some np, u) \<and> card (avail u) < 3 * npg (p_sz (getp s p))))"

definition child_entry :: "'a file_state_scheme \<Rightarrow> nat \<Rightarrow> proc \<Rightarrow> bool" where
  "child_entry s p q \<longleftrightarrow> p_state q = RUNNABLE \<and> p_parent q = Some p \<and> p_pid q = nextpid s \<and> p_sz q = p_sz (getp s p)
     \<and> p_ofile q = p_ofile (getp s p) \<and> p_cwd q = p_cwd (getp s p) \<and> p_fpu q = saved_fpu s p
     \<and> p_fpu_used q = p_fpu_used (getp s p) \<and> \<not> p_fpu_active q"

definition child_memory :: "'a file_state_scheme \<Rightarrow> proc \<Rightarrow> 'a file_state_scheme \<Rightarrow> proc \<Rightarrow> bool" where
  "child_memory s qp t q \<longleftrightarrow> proc_mem t q \<and> aspace (mem t) (p_pagetable q) = aspace (mem s) (p_pagetable qp)
     \<and> insert (p_trapframe q) (as_total t (p_pagetable q)) = avail s
     \<and> (\<forall>k<288. mem t (p_trapframe q + of_nat k) = (if 112 \<le> k \<and> k < 120 then 0 else mem s (p_trapframe qp + of_nat k)))"

lemma fork_no_child:
  fixes s :: "'a file_state_scheme"
  assumes R: "fork_ready s p" and a: "allocproc s = Inr (None, t)" and f: "find_unused [0..<NPROC] (procs s) = Some np"
  shows "kfork s = Inr (-1, t) \<and> refs_ok (\<lambda>_. 0) (\<lambda>_. 0) t \<and> fork_failed s p t"
proof -
  have r: "cur s = Inr p" "p < NPROC" "p_state (getp s p) \<noteq> UNUSED" "refs_ok (\<lambda>_. 0) (\<lambda>_. 0) s" "unused_bare s" "kmem_inv s"
    using R as_invD(5) by (auto simp: fork_ready_def proc_mem_def proc_as_def)
  have np: "np < NPROC" "np < length (procs s)" "p_state (getp s np) = UNUSED" "p \<noteq> np"
    using find_unused_Some [OF f] r(3,5) by (auto simp: unused_bare_def)
  from allocproc_spec [OF r(6,5) f] a have t: "pm_frame s t" "card (avail s) < 6" "avail t = avail s" "procs t = (procs s)[np := cleared (getp s np)]"
    by auto
  have "refs_ok (\<lambda>_. 0) (\<lambda>_. 0) t"
    using counts_proc_upd [OF r(4) np(1), of "cleared (getp s np)"] file_frames(1) [OF t(1)] t(4) by (simp add: cleared_def)
  moreover have "fork_failed s p t"
    unfolding fork_failed_def using t np
    by (intro conjI exI [of _ np] exI [of _ "cleared (getp s np)"]) (simp_all add: cleared_def)
  ultimately show ?thesis using a r(1) by (simp add: kfork_def)
qed

lemma fork_start:
  fixes s :: "'a file_state_scheme"
  assumes R: "fork_ready s p" and a: "allocproc s = Inr (Some np, s1)"
  obtains tf pt r s2 where "np < NPROC" "p \<noteq> np" "p_state (getp s np) = UNUSED" "pm_frame s s2"
    "nextpid s2 = nextpid s + 1" "procs s2 = (procs s)[np := fresh_entry (nextpid s) tf pt (a_forkret s) (getp s np)]"
    "uvmcopy s1 (p_pagetable (getp s1 p)) (p_pagetable (getp s1 np)) (p_sz (getp s1 p)) = Inr (r, s2)"
    "\<forall>x. x \<notin> avail s \<longrightarrow> agree_page (mem s) (mem s2) x"
    "r = -1 \<and> fresh_child s s2 (getp s2 np) \<and> card (avail s1) < 3 * npg (p_sz (getp s p))
     \<or> r = 0 \<and> proc_mem s2 ((getp s2 np)\<lparr>p_sz := p_sz (getp s p)\<rparr>) \<and> aspace (mem s2) pt = aspace (mem s) (p_pagetable (getp s p))
         \<and> insert tf (as_total s2 pt) = avail s"
proof -
  have r: "p < NPROC" "p_state (getp s p) \<noteq> UNUSED" "unused_bare s" "kmem_inv s" "proc_mem s (getp s p)"
    using R as_invD(5) by (auto simp: fork_ready_def proc_mem_def proc_as_def)
  obtain k where f: "find_unused [0..<NPROC] (procs s) = Some k"
    using a by (cases "find_unused [0..<NPROC] (procs s)") (auto simp: allocproc_def)
  obtain tf pt where s1: "np = k" "kmem_inv s1" "pm_frame s s1" "nextpid s1 = nextpid s + 1"
      "\<And>x. x \<notin> avail s \<Longrightarrow> agree_page (mem s) (mem s1) x"
      "procs s1 = (procs s)[np := fresh_entry (nextpid s) tf pt (a_forkret s) (getp s np)]"
      "proc_mem s1 (getp s1 np)" "aspace (mem s1) pt = (\<lambda>_. None)" "insert tf (as_total s1 pt) = avail s"
    using allocproc_spec [OF r(4,3) f] a by auto
  have np: "np < NPROC" "np < length (procs s)" "p_state (getp s np) = UNUSED" "p \<noteq> np" "p_sz (getp s np) = 0"
    using find_unused_Some [OF f] r(2,3) s1(1) by (auto simp: unused_bare_def)
  have g: "getp s1 p = getp s p" "p_trapframe (getp s1 np) = tf" "p_pagetable (getp s1 np) = pt" "p_sz (getp s1 np) = 0"
    using s1(6) np by (simp_all add: fresh_entry_def)
  have fc: "fresh_child s s1 (getp s1 np)" using s1(7-9) g by (simp add: fresh_child_def)
  obtain r s2 where s2: "uvmcopy s1 (p_pagetable (getp s p)) pt (p_sz (getp s p)) = Inr (r, s2)" "mm_frame s1 s2"
      "\<forall>x. x \<notin> avail s \<longrightarrow> agree_page (mem s) (mem s2) x"
      "r = -1 \<and> fresh_child s s2 (getp s1 np) \<and> card (avail s1) < 3 * npg (p_sz (getp s p))
       \<or> r = 0 \<and> proc_mem s2 ((getp s1 np)\<lparr>p_sz := p_sz (getp s p)\<rparr>) \<and> aspace (mem s2) pt = aspace (mem s) (p_pagetable (getp s p))
         \<and> insert tf (as_total s2 pt) = avail s"
    using fork_memory [OF r(5) s1(3,2) s1(5) fc g(4)] unfolding g by blast
  have q: "procs s2 = procs s1" "nextpid s2 = nextpid s1" using mm_frame_proc [OF s2(2)] by simp_all
  show thesis
    by (rule that [OF np(1,4,3) pm_frame_mm [OF s1(3) s2(2)]]) (use s2 s1(4,6) q g in simp_all)
qed

lemma fork_undo:
  fixes s :: "'a file_state_scheme"
  assumes R: "fork_ready s p" and a: "allocproc s = Inr (Some np, s1)"
    and c: "uvmcopy s1 (p_pagetable (getp s1 p)) (p_pagetable (getp s1 np)) (p_sz (getp s1 p)) = Inr (-1, s2)"
  shows "\<exists>t. kfork s = Inr (-1, t) \<and> kmem_inv t \<and> pm_frame s t \<and> refs_ok (\<lambda>_. 0) (\<lambda>_. 0) t \<and> fork_failed s p t
     \<and> (\<forall>x. x \<notin> avail s \<longrightarrow> agree_page (mem s) (mem t) x)"
proof -
  have r: "cur s = Inr p" "p < NPROC" "refs_ok (\<lambda>_. 0) (\<lambda>_. 0) s" using R by (auto simp: fork_ready_def)
  obtain tf pt where s2: "np < NPROC" "p \<noteq> np" "p_state (getp s np) = UNUSED" "pm_frame s s2"
      "procs s2 = (procs s)[np := fresh_entry (nextpid s) tf pt (a_forkret s) (getp s np)]"
      "\<forall>x. x \<notin> avail s \<longrightarrow> agree_page (mem s) (mem s2) x" "fresh_child s s2 (getp s2 np)" "card (avail s1) < 3 * npg (p_sz (getp s p))"
    by (rule fork_start [OF R a]) (use c in auto)
  have l: "length (procs s) = NPROC" using countsD(1) [OF r(3)] .
  then have n2: "np < length (procs s2)" "p < length (procs s2)" using s2(1,5) r(2) by simp_all
  have fc: "proc_mem s2 (getp s2 np)" "insert (p_trapframe (getp s2 np)) (as_total s2 (p_pagetable (getp s2 np))) = avail s"
    using s2(7) by (auto simp: fresh_child_def)
  obtain t where t: "freeproc np s2 = Inr t" "kmem_inv t" "pm_frame s2 t" "procs t = (procs s2)[np := cleared (getp s2 np)]"
      "avail t = avail s" "\<forall>x. x \<notin> avail s \<longrightarrow> agree_page (mem s2) (mem t) x"
    using freeproc_spec [OF n2(1) fc(1)] unfolding fc(2) by metis
  let ?q = "cleared (getp s2 np)"
  have pt: "procs t = (procs s)[np := ?q]" using t(4) s2(5) by simp
  have q: "p_ofile ?q = p_ofile (getp s np)" "p_cwd ?q = p_cwd (getp s np)" "p_state ?q = UNUSED"
    using s2(1,5) l by (simp_all add: cleared_def fresh_entry_def)
  have fr: "pm_frame s t" by (rule pm_frame_trans [OF s2(4) t(3)])
  have "refs_ok (\<lambda>_. 0) (\<lambda>_. 0) t" using counts_proc_upd [OF r(3) s2(1) q(1,2)] file_frames(1) [OF fr] pt by simp
  moreover have "fork_failed s p t"
    unfolding fork_failed_def using a pt q(3) s2(2,3,8) t(5) by (intro conjI exI [of _ np] exI [of _ ?q]) auto
  moreover have "kfork s = Inr (-1, t)" using kfork_steps(1) [OF r(1) a c n2(2,1) s2(2)] t(1) by simp
  ultimately show ?thesis using t(2,6) fr s2(6) agree_page_trans by blast
qed

lemma fork_child:
  fixes s :: "'a file_state_scheme"
  assumes R: "fork_ready s p" and a: "allocproc s = Inr (Some np, s1)"
    and c: "uvmcopy s1 (p_pagetable (getp s1 p)) (p_pagetable (getp s1 np)) (p_sz (getp s1 p)) = Inr (0, s2)"
  shows "\<exists>t q. kfork s = Inr (nextpid s, t) \<and> kmem_inv t \<and> refs_ok (\<lambda>_. 0) (\<lambda>_. 0) t
     \<and> (\<forall>x. x \<notin> avail s \<longrightarrow> agree_page (mem s) (mem t) x)
     \<and> proc_mem t (getp s p) \<and> aspace (mem t) (p_pagetable (getp s p)) = aspace (mem s) (p_pagetable (getp s p))
     \<and> np < NPROC \<and> p \<noteq> np \<and> p_state (getp s np) = UNUSED \<and> child_entry s p q \<and> child_memory s (getp s p) t q
     \<and> procs t = (procs s)[p := (getp s p)\<lparr>p_fpu := saved_fpu s p, p_fpu_active := False\<rparr>, np := q]"
proof -
  have r: "cur s = Inr p" "p < NPROC" "refs_ok (\<lambda>_. 0) (\<lambda>_. 0) s" "proc_mem s (getp s p)" using R by (auto simp: fork_ready_def)
  obtain cw where cw: "p_cwd (getp s p) = Some cw" using R by (auto simp: fork_ready_def)
  obtain tf pt where s2: "np < NPROC" "p \<noteq> np" "p_state (getp s np) = UNUSED" "pm_frame s s2"
      "procs s2 = (procs s)[np := fresh_entry (nextpid s) tf pt (a_forkret s) (getp s np)]"
      "\<forall>x. x \<notin> avail s \<longrightarrow> agree_page (mem s) (mem s2) x" "proc_mem s2 ((getp s2 np)\<lparr>p_sz := p_sz (getp s p)\<rparr>)"
      "aspace (mem s2) pt = aspace (mem s) (p_pagetable (getp s p))" "insert tf (as_total s2 pt) = avail s"
    by (rule fork_start [OF R a]) (use c in auto)
  have l: "length (procs s) = NPROC" using countsD(1) [OF r(3)] .
  then have n2: "np < length (procs s2)" "p < length (procs s2)" using s2(1,5) r(2) by simp_all
  have g2: "getp s2 p = getp s p" "getp s2 np = fresh_entry (nextpid s) tf pt (a_forkret s) (getp s np)" using s2(1,2,5) l by simp_all
  have fpu: "saved_fpu s2 p = saved_fpu s p" using g2 pm_frame_fixed(4) [OF s2(4)] by (simp add: saved_fpu_def)
  obtain h where K: "kfork s = rbind (dup_files p np (forked p np h s2)) (\<lambda>s.
         rbind (idup (p_cwd (getp s p)) s) (\<lambda>(ip, s).
         let s = setp np (\<lambda>q. q\<lparr>p_cwd := Some ip\<rparr>) s in
         rbind (safestrcpy (p_name (getp s np)) (nth (p_name (getp s p))) 16) (\<lambda>nm.
         let s = setp np (\<lambda>q. q\<lparr>p_name := nm\<rparr>) s;
             pid = p_pid (getp s np);
             s = setp np (\<lambda>q. q\<lparr>p_parent := Some p\<rparr>) s;
             s = setp np (\<lambda>q. q\<lparr>p_state := RUNNABLE\<rparr>) s in
         Inr (pid, s))))"
    using kfork_steps(2) [OF r(1) a c n2(2,1) s2(2)] by auto
  let ?s3 = "forked p np h s2" and ?qp = "(getp s p)\<lparr>p_fpu := saved_fpu s p, p_fpu_active := False\<rparr>"
  let ?qn = "(getp s2 np)\<lparr>p_sz := p_sz (getp s p), p_fpu := saved_fpu s p, p_fpu_used := p_fpu_used (getp s p), p_fpu_active := False\<rparr>"
  have p3: "procs ?s3 = (procs s)[p := ?qp, np := ?qn]"
    using s2(2,5) by (simp add: forked_def g2(1) fpu list_update_swap upd_again)
  have g3: "getp ?s3 p = ?qp" "getp ?s3 np = ?qn" using p3 s2(1,2) l r(2) by simp_all
  have un: "\<forall>fd<NOFILE. p_ofile (getp s np) ! fd = None" "p_cwd (getp s np) = None" "length (p_name (getp s np)) = 16"
    using R s2(1,3) by (auto simp: fork_ready_def)
  have qn: "p_ofile ?qn = p_ofile (getp s np)" "p_cwd ?qn = p_cwd (getp s np)" "p_name ?qn = p_name (getp s np)" "p_pid ?qn = nextpid s"
      "p_trapframe ?qn = tf" "p_pagetable ?qn = pt"
    by (simp_all add: g2(2) fresh_entry_def)
  have "counts (\<lambda>_. 0) (\<lambda>_. 0) ((procs s)[p := ?qp]) (ftable s) (itable s)" using counts_proc_upd [OF r(3,2), of ?qp] by simp
  then have "counts (\<lambda>_. 0) (\<lambda>_. 0) (procs ?s3) (ftable s) (itable s)"
    unfolding p3 using counts_proc_upd [OF _ s2(1), of _ _ "(procs s)[p := ?qp]"] qn s2(2) by simp
  then have c3: "refs_ok (\<lambda>_. 0) (\<lambda>_. 0) ?s3" using file_frames(1) [OF s2(4)] by (simp add: forked_def)
  obtain t nm where t: "kfork s = Inr (nextpid s, t)" "fd_frame ?s3 t" "refs_ok (\<lambda>_. 0) (\<lambda>_. 0) t"
      "procs t = (procs ?s3)[np := ?qn\<lparr>p_ofile := p_ofile (getp s p), p_cwd := Some cw, p_name := nm, p_parent := Some p, p_state := RUNNABLE\<rparr>]"
    using child_shares [OF c3 r(2) s2(1,2), of cw] unfolding K g3 qn using un cw by auto
  let ?q = "?qn\<lparr>p_ofile := p_ofile (getp s p), p_cwd := Some cw, p_name := nm, p_parent := Some p, p_state := RUNNABLE\<rparr>"
  have pt: "procs t = (procs s)[p := ?qp, np := ?q]" using t(4) p3 by simp
  let ?m = "(getp s2 np)\<lparr>p_sz := p_sz (getp s p)\<rparr>"
  have m: "p_trapframe ?m = tf" "p_pagetable ?m = pt" by (simp_all add: g2(2) fresh_entry_def)
  have "mm_eq (s2\<lparr>mem := child_frame (mem s2) (p_trapframe ?m) (p_trapframe (getp s p))\<rparr>) t" "a_trampoline t = a_trampoline s"
    using file_frames(3) [OF t(2)] pm_frame_fixed [OF s2(4)] g2(1) by (simp_all add: mm_eq_def forked_def)
  note F = forked_memory [OF r(4) s2(7) _ pm_frame_fixed(1-3) [OF s2(4)] _ this, unfolded m]
  have "child_entry s p ?q" using qn(4) cw by (simp add: child_entry_def)
  moreover have "child_memory s (getp s p) t ?q"
    using F(4-6,8) s2(6,8,9) by (simp add: child_memory_def proc_mem_def g2(2) fresh_entry_def)
  ultimately show ?thesis using t(1,3) F(1-3,7) s2(1-3,6,9) pt by blast
qed

section \<open>The property\<close>

definition fork_done :: "'a file_state_scheme \<Rightarrow> nat \<Rightarrow> nat \<Rightarrow> 'a file_state_scheme \<Rightarrow> bool" where
  "fork_done s p np t \<longleftrightarrow> np < NPROC \<and> np \<noteq> p \<and> p_state (getp s np) = UNUSED
     \<and> (\<exists>q. procs t = (procs s)[p := (getp s p)\<lparr>p_fpu := saved_fpu s p, p_fpu_active := False\<rparr>, np := q]
         \<and> child_entry s p q \<and> child_memory s (getp s p) t q)"

text \<open>
  C22: \<^verbatim>\<open>fork\<close> never panics.  Either it returns the number of a new runnable process, the child: an unused
  entry whose address space is a copy of the parent's in pages taken from the free list, whose trap frame is the
  parent's with result register 0, whose floating-point state, open files and current directory are the
  parent's.  Or it returns -1, no page is lost and no process made, and it does so only for want of an
  entry or of free pages.  In both cases the parent's memory is untouched, no page outside the free list
  changes and all reference counts are the numbers of their holders.\<close>

theorem kfork_forks:
  fixes s :: "'a file_state_scheme"
  assumes "fork_ready s p"
  shows "\<exists>r t. kfork s = Inr (r, t) \<and> kmem_inv t \<and> refs_ok (\<lambda>_. 0) (\<lambda>_. 0) t
    \<and> proc_mem t (getp s p) \<and> aspace (mem t) (p_pagetable (getp s p)) = aspace (mem s) (p_pagetable (getp s p))
    \<and> (\<forall>x. x \<notin> avail s \<longrightarrow> agree_page (mem s) (mem t) x)
    \<and> (r = -1 \<and> fork_failed s p t \<or> r = nextpid s \<and> (\<exists>np. fork_done s p np t))"
proof -
  have r: "cur s = Inr p" "proc_mem s (getp s p)" "unused_bare s" "kmem_inv s" "refs_ok (\<lambda>_. 0) (\<lambda>_. 0) s"
    using assms as_invD(5) by (auto simp: fork_ready_def proc_mem_def proc_as_def)
  have keep: "proc_mem t (getp s p) \<and> aspace (mem t) (p_pagetable (getp s p)) = aspace (mem s) (p_pagetable (getp s p))"
    if "pm_frame s t" "kmem_inv t" "\<forall>x. x \<notin> avail s \<longrightarrow> agree_page (mem s) (mem t) x" "avail t = avail s" for t
    using parent_survives(1,2) [OF r(2) that(2) pm_frame_fixed(1-3) [OF that(1)]] that(3,4) by simp
  show ?thesis
  proof (cases "find_unused [0..<NPROC] (procs s)")
    case None
    then have "kfork s = Inr (-1, s)" using r(1) by (simp add: kfork_def allocproc_def)
    moreover have "fork_failed s p s"
      unfolding fork_failed_def using None by (intro conjI exI [of _ p] exI [of _ "getp s p"]) simp_all
    ultimately show ?thesis using r by simp
  next
    case (Some k)
    obtain a s1 where a: "allocproc s = Inr (a, s1)" "kmem_inv s1" "pm_frame s s1" "\<forall>x. x \<notin> avail s \<longrightarrow> agree_page (mem s) (mem s1) x"
      using allocproc_spec [OF r(4,3) Some] by blast
    show ?thesis
    proof (cases a)
      case None
      note f = fork_no_child [OF assms a(1) [unfolded None] Some]
      then have "avail s1 = avail s" by (simp add: fork_failed_def)
      then show ?thesis using f a keep by blast
    next
      case np: (Some np)
      note a1 = a(1) [unfolded np]
      obtain e s2 where c: "uvmcopy s1 (p_pagetable (getp s1 p)) (p_pagetable (getp s1 np)) (p_sz (getp s1 p)) = Inr (e, s2)" "e = -1 \<or> e = 0"
        by (rule fork_start [OF assms a1]) auto
      then consider "e = -1" | "e = 0" by blast
      then show ?thesis
      proof cases
        case 1
        from fork_undo [OF assms a1 c(1) [unfolded 1]] obtain t where t: "kfork s = Inr (-1, t)" "kmem_inv t" "pm_frame s t" "refs_ok (\<lambda>_. 0) (\<lambda>_. 0) t"
            "fork_failed s p t" "\<forall>x. x \<notin> avail s \<longrightarrow> agree_page (mem s) (mem t) x" by blast
        then have "avail t = avail s" by (simp add: fork_failed_def)
        then show ?thesis using t keep by blast
      next
        case 2
        from fork_child [OF assms a1 c(1) [unfolded 2]] show ?thesis unfolding fork_done_def by blast
      qed
    qed
  qed
qed

lemma fork_ready_exists: "\<exists>s :: file_state. fork_ready s 0 \<and> p_ofile (getp s 0) = one_ofile \<and> nextpid s = 2"
proof -
  obtain s :: file_state where s: "kmem_inv s" "avail s = set boot_pages" "procs s = replicate NPROC blank_proc" "nextpid s = 1"
    using blank_machine by blast
  note b = blank_facts [OF s(3)]
  obtain t :: file_state and tf pt where t: "procs t = (procs s)[0 := fresh_entry (nextpid s) tf pt (a_forkret s) (getp s 0)]"
      "proc_mem t (getp t 0)" "nextpid t = 2"
    using allocproc_spec [OF s(1) b(1,2)] s(2,4) b(3) by auto
  let ?q = "(getp t 0)\<lparr>p_state := RUNNING, p_ofile := one_ofile, p_cwd := Some 0\<rparr>"
  let ?u = "t\<lparr>cpus := (\<lambda>_. (mycpu t)\<lparr>c_proc := Some 0\<rparr>), procs := (procs t)[0 := ?q], ftable := one_ftable, itable := one_itable\<rparr>"
  have n: "0 < NPROC" "0 < NOFILE" by (simp_all add: NPROC_def NOFILE_def)
  have l: "length (procs t) = NPROC" using t(1) s(3) by simp
  have other: "getp ?u p = blank_proc" if "0 < p" "p < NPROC" for p using that t(1) s(3) by simp
  have g: "getp ?u 0 = ?q" using l n by simp
  have unused: "getp ?u i = blank_proc" if "i < NPROC" "p_state (getp ?u i) = UNUSED" for i
  proof (cases "i = 0")
    case True
    from that(2) show ?thesis unfolding True g by simp
  next
    case False
    then show ?thesis using that(1) by (intro other) simp_all
  qed
  have "mm_eq t ?u" "a_trampoline ?u = a_trampoline t" by (simp_all add: mm_eq_def)
  note E = mm_eqD [OF this(1)] this(2)
  have pm: "proc_mem ?u ?q" using t(2) unfolding proc_mem_def proc_as_def E by simp
  have "refs_ok (\<lambda>_. 0) (\<lambda>_. 0) ?u"
    using one_counts [of "procs ?u"] l g other by (simp add: blank_proc_def)
  moreover have "cur ?u = Inr 0" by (simp add: cur_def myproc_def mycpu_def cpuid_def)
  moreover have "unused_bare ?u"
    unfolding unused_bare_def
  proof (intro conjI allI impI)
    show "length (procs ?u) = NPROC" using l by simp
    fix i assume i: "i < NPROC" "p_state (getp ?u i) = UNUSED"
    from unused [OF this] have "getp ?u i = blank_proc" .
    then show "p_pagetable (getp ?u i) = 0" "p_sz (getp ?u i) = 0" by (simp_all only: blank_proc_def proc.simps)
  qed
  moreover have "(\<forall>fd<NOFILE. p_ofile (getp ?u i) ! fd = None) \<and> p_cwd (getp ?u i) = None \<and> length (p_name (getp ?u i)) = 16"
    if i: "i < NPROC" "p_state (getp ?u i) = UNUSED" for i
  proof -
    from unused [OF that] have "getp ?u i = blank_proc" .
    then show ?thesis by (simp only:) (simp add: blank_proc_def)
  qed
  ultimately have "fork_ready ?u 0" unfolding fork_ready_def g using n pm by simp
  then show ?thesis using g t(3) by (intro exI [of _ ?u]) simp
qed

theorem kfork_forks_witness:
  "\<exists>s t :: file_state. \<exists>r. fork_ready s 0 \<and> p_ofile (getp s 0) ! 0 = Some 0 \<and> kfork s = Inr (r, t) \<and> kmem_inv t
     \<and> (r = -1 \<and> avail t = avail s \<or> r = 2 \<and> (\<exists>np. p_ofile (getp t np) ! 0 = Some 0 \<and> p_pid (getp t np) = 2))"
proof -
  obtain s :: file_state where s: "fork_ready s 0" "p_ofile (getp s 0) = one_ofile" "nextpid s = 2" using fork_ready_exists by blast
  have o1: "p_ofile (getp s 0) ! 0 = Some 0" using s(2) by (simp add: one_ofile_def NOFILE_def)
  have l: "length (procs s) = NPROC" using s(1) countsD(1) by (auto simp: fork_ready_def)
  obtain r t where t: "kfork s = Inr (r, t)" "kmem_inv t" "r = -1 \<and> fork_failed s 0 t \<or> r = nextpid s \<and> (\<exists>np. fork_done s 0 np t)"
    using kfork_forks [OF s(1)] by blast
  have "p_ofile (getp t np) ! 0 = Some 0 \<and> p_pid (getp t np) = 2" if "fork_done s 0 np t" for np
    using that o1 s(3) l by (auto simp: fork_done_def child_entry_def)
  then show ?thesis using s t o1 by (intro exI [of _ s] exI [of _ t] exI [of _ r]) (auto simp: fork_failed_def)
qed

end
