(* ===== verification/Ulib.thy ===== *)
theory Ulib
  imports Cstring
begin

text \<open>
  The string routines of \<^verbatim>\<open>user/lib/ulib.c\<close> and the character classes of \<^verbatim>\<open>user/lib/ctype.c\<close>, which user
  programs are linked with.  Block moves work on the byte-addressed memory of the process.  Strings and
  local arrays are lists of bytes; a pointer into an array is the rest of the array from there, and an
  access outside an array is \<open>BadAccess\<close>.  Plain \<^verbatim>\<open>char\<close> is unsigned on the target machine.
\<close>

section \<open>Arrays\<close>

definition rd :: "u8 list \<Rightarrow> nat \<Rightarrow> u8 res" where
  "rd xs i = (if i < length xs then Inr (xs ! i) else Inl BadAccess)"

text \<open>Copying \<open>n\<close> bytes between arrays, or within one: every byte arrives with its old value.\<close>

definition blit :: "u8 list \<Rightarrow> nat \<Rightarrow> u8 list \<Rightarrow> nat \<Rightarrow> nat \<Rightarrow> u8 list res" where
  "blit dst d src s n = (if d + n \<le> length dst \<and> s + n \<le> length src
     then Inr (take d dst @ take n (drop s src) @ drop (d + n) dst) else Inl BadAccess)"

lemma rd_simps [simp]: "i < length xs \<Longrightarrow> rd xs i = Inr (xs ! i)" "rd xs i = Inr c \<longleftrightarrow> i < length xs \<and> c = xs ! i"
  by (auto simp: rd_def)

lemma wr_simps [simp]: "i < length xs \<Longrightarrow> wr xs i c = Inr (xs[i := c])" "wr xs i c = Inr ys \<longleftrightarrow> i < length xs \<and> ys = xs[i := c]"
  by (auto simp: wr_def)

lemma blit_simps [simp]:
  "d + n \<le> length dst \<Longrightarrow> s + n \<le> length src \<Longrightarrow> blit dst d src s n = Inr (take d dst @ take n (drop s src) @ drop (d + n) dst)"
  by (simp add: blit_def)

section \<open>ulib.c\<close>

function u_strcpy_loop :: "nat \<Rightarrow> u8 list \<Rightarrow> u8 list \<Rightarrow> u8 list res" where
  "u_strcpy_loop i s t = (if i < length t
     then rbind (wr s i (t ! i)) (\<lambda>s. if t ! i \<noteq> 0 then u_strcpy_loop (Suc i) s t else Inr s)
     else Inl BadAccess)"
  by pat_completeness auto
termination by (relation "measure (\<lambda>(i, s, t). length t - i)") auto

definition u_strcpy :: "u8 list \<Rightarrow> u8 list \<Rightarrow> u8 list res" where
  "u_strcpy s t = u_strcpy_loop 0 s t"

fun u_strcmp :: "u8 list \<Rightarrow> u8 list \<Rightarrow> int res" where
  "u_strcmp (c # p) (d # q) = (if c \<noteq> 0 \<and> c = d then u_strcmp p q else Inr (uint c - uint d))"
| "u_strcmp p q = Inl BadAccess"

function u_strlen_loop :: "nat \<Rightarrow> u8 list \<Rightarrow> nat res" where
  "u_strlen_loop n s = (if n < length s then if s ! n \<noteq> 0 then u_strlen_loop (Suc n) s else Inr n else Inl BadAccess)"
  by pat_completeness auto
termination by (relation "measure (\<lambda>(n, s). length s - n)") auto

definition u_strlen :: "u8 list \<Rightarrow> nat res" where
  "u_strlen s = u_strlen_loop 0 s"

definition u_memset :: "memory \<Rightarrow> u64 \<Rightarrow> u32 \<Rightarrow> u32 \<Rightarrow> memory" where
  "u_memset m dst c n = fold (\<lambda>i m. m(dst + of_nat i := ucast c)) [0..<unat n] m"

text \<open>\<^verbatim>\<open>strchr\<close>: the offset of the character, or null at the NUL.\<close>

fun u_strchr :: "u8 list \<Rightarrow> u8 \<Rightarrow> nat option res" where
  "u_strchr [] c = Inl BadAccess"
| "u_strchr (d # s) c = (if d = 0 then Inr None else if d = c then Inr (Some 0)
     else rbind (u_strchr s c) (\<lambda>r. Inr (map_option Suc r)))"

text \<open>\<^verbatim>\<open>gets\<close> reads standard input byte by byte; the end of the input list is end of file.\<close>

function gets_loop :: "nat \<Rightarrow> int \<Rightarrow> u8 list \<Rightarrow> u8 list \<Rightarrow> (u8 list \<times> u8 list) res" where
  "gets_loop i mx buf inp =
     (if int i + 1 < mx then
        case inp of [] \<Rightarrow> rbind (wr buf i 0) (\<lambda>buf. Inr (buf, []))
        | c # inp \<Rightarrow> rbind (wr buf i c) (\<lambda>buf.
            if c = 10 \<or> c = 13 then rbind (wr buf (Suc i) 0) (\<lambda>buf. Inr (buf, inp)) else gets_loop (Suc i) mx buf inp)
      else rbind (wr buf i 0) (\<lambda>buf. Inr (buf, inp)))"
  by pat_completeness auto
termination by (relation "measure (\<lambda>(i, mx, buf, inp). length inp)") auto

definition gets :: "u8 list \<Rightarrow> int \<Rightarrow> u8 list \<Rightarrow> (u8 list \<times> u8 list) res" where
  "gets buf mx inp = gets_loop 0 mx buf inp"

text \<open>\<^verbatim>\<open>atoi\<close>, with the accumulator a 32-bit word.\<close>

fun atoi_loop :: "u32 \<Rightarrow> u8 list \<Rightarrow> u32 res" where
  "atoi_loop n [] = Inl BadAccess"
| "atoi_loop n (c # s) = (if 48 \<le> c \<and> c \<le> 57 then atoi_loop (n * 10 + ucast c - 48) s else Inr n)"

definition atoi :: "u8 list \<Rightarrow> u32 res" where
  "atoi s = atoi_loop 0 s"

text \<open>\<^verbatim>\<open>memmove\<close> takes a signed count: a count of two gigabytes or more is negative, and nothing is copied.\<close>

definition u_memmove :: "memory \<Rightarrow> u64 \<Rightarrow> u64 \<Rightarrow> u32 \<Rightarrow> memory" where
  "u_memmove m dst src n =
     (if src > dst then copy_up (nat (sint n)) m dst src
      else copy_down (nat (sint n)) m (dst + scast n) (src + scast n))"

fun u_memcmp :: "(nat \<Rightarrow> u8) \<Rightarrow> (nat \<Rightarrow> u8) \<Rightarrow> nat \<Rightarrow> int" where
  "u_memcmp s1 s2 0 = 0"
| "u_memcmp s1 s2 (Suc n) =
     (if s1 0 \<noteq> s2 0 then uint (s1 0) - uint (s2 0) else u_memcmp (\<lambda>i. s1 (Suc i)) (\<lambda>i. s2 (Suc i)) n)"

definition u_memcpy :: "memory \<Rightarrow> u64 \<Rightarrow> u64 \<Rightarrow> u32 \<Rightarrow> memory" where
  "u_memcpy m dst src n = u_memmove m dst src n"

section \<open>ctype.c\<close>

definition char_printable :: "u8 \<Rightarrow> bool" where
  "char_printable c \<longleftrightarrow> 32 \<le> c \<and> c \<le> 126"

definition char_whitespace :: "u8 \<Rightarrow> bool" where
  "char_whitespace c \<longleftrightarrow> c = 10 \<or> c = 13 \<or> c = 9 \<or> c = 32"

definition hex_val :: "u8 \<Rightarrow> int" where
  "hex_val c = (if 48 \<le> c \<and> c \<le> 57 then uint c - 48
     else if 97 \<le> c \<and> c \<le> 102 then uint c - 97 + 10
     else if 65 \<le> c \<and> c \<le> 70 then uint c - 65 + 10
     else -1)"

section \<open>NUL-terminated strings\<close>

declare u_strcpy_loop.simps [simp del] u_strlen_loop.simps [simp del] gets_loop.simps [simp del]

lemma u_strlen_at: "0 \<notin> set xs \<Longrightarrow> u_strlen_loop n (ys @ xs @ 0 # zs) = Inr (length ys + length xs)" if "n = length ys"
  using that
proof (induction xs arbitrary: ys n)
  case Nil
  then show ?case by (simp add: u_strlen_loop.simps)
next
  case (Cons x xs)
  from Cons.prems show ?case
    using Cons.IH [of "Suc n" "ys @ [x]"] by (subst u_strlen_loop.simps) (simp add: nth_append)
qed

lemma u_strlen_eq: "0 \<notin> set xs \<Longrightarrow> u_strlen (xs @ 0 # zs) = Inr (length xs)"
  using u_strlen_at [of 0 "[]" xs zs] by (simp add: u_strlen_def)

lemma uint_same: "uint (x :: u8) = uint y \<longleftrightarrow> x = y"
  using word_uint_eqI by blast

lemma u_strcmp_eq:
  "0 \<notin> set xs \<Longrightarrow> 0 \<notin> set ys \<Longrightarrow> \<exists>k. u_strcmp (xs @ 0 # p) (ys @ 0 # q) = Inr k \<and> (k = 0 \<longleftrightarrow> xs = ys)"
proof (induction xs arbitrary: ys)
  case Nil
  then show ?case by (cases ys) (auto simp: uint_0_iff)
next
  case (Cons x xs)
  then show ?case by (cases ys) (auto simp: uint_0_iff uint_same)
qed

lemma u_strchr_eq: "0 \<notin> set xs \<Longrightarrow> \<exists>r. u_strchr (xs @ 0 # p) c = Inr r \<and> (r = None \<longleftrightarrow> c \<notin> set xs)"
  by (induction xs) auto

lemma u_strcpy_at:
  assumes "0 \<notin> set xs" "length xs < length s" "length us = length ys"
  shows "u_strcpy_loop (length ys) (us @ s) (ys @ xs @ 0 # zs) = Inr (us @ xs @ 0 # drop (Suc (length xs)) s)"
  using assms
proof (induction xs arbitrary: us ys s)
  case Nil
  then show ?case by (cases s) (simp_all add: u_strcpy_loop.simps nth_append list_update_append)
next
  case (Cons x xs)
  then obtain d ds where s: "s = d # ds" by (cases s) auto
  have "u_strcpy_loop (length (ys @ [x])) ((us @ [x]) @ ds) ((ys @ [x]) @ xs @ 0 # zs) = Inr ((us @ [x]) @ xs @ 0 # drop (Suc (length xs)) ds)"
    using Cons.prems s by (intro Cons.IH) simp_all
  then show ?case using Cons.prems s by (subst u_strcpy_loop.simps) (simp add: nth_append list_update_append)
qed

lemma u_strcpy_eq: "0 \<notin> set xs \<Longrightarrow> length xs < length s \<Longrightarrow> u_strcpy s (xs @ 0 # zs) = Inr (xs @ 0 # drop (Suc (length xs)) s)"
  using u_strcpy_at [of xs s "[]" "[]" zs] by (simp add: u_strcpy_def)

section \<open>Block moves\<close>

lemma sint32: "sint (n :: u32) = (if unat n < 2147483648 then int (unat n) else int (unat n) - 4294967296)"
proof -
  have u: "sint n = (uint n + 2147483648) mod 4294967296 - 2147483648"
    by (simp add: sint_uint signed_take_bit_eq_take_bit_shift take_bit_eq_mod add.commute)
  have n: "uint n = int (unat n)" "unat n < 4294967296" using unat_lt32 [of n] by simp_all
  have "(int k + 2147483648) mod 4294967296 - 2147483648 = (if k < 2147483648 then int k else int k - 4294967296)" if "k < 4294967296" for k
  proof (cases "k < 2147483648")
    case False
    then have "(int k - 2147483648) mod 4294967296 = int k - 2147483648" using that by simp
    then show ?thesis using False minus_mod_self2 [of "int k + 2147483648" 4294967296] by simp
  qed simp
  from this [OF n(2)] show ?thesis unfolding u n(1) .
qed

lemma scast32: "(scast (n :: u32) :: u64) = of_int (sint n)"
  by (simp add: signed_of_int)

lemma u_memmove_spec:
  assumes "unat src + unat n < 18446744073709551616" "unat dst + unat n < 18446744073709551616" "unat n < 2147483648"
  shows "u_memmove m dst src n = move_spec m dst src (unat n)"
proof -
  have "sint n = int (unat n)" using assms(3) sint32 [of n] by simp
  then have s: "nat (sint n) = unat n" "(scast n :: u64) = of_nat (unat n)" by (simp_all add: scast32)
  show ?thesis
  proof (cases "src > dst")
    case True
    then have "unat n \<le> unat (dst - src)" using assms unat_lt64 [of dst] by (auto simp: unat_sub_if' word_less_nat_alt)
    then show ?thesis using True assms s copy_up_spec [of "unat n" dst src m] by (simp add: u_memmove_def)
  next
    case False
    then have "dst = src \<or> unat n \<le> unat (src - dst)" using assms unat_lt64 [of src] by (auto simp: unat_sub_if' word_less_nat_alt intro: word_eq_of_unat)
    then show ?thesis using False assms s copy_down_spec [of "unat n" src dst m] by (auto simp: u_memmove_def)
  qed
qed

text \<open>
  A block move in memory is \<open>blit\<close> on the bytes of the array that holds both ends.
\<close>

lemma u_memmove_blit:
  assumes "unat base + l < 18446744073709551616" "d + unat n \<le> l" "s + unat n \<le> l" "unat n < 2147483648"
  shows "blit (ld_bytes m base l) d (ld_bytes m base l) s (unat n)
    = Inr (ld_bytes (u_memmove m (base + of_nat d) (base + of_nat s) n) base l)"
proof -
  have u: "unat (base + of_nat k) = unat base + k" if "k \<le> l" for k
    using that assms(1) by (simp add: unat_add_nowrap unat_of_nat64)
  have mv: "u_memmove m (base + of_nat d) (base + of_nat s) n = move_spec m (base + of_nat d) (base + of_nat s) (unat n)"
    using assms by (intro u_memmove_spec) (simp_all add: u)
  have "take d (ld_bytes m base l) @ take (unat n) (drop s (ld_bytes m base l)) @ drop (d + unat n) (ld_bytes m base l)
      = ld_bytes (u_memmove m (base + of_nat d) (base + of_nat s) n) base l" (is "?a = ?b")
  proof (rule list_eq_nthI)
    show "length ?a = length ?b" using assms by (simp add: ld_bytes_def)
    fix i assume "i < length ?a"
    then have i: "i < l" using assms by (simp add: ld_bytes_def)
    have "unat (base + of_nat i - (base + of_nat d)) < unat n \<longleftrightarrow> d \<le> i \<and> i < d + unat n"
      using unat_diff_lt_iff [of "base + of_nat d" "unat n" "base + of_nat i"] assms i by (simp add: u)
    moreover have "base + of_nat s + (base + of_nat i - (base + of_nat d)) = base + of_nat (s + (i - d))" if "d \<le> i"
      using that by (simp add: of_nat_diff algebra_simps)
    ultimately show "?a ! i = ?b ! i"
      using i assms unfolding mv by (auto simp: ld_bytes_def move_spec_def nth_append algebra_simps)
  qed
  then show ?thesis using assms by (simp add: ld_bytes_def)
qed

section \<open>Numbers\<close>

lemma atoi_digits:
  assumes "\<And>c. c \<in> set ds \<Longrightarrow> 48 \<le> c \<and> c \<le> 57" "\<not> (48 \<le> e \<and> e \<le> 57)"
  shows "atoi_loop n (ds @ e # zs) = Inr (of_int (foldl (\<lambda>a c. a * 10 + (uint c - 48)) (uint n) ds))"
  using assms
proof (induction ds arbitrary: n)
  case Nil
  then show ?case by auto
next
  case (Cons c ds)
  have f: "of_int (foldl (\<lambda>a c. a * 10 + (uint c - 48)) a ds) = (of_int (foldl (\<lambda>a c. a * 10 + (uint c - 48)) b ds) :: u32)"
    if "(of_int a :: u32) = of_int b" for a b
    using that
  proof (induction ds arbitrary: a b)
    case (Cons d ds)
    then have "(of_int (a * 10 + (uint d - 48)) :: u32) = of_int (b * 10 + (uint d - 48))" by simp
    then show ?case using Cons.IH by simp
  qed simp
  have "(of_int (uint (n * 10 + ucast c - 48)) :: u32) = of_int (uint n * 10 + (uint c - 48))"
    by (simp add: algebra_simps)
  from f [OF this] show ?case using Cons by simp
qed

section \<open>Properties\<close>

text \<open>
  C29: the block copy user programs are linked with does what the kernel's does, for every overlap of
  source and destination that stays in the address space, as long as the count is below two gigabytes;
  from there on \<^verbatim>\<open>memcpy\<close>, whose count is unsigned, copies nothing, because it passes the count to a
  \<^verbatim>\<open>memmove\<close> whose count is signed.\<close>

theorem u_memcpy_kernel:
  assumes "unat src + unat n < 18446744073709551616" "unat dst + unat n < 18446744073709551616"
  shows "u_memcpy m dst src n = (if unat n < 2147483648 then memcpy m dst src n else m)"
proof (cases "unat n < 2147483648")
  case True
  then show ?thesis using assms u_memmove_spec memmove_spec by (simp add: u_memcpy_def memcpy_def)
next
  case False
  then have "sint n = int (unat n) - 4294967296" using sint32 [of n] by argo
  then have "nat (sint n) = 0" using unat_lt32 [of n] by linarith
  then show ?thesis using False by (simp add: u_memcpy_def u_memmove_def)
qed

theorem u_memcpy_kernel_witness:
  "u_memcpy (\<lambda>a. ucast a) 0x1001 0x1000 3 0x1003 = 2 \<and> u_memcpy (\<lambda>a. ucast a) 0x100000000 0x1000 0x80000000 0x100000001 = 1"
  using u_memcpy_kernel [where src = "0x1000" and n = 3 and dst = "0x1001" and m = "\<lambda>a. ucast a"]
    u_memcpy_kernel [where src = "0x1000" and n = "0x80000000" and dst = "0x100000000" and m = "\<lambda>a. ucast a"]
    memmove_spec [where src = "0x1000" and n = 3 and dst = "0x1001" and m = "\<lambda>a. ucast a"]
  by (simp add: memcpy_def move_spec_def)

end
