(* ===== verification/Utf8.thy ===== *)
theory Utf8
  imports Ulib
begin

text \<open>
  The text routines of the shell and the language model: \<^verbatim>\<open>user/lib/utf8.c\<close>, which walks over and decodes
  multi-byte characters in a buffer, and the escape sequences of \<^verbatim>\<open>user/lib/term.c\<close>.  A routine that
  writes to the terminal returns the bytes it writes.
\<close>

section \<open>utf8.c\<close>

definition utf8_cont :: "u8 \<Rightarrow> bool" where
  "utf8_cont c \<longleftrightarrow> c AND 0xC0 = 0x80"

definition utf8_input_len :: "u8 \<Rightarrow> nat" where
  "utf8_input_len u =
     (if u < 0x80 then 1
      else if u AND 0xE0 = 0xC0 then 2
      else if u AND 0xF0 = 0xE0 then 3
      else if u AND 0xF8 = 0xF0 then 4
      else 1)"

function utf8_next_loop :: "u8 list \<Rightarrow> nat \<Rightarrow> nat \<Rightarrow> nat res" where
  "utf8_next_loop buf len pos =
     (if pos < len then rbind (rd buf pos) (\<lambda>c. if utf8_cont c then utf8_next_loop buf len (Suc pos) else Inr pos)
      else Inr pos)"
  by pat_completeness auto
termination by (relation "measure (\<lambda>(buf, len, pos). len - pos)") auto

definition utf8_next :: "u8 list \<Rightarrow> nat \<Rightarrow> nat \<Rightarrow> nat res" where
  "utf8_next buf pos len = (if pos \<ge> len then Inr len else utf8_next_loop buf len (Suc pos))"

fun utf8_prev_loop :: "u8 list \<Rightarrow> nat \<Rightarrow> nat res" where
  "utf8_prev_loop buf 0 = Inr 0"
| "utf8_prev_loop buf (Suc p) = rbind (rd buf (Suc p)) (\<lambda>c. if utf8_cont c then utf8_prev_loop buf p else Inr (Suc p))"

definition utf8_prev :: "u8 list \<Rightarrow> nat \<Rightarrow> nat res" where
  "utf8_prev buf pos = (if pos = 0 then Inr 0 else utf8_prev_loop buf (pos - 1))"

fun u_utf8_decode_loop :: "u8 list \<Rightarrow> u8 \<Rightarrow> nat list \<Rightarrow> u32 \<Rightarrow> u32 res" where
  "u_utf8_decode_loop buf c0 [] r = Inr r"
| "u_utf8_decode_loop buf c0 (i # is) r = rbind (rd buf i) (\<lambda>c.
     if \<not> utf8_cont c then Inr (ucast c0) else u_utf8_decode_loop buf c0 is (push_bit 6 r OR ucast (c AND 0x3F)))"

definition u_utf8_decode :: "u8 list \<Rightarrow> nat \<Rightarrow> nat \<Rightarrow> u32 res" where
  "u_utf8_decode buf pos en = rbind (rd buf pos) (\<lambda>c0.
     let len = int en - int pos in
     if len = 1 then Inr (ucast c0)
     else if len = 2 then u_utf8_decode_loop buf c0 [pos + 1..<en] (ucast (c0 AND 0x1F))
     else if len = 3 then u_utf8_decode_loop buf c0 [pos + 1..<en] (ucast (c0 AND 0x0F))
     else if len = 4 then u_utf8_decode_loop buf c0 [pos + 1..<en] (ucast (c0 AND 0x07))
     else Inr (ucast c0))"

definition utf8_rune_width :: "u32 \<Rightarrow> nat" where
  "utf8_rune_width r =
     (if r < 0x20 then 0
      else if r < 0x80 then 1
      else if (r \<ge> 0x1100 \<and> r \<le> 0x115F) \<or> (r \<ge> 0x2329 \<and> r \<le> 0x232A) \<or>
              (r \<ge> 0x2E80 \<and> r \<le> 0xA4CF) \<or> (r \<ge> 0xAC00 \<and> r \<le> 0xD7A3) \<or>
              (r \<ge> 0xF900 \<and> r \<le> 0xFAFF) \<or> (r \<ge> 0xFE10 \<and> r \<le> 0xFE19) \<or>
              (r \<ge> 0xFE30 \<and> r \<le> 0xFE6F) \<or> (r \<ge> 0xFF00 \<and> r \<le> 0xFF60) \<or>
              (r \<ge> 0xFFE0 \<and> r \<le> 0xFFE6) \<or> (r \<ge> 0x20000 \<and> r \<le> 0x3FFFD)
      then 2 else 1)"

declare utf8_next_loop.simps [simp del]

lemma utf8_next_loop_ge: "utf8_next_loop buf len pos = Inr p \<Longrightarrow> pos \<le> p \<and> (pos \<le> len \<longrightarrow> p \<le> len)"
proof (induction buf len pos rule: utf8_next_loop.induct)
  case (1 buf len pos)
  show ?case
  proof (cases "pos < len \<and> pos < length buf \<and> utf8_cont (buf ! pos)")
    case True
    then show ?thesis using "1.prems" "1.IH" by (subst (asm) utf8_next_loop.simps) fastforce
  next
    case False
    then show ?thesis using "1.prems" by (subst (asm) utf8_next_loop.simps) (auto simp: rbind_Inr_iff split: if_splits)
  qed
qed

lemma utf8_next_gt: "utf8_next buf pos len = Inr p \<Longrightarrow> pos < len \<Longrightarrow> pos < p \<and> p \<le> len"
  unfolding utf8_next_def using utf8_next_loop_ge [of buf len "Suc pos" p] by simp

function utf8_text_width_loop :: "nat \<Rightarrow> u8 list \<Rightarrow> nat \<Rightarrow> nat \<Rightarrow> nat res" where
  "utf8_text_width_loop width buf start en =
     (if start < en then
        rbind (utf8_next buf start en) (\<lambda>next. rbind (u_utf8_decode buf start next) (\<lambda>r.
          utf8_text_width_loop (width + utf8_rune_width r) buf next en))
      else Inr width)"
  by pat_completeness auto
termination by (relation "measure (\<lambda>(width, buf, start, en). en - start)") (auto dest!: utf8_next_gt)

definition utf8_text_width :: "u8 list \<Rightarrow> nat \<Rightarrow> nat \<Rightarrow> nat res" where
  "utf8_text_width buf start en = utf8_text_width_loop 0 buf start en"

declare utf8_text_width_loop.simps [simp del]

text \<open>The bytes \<^verbatim>\<open>utf8_safe_print\<close> passes to \<^verbatim>\<open>printf("%s", s)\<close>; \<open>None\<close> is the null pointer.\<close>

definition utf8_safe_print :: "u8 list option \<Rightarrow> u8 list res" where
  "utf8_safe_print p = (case p of None \<Rightarrow> Inr []
    | Some s \<Rightarrow> rbind (rd s 0) (\<lambda>s0. if s0 = 0 then Inr []
        else rbind (rd s 1) (\<lambda>s1.
          if s1 = 0 \<and> \<not> char_printable s0 \<and> \<not> char_whitespace s0 then Inr []
          else rbind (u_strlen s) (\<lambda>n. Inr (take n s)))))"

section \<open>term.c\<close>

function term_digits :: "int \<Rightarrow> nat \<Rightarrow> u8 list \<Rightarrow> (nat \<times> u8 list) res" where
  "term_digits value n tmp =
     (if value > 0 then rbind (wr tmp n (of_int (48 + value mod 10))) (\<lambda>tmp. term_digits (value div 10) (Suc n) tmp)
      else Inr (n, tmp))"
  by pat_completeness auto
termination by (relation "measure (\<lambda>(value, n, tmp). nat value)") auto

declare term_digits.simps [simp del]

fun term_emit :: "nat \<Rightarrow> u8 list \<Rightarrow> u8 list \<Rightarrow> nat \<Rightarrow> (nat \<times> u8 list) res" where
  "term_emit 0 tmp out pos = Inr (pos, out)"
| "term_emit (Suc n) tmp out pos = rbind (rd tmp n) (\<lambda>c. rbind (wr out pos c) (\<lambda>out. term_emit n tmp out (Suc pos)))"

text \<open>The local array \<^verbatim>\<open>tmp[12]\<close> starts with whatever the stack holds.\<close>

definition term_append_uint :: "u8 list \<Rightarrow> u8 list \<Rightarrow> nat \<Rightarrow> int \<Rightarrow> (nat \<times> u8 list) res" where
  "term_append_uint tmp out pos value =
     (if value = 0 then rbind (wr out pos 48) (\<lambda>out. Inr (pos + 1, out))
      else rbind (term_digits value 0 tmp) (\<lambda>(n, tmp). term_emit n tmp out pos))"

definition term_move_cursor :: "u8 list \<Rightarrow> u8 \<Rightarrow> int \<Rightarrow> u8 list res" where
  "term_move_cursor tmp dir width =
     (if width \<le> 0 then Inr []
      else let out = replicate 16 0 in
        rbind (wr out 0 0x1B) (\<lambda>out. rbind (wr out 1 91) (\<lambda>out.
        rbind (term_append_uint tmp out 2 width) (\<lambda>(n, out).
        rbind (wr out n dir) (\<lambda>out. Inr (take (n + 1) out))))))"

definition term_clear_eol :: "u8 list" where
  "term_clear_eol = [0x1B, 91, 75]"

section \<open>Walking\<close>

lemma next_loop_run:
  assumes "pos \<le> q" "q \<le> len" "len \<le> length buf" "\<And>i. pos \<le> i \<Longrightarrow> i < q \<Longrightarrow> utf8_cont (buf ! i)" "q = len \<or> \<not> utf8_cont (buf ! q)"
  shows "utf8_next_loop buf len pos = Inr q"
  using assms
proof (induction "q - pos" arbitrary: pos)
  case 0
  then show ?case by (subst utf8_next_loop.simps) auto
next
  case (Suc n)
  then have "utf8_next_loop buf len (Suc pos) = Inr q" by (intro Suc.hyps(1)) auto
  then show ?case using Suc.prems Suc.hyps(2) by (subst utf8_next_loop.simps) auto
qed

lemma next_loop_ok:
  assumes "pos \<le> len" "len \<le> length buf"
  shows "\<exists>q. utf8_next_loop buf len pos = Inr q \<and> pos \<le> q \<and> q \<le> len \<and> (\<forall>i. pos \<le> i \<longrightarrow> i < q \<longrightarrow> utf8_cont (buf ! i))"
  using assms
proof (induction "len - pos" arbitrary: pos)
  case 0
  then show ?case by (subst utf8_next_loop.simps) auto
next
  case (Suc n)
  show ?case
  proof (cases "utf8_cont (buf ! pos)")
    case True
    have "\<exists>q. utf8_next_loop buf len (Suc pos) = Inr q \<and> Suc pos \<le> q \<and> q \<le> len \<and> (\<forall>i. Suc pos \<le> i \<longrightarrow> i < q \<longrightarrow> utf8_cont (buf ! i))"
      using Suc by (intro Suc.hyps(1)) auto
    then obtain q where q: "utf8_next_loop buf len (Suc pos) = Inr q" "Suc pos \<le> q" "q \<le> len"
        "\<And>i. Suc pos \<le> i \<Longrightarrow> i < q \<Longrightarrow> utf8_cont (buf ! i)" by blast
    have "utf8_cont (buf ! i)" if "pos \<le> i" "i < q" for i using that q(4) [of i] True by (cases "i = pos") auto
    then show ?thesis using True Suc q(1-3) by (subst utf8_next_loop.simps) auto
  next
    case False
    then show ?thesis using Suc by (subst utf8_next_loop.simps) auto
  qed
qed

lemma utf8_next_ok:
  assumes "len \<le> length buf" "pos < len"
  shows "\<exists>q. utf8_next buf pos len = Inr q \<and> pos < q \<and> q \<le> len \<and> (\<forall>i. pos < i \<longrightarrow> i < q \<longrightarrow> utf8_cont (buf ! i))"
  using next_loop_ok [of "Suc pos" len buf] assms by (auto simp: utf8_next_def Suc_le_eq)

lemma prev_loop_run:
  assumes "p \<le> q" "q < length buf" "\<And>i. p < i \<Longrightarrow> i \<le> q \<Longrightarrow> utf8_cont (buf ! i)" "p = 0 \<or> \<not> utf8_cont (buf ! p)"
  shows "utf8_prev_loop buf q = Inr p"
  using assms
proof (induction q)
  case (Suc q)
  then show ?case by (cases "p = Suc q") auto
qed simp

lemma prev_loop_ok: "q < length buf \<Longrightarrow> \<exists>p. utf8_prev_loop buf q = Inr p \<and> p \<le> q"
proof (induction q)
  case (Suc q)
  then obtain p where "utf8_prev_loop buf q = Inr p" "p \<le> q" by auto
  then show ?case using Suc.prems by auto
qed simp

lemma utf8_prev_ok: "pos \<le> length buf \<Longrightarrow> \<exists>p. utf8_prev buf pos = Inr p \<and> p \<le> pos \<and> (0 < pos \<longrightarrow> p < pos)"
  using prev_loop_ok [of "pos - 1" buf] by (cases "pos = 0") (auto simp: utf8_prev_def less_eq_Suc_le)

lemma u_utf8_decode_ok:
  assumes "pos < en" "en \<le> length buf"
  shows "\<exists>r. u_utf8_decode buf pos en = Inr r"
proof -
  have "\<exists>r. u_utf8_decode_loop buf c is x = Inr r" if "\<forall>i\<in>set is. i < length buf" for c "is" x
    using that by (induction "is" arbitrary: x) auto
  then show ?thesis using assms by (simp add: u_utf8_decode_def Let_def)
qed

lemma utf8_rune_width_le: "utf8_rune_width r \<le> 2"
  by (simp add: utf8_rune_width_def)

lemma text_width_loop_ok:
  "start \<le> en \<Longrightarrow> en \<le> length buf \<Longrightarrow> \<exists>k. utf8_text_width_loop w buf start en = Inr k \<and> k \<le> w + 2 * (en - start)"
proof (induction w buf start en rule: utf8_text_width_loop.induct)
  case (1 w buf start en)
  show ?case
  proof (cases "start < en")
    case True
    obtain q where q: "utf8_next buf start en = Inr q" "start < q" "q \<le> en" using utf8_next_ok [OF "1.prems"(2) True] by blast
    obtain r where r: "u_utf8_decode buf start q = Inr r" using u_utf8_decode_ok q "1.prems"(2) by (meson le_trans)
    obtain k where "utf8_text_width_loop (w + utf8_rune_width r) buf q en = Inr k" "k \<le> w + utf8_rune_width r + 2 * (en - q)"
      using "1.IH" [OF True q(1) r] q "1.prems"(2) by blast
    then show ?thesis using True q r utf8_rune_width_le [of r] by (subst utf8_text_width_loop.simps) simp
  qed (use "1.prems" in \<open>simp add: utf8_text_width_loop.simps\<close>)
qed

lemma utf8_text_width_ok: "start \<le> en \<Longrightarrow> en \<le> length buf \<Longrightarrow> \<exists>k. utf8_text_width buf start en = Inr k \<and> k \<le> 2 * (en - start)"
  using text_width_loop_ok [of start en buf 0] by (simp add: utf8_text_width_def)

section \<open>Numbers in escape sequences\<close>

definition decimal :: "u8 list \<Rightarrow> int" where
  "decimal ds = foldl (\<lambda>a c. a * 10 + (uint c - 48)) 0 ds"

definition digits_ok :: "u8 list \<Rightarrow> bool" where
  "digits_ok ds \<longleftrightarrow> (\<forall>c\<in>set ds. 48 \<le> c \<and> c \<le> 57)"

lemma digit_byte: "0 \<le> d \<Longrightarrow> d < 10 \<Longrightarrow> uint (of_int (48 + d) :: u8) = 48 + d"
  by (simp only: uint_word_of_int_eq take_bit_eq_mod) simp

lemma term_digits_ok:
  "0 \<le> v \<Longrightarrow> v < 10 ^ k \<Longrightarrow> n + k \<le> length tmp \<Longrightarrow> \<exists>ds. length ds \<le> k \<and> (0 < v \<longrightarrow> ds \<noteq> []) \<and> digits_ok ds \<and> decimal (rev ds) = v
     \<and> term_digits v n tmp = Inr (n + length ds, take n tmp @ ds @ drop (n + length ds) tmp)"
proof (induction k arbitrary: v n tmp)
  case 0
  then show ?case by (intro exI [of _ "[]"]) (simp add: term_digits.simps digits_ok_def decimal_def)
next
  case (Suc k)
  show ?case
  proof (cases "v = 0")
    case True
    then show ?thesis by (intro exI [of _ "[]"]) (simp add: term_digits.simps digits_ok_def decimal_def)
  next
    case False
    define d where "d = (of_int (48 + v mod 10) :: u8)"
    have d: "uint d = 48 + v mod 10" unfolding d_def by (rule digit_byte) simp_all
    have n: "n < length tmp" using Suc.prems by simp
    have v: "0 \<le> v div 10" "v div 10 < 10 ^ k"
      using Suc.prems(1,2) by (simp_all add: div_less_iff_less_mult pos_imp_zdiv_nonneg_iff)
    have l: "Suc n + k \<le> length (tmp[n := d])" using Suc.prems(3) by simp
    obtain ds where ds: "length ds \<le> k" "digits_ok ds" "decimal (rev ds) = v div 10"
        "term_digits (v div 10) (Suc n) (tmp[n := d]) = Inr (Suc n + length ds, take (Suc n) (tmp[n := d]) @ ds @ drop (Suc n + length ds) (tmp[n := d]))"
      using Suc.IH [OF v l] by blast
    have "term_digits v n tmp = Inr (n + length (d # ds), take n tmp @ (d # ds) @ drop (n + length (d # ds)) tmp)"
      using ds(4) Suc.prems False n unfolding d_def [symmetric] by (subst term_digits.simps) (simp add: take_Suc_conv_app_nth d_def [symmetric] del: of_int_add)
    moreover have "digits_ok (d # ds)" using ds(2) d by (simp add: digits_ok_def word_le_def)
    moreover have "decimal (rev (d # ds)) = v" using ds(3) d by (simp add: decimal_def)
    ultimately show ?thesis using ds(1) by (intro exI [of _ "d # ds"]) simp
  qed
qed

lemma term_emit_ok:
  "n \<le> length tmp \<Longrightarrow> pos + n \<le> length out \<Longrightarrow> term_emit n tmp out pos = Inr (pos + n, take pos out @ rev (take n tmp) @ drop (pos + n) out)"
proof (induction n arbitrary: out pos)
  case (Suc n)
  have "term_emit n tmp (out[pos := tmp ! n]) (Suc pos)
      = Inr (Suc pos + n, take (Suc pos) (out[pos := tmp ! n]) @ rev (take n tmp) @ drop (Suc pos + n) (out[pos := tmp ! n]))"
    using Suc.prems by (intro Suc.IH) simp_all
  then show ?case using Suc.prems by (simp add: take_Suc_conv_app_nth)
qed simp

lemma term_append_uint_ok:
  assumes "0 \<le> v" "v < 10 ^ k" "0 < k" "k \<le> length tmp" "pos + k \<le> length out"
  shows "\<exists>ds. 0 < length ds \<and> length ds \<le> k \<and> digits_ok ds \<and> decimal ds = v
    \<and> term_append_uint tmp out pos v = Inr (pos + length ds, take pos out @ ds @ drop (pos + length ds) out)"
proof (cases "v = 0")
  case True
  then show ?thesis
    using assms by (intro exI [of _ "[48]"]) (simp add: term_append_uint_def digits_ok_def decimal_def upd_conv_take_nth_drop)
next
  case False
  obtain ds where ds: "length ds \<le> k" "ds \<noteq> []" "digits_ok ds" "decimal (rev ds) = v"
      "term_digits v 0 tmp = Inr (length ds, ds @ drop (length ds) tmp)"
    using term_digits_ok [OF assms(1,2), of 0 tmp] assms False by auto
  then show ?thesis
    using assms False term_emit_ok [of "length ds" "ds @ drop (length ds) tmp" pos out]
    by (intro exI [of _ "rev ds"]) (simp add: term_append_uint_def digits_ok_def)
qed

lemma term_move_cursor_ok:
  assumes "length tmp = 12" "w < 1000"
  shows "\<exists>bs. term_move_cursor tmp dir w = Inr bs"
proof (cases "w \<le> 0")
  case False
  obtain ds where "length ds \<le> 3" "term_append_uint tmp ((replicate 16 0)[0 := 0x1B, 1 := 91]) 2 w
      = Inr (2 + length ds, take 2 ((replicate 16 0)[0 := 0x1B, 1 := 91]) @ ds @ drop (2 + length ds) ((replicate 16 0)[0 := 0x1B, 1 := 91]))"
    using term_append_uint_ok [of w 3 tmp 2 "(replicate 16 0)[0 := 0x1B, 1 := 91]"] assms False by auto
  then show ?thesis using False by (simp add: term_move_cursor_def Let_def)
qed (simp add: term_move_cursor_def)

section \<open>Encoding\<close>

text \<open>The encoding of a code point, as the Unicode standard defines it.\<close>

definition utf8_cont_byte :: "nat \<Rightarrow> u32 \<Rightarrow> u8" where
  "utf8_cont_byte k r = 0x80 OR (ucast (drop_bit k r) AND 0x3F)"

definition utf8_encode :: "u32 \<Rightarrow> u8 list" where
  "utf8_encode r =
     (if r < 0x80 then [ucast r]
      else if r < 0x800 then [0xC0 OR ucast (drop_bit 6 r), utf8_cont_byte 0 r]
      else if r < 0x10000 then [0xE0 OR ucast (drop_bit 12 r), utf8_cont_byte 6 r, utf8_cont_byte 0 r]
      else [0xF0 OR ucast (drop_bit 18 r), utf8_cont_byte 12 r, utf8_cont_byte 6 r, utf8_cont_byte 0 r])"

lemma lead_bytes:
  "((0xC0 OR x) AND 0x1F :: u8) = x AND mask 5" "((0xE0 OR x) AND 0x0F :: u8) = x AND mask 4" "((0xF0 OR x) AND 0x07 :: u8) = x AND mask 3"
  "((0x80 OR x) AND 0x3F :: u8) = x AND mask 6"
  by (simp_all add: bit.conj_disj_distrib2 mask_eq_exp_minus_1)

lemma cont_byte_facts: "utf8_cont (utf8_cont_byte k r)" "utf8_cont_byte k r AND 0x3F = ucast (drop_bit k r) AND mask 6"
proof -
  have "x AND 0x3F AND 0xC0 = (0 :: u8)" for x by (simp add: and.assoc)
  then show "utf8_cont (utf8_cont_byte k r)" "utf8_cont_byte k r AND 0x3F = ucast (drop_bit k r) AND mask 6"
    by (simp_all add: utf8_cont_byte_def utf8_cont_def bit.conj_disj_distrib2 and.assoc mask_eq_exp_minus_1)
qed

lemma high_bits:
  assumes "unat r < 2 ^ k" "k \<le> n"
  shows "\<not> bit (r :: u32) n"
proof -
  have "drop_bit k r = 0" using assms(1) by (intro word_eq_of_unat) (simp add: unat_drop_bit_div)
  then have "\<not> bit (drop_bit k r) (n - k)" by simp
  then show ?thesis using assms(2) by (simp add: bit_drop_bit_eq)
qed

lemma decode2:
  assumes "r < 0x800"
  shows "push_bit 6 (ucast (ucast (drop_bit 6 r) AND mask 5 :: u8)) OR ucast (ucast (drop_bit 0 r) AND mask 6 :: u8) = (r :: u32)" (is "?l = r")
proof (rule bit_word_eqI)
  fix n assume "n < LENGTH(32)"
  then show "bit ?l n = bit r n"
    using high_bits [of r 11 n] assms by (cases "n < 11") (auto simp: word_less_nat_alt bit_simps)
qed

lemma decode3:
  assumes "r < 0x10000"
  shows "push_bit 6 (push_bit 6 (ucast (ucast (drop_bit 12 r) AND mask 4 :: u8)) OR ucast (ucast (drop_bit 6 r) AND mask 6 :: u8))
    OR ucast (ucast (drop_bit 0 r) AND mask 6 :: u8) = (r :: u32)" (is "?l = r")
proof (rule bit_word_eqI)
  fix n assume "n < LENGTH(32)"
  then show "bit ?l n = bit r n"
    using high_bits [of r 16 n] assms 
    by (cases "n < 16"; cases "n < 6"; cases "n < 12"; cases "n < 18") (auto simp: word_less_nat_alt bit_simps)
qed

lemma decode4:
  assumes "r < 0x200000"
  shows "push_bit 6 (push_bit 6 (push_bit 6 (ucast (ucast (drop_bit 18 r) AND mask 3 :: u8)) OR ucast (ucast (drop_bit 12 r) AND mask 6 :: u8))
    OR ucast (ucast (drop_bit 6 r) AND mask 6 :: u8)) OR ucast (ucast (drop_bit 0 r) AND mask 6 :: u8) = (r :: u32)" (is "?l = r")
proof (rule bit_word_eqI)
  fix n assume "n < LENGTH(32)"
  then show "bit ?l n = bit r n"
    using high_bits [of r 21 n] assms 
    by (cases "n < 21"; cases "n < 6"; cases "n < 12"; cases "n < 18") (auto simp: word_less_nat_alt bit_simps)
qed

lemma byte_sign: "(u :: u8) < 0x80 \<longleftrightarrow> u AND 0x80 = 0"
proof -
  have "bit u 7 \<longleftrightarrow> odd (unat u div 2 ^ 7)" using bit_unsigned_iff [of u 7, where 'a = nat] by (simp add: bit_iff_odd)
  moreover have "unat u div 128 = (if unat u < 128 then 0 else 1)" using unat_lt8 [of u] by auto
  ultimately have "u < 0x80 \<longleftrightarrow> \<not> bit u 7" by (simp add: word_less_nat_alt)
  moreover have "u AND 0x80 = 0 \<longleftrightarrow> \<not> bit u 7" using bit_iff_and_push_bit_not_eq_0 [of u 7] by simp
  ultimately show ?thesis by simp
qed

lemma lead_and: "y AND M = 0 \<Longrightarrow> M AND N = N \<Longrightarrow> (b OR y) AND N = b AND (N :: u8)"
proof -
  assume a: "y AND M = 0" and b: "M AND N = N"
  have "y AND N = (y AND M) AND N" by (simp only: and.assoc b)
  then show ?thesis by (simp add: a bit.conj_disj_distrib2)
qed

lemma lead_bits:
  assumes "unat (r :: u32) < 2 ^ (k + j)"
  shows "(ucast (drop_bit k r) :: u8) AND NOT (mask j) = 0"
proof (rule bit_word_eqI)
  fix n assume "n < LENGTH(8)"
  then show "bit ((ucast (drop_bit k r) :: u8) AND NOT (mask j)) n = bit (0 :: u8) n"
    using high_bits [OF assms, of "k + n"] by (cases "j \<le> n") (auto simp: bit_simps)
qed

lemma lead_high:
  fixes r :: u32
  shows "r < 0x800 \<Longrightarrow> (ucast (drop_bit 6 r) :: u8) AND 0xE0 = 0" "r < 0x10000 \<Longrightarrow> (ucast (drop_bit 12 r) :: u8) AND 0xF0 = 0"
    "r < 0x200000 \<Longrightarrow> (ucast (drop_bit 18 r) :: u8) AND 0xF8 = 0"
proof -
  have m: "(0xE0 :: u8) = NOT (mask 5)" "(0xF0 :: u8) = NOT (mask 4)" "(0xF8 :: u8) = NOT (mask 3)"
    by (simp_all add: mask_eq_exp_minus_1 not_eq_complement)
  show "r < 0x800 \<Longrightarrow> (ucast (drop_bit 6 r) :: u8) AND 0xE0 = 0" "r < 0x10000 \<Longrightarrow> (ucast (drop_bit 12 r) :: u8) AND 0xF0 = 0"
    "r < 0x200000 \<Longrightarrow> (ucast (drop_bit 18 r) :: u8) AND 0xF8 = 0"
    unfolding m by (rule lead_bits, simp add: word_less_nat_alt)+
qed

lemma encode_lead:
  assumes "r < 0x200000"
  shows "\<not> utf8_cont (utf8_encode r ! 0)" "utf8_input_len (utf8_encode r ! 0) = length (utf8_encode r)"
proof -
  consider "r < 0x80" | "\<not> r < 0x80" "r < 0x800" | "\<not> r < 0x800" "\<not> r < 0x80" "r < 0x10000" | "\<not> r < 0x10000" "\<not> r < 0x800" "\<not> r < 0x80" by force
  then have "\<not> utf8_cont (utf8_encode r ! 0) \<and> utf8_input_len (utf8_encode r ! 0) = length (utf8_encode r)"
  proof cases
    case 1
    then have u: "(ucast r :: u8) < 0x80" by (simp add: word_less_nat_alt unsigned_ucast_eq take_bit_nat_eq_self)
    then have z: "(ucast r :: u8) AND 0x80 = 0" by (simp add: byte_sign)
    have "(ucast r :: u8) AND 0xC0 \<noteq> 0x80"
    proof
      assume "(ucast r :: u8) AND 0xC0 = 0x80"
      then have "((ucast r :: u8) AND 0xC0) AND 0x80 = 0x80" by (simp only:) simp
      then show False using z by (simp add: and.assoc)
    qed
    then show ?thesis using 1 u by (simp add: utf8_encode_def utf8_cont_def utf8_input_len_def)
  next
    case 2
    note l = lead_and [OF lead_high(1) [OF 2(2)]]
    show ?thesis using 2 by (simp add: utf8_encode_def utf8_cont_def utf8_input_len_def byte_sign l)
  next
    case 3
    note l = lead_and [OF lead_high(2) [OF 3(3)]]
    show ?thesis using 3 by (simp add: utf8_encode_def utf8_cont_def utf8_input_len_def byte_sign l)
  next
    case 4
    note l = lead_and [OF lead_high(3) [OF assms]]
    show ?thesis using 4 by (simp add: utf8_encode_def utf8_cont_def utf8_input_len_def byte_sign l)
  qed
  then show "\<not> utf8_cont (utf8_encode r ! 0)" "utf8_input_len (utf8_encode r ! 0) = length (utf8_encode r)" by auto
qed

lemma encode_conts: "0 < i \<Longrightarrow> i < length (utf8_encode r) \<Longrightarrow> utf8_cont (utf8_encode r ! i)"
  by (auto simp: utf8_encode_def cont_byte_facts less_Suc_eq numeral_2_eq_2 numeral_3_eq_3 numeral_eq_Suc)

lemma encode_length: "Suc 0 \<le> length (utf8_encode r)" "length (utf8_encode r) \<le> 4"
  by (simp_all add: utf8_encode_def)

lemma decode_encode:
  assumes "r < 0x200000"
  shows "u_utf8_decode (pre @ utf8_encode r @ post) (length pre) (length pre + length (utf8_encode r)) = Inr r"
proof -
  have n: "(pre @ xs @ post) ! (length pre + i) = xs ! i" if "i < length xs" for xs i using that by (simp add: nth_append)
  have n1: "(pre @ xs @ post) ! Suc (length pre) = xs ! 1" "(pre @ xs @ post) ! Suc (Suc (length pre)) = xs ! 2"
    "(pre @ xs @ post) ! Suc (Suc (Suc (length pre))) = xs ! 3" if "3 < length xs" for xs
    using that n [of 1 xs] n [of 2 xs] n [of 3 xs] by (simp_all add: numeral_eq_Suc)
  consider "r < 0x80" | "\<not> r < 0x80" "r < 0x800" | "\<not> r < 0x800" "\<not> r < 0x80" "r < 0x10000" | "\<not> r < 0x10000" "\<not> r < 0x800" "\<not> r < 0x80" by force
  then show ?thesis
  proof cases
    case 1
    then have "(ucast (ucast r :: u8) :: u32) = r"
      by (intro bit_word_eqI) (use high_bits [of r 7] in \<open>auto simp: bit_simps word_less_nat_alt intro: ccontr\<close>)
    then show ?thesis using 1 by (simp add: utf8_encode_def u_utf8_decode_def)
  next
    case 2
    then show ?thesis using decode2 [OF 2(2)] by (simp add: utf8_encode_def u_utf8_decode_def lead_bytes cont_byte_facts nth_append)
  next
    case 3
    then show ?thesis using decode3 [OF 3(3)]
      by (simp add: utf8_encode_def u_utf8_decode_def lead_bytes cont_byte_facts nth_append upt_conv_Cons)
  next
    case 4
    then show ?thesis using decode4 [OF assms]
      by (simp add: utf8_encode_def u_utf8_decode_def lead_bytes cont_byte_facts nth_append upt_conv_Cons)
  qed
qed

section \<open>Properties\<close>

text \<open>
  C28: the character routines agree with the encoding of the Unicode standard.  Wherever the encoding of
  a code point stands in a buffer and no continuation byte follows, the first byte tells how many
  bytes the shell has to read, \<^verbatim>\<open>utf8_next\<close> steps from its start to its end, \<^verbatim>\<open>utf8_prev\<close> back from its end to
  its start, and \<^verbatim>\<open>u_utf8_decode\<close> yields the code point.\<close>

theorem utf8_roundtrip:
  assumes "r < 0x110000" "post = [] \<or> \<not> utf8_cont (post ! 0)"
  shows "utf8_input_len (utf8_encode r ! 0) = length (utf8_encode r)
    \<and> utf8_next (pre @ utf8_encode r @ post) (length pre) (length (pre @ utf8_encode r @ post)) = Inr (length pre + length (utf8_encode r))
    \<and> utf8_prev (pre @ utf8_encode r @ post) (length pre + length (utf8_encode r)) = Inr (length pre)
    \<and> u_utf8_decode (pre @ utf8_encode r @ post) (length pre) (length pre + length (utf8_encode r)) = Inr r"
proof -
  let ?e = "utf8_encode r" let ?b = "pre @ ?e @ post" and ?p = "length pre"
  have r: "r < 0x200000" using assms(1) by (rule less_trans) simp
  note l = encode_length [of r] and lead = encode_lead [OF r]
  have ne: "?e \<noteq> []" using l by auto
  have c: "utf8_cont (?b ! i)" if "?p < i" "i < ?p + length ?e" for i
    using that encode_conts [of "i - ?p" r] by (auto simp: nth_append)
  have b0: "\<not> utf8_cont (?b ! ?p)" using lead(1) l by (cases ?e) (simp_all add: nth_append)
  have e: "?p + length ?e = length ?b \<or> \<not> utf8_cont (?b ! (?p + length ?e))" using assms(2) by (auto simp: nth_append)
  have "utf8_next_loop ?b (length ?b) (Suc ?p) = Inr (?p + length ?e)"
    by (rule next_loop_run [OF _ _ _ _ e]) (use c l in simp_all)
  moreover have "utf8_prev_loop ?b (?p + length ?e - 1) = Inr ?p"
    using c l b0 by (intro prev_loop_run) auto
  ultimately show ?thesis using lead(2) decode_encode [OF r, of pre post] ne by (simp add: utf8_next_def utf8_prev_def)
qed

theorem utf8_roundtrip_witness:
  "utf8_next [0x61, 0xE4, 0xBD, 0xA0, 0x62] 1 5 = Inr 4 \<and> u_utf8_decode [0x61, 0xE4, 0xBD, 0xA0, 0x62] 1 4 = Inr 0x4F60"
proof -
  have e: "utf8_encode 0x4F60 = [0xE4, 0xBD, 0xA0]" by (simp add: utf8_encode_def utf8_cont_byte_def)
  have n: "(4 :: nat) = Suc (Suc (Suc (Suc 0)))" "(5 :: nat) = Suc (Suc (Suc (Suc (Suc 0))))" by simp_all
  show ?thesis using utf8_roundtrip [where r = "0x4F60" and pre = "[0x61]" and post = "[0x62]"] unfolding e n by (simp add: utf8_cont_def)
qed

end
