(* ===== verification/Shell.thy ===== *)
theory Shell
  imports Utf8
begin

text \<open>
  The shell, \<^verbatim>\<open>user/bin/sh.c\<close>: the line editor with its history and name completion, the splitting of a
  line into arguments and the command loop.  The state of a run is what is still to come on standard
  input, the system calls made so far, and the two globals \<^verbatim>\<open>history\<close> and \<^verbatim>\<open>nhistory\<close>.  The line being
  edited, \<^verbatim>\<open>buf\<close>, \<^verbatim>\<open>len\<close>, \<^verbatim>\<open>cursor\<close> and the other locals of \<^verbatim>\<open>getcmd\<close>, is a record of its own.  \<open>J\<close> is what the
  stack holds where local arrays are not initialised.  \<^verbatim>\<open>panic\<close> ends the program: it is \<open>Panic\<close>.
\<close>

section \<open>State\<close>

datatype uev = Write int "u8 list" | Consolemode int | Run "u8 list list" | Wait

record shell =
  sh_in :: "u8 list"
  sh_out :: "uev list"
  sh_history :: "u8 list list"
  nhistory :: nat

record line =
  l_buf :: "u8 list"
  l_len :: nat
  l_cursor :: nat
  l_hpos :: nat
  l_saved :: bool
  l_draft :: "u8 list"

definition MAXARGS :: nat where "MAXARGS = 10"
definition HISTSIZE :: nat where "HISTSIZE = 16"

type_synonym dirents = "(u16 \<times> u8 list) list option"

definition stack :: "(nat \<Rightarrow> u8) \<Rightarrow> nat \<Rightarrow> u8 list" where
  "stack J n = map J [0..<n]"

definition emit :: "uev \<Rightarrow> shell \<Rightarrow> shell" where
  "emit e sh = sh\<lparr>sh_out := sh_out sh @ [e]\<rparr>"

text \<open>\<^verbatim>\<open>write(2, buf + off, n)\<close>; \<^verbatim>\<open>term_move_cursor\<close> does not write when there is nothing to move.\<close>

definition write2 :: "u8 list \<Rightarrow> nat \<Rightarrow> nat \<Rightarrow> shell \<Rightarrow> shell res" where
  "write2 buf off n sh = (if off + n \<le> length buf then Inr (emit (Write 2 (take n (drop off buf))) sh) else Inl BadAccess)"

definition move_cursor :: "(nat \<Rightarrow> u8) \<Rightarrow> u8 \<Rightarrow> nat \<Rightarrow> shell \<Rightarrow> shell res" where
  "move_cursor J dir w sh = rbind (term_move_cursor (stack J 12) dir (int w)) (\<lambda>bs.
     Inr (if bs = [] then sh else emit (Write 2 bs) sh))"

text \<open>\<^verbatim>\<open>read(0, &c, 1)\<close>: \<open>None\<close> at the end of the input.\<close>

definition read1 :: "shell \<Rightarrow> u8 option \<times> shell" where
  "read1 sh = (case sh_in sh of [] \<Rightarrow> (None, sh) | c # cs \<Rightarrow> (Some c, sh\<lparr>sh_in := cs\<rparr>))"

section \<open>Characters\<close>

definition command_char :: "u8 \<Rightarrow> bool" where
  "command_char c \<longleftrightarrow> c \<noteq> 0 \<and> c \<noteq> 32 \<and> c \<noteq> 9 \<and> c \<noteq> 13 \<and> c \<noteq> 10"

definition blank_char :: "u8 \<Rightarrow> bool" where
  "blank_char c \<longleftrightarrow> c = 32 \<or> c = 9 \<or> c = 13 \<or> c = 10"

definition quote_char :: "u8 \<Rightarrow> bool" where
  "quote_char c \<longleftrightarrow> c = 39 \<or> c = 34"

section \<open>Drawing\<close>

definition redraw :: "(nat \<Rightarrow> u8) \<Rightarrow> u8 list \<Rightarrow> nat \<Rightarrow> nat \<Rightarrow> shell \<Rightarrow> shell res" where
  "redraw J buf len cursor sh =
     rbind (utf8_text_width buf cursor len) (\<lambda>tail.
     rbind (blit (stack J 140) 0 [13, 0x1B, 91, 50, 75, 36, 32] 0 7) (\<lambda>out.
     rbind (blit out 7 buf 0 len) (\<lambda>out.
     rbind (if tail > 0
            then rbind (wr out (7 + len) 0x1B) (\<lambda>out. rbind (wr out (8 + len) 91) (\<lambda>out.
                 rbind (term_append_uint (stack J 12) out (9 + len) (int tail)) (\<lambda>(n, out).
                 rbind (wr out n 68) (\<lambda>out. Inr (n + 1, out)))))
            else Inr (7 + len, out)) (\<lambda>(n, out).
     write2 out 0 n sh))))"

definition redraw_from :: "(nat \<Rightarrow> u8) \<Rightarrow> u8 list \<Rightarrow> nat \<Rightarrow> nat \<Rightarrow> shell \<Rightarrow> shell res" where
  "redraw_from J buf len cursor sh =
     rbind (utf8_text_width buf cursor len) (\<lambda>tail.
     rbind (write2 buf cursor (len - cursor) sh) (\<lambda>sh.
     move_cursor J 68 tail (emit (Write 2 term_clear_eol) sh)))"

section \<open>Editing the line\<close>

definition insert_bytes :: "line \<Rightarrow> nat \<Rightarrow> u8 list \<Rightarrow> nat \<Rightarrow> (nat \<times> line) res" where
  "insert_bytes l nbuf s n =
     (let buf = l_buf l; len = l_len l; cursor = l_cursor l in
      if len + n \<ge> nbuf then Inr (0, l)
      else rbind (blit buf (cursor + n) buf cursor (len - cursor)) (\<lambda>buf.
           rbind (blit buf cursor s 0 n) (\<lambda>buf.
           let len = len + n; cursor = cursor + n in
           rbind (wr buf len 0) (\<lambda>buf. Inr (n, l\<lparr>l_buf := buf, l_len := len, l_cursor := cursor\<rparr>)))))"

definition delete_range :: "line \<Rightarrow> nat \<Rightarrow> nat \<Rightarrow> line res" where
  "delete_range l start en =
     (let buf = l_buf l; len = l_len l in
      rbind (blit buf start buf en (len - en)) (\<lambda>buf.
      let len = len - (en - start); cursor = (if l_cursor l > len then len else l_cursor l) in
      rbind (wr buf len 0) (\<lambda>buf. Inr (l\<lparr>l_buf := buf, l_len := len, l_cursor := cursor\<rparr>))))"

definition set_line :: "line \<Rightarrow> u8 list \<Rightarrow> nat \<Rightarrow> line res" where
  "set_line l src nbuf =
     rbind (u_strlen src) (\<lambda>n.
     let len = (if n \<ge> nbuf then nbuf - 1 else n) in
     rbind (blit (l_buf l) 0 src 0 len) (\<lambda>buf.
     rbind (wr buf len 0) (\<lambda>buf. Inr (l\<lparr>l_buf := buf, l_len := len, l_cursor := len\<rparr>))))"

section \<open>History\<close>

fun blank_from :: "u8 list \<Rightarrow> nat list \<Rightarrow> bool res" where
  "blank_from buf [] = Inr True"
| "blank_from buf (i # is) = rbind (rd buf i) (\<lambda>c. if c \<noteq> 32 \<and> c \<noteq> 9 then Inr False else blank_from buf is)"

definition blank_line :: "u8 list \<Rightarrow> nat \<Rightarrow> bool res" where
  "blank_line buf len = blank_from buf [0..<len]"

text \<open>The row of the history array an index names.\<close>

definition row :: "u8 list list \<Rightarrow> nat \<Rightarrow> u8 list res" where
  "row h i = (if i < length h then Inr (h ! i) else Inl BadAccess)"

definition same_line :: "u8 list \<Rightarrow> u8 list \<Rightarrow> nat \<Rightarrow> bool res" where
  "same_line h buf len = rbind (u_strlen h) (\<lambda>n.
     if n = len then if len \<le> length h \<and> len \<le> length buf then Inr (u_memcmp (nth h) (nth buf) len = 0) else Inl BadAccess
     else Inr False)"

definition save_history :: "u8 list \<Rightarrow> nat \<Rightarrow> shell \<Rightarrow> shell res" where
  "save_history buf len sh =
     rbind (if len > 0 then rbind (rd buf (len - 1)) (\<lambda>c. Inr (if c = 10 then len - 1 else len)) else Inr len) (\<lambda>len.
     rbind (if len = 0 then Inr True else blank_line buf len) (\<lambda>blank.
     if blank then Inr sh
     else rbind (if nhistory sh > 0 then rbind (row (sh_history sh) (nhistory sh - 1)) (\<lambda>h. same_line h buf len) else Inr False) (\<lambda>same.
     if same then Inr sh
     else rbind (if nhistory sh = HISTSIZE
                 then rbind (rfold (\<lambda>i h. rbind (row h (i - 1)) (\<lambda>d. rbind (row h i) (\<lambda>s. rbind (u_strcpy d s) (\<lambda>d. Inr (h[i - 1 := d])))))
                        [1..<HISTSIZE] (sh_history sh)) (\<lambda>h. Inr (sh\<lparr>sh_history := h, nhistory := nhistory sh - 1\<rparr>))
                 else Inr sh) (\<lambda>sh.
     rbind (row (sh_history sh) (nhistory sh)) (\<lambda>h.
     rbind (blit h 0 buf 0 len) (\<lambda>h. rbind (wr h len 0) (\<lambda>h.
     Inr (sh\<lparr>sh_history := (sh_history sh)[nhistory sh := h], nhistory := nhistory sh + 1\<rparr>))))))))"

section \<open>Completing a name\<close>

text \<open>
  A name in a directory entry has at most 14 bytes (\<^verbatim>\<open>DIRSIZ\<close>) and may fill its field; \<^verbatim>\<open>direntname\<close> copies
  it to an array of 15 and adds the NUL.
\<close>

fun direntname_loop :: "nat \<Rightarrow> u8 list \<Rightarrow> u8 list \<Rightarrow> u8 list res" where
  "direntname_loop i [] name = wr name i 0"
| "direntname_loop i (c # cs) name =
     (if i < 14 \<and> c \<noteq> 0 then rbind (wr name i c) (direntname_loop (Suc i) cs) else wr name i 0)"

definition direntname :: "u8 list \<Rightarrow> u8 list \<Rightarrow> u8 list res" where
  "direntname de name = direntname_loop 0 de name"

definition dot_name :: "u8 list" where "dot_name = [46, 0]"
definition console_name :: "u8 list" where "console_name = [99, 111, 110, 115, 111, 108, 101, 0]"

definition file_entry :: "u8 list \<Rightarrow> bool res" where
  "file_entry name = rbind (u_strcmp name dot_name) (\<lambda>a. if a = 0 then Inr False
     else rbind (u_strcmp name console_name) (\<lambda>b. Inr (b \<noteq> 0)))"

definition command_entry :: "u8 list \<Rightarrow> bool res" where
  "command_entry name = rbind (u_strcmp name dot_name) (\<lambda>a. if a = 0 then Inr False
     else rbind (u_strcmp name console_name) (\<lambda>b. if b = 0 then Inr False
     else rbind (u_strchr name 46) (\<lambda>r. Inr (r = None))))"

fun match_from :: "u8 list \<Rightarrow> u8 list \<Rightarrow> nat list \<Rightarrow> bool res" where
  "match_from name prefix [] = Inr True"
| "match_from name prefix (i # is) = rbind (rd name i) (\<lambda>c. rbind (rd prefix i) (\<lambda>d.
     if c \<noteq> d then Inr False else match_from name prefix is))"

definition match_prefix :: "u8 list \<Rightarrow> u8 list \<Rightarrow> int \<Rightarrow> bool res" where
  "match_prefix name prefix n = match_from name prefix [0..<nat n]"

fun token_start :: "u8 list \<Rightarrow> nat \<Rightarrow> nat res" where
  "token_start buf 0 = Inr 0"
| "token_start buf (Suc k) = rbind (rd buf k) (\<lambda>c. if \<not> blank_char c then token_start buf k else Inr (Suc k))"

fun first_from :: "u8 list \<Rightarrow> nat list \<Rightarrow> bool res" where
  "first_from buf [] = Inr True"
| "first_from buf (i # is) = rbind (rd buf i) (\<lambda>c. if command_char c then Inr False else first_from buf is)"

definition first_token :: "u8 list \<Rightarrow> nat \<Rightarrow> bool res" where
  "first_token buf start = first_from buf [0..<start]"

fun has_slash :: "u8 list \<Rightarrow> nat list \<Rightarrow> bool res" where
  "has_slash buf [] = Inr False"
| "has_slash buf (i # is) = rbind (rd buf i) (\<lambda>c. if c = 47 then Inr True else has_slash buf is)"

text \<open>The loop over the directory, with the arrays \<^verbatim>\<open>name\<close> and \<^verbatim>\<open>match\<close> and the count \<^verbatim>\<open>matches\<close>.\<close>

fun scan_dir :: "bool \<Rightarrow> u8 list \<Rightarrow> int \<Rightarrow> (u16 \<times> u8 list) list \<Rightarrow> u8 list \<Rightarrow> u8 list \<Rightarrow> nat \<Rightarrow> (u8 list \<times> nat) res" where
  "scan_dir command prefix token_len [] name match matches = Inr (match, matches)"
| "scan_dir command prefix token_len ((inum, de) # ds) name match matches =
     (if inum = 0 then scan_dir command prefix token_len ds name match matches
      else rbind (direntname de name) (\<lambda>name.
           rbind (if command then command_entry name else file_entry name) (\<lambda>ok.
           if \<not> ok then scan_dir command prefix token_len ds name match matches
           else rbind (match_prefix name prefix token_len) (\<lambda>m.
           if \<not> m then scan_dir command prefix token_len ds name match matches
           else rbind (u_strcpy match name) (\<lambda>match.
           scan_dir command prefix token_len ds name match (matches + 1))))))"

definition complete_token :: "(nat \<Rightarrow> u8) \<Rightarrow> dirents \<Rightarrow> line \<Rightarrow> nat \<Rightarrow> (nat \<times> line) res" where
  "complete_token J dir l nbuf =
     (let buf = l_buf l; len = l_len l; cursor = l_cursor l in
      rbind (if cursor < len then rbind (rd buf cursor) (\<lambda>c. Inr (\<not> blank_char c \<and> \<not> quote_char c)) else Inr False) (\<lambda>inside.
      if inside then Inr (0, l)
      else rbind (token_start buf cursor) (\<lambda>start.
      rbind (rd buf start) (\<lambda>q.
      rbind (if quote_char q
             then if cursor < len then rbind (rd buf cursor) (\<lambda>c. Inr (start + 1, c \<noteq> q)) else Inr (start + 1, False)
             else Inr (start, False)) (\<lambda>(prefix_start, other).
      if other then Inr (0, l)
      else let token_len = int cursor - int prefix_start in
      rbind (first_token buf start) (\<lambda>command.
      if token_len \<ge> 14 then Inr (0, l)
      else rbind (has_slash buf [prefix_start..<cursor]) (\<lambda>slash.
      if slash then Inr (0, l)
      else (case dir of None \<Rightarrow> Inr (0, l)
        | Some ds \<Rightarrow>
            rbind (scan_dir command (drop prefix_start buf) token_len ds (stack J 15) (stack J 15) 0) (\<lambda>(match, matches).
            if matches = 1
            then if token_len < 0 then Inl BadAccess
                 else let suffix = drop (nat token_len) match in
                      rbind (u_strlen suffix) (\<lambda>n. insert_bytes l nbuf suffix n)
            else Inr (0, l))))))))))"

section \<open>Reading a line\<close>

text \<open>What a key does to \<^verbatim>\<open>getcmd\<close>: it goes round the loop again, leaves the loop, or returns -1.\<close>

datatype key = Again line shell | Enter line shell | Quit shell

text \<open>The keys that send escape sequences: up, down, right, left and delete.\<close>

definition getcmd_up :: "(nat \<Rightarrow> u8) \<Rightarrow> nat \<Rightarrow> line \<Rightarrow> shell \<Rightarrow> key res" where
  "getcmd_up J nbuf l sh =
     (if l_hpos l > 0 then
        rbind (if \<not> l_saved l
               then rbind (blit (l_draft l) 0 (l_buf l) 0 (l_len l)) (\<lambda>d. rbind (wr d (l_len l) 0) (\<lambda>d.
                    Inr (l\<lparr>l_draft := d, l_saved := True\<rparr>)))
               else Inr l) (\<lambda>l.
        let l = l\<lparr>l_hpos := l_hpos l - 1\<rparr> in
        rbind (row (sh_history sh) (l_hpos l)) (\<lambda>h. rbind (set_line l h nbuf) (\<lambda>l.
        rbind (redraw J (l_buf l) (l_len l) (l_cursor l) sh) (\<lambda>sh. Inr (Again l sh)))))
      else Inr (Again l sh))"

definition getcmd_down :: "(nat \<Rightarrow> u8) \<Rightarrow> nat \<Rightarrow> line \<Rightarrow> shell \<Rightarrow> key res" where
  "getcmd_down J nbuf l sh =
     (if l_hpos l < nhistory sh then
        let l = l\<lparr>l_hpos := l_hpos l + 1\<rparr> in
        rbind (if l_hpos l = nhistory sh then set_line l (l_draft l) nbuf
               else rbind (row (sh_history sh) (l_hpos l)) (\<lambda>h. set_line l h nbuf)) (\<lambda>l.
        rbind (redraw J (l_buf l) (l_len l) (l_cursor l) sh) (\<lambda>sh. Inr (Again l sh)))
      else Inr (Again l sh))"

definition getcmd_right :: "(nat \<Rightarrow> u8) \<Rightarrow> line \<Rightarrow> shell \<Rightarrow> key res" where
  "getcmd_right J l sh =
     rbind (utf8_next (l_buf l) (l_cursor l) (l_len l)) (\<lambda>next.
     rbind (utf8_text_width (l_buf l) (l_cursor l) next) (\<lambda>w.
     rbind (move_cursor J 67 w sh) (\<lambda>sh. Inr (Again (l\<lparr>l_cursor := next\<rparr>) sh))))"

definition getcmd_left :: "(nat \<Rightarrow> u8) \<Rightarrow> line \<Rightarrow> shell \<Rightarrow> key res" where
  "getcmd_left J l sh =
     rbind (utf8_prev (l_buf l) (l_cursor l)) (\<lambda>prev.
     rbind (utf8_text_width (l_buf l) prev (l_cursor l)) (\<lambda>w.
     rbind (move_cursor J 68 w sh) (\<lambda>sh. Inr (Again (l\<lparr>l_cursor := prev\<rparr>) sh))))"

definition getcmd_delete :: "(nat \<Rightarrow> u8) \<Rightarrow> line \<Rightarrow> shell \<Rightarrow> key res" where
  "getcmd_delete J l sh =
     (case read1 sh of (None, sh) \<Rightarrow> Inr (Again l sh) | (Some s2, sh) \<Rightarrow>
      if s2 = 126 \<and> l_cursor l < l_len l then
        rbind (utf8_next (l_buf l) (l_cursor l) (l_len l)) (\<lambda>next.
        rbind (delete_range l (l_cursor l) next) (\<lambda>l.
        rbind (redraw_from J (l_buf l) (l_len l) (l_cursor l) sh) (\<lambda>sh. Inr (Again l sh))))
      else Inr (Again l sh))"

text \<open>An escape sequence, after its first byte.\<close>

definition getcmd_esc :: "(nat \<Rightarrow> u8) \<Rightarrow> nat \<Rightarrow> line \<Rightarrow> shell \<Rightarrow> key res" where
  "getcmd_esc J nbuf l sh =
     (case read1 sh of (None, sh) \<Rightarrow> Inr (Again l sh) | (Some s0, sh) \<Rightarrow>
      case read1 sh of (None, sh) \<Rightarrow> Inr (Again l sh) | (Some s1, sh) \<Rightarrow>
      if s0 = 91 \<and> s1 = 65 then getcmd_up J nbuf l sh
      else if s0 = 91 \<and> s1 = 66 then getcmd_down J nbuf l sh
      else if s0 = 91 \<and> s1 = 67 then getcmd_right J l sh
      else if s0 = 91 \<and> s1 = 68 then getcmd_left J l sh
      else if s0 = 91 \<and> s1 = 51 then getcmd_delete J l sh
      else Inr (Again l sh))"

text \<open>The bytes of one character: the rest of its \<open>n\<close> bytes are read after the first.\<close>

fun read_more :: "nat \<Rightarrow> u8 list \<Rightarrow> shell \<Rightarrow> u8 list \<times> shell" where
  "read_more 0 input sh = (input, sh)"
| "read_more (Suc n) input sh = (case read1 sh of (None, sh) \<Rightarrow> (input, sh) | (Some c, sh) \<Rightarrow> read_more n (input @ [c]) sh)"

definition getcmd_tab :: "(nat \<Rightarrow> u8) \<Rightarrow> dirents \<Rightarrow> nat \<Rightarrow> line \<Rightarrow> shell \<Rightarrow> key res" where
  "getcmd_tab J dir nbuf l sh =
     (let old_cursor = l_cursor l; old_len = l_len l in
      rbind (complete_token J dir l nbuf) (\<lambda>(n, l).
      if n > 0 then
        rbind (if old_cursor = old_len then write2 (l_buf l) old_cursor n sh
               else redraw J (l_buf l) (l_len l) (l_cursor l) sh) (\<lambda>sh. Inr (Again l sh))
      else Inr (Again l sh)))"

definition getcmd_erase :: "(nat \<Rightarrow> u8) \<Rightarrow> line \<Rightarrow> shell \<Rightarrow> key res" where
  "getcmd_erase J l sh =
     (if l_cursor l > 0 then
        rbind (utf8_prev (l_buf l) (l_cursor l)) (\<lambda>start.
        rbind (utf8_text_width (l_buf l) start (l_cursor l)) (\<lambda>width.
        rbind (delete_range l start (l_cursor l)) (\<lambda>l.
        let l = l\<lparr>l_cursor := start\<rparr> in
        rbind (move_cursor J 68 width sh) (\<lambda>sh.
        rbind (redraw_from J (l_buf l) (l_len l) (l_cursor l) sh) (\<lambda>sh. Inr (Again l sh))))))
      else Inr (Again l sh))"

definition getcmd_text :: "(nat \<Rightarrow> u8) \<Rightarrow> nat \<Rightarrow> u8 \<Rightarrow> line \<Rightarrow> shell \<Rightarrow> key res" where
  "getcmd_text J nbuf c l sh =
     (let old_cursor = l_cursor l; old_len = l_len l; (input, sh) = read_more (utf8_input_len c - 1) [c] sh; n = length input in
      rbind (insert_bytes l nbuf input n) (\<lambda>(k, l).
      if k > 0 then
        rbind (if old_cursor = old_len then write2 input 0 n sh
               else redraw J (l_buf l) (l_len l) (l_cursor l) sh) (\<lambda>sh. Inr (Again l sh))
      else Inr (Again l sh)))"

definition getcmd_key :: "(nat \<Rightarrow> u8) \<Rightarrow> dirents \<Rightarrow> nat \<Rightarrow> u8 \<Rightarrow> line \<Rightarrow> shell \<Rightarrow> key res" where
  "getcmd_key J dir nbuf c l sh =
     (if c = 0x1B then getcmd_esc J nbuf l sh
      else if c = 9 then getcmd_tab J dir nbuf l sh
      else if c = 4 then Inr (Quit (emit (Consolemode 0) sh))
      else if c = 21 then
        rbind (wr (l_buf l) 0 0) (\<lambda>buf.
        let l = l\<lparr>l_buf := buf, l_len := 0, l_cursor := 0\<rparr> in
        rbind (redraw J buf 0 0 sh) (\<lambda>sh. Inr (Again l sh)))
      else if c = 8 \<or> c = 127 then getcmd_erase J l sh
      else if c = 10 \<or> c = 13 then
        rbind (wr (l_buf l) (l_len l) 10) (\<lambda>buf. rbind (wr buf (l_len l + 1) 0) (\<lambda>buf.
        Inr (Enter (l\<lparr>l_buf := buf, l_len := l_len l + 1\<rparr>) (emit (Write 2 [10]) sh))))
      else getcmd_text J nbuf c l sh)"

text \<open>A key never gives back input, so the loop ends with the input.\<close>

lemma read1_in: "read1 sh = (r, sh') \<Longrightarrow> length (sh_in sh') \<le> length (sh_in sh)"
  by (auto simp: read1_def split: list.splits)

lemma read1_some: "read1 sh = (Some c, sh') \<longleftrightarrow> sh_in sh = c # sh_in sh' \<and> sh' = sh\<lparr>sh_in := sh_in sh'\<rparr>"
  by (auto simp: read1_def split: list.splits)

lemma read_more_in: "read_more n xs sh = (ys, sh') \<Longrightarrow> length (sh_in sh') \<le> length (sh_in sh)"
  by (induction n arbitrary: xs sh) (auto split: prod.splits option.splits dest!: read1_in dest: order_trans)

lemma draw_in:
  "write2 buf off n sh = Inr sh' \<Longrightarrow> sh_in sh' = sh_in sh" "move_cursor J d w sh = Inr sh' \<Longrightarrow> sh_in sh' = sh_in sh"
  "redraw J buf len cursor sh = Inr sh' \<Longrightarrow> sh_in sh' = sh_in sh" "redraw_from J buf len cursor sh = Inr sh' \<Longrightarrow> sh_in sh' = sh_in sh"
proof -
  show w: "write2 buf off n sh = Inr sh' \<Longrightarrow> sh_in sh' = sh_in sh" for buf off n sh and sh' :: shell
    by (auto simp: write2_def emit_def split: if_splits)
  show m: "move_cursor J d w sh = Inr sh' \<Longrightarrow> sh_in sh' = sh_in sh" for w sh and sh' :: shell
    by (auto simp: move_cursor_def emit_def rbind_Inr_iff)
  show "redraw J buf len cursor sh = Inr sh' \<Longrightarrow> sh_in sh' = sh_in sh"
    by (auto simp: redraw_def rbind_Inr_iff Let_def split: prod.splits dest!: w)
  show "redraw_from J buf len cursor sh = Inr sh' \<Longrightarrow> sh_in sh' = sh_in sh"
    by (auto simp: redraw_from_def rbind_Inr_iff emit_def dest!: w m) (auto simp: move_cursor_def rbind_Inr_iff emit_def)
qed

lemma getcmd_esc_in: "getcmd_esc J nbuf l sh = Inr (Again l' sh') \<Longrightarrow> length (sh_in sh') \<le> length (sh_in sh)"
  by (auto simp: getcmd_esc_def getcmd_up_def getcmd_down_def getcmd_right_def getcmd_left_def getcmd_delete_def rbind_Inr_iff Let_def split: prod.splits option.splits if_splits dest!: draw_in read1_in)

lemma getcmd_key_in: "getcmd_key J dir nbuf c l sh = Inr (Again l' sh') \<Longrightarrow> length (sh_in sh') \<le> length (sh_in sh)"
  unfolding getcmd_key_def
  by (auto simp: getcmd_tab_def getcmd_erase_def getcmd_text_def rbind_Inr_iff Let_def
      split: prod.splits if_splits dest!: draw_in getcmd_esc_in read_more_in)

text \<open>The loop of \<^verbatim>\<open>getcmd\<close> and what follows it; the result is \<^verbatim>\<open>getcmd\<close>'s, 0 or -1.\<close>

definition getcmd_done :: "line \<Rightarrow> shell \<Rightarrow> (int \<times> u8 list \<times> shell) res" where
  "getcmd_done l sh = rbind (save_history (l_buf l) (l_len l) sh) (\<lambda>sh. Inr (0, l_buf l, emit (Consolemode 0) sh))"

function getcmd_loop :: "(nat \<Rightarrow> u8) \<Rightarrow> dirents \<Rightarrow> nat \<Rightarrow> line \<Rightarrow> shell \<Rightarrow> (int \<times> u8 list \<times> shell) res" where
  "getcmd_loop J dir nbuf l sh =
     (if l_len l + 1 < nbuf then
        case sh_in sh of [] \<Rightarrow> Inr (-1, l_buf l, emit (Consolemode 0) sh)
        | c # cs \<Rightarrow> rbind (getcmd_key J dir nbuf c l (sh\<lparr>sh_in := cs\<rparr>)) (\<lambda>k. case k of
            Again l sh \<Rightarrow> getcmd_loop J dir nbuf l sh
          | Enter l sh \<Rightarrow> getcmd_done l sh
          | Quit sh \<Rightarrow> Inr (-1, l_buf l, sh))
      else getcmd_done l sh)"
  by pat_completeness auto
termination by (relation "measure (\<lambda>(J, dir, nbuf, l, sh). length (sh_in sh))") (auto dest!: getcmd_key_in)

declare getcmd_loop.simps [simp del]

definition getcmd :: "(nat \<Rightarrow> u8) \<Rightarrow> dirents \<Rightarrow> u8 list \<Rightarrow> shell \<Rightarrow> (int \<times> u8 list \<times> shell) res" where
  "getcmd J dir buf sh =
     (let sh = emit (Write 2 [36, 32]) (emit (Consolemode 1) sh); nbuf = length buf in
      getcmd_loop J dir nbuf \<lparr>l_buf = replicate nbuf 0, l_len = 0, l_cursor = 0, l_hpos = nhistory sh, l_saved = False,
        l_draft = replicate 100 0\<rparr> sh)"

section \<open>Splitting a line into arguments\<close>

text \<open>
  \<^verbatim>\<open>parsecmd\<close> works in place: \<open>src\<close> reads ahead of \<open>dst\<close>, and the arguments are the positions in the buffer
  at which \<open>dst\<close> started them.
\<close>

function skip_blanks :: "u8 list \<Rightarrow> nat \<Rightarrow> nat res" where
  "skip_blanks buf src = (if src < length buf then if blank_char (buf ! src) then skip_blanks buf (Suc src) else Inr src else Inl BadAccess)"
  by pat_completeness auto
termination by (relation "measure (\<lambda>(buf, src). length buf - src)") auto

function copy_quoted :: "u8 \<Rightarrow> u8 list \<Rightarrow> nat \<Rightarrow> nat \<Rightarrow> (u8 list \<times> nat \<times> nat) res" where
  "copy_quoted quote buf src dst = (if src < length buf
     then if buf ! src \<noteq> 0 \<and> buf ! src \<noteq> quote
          then rbind (wr buf dst (buf ! src)) (\<lambda>buf'. copy_quoted quote buf' (Suc src) (Suc dst))
          else Inr (buf, src, dst)
     else Inl BadAccess)"
  by pat_completeness auto
termination by (relation "measure (\<lambda>(quote, buf, src, dst). length buf - src)") auto

lemma copy_quoted_len: "copy_quoted quote buf src dst = Inr (buf', src', dst') \<Longrightarrow> length buf' = length buf \<and> src \<le> src'"
proof (induction quote buf src dst rule: copy_quoted.induct)
  case (1 quote buf src dst)
  show ?case
  proof (cases "src < length buf \<and> buf ! src \<noteq> 0 \<and> buf ! src \<noteq> quote \<and> dst < length buf")
    case True
    then have "length buf' = length (buf[dst := buf ! src]) \<and> Suc src \<le> src'"
      using "1.prems" by (intro "1.IH") (auto simp: copy_quoted.simps [of quote buf])
    then show ?thesis by simp
  next
    case False
    then show ?thesis using "1.prems" by (subst (asm) copy_quoted.simps) (auto simp: rbind_Inr_iff split: if_splits)
  qed
qed

declare skip_blanks.simps [simp del] copy_quoted.simps [simp del]

function copy_word :: "u8 list \<Rightarrow> nat \<Rightarrow> nat \<Rightarrow> (u8 list \<times> nat \<times> nat) res" where
  "copy_word buf src dst = (if src < length buf
     then if buf ! src \<noteq> 0 \<and> \<not> blank_char (buf ! src)
          then if quote_char (buf ! src)
               then rbind (copy_quoted (buf ! src) buf (Suc src) dst) (\<lambda>(buf', src', dst').
                    rbind (rd buf' src') (\<lambda>c. copy_word buf' (if c = buf ! src then Suc src' else src') dst'))
               else rbind (wr buf dst (buf ! src)) (\<lambda>buf'. copy_word buf' (Suc src) (Suc dst))
          else Inr (buf, src, dst)
     else Inl BadAccess)"
  by pat_completeness auto
termination by (relation "measure (\<lambda>(buf, src, dst). length buf - src)") (auto dest!: copy_quoted_len)

declare copy_word.simps [simp del]

lemma skip_blanks_len: "skip_blanks buf src = Inr src' \<Longrightarrow> src \<le> src' \<and> src' < length buf \<and> \<not> blank_char (buf ! src')"
proof (induction buf src rule: skip_blanks.induct)
  case (1 buf src)
  show ?case
  proof (cases "src < length buf \<and> blank_char (buf ! src)")
    case True
    then have "Suc src \<le> src' \<and> src' < length buf \<and> \<not> blank_char (buf ! src')"
      using "1.prems" by (intro "1.IH") (auto simp: skip_blanks.simps [of buf src])
    then show ?thesis by simp
  next
    case False
    then show ?thesis using "1.prems" by (auto simp: skip_blanks.simps [of buf src] split: if_splits)
  qed
qed

lemma copy_word_len:
  "copy_word buf src dst = Inr (buf', src', dst') \<Longrightarrow> length buf' = length buf \<and> src \<le> src'
    \<and> (src < length buf \<and> buf ! src \<noteq> 0 \<and> \<not> blank_char (buf ! src) \<longrightarrow> src < src')"
proof (induction buf src dst rule: copy_word.induct)
  case (1 buf src dst)
  let ?go = "src < length buf \<and> buf ! src \<noteq> 0 \<and> \<not> blank_char (buf ! src)"
  consider "\<not> ?go" | "?go" "quote_char (buf ! src)" | "?go" "\<not> quote_char (buf ! src)" by blast
  then show ?case
  proof cases
    case 1
    then show ?thesis using "1.prems" by (auto simp: copy_word.simps [of buf src] split: if_splits)
  next
    case 2
    then obtain b s d c where q: "copy_quoted (buf ! src) buf (Suc src) dst = Inr (b, s, d)" "rd b s = Inr c"
        "copy_word b (if c = buf ! src then Suc s else s) d = Inr (buf', src', dst')"
      using "1.prems" by (auto simp: copy_word.simps [of buf src] rbind_Inr_iff)
    have "length buf' = length b \<and> (if c = buf ! src then Suc s else s) \<le> src'"
      using "1.IH"(1) [OF _ _ 2(2) q(1) refl refl q(2)] 2 q(3) by blast
    then show ?thesis using copy_quoted_len [OF q(1)] by (auto split: if_splits)
  next
    case 3
    then have "dst < length buf \<and> copy_word (buf[dst := buf ! src]) (Suc src) (Suc dst) = Inr (buf', src', dst')"
      using "1.prems" by (auto simp: copy_word.simps [of buf src] rbind_Inr_iff)
    then show ?thesis using "1.IH"(2) [of "buf[dst := buf ! src]"] 3 by fastforce
  qed
qed

function parse_loop :: "u8 list \<Rightarrow> nat \<Rightarrow> nat \<Rightarrow> nat list \<Rightarrow> (u8 list \<times> nat list) res" where
  "parse_loop buf src dst argv = (if src < length buf
     then if buf ! src = 0 then Inr (buf, argv)
          else rbind (skip_blanks buf src) (\<lambda>src.
               if buf ! src = 0 then Inr (buf, argv)
               else if length argv \<ge> MAXARGS - 1 then Inl (Panic ''too many args'')
               else rbind (copy_word buf src dst) (\<lambda>(buf', src', dst').
                    rbind (rd buf' src') (\<lambda>c.
                    rbind (wr buf' dst' 0) (\<lambda>buf''.
                    parse_loop buf'' (if blank_char c then Suc src' else src') (Suc dst') (argv @ [dst])))))
     else Inl BadAccess)"
  by pat_completeness auto
termination
  by (relation "measure (\<lambda>(buf, src, dst, argv). length buf - src)") (auto dest!: skip_blanks_len copy_word_len)

declare parse_loop.simps [simp del]

text \<open>The buffer afterwards and the positions of the arguments; their number is the result of the C function.\<close>

definition parsecmd :: "u8 list \<Rightarrow> (u8 list \<times> nat list) res" where
  "parsecmd buf = parse_loop buf 0 0 []"

section \<open>Running commands\<close>

text \<open>The string that starts at a position.\<close>

definition arg_at :: "u8 list \<Rightarrow> nat \<Rightarrow> u8 list" where
  "arg_at buf i = takeWhile (\<lambda>c. c \<noteq> 0) (drop i buf)"

text \<open>
  The command loop of \<^verbatim>\<open>main\<close>, with the results of \<^verbatim>\<open>fork\<close> as the parent sees them.  \<open>Run argv\<close> stands for the
  child, which executes \<^verbatim>\<open>runcmd(argv)\<close>.
\<close>

definition fork1 :: "int \<Rightarrow> int res" where
  "fork1 r = (if r = -1 then Inl (Panic ''fork'') else Inr r)"

definition main_step :: "(nat \<Rightarrow> u8) \<Rightarrow> dirents \<Rightarrow> int \<Rightarrow> u8 list \<Rightarrow> shell \<Rightarrow> (bool \<times> u8 list \<times> shell) res" where
  "main_step J dir pid buf sh =
     rbind (getcmd J dir buf sh) (\<lambda>(r, buf, sh).
     if r < 0 then Inr (False, buf, sh)
     else rbind (parsecmd buf) (\<lambda>(buf, argv).
     if length argv = 0 then Inr (True, buf, sh)
     else rbind (fork1 pid) (\<lambda>_.
     Inr (True, buf, emit (Write 2 [10]) (emit Wait (emit (Run (map (arg_at buf) argv)) sh))))))"

end
