(* ===== verification/Parse.thy ===== *)
theory Parse
  imports Shell
begin

text \<open>
  What the shell's argument splitting means: blanks separate words, a quoted stretch belongs to its word
  with the quotes dropped.  The in-place loop of \<^verbatim>\<open>parsecmd\<close> computes exactly these words.
\<close>

section \<open>Words of a line\<close>

function next_word :: "u8 list \<Rightarrow> u8 list \<times> u8 list" where
  "next_word [] = ([], [])"
| "next_word (c # cs) =
     (if blank_char c then ([], c # cs)
      else if quote_char c
      then let (w, r) = next_word (tl (dropWhile (\<lambda>d. d \<noteq> c) cs)) in (takeWhile (\<lambda>d. d \<noteq> c) cs @ w, r)
      else let (w, r) = next_word cs in (c # w, r))"
  by pat_completeness auto
termination
proof (relation "measure length", goal_cases)
  case (2 c cs)
  have "length (tl (dropWhile (\<lambda>d. d \<noteq> c) cs)) \<le> length cs" by (simp add: length_dropWhile_le le_trans [OF diff_le_self])
  then show ?case by simp
qed auto

lemma next_word_len: "next_word xs = (w, r) \<Longrightarrow> length r \<le> length xs \<and> (xs \<noteq> [] \<and> \<not> blank_char (hd xs) \<longrightarrow> length r < length xs)"
proof (induction xs arbitrary: w r rule: next_word.induct)
  case (2 c cs)
  have "length (tl (dropWhile (\<lambda>d. d \<noteq> c) cs)) \<le> length cs" by (simp add: length_dropWhile_le le_trans [OF diff_le_self])
  then show ?case using 2 by (fastforce simp: Let_def split: if_splits prod.splits)
qed simp

function words :: "u8 list \<Rightarrow> u8 list list" where
  "words xs = (let ys = dropWhile blank_char xs in
     if ys = [] then [] else let (w, r) = next_word ys in w # words (tl r))"
  by pat_completeness auto
termination
proof (relation "measure length", goal_cases)
  case (2 xs ys p w r)
  then have "length r < length ys" using next_word_len [of ys w r] hd_dropWhile [of blank_char xs] by auto
  moreover have "length ys \<le> length xs" using 2 by (simp add: length_dropWhile_le)
  ultimately show ?case by simp
qed auto

declare words.simps [simp del]

lemma next_word_rest: "next_word xs = (w, r) \<Longrightarrow> r = [] \<or> blank_char (hd r)"
  by (induction xs arbitrary: w r rule: next_word.induct) (auto simp: Let_def split: if_splits prod.splits)

lemma next_word_set: "next_word xs = (w, r) \<Longrightarrow> set w \<subseteq> set xs \<and> set r \<subseteq> set xs"
proof (induction xs arbitrary: w r rule: next_word.induct)
  case (2 c cs)
  have s: "set (takeWhile (\<lambda>d. d \<noteq> c) cs) \<subseteq> set cs" "set (tl (dropWhile (\<lambda>d. d \<noteq> c) cs)) \<subseteq> set cs"
    by (auto dest: set_takeWhileD) (metis list.sel(2) list.set_sel(2) set_dropWhileD)
  show ?case
  proof (cases "blank_char c")
    case False
    show ?thesis
    proof (cases "quote_char c")
      case True
      obtain v where "next_word (tl (dropWhile (\<lambda>d. d \<noteq> c) cs)) = (v, r)" "w = takeWhile (\<lambda>d. d \<noteq> c) cs @ v"
        using "2.prems" True False by (auto simp: Let_def split: prod.splits)
      then show ?thesis using "2.IH"(1) [OF False True] s by fastforce
    next
      case q: False
      obtain v where "next_word cs = (v, r)" "w = c # v" using "2.prems" q False by (auto simp: Let_def split: prod.splits)
      then show ?thesis using "2.IH"(2) [OF False q] by fastforce
    qed
  qed (use "2.prems" in auto)
qed simp

section \<open>The loops\<close>

text \<open>
  The buffer is what has been written, then a gap that was read already, then what is still to be read.
\<close>

lemma write_back: "\<exists>mid'. length mid' = length mid \<and> (out @ mid @ c # zs)[length out := c] = (out @ [c]) @ mid' @ zs"
proof (cases mid)
  case Nil
  then show ?thesis by (intro exI [of _ "[]"]) (simp add: list_update_append)
next
  case (Cons m ms)
  then show ?thesis by (intro exI [of _ "ms @ [c]"]) (simp add: list_update_append)
qed

lemma at_gap: "(out @ mid @ c # zs) ! (length out + length mid) = c" "length out + length mid < length (out @ mid @ c # zs)"
  by (simp_all add: nth_append)

lemma skip_blanks_spec:
  "skip_blanks (pre @ ys @ 0 # rest) (length pre) = Inr (length pre + length (takeWhile blank_char ys))"
proof (induction ys arbitrary: pre)
  case Nil
  then show ?case by (subst skip_blanks.simps) (simp add: blank_char_def)
next
  case (Cons y ys)
  from Cons.IH [of "pre @ [y]"] show ?case by (subst skip_blanks.simps) (simp add: nth_append)
qed

lemma copy_quoted_spec:
  "0 \<notin> set ys \<Longrightarrow> \<exists>mid'. length mid' = length mid \<and> copy_quoted quote (out @ mid @ ys @ 0 # rest) (length out + length mid) (length out)
     = Inr ((out @ takeWhile (\<lambda>d. d \<noteq> quote) ys) @ mid' @ dropWhile (\<lambda>d. d \<noteq> quote) ys @ 0 # rest,
         length out + length mid + length (takeWhile (\<lambda>d. d \<noteq> quote) ys), length out + length (takeWhile (\<lambda>d. d \<noteq> quote) ys))"
proof (induction ys arbitrary: out mid)
  case Nil
  then show ?case by (intro exI [of _ mid]) (subst copy_quoted.simps, simp add: nth_append)
next
  case (Cons y ys)
  show ?case
  proof (cases "y = quote")
    case True
    then show ?thesis by (intro exI [of _ mid]) (subst copy_quoted.simps, simp add: nth_append)
  next
    case False
    obtain m where m: "length m = length mid" "(out @ mid @ y # ys @ 0 # rest)[length out := y] = (out @ [y]) @ m @ ys @ 0 # rest"
      using write_back [of mid out y "ys @ 0 # rest"] by blast
    obtain m' where m': "length m' = length m" "copy_quoted quote ((out @ [y]) @ m @ ys @ 0 # rest) (length (out @ [y]) + length m) (length (out @ [y]))
     = Inr (((out @ [y]) @ takeWhile (\<lambda>d. d \<noteq> quote) ys) @ m' @ dropWhile (\<lambda>d. d \<noteq> quote) ys @ 0 # rest,
         length (out @ [y]) + length m + length (takeWhile (\<lambda>d. d \<noteq> quote) ys), length (out @ [y]) + length (takeWhile (\<lambda>d. d \<noteq> quote) ys))"
      using Cons.IH [of m "out @ [y]"] Cons.prems by auto
    then show ?thesis using False Cons.prems m by (intro exI [of _ m']) (subst copy_quoted.simps, simp add: nth_append)
  qed
qed

lemma copy_word_spec:
  "0 \<notin> set ys \<Longrightarrow> next_word ys = (w, r) \<Longrightarrow> \<exists>mid'. copy_word (out @ mid @ ys @ 0 # rest) (length out + length mid) (length out)
     = Inr ((out @ w) @ mid' @ r @ 0 # rest, length (out @ w) + length mid', length (out @ w))"
proof (induction ys arbitrary: out mid w r rule: next_word.induct)
  case 1
  then show ?case by (intro exI [of _ mid]) (subst copy_word.simps, simp add: nth_append)
next
  case (2 c cs)
  let ?zs = "cs @ 0 # rest" let ?src = "length out + length mid"
  have c: "c \<noteq> 0" "0 \<notin> set cs" using "2.prems"(1) by auto
  have at: "(out @ mid @ c # ?zs) ! ?src = c" "?src < length (out @ mid @ c # ?zs)" by (rule at_gap)+
  consider "blank_char c" | "\<not> blank_char c" "quote_char c" | "\<not> blank_char c" "\<not> quote_char c" by blast
  then show ?case
  proof cases
    case 1
    then have "w = []" "r = c # cs" using "2.prems"(2) by auto
    then show ?thesis using 1 at by (intro exI [of _ mid]) (subst copy_word.simps, simp)
  next
    case 2
    let ?q = "takeWhile (\<lambda>d. d \<noteq> c) cs" and ?d = "dropWhile (\<lambda>d. d \<noteq> c) cs"
    obtain v where v: "next_word (tl ?d) = (v, r)" "w = ?q @ v" using "2.prems"(2) 2 by (auto simp: Let_def split: prod.splits)
    obtain m where m: "length m = length (mid @ [c])" "copy_quoted c (out @ (mid @ [c]) @ cs @ 0 # rest) (length out + length (mid @ [c])) (length out)
        = Inr ((out @ ?q) @ m @ ?d @ 0 # rest, length out + length (mid @ [c]) + length ?q, length out + length ?q)"
      using copy_quoted_spec [OF c(2), of "mid @ [c]" c out rest] by blast
    define s where "s = length out + length (mid @ [c]) + length ?q"
    have s: "s = length (out @ ?q) + length m" using m(1) by (simp add: s_def)
    have "\<exists>b m2. rd ((out @ ?q) @ m @ ?d @ 0 # rest) s = Inr b \<and> (out @ ?q) @ m @ ?d @ 0 # rest = (out @ ?q) @ m2 @ tl ?d @ 0 # rest
        \<and> (if b = c then Suc s else s) = length (out @ ?q) + length m2"
    proof (cases ?d)
      case Nil
      show ?thesis unfolding Nil using s c at_gap [of "out @ ?q" m 0 rest] by (intro exI [of _ 0] exI [of _ m]) simp
    next
      case (Cons e es)
      then have "e = c" using hd_dropWhile [of "\<lambda>d. d \<noteq> c" cs] by simp
      then show ?thesis
        unfolding Cons using s at_gap [of "out @ ?q" m e "es @ 0 # rest"] by (intro exI [of _ c] exI [of _ "m @ [c]"]) simp
    qed
    then obtain b m2 where b: "rd ((out @ ?q) @ m @ ?d @ 0 # rest) s = Inr b" "(out @ ?q) @ m @ ?d @ 0 # rest = (out @ ?q) @ m2 @ tl ?d @ 0 # rest"
        "(if b = c then Suc s else s) = length (out @ ?q) + length m2" by blast
    have "0 \<notin> set (tl ?d)" using c(2) by (metis list.sel(2) list.set_sel(2) set_dropWhileD)
    from "2.IH"(1) [OF 2 this v(1), of "out @ ?q" m2] obtain m3 where
      m3: "copy_word ((out @ ?q) @ m2 @ tl ?d @ 0 # rest) (length (out @ ?q) + length m2) (length (out @ ?q))
        = Inr (((out @ ?q) @ v) @ m3 @ r @ 0 # rest, length ((out @ ?q) @ v) + length m3, length ((out @ ?q) @ v))" by blast
    have st: "copy_word (out @ mid @ c # ?zs) ?src (length out)
        = rbind (copy_quoted c (out @ (mid @ [c]) @ cs @ 0 # rest) (length out + length (mid @ [c])) (length out)) (\<lambda>(buf', src', dst').
            rbind (rd buf' src') (\<lambda>b. copy_word buf' (if b = c then Suc src' else src') dst'))"
      using at 2 c(1) by (subst copy_word.simps) simp
    have "copy_word (out @ mid @ c # ?zs) ?src (length out) = copy_word ((out @ ?q) @ m @ ?d @ 0 # rest) (if b = c then Suc s else s) (length (out @ ?q))"
      unfolding st m(2) rbind_simps prod.case s_def [symmetric] b(1) by simp
    then show ?thesis unfolding b(2,3) m3 v(2) by (intro exI [of _ m3]) simp
  next
    case 3
    obtain v where v: "next_word cs = (v, r)" "w = c # v" using "2.prems"(2) 3 by (auto simp: Let_def split: prod.splits)
    obtain m where m: "length m = length mid" "(out @ mid @ c # ?zs)[length out := c] = (out @ [c]) @ m @ ?zs"
      using write_back [of mid out c ?zs] by blast
    from "2.IH"(2) [OF 3 c(2) v(1), of "out @ [c]" m] obtain m3 where
      "copy_word ((out @ [c]) @ m @ ?zs) (length (out @ [c]) + length m) (length (out @ [c]))
        = Inr (((out @ [c]) @ v) @ m3 @ r @ 0 # rest, length ((out @ [c]) @ v) + length m3, length ((out @ [c]) @ v))" by blast
    then show ?thesis using at 3 c(1) m v(2) by (intro exI [of _ m3]) (subst copy_word.simps, simp)
  qed
qed

primrec offsets :: "nat \<Rightarrow> u8 list list \<Rightarrow> nat list" where
  "offsets n [] = []"
| "offsets n (w # ws) = n # offsets (n + length w + 1) ws"

definition parsed :: "u8 list \<Rightarrow> nat list \<Rightarrow> u8 list list \<Rightarrow> nat \<Rightarrow> (u8 list \<times> nat list) res \<Rightarrow> bool" where
  "parsed out argv ws n res \<longleftrightarrow>
     (if length argv + length ws < MAXARGS
      then \<exists>tail. res = Inr (out @ concat (map (\<lambda>w. w @ [0]) ws) @ tail, argv @ offsets (length out) ws)
             \<and> length (out @ concat (map (\<lambda>w. w @ [0]) ws) @ tail) = n
      else res = Inl (Panic ''too many args''))"

lemma parsed_cons: "parsed (out @ w @ [0]) (argv @ [length out]) ws n res \<Longrightarrow> parsed out argv (w # ws) n res"
  by (simp add: parsed_def add.assoc split: if_splits)

text \<open>The start of a turn of the loop on a line that has another word.\<close>

lemma word_chars: "0 \<notin> set ys \<Longrightarrow> dropWhile blank_char ys = c # cs \<Longrightarrow> c \<noteq> 0" "0 \<notin> set ys \<Longrightarrow> dropWhile blank_char ys = c # cs \<Longrightarrow> 0 \<notin> set (c # cs)"
  using set_dropWhileD [of 0 blank_char ys] by auto

lemma parse_at_word:
  fixes out mid :: "u8 list"
  assumes z: "0 \<notin> set ys" and c: "dropWhile blank_char ys = c # cs"
  defines "s \<equiv> length out + length (mid @ takeWhile blank_char ys)"
  shows "out @ mid @ ys @ 0 # rest = out @ (mid @ takeWhile blank_char ys) @ (c # cs) @ 0 # rest"
    "length out + length mid < length (out @ mid @ ys @ 0 # rest)"
    "(out @ mid @ ys @ 0 # rest) ! (length out + length mid) \<noteq> 0"
    "skip_blanks (out @ mid @ ys @ 0 # rest) (length out + length mid) = Inr s" "(out @ mid @ ys @ 0 # rest) ! s = c"
proof -
  let ?t = "takeWhile blank_char ys"
  have e: "ys = ?t @ c # cs" using takeWhile_dropWhile_id [of blank_char ys] c by simp
  show buf: "out @ mid @ ys @ 0 # rest = out @ (mid @ ?t) @ (c # cs) @ 0 # rest" using arg_cong [OF e, of "\<lambda>x. out @ mid @ x @ 0 # rest"] by simp
  obtain y yt where y: "ys = y # yt" "y \<noteq> 0" using e z by (cases ys) auto
  show "(out @ mid @ ys @ 0 # rest) ! (length out + length mid) \<noteq> 0" "length out + length mid < length (out @ mid @ ys @ 0 # rest)"
    using y by (simp_all add: nth_append)
  show "skip_blanks (out @ mid @ ys @ 0 # rest) (length out + length mid) = Inr s"
    using skip_blanks_spec [of "out @ mid" ys rest] by (simp add: s_def)
  show "(out @ mid @ ys @ 0 # rest) ! s = c" unfolding buf s_def using at_gap(1) [of out "mid @ ?t" c "cs @ 0 # rest"] by simp
qed

lemma parse_full:
  assumes "0 \<notin> set ys" "dropWhile blank_char ys = c # cs" "\<not> length argv < MAXARGS - 1"
  shows "parse_loop (out @ mid @ ys @ 0 # rest) (length out + length mid) (length out) argv = Inl (Panic ''too many args'')"
  using parse_at_word [OF assms(1,2), where out = out and mid = mid and rest = rest] word_chars(1) [OF assms(1,2)] assms(3)
  by (subst parse_loop.simps) simp

text \<open>One turn of the loop that takes a word.\<close>

lemma parse_word:
  assumes z: "0 \<notin> set ys" and c: "dropWhile blank_char ys = c # cs" and w: "next_word (c # cs) = (w, r)" and n: "length argv < MAXARGS - 1"
  shows "\<exists>mid'. parse_loop (out @ mid @ ys @ 0 # rest) (length out + length mid) (length out) argv
    = (let b = (out @ w) @ mid' @ r @ 0 # rest; s = length (out @ w) + length mid' in
       parse_loop (b[length (out @ w) := 0]) (if blank_char (b ! s) then Suc s else s) (Suc (length (out @ w))) (argv @ [length out]))
    \<and> length ((out @ w) @ mid' @ r @ 0 # rest) = length (out @ mid @ ys @ 0 # rest)"
proof -
  let ?t = "takeWhile blank_char ys" let ?s = "length out + length (mid @ ?t)"
  note W = parse_at_word [OF z c, where out = out and mid = mid and rest = rest] word_chars [OF z c]
  obtain m where m: "copy_word (out @ (mid @ ?t) @ (c # cs) @ 0 # rest) ?s (length out)
      = Inr ((out @ w) @ m @ r @ 0 # rest, length (out @ w) + length m, length (out @ w))"
    using copy_word_spec [OF W(7) w] by blast
  have cw: "copy_word (out @ mid @ ys @ 0 # rest) ?s (length out) = Inr ((out @ w) @ m @ r @ 0 # rest, length (out @ w) + length m, length (out @ w))"
    unfolding W(1) by (rule m)
  define b where "b = (out @ w) @ m @ r @ 0 # rest"
  define s where "s = length (out @ w) + length m"
  define d where "d = length (out @ w)"
  have l: "s < length b" "d < length b" unfolding b_def s_def d_def by simp_all
  have "parse_loop (out @ mid @ ys @ 0 # rest) (length out + length mid) (length out) argv
      = parse_loop (b[d := 0]) (if blank_char (b ! s) then Suc s else s) (Suc d) (argv @ [length out])"
    using W(2-6) n l
    by (subst parse_loop.simps) (simp only: if_True if_False rbind_simps not_less [symmetric] not_True_eq_False cw [folded b_def s_def d_def]
      prod.case rd_simps(1) wr_simps(1))
  moreover have "length b = length (out @ mid @ ys @ 0 # rest)" using copy_word_len [OF cw] unfolding b_def by blast
  ultimately show ?thesis unfolding b_def s_def d_def Let_def by blast
qed

lemma words_Nil [simp]: "words [] = []"
  by (subst words.simps) simp

lemma put_nul: "\<exists>m'. length m' = length m \<and> (out @ m @ x # zs)[length out := 0] = (out @ [0]) @ m' @ zs"
proof (cases m)
  case Nil
  then show ?thesis by (intro exI [of _ "[]"]) (simp add: list_update_append)
next
  case (Cons y ys)
  then show ?thesis by (intro exI [of _ "ys @ [x]"]) (simp add: list_update_append)
qed

lemma parse_loop_spec:
  "0 \<notin> set ys \<Longrightarrow> length argv < MAXARGS \<Longrightarrow> parsed out argv (words ys) (length (out @ mid @ ys @ 0 # rest))
     (parse_loop (out @ mid @ ys @ 0 # rest) (length out + length mid) (length out) argv)"
proof (induction "length ys" arbitrary: ys out mid argv rule: less_induct)
  case less
  let ?b = "out @ mid @ ys @ 0 # rest" let ?s = "length out + length mid"
  show ?case
  proof (cases "dropWhile blank_char ys")
    case Nil
    then have t: "takeWhile blank_char ys = ys" using takeWhile_dropWhile_id [of blank_char ys] by (metis append_Nil2)
    have sk: "skip_blanks ?b ?s = Inr (length (out @ mid @ ys))" using skip_blanks_spec [of "out @ mid" ys rest] t by simp
    have "?b ! length (out @ mid @ ys) = 0" "?s < length ?b" using nth_append_length [of "out @ mid @ ys" 0 rest] by simp_all
    then have "parse_loop ?b ?s (length out) argv = Inr (?b, argv)"
      using sk by (subst parse_loop.simps) simp
    moreover have "words ys = []" using Nil by (subst words.simps) (simp add: Let_def)
    ultimately show ?thesis using less.prems by (simp add: parsed_def)
  next
    case (Cons c cs)
    obtain w r where w: "next_word (c # cs) = (w, r)" by (cases "next_word (c # cs)")
    have ws: "words ys = w # words (tl r)" using Cons w by (subst words.simps) (simp add: Let_def)
    have nb: "\<not> blank_char c" using hd_dropWhile [of blank_char ys] Cons by simp
    have lr: "length r < length ys" using next_word_len [OF w] nb length_dropWhile_le [of blank_char ys] Cons by simp
    have zr: "0 \<notin> set r" using next_word_set [OF w] set_dropWhileD [of 0 blank_char ys] Cons less.prems by auto
    show ?thesis
    proof (cases "length argv < MAXARGS - 1")
      case True
      obtain m where p: "parse_loop ?b ?s (length out) argv
          = (let b = (out @ w) @ m @ r @ 0 # rest; s = length (out @ w) + length m in
             parse_loop (b[length (out @ w) := 0]) (if blank_char (b ! s) then Suc s else s) (Suc (length (out @ w))) (argv @ [length out]))"
          "length ((out @ w) @ m @ r @ 0 # rest) = length ?b"
        using parse_word [OF less.prems(1) Cons w True] by blast
      show ?thesis unfolding ws p(1) p(2) [symmetric] Let_def
      proof (rule parsed_cons, cases r)
        case rn: Nil
        let ?B = "(out @ w) @ m @ 0 # rest"
        obtain m' where m': "length m' = length m" "?B[length (out @ w) := 0] = ((out @ w) @ [0]) @ m' @ rest"
          using put_nul [of m "out @ w" 0 rest] by blast
        have "?B ! (length (out @ w) + length m) = 0" "length (out @ w) + length m < length ?B"
            "?B[length (out @ w) := 0] ! (length (out @ w) + length m) = 0"
          using at_gap [of "out @ w" m 0 rest] by (simp_all add: nth_list_update)
        then show "parsed (out @ w @ [0]) (argv @ [length out]) (words (tl r)) (length ((out @ w) @ m @ r @ 0 # rest))
            (parse_loop (((out @ w) @ m @ r @ 0 # rest)[length (out @ w) := 0])
              (if blank_char (((out @ w) @ m @ r @ 0 # rest) ! (length (out @ w) + length m)) then Suc (length (out @ w) + length m)
               else length (out @ w) + length m) (Suc (length (out @ w))) (argv @ [length out]))"
          using rn True m' by (subst parse_loop.simps) (simp add: parsed_def blank_char_def)
      next
        case rc: (Cons x r')
        then have x: "blank_char x" using next_word_rest [OF w] by simp
        obtain m' where m': "length m' = length m" "((out @ w) @ m @ x # r' @ 0 # rest)[length (out @ w) := 0] = ((out @ w) @ [0]) @ m' @ r' @ 0 # rest"
          using put_nul [of m "out @ w" x "r' @ 0 # rest"] by blast
        have "parsed (out @ w @ [0]) (argv @ [length out]) (words r') (length ((out @ w @ [0]) @ m' @ r' @ 0 # rest))
            (parse_loop ((out @ w @ [0]) @ m' @ r' @ 0 # rest) (length (out @ w @ [0]) + length m') (length (out @ w @ [0])) (argv @ [length out]))"
          using rc lr zr True by (intro less.hyps) simp_all
        then show "parsed (out @ w @ [0]) (argv @ [length out]) (words (tl r)) (length ((out @ w) @ m @ r @ 0 # rest))
            (parse_loop (((out @ w) @ m @ r @ 0 # rest)[length (out @ w) := 0])
              (if blank_char (((out @ w) @ m @ r @ 0 # rest) ! (length (out @ w) + length m)) then Suc (length (out @ w) + length m)
               else length (out @ w) + length m) (Suc (length (out @ w))) (argv @ [length out]))"
          using rc x m' at_gap(1) [of "out @ w" m x "r' @ 0 # rest"] by simp
      qed
    next
      case False
      then show ?thesis using parse_full [OF less.prems(1) Cons] less.prems(2) ws by (simp add: parsed_def)
    qed
  qed
qed

lemma words_set: "w \<in> set (words xs) \<Longrightarrow> set w \<subseteq> set xs"
proof (induction xs rule: words.induct)
  case (1 xs)
  let ?ys = "dropWhile blank_char xs"
  show ?case
  proof (cases "?ys = []")
    case True
    then show ?thesis using "1.prems" by (subst (asm) words.simps) (simp add: Let_def)
  next
    case False
    obtain v r where v: "next_word ?ys = (v, r)" by (cases "next_word ?ys")
    then have ws: "words xs = v # words (tl r)" using False by (subst words.simps) (simp add: Let_def)
    have s: "set v \<subseteq> set xs" "set (tl r) \<subseteq> set xs"
      using next_word_set [OF v] by (auto dest: set_dropWhileD list.set_sel(2)) (metis list.sel(2) list.set_sel(2) set_dropWhileD subsetD)
    then show ?thesis using "1.prems" "1.IH" [OF refl False v [symmetric] refl] ws by auto
  qed
qed

lemma args_at: "\<forall>w\<in>set ws. 0 \<notin> set w \<Longrightarrow> map (arg_at (out @ concat (map (\<lambda>w. w @ [0]) ws) @ tail)) (offsets (length out) ws) = ws"
proof (induction ws arbitrary: out)
  case (Cons w ws)
  have "takeWhile (\<lambda>c. c \<noteq> 0) (w @ 0 # zs) = w" for zs using Cons.prems by (subst takeWhile_append2) auto
  then have "arg_at (out @ w @ 0 # zs) (length out) = w" for zs by (simp add: arg_at_def)
  moreover have "map (arg_at ((out @ w @ [0]) @ concat (map (\<lambda>w. w @ [0]) ws) @ tail)) (offsets (length (out @ w @ [0])) ws) = ws"
    using Cons.prems by (intro Cons.IH) simp
  ultimately show ?case by simp
qed simp

lemma parsed_line:
  assumes "0 \<notin> set xs"
  shows "parsed [] [] (words xs) (length (xs @ 0 # rest)) (parsecmd (xs @ 0 # rest))"
    "parsecmd (xs @ 0 # rest) = Inl (Panic ''too many args'') \<or> (\<exists>buf argv. parsecmd (xs @ 0 # rest) = Inr (buf, argv) \<and> length buf = length (xs @ 0 # rest))"
proof -
  show "parsed [] [] (words xs) (length (xs @ 0 # rest)) (parsecmd (xs @ 0 # rest))"
    using parse_loop_spec [OF assms, of "[]" "[]" "[]" rest] by (simp add: parsecmd_def MAXARGS_def)
  then show "parsecmd (xs @ 0 # rest) = Inl (Panic ''too many args'') \<or> (\<exists>buf argv. parsecmd (xs @ 0 # rest) = Inr (buf, argv) \<and> length buf = length (xs @ 0 # rest))"
    by (auto simp: parsed_def split: if_splits)
qed

lemma args_parsed:
  assumes "0 \<notin> set xs" "length (words xs) < MAXARGS"
  shows "\<exists>buf argv. parsecmd (xs @ 0 # rest) = Inr (buf, argv) \<and> length buf = length (xs @ 0 # rest) \<and> map (arg_at buf) argv = words xs"
proof -
  have "\<forall>w\<in>set (words xs). 0 \<notin> set w" using words_set assms by blast
  note a = args_at [OF this, of "[]"]
  from parsed_line(1) [OF assms(1), of rest] show ?thesis using a assms(2) by (auto simp: parsed_def)
qed

section \<open>Properties\<close>

text \<open>
  C27: \<^verbatim>\<open>parsecmd\<close> splits every line into its words.  For a NUL-terminated line with fewer than
  \<^verbatim>\<open>MAXARGS\<close> words the loop ends, stays inside the buffer although it rewrites it in place, and the
  strings the argument pointers designate afterwards are the words of the line in order.  With
  more words the shell stops with its message before the argument array is full.\<close>

theorem parsecmd_words:
  assumes "0 \<notin> set xs"
  shows "if length (words xs) < MAXARGS
    then \<exists>buf argv. parsecmd (xs @ 0 # rest) = Inr (buf, argv) \<and> length buf = length (xs @ 0 # rest) \<and> map (arg_at buf) argv = words xs
    else parsecmd (xs @ 0 # rest) = Inl (Panic ''too many args'')"
  using args_parsed [OF assms] parsed_line(1) [OF assms, of rest] by (simp add: parsed_def)

theorem parsecmd_words_witness:
  "\<exists>buf argv. parsecmd [108, 115, 32, 39, 97, 32, 98, 39, 99, 10, 0] = Inr (buf, argv) \<and> map (arg_at buf) argv = [[108, 115], [97, 32, 98, 99]]"
proof -
  have w: "words [108, 115, 32, 39, 97, 32, 98, 39, 99, 10] = [[108, 115], [97, 32, 98, 99]]"
    by (simp add: words.simps blank_char_def quote_char_def)
  show ?thesis using parsecmd_words [of "[108, 115, 32, 39, 97, 32, 98, 39, 99, 10]" "[]"] unfolding w by (auto simp: MAXARGS_def)
qed

end
