(* ===== verification/Editor.thy ===== *)
theory Editor
  imports Parse
begin

text \<open>
  The line editor of the shell.  The line is a text without NUL and a position in it; every key keeps the
  buffers and positions in bounds, and the editing functions do to the text what their names say.
\<close>

section \<open>The invariant\<close>

definition row_ok :: "u8 list \<Rightarrow> bool" where
  "row_ok h \<longleftrightarrow> length h = 100 \<and> 0 \<in> set h"

definition shell_ok :: "shell \<Rightarrow> bool" where
  "shell_ok sh \<longleftrightarrow> length (sh_history sh) = HISTSIZE \<and> (\<forall>h\<in>set (sh_history sh). row_ok h) \<and> nhistory sh \<le> HISTSIZE"

text \<open>The text of a line, and a line that holds a text with the cursor at a position.\<close>

definition holds :: "u8 list \<Rightarrow> nat \<Rightarrow> line \<Rightarrow> bool" where
  "holds t c l \<longleftrightarrow> length (l_buf l) = 100 \<and> l_len l = length t \<and> length t < 100 \<and> (\<exists>zs. l_buf l = t @ 0 # zs)
     \<and> 0 \<notin> set t \<and> l_cursor l = c \<and> c \<le> length t"

definition line_ok :: "shell \<Rightarrow> line \<Rightarrow> bool" where
  "line_ok sh l \<longleftrightarrow> (\<exists>t c. holds t c l) \<and> row_ok (l_draft l) \<and> l_hpos l \<le> nhistory sh"

lemma holdsD:
  assumes "holds t c l"
  shows "length (l_buf l) = 100" "l_len l = length t" "length t < 100" "\<exists>zs. l_buf l = t @ 0 # zs \<and> length zs = 99 - length t"
    "0 \<notin> set t" "l_cursor l = c" "c \<le> length t"
  using assms by (auto simp: holds_def)

lemma row_ok_split:
  assumes "row_ok h"
  shows "\<exists>xs zs. h = xs @ 0 # zs \<and> 0 \<notin> set xs \<and> length xs < 100 \<and> u_strlen h = Inr (length xs)"
proof -
  obtain xs zs where "h = xs @ 0 # zs" "0 \<notin> set xs" using assms split_list_first [of 0 h] by (auto simp: row_ok_def)
  then show ?thesis using assms u_strlen_eq [of xs zs] by (auto simp: row_ok_def)
qed

lemma insert_bytes_holds:
  assumes h: "holds t c l" and n: "n \<le> length s" "0 \<notin> set (take n s)"
  shows "if length t + n \<ge> 100 then insert_bytes l 100 s n = Inr (0, l)
    else \<exists>b. insert_bytes l 100 s n = Inr (n, l\<lparr>l_buf := b, l_len := length t + n, l_cursor := c + n\<rparr>)
           \<and> holds (take c t @ take n s @ drop c t) (c + n) (l\<lparr>l_buf := b, l_len := length t + n, l_cursor := c + n\<rparr>)"
proof (cases "length t + n \<ge> 100")
  case True
  then show ?thesis using holdsD(2) [OF h] by (simp add: insert_bytes_def Let_def)
next
  case False
  obtain zs where b: "l_buf l = t @ 0 # zs" "length zs = 99 - length t" using holdsD(4) [OF h] by blast
  note H = holdsD [OF h]
  let ?t = "take c t @ take n s @ drop c t"
  have l: "length ?t = length t + n" using n(1) H(7) by simp
  have z: "0 \<notin> set ?t" using H(5) n(2) by (auto dest: in_set_takeD in_set_dropD)
  define b2 where "b2 = take c t @ take n s @ drop c t @ drop (length t + n) (t @ 0 # zs)"
  have lb: "length b2 = 100" using b(2) H(3,7) False n(1) by (simp add: b2_def)
  define p where "p = take (c + n) (t @ 0 # zs)"
  have p: "length p = c + n" "take c p = take c t" using b(2) H(3,7) False by (auto simp: p_def min_def)
  have "blit (l_buf l) (c + n) (l_buf l) c (length t - c) = Inr (p @ drop c t @ drop (length t + n) (t @ 0 # zs))"
    using b H False by (simp add: p_def)
  moreover have "blit (p @ drop c t @ drop (length t + n) (t @ 0 # zs)) c s 0 n = Inr b2"
    using p n(1) by (simp add: b2_def)
  ultimately have i: "insert_bytes l 100 s n = Inr (n, l\<lparr>l_buf := b2[length t + n := 0], l_len := length t + n, l_cursor := c + n\<rparr>)"
    using H False lb by (simp add: insert_bytes_def Let_def)
  obtain y ys where "drop (length t + n) (t @ 0 # zs) = y # ys" using b(2) False by (cases "drop (length t + n) (t @ 0 # zs)") auto
  then have b2: "b2 = ?t @ y # ys" by (simp add: b2_def)
  then have ly: "n + (length t + length ys) = 99" using lb l by simp
  have "b2[length t + n := 0] = ?t @ 0 # ys" using b2 l by (metis list_update_length)
  then have "holds ?t (c + n) (l\<lparr>l_buf := b2[length t + n := 0], l_len := length t + n, l_cursor := c + n\<rparr>)"
    using l z ly False H(7) by (auto simp: holds_def)
  then show ?thesis using i False by auto
qed

lemma delete_range_holds:
  assumes h: "holds t c l" and r: "i \<le> j" "j \<le> length t"
  shows "\<exists>b. delete_range l i j = Inr (l\<lparr>l_buf := b, l_len := length t - (j - i), l_cursor := min c (length t - (j - i))\<rparr>)
    \<and> holds (take i t @ drop j t) (min c (length t - (j - i))) (l\<lparr>l_buf := b, l_len := length t - (j - i), l_cursor := min c (length t - (j - i))\<rparr>)"
proof -
  obtain zs where b: "l_buf l = t @ 0 # zs" "length zs = 99 - length t" using holdsD(4) [OF h] by blast
  note H = holdsD [OF h]
  let ?t = "take i t @ drop j t" and ?n = "length t - (j - i)"
  have l: "length ?t = ?n" using r by simp
  have z: "0 \<notin> set ?t" using H(5) by (auto dest: in_set_takeD in_set_dropD)
  define b2 where "b2 = ?t @ drop ?n (t @ 0 # zs)"
  have m: "blit (l_buf l) i (l_buf l) j (length t - j) = Inr b2"
    using b H r by (simp add: b2_def algebra_simps)
  obtain y ys where "drop ?n (t @ 0 # zs) = y # ys" using b(2) r by (cases "drop ?n (t @ 0 # zs)") auto
  then have b2: "b2 = ?t @ y # ys" by (simp add: b2_def)
  have lb: "length b2 = 100" using b(2) H(3) r by (simp add: b2_def)
  have d: "delete_range l i j = Inr (l\<lparr>l_buf := b2[?n := 0], l_len := ?n, l_cursor := min c ?n\<rparr>)"
    using H m lb r by (auto simp: delete_range_def Let_def min_def)
  have ly: "?n + length ys = 99" using lb b2 l by simp
  have "b2[?n := 0] = ?t @ 0 # ys" using b2 l by (metis list_update_length)
  then have "holds ?t (min c ?n) (l\<lparr>l_buf := b2[?n := 0], l_len := ?n, l_cursor := min c ?n\<rparr>)"
    using l z ly H(3) by (auto simp: holds_def)
  then show ?thesis using d by blast
qed

lemma set_line_holds:
  assumes "length (l_buf l) = 100" "row_ok src"
  shows "\<exists>t b. set_line l src 100 = Inr (l\<lparr>l_buf := b, l_len := length t, l_cursor := length t\<rparr>)
    \<and> holds t (length t) (l\<lparr>l_buf := b, l_len := length t, l_cursor := length t\<rparr>) \<and> (\<exists>zs. src = t @ 0 # zs)"
proof -
  obtain xs zs where x: "src = xs @ 0 # zs" "0 \<notin> set xs" "length xs < 100" "u_strlen src = Inr (length xs)" using row_ok_split [OF assms(2)] by blast
  obtain y ys where d: "drop (length xs) (l_buf l) = y # ys" using assms(1) x(3) by (cases "drop (length xs) (l_buf l)") auto
  have ly: "length xs + length ys = 99" using arg_cong [OF d, of length] assms(1) x(3) by simp
  have "blit (l_buf l) 0 src 0 (length xs) = Inr (xs @ y # ys)" using assms(1) x(1,3) d by simp
  then have "set_line l src 100 = Inr (l\<lparr>l_buf := xs @ 0 # ys, l_len := length xs, l_cursor := length xs\<rparr>)"
    using x by (simp add: set_line_def Let_def)
  moreover have "holds xs (length xs) (l\<lparr>l_buf := xs @ 0 # ys, l_len := length xs, l_cursor := length xs\<rparr>)"
    using x ly by (simp add: holds_def)
  ultimately show ?thesis using x(1) by blast
qed

section \<open>Drawing\<close>

text \<open>Drawing only adds to the output.\<close>

definition drawn :: "shell \<Rightarrow> shell \<Rightarrow> bool" where
  "drawn sh sh' \<longleftrightarrow> (\<exists>o'. sh' = sh\<lparr>sh_out := sh_out sh @ o'\<rparr>)"

lemma drawnI: "drawn sh sh" "drawn sh (emit e sh)" "drawn sh sh' \<Longrightarrow> drawn sh' sh'' \<Longrightarrow> drawn sh sh''"
  by (auto simp: drawn_def emit_def intro: exI [of _ "[]"])

lemma drawnD: "drawn sh sh' \<Longrightarrow> sh_in sh' = sh_in sh \<and> sh_history sh' = sh_history sh \<and> nhistory sh' = nhistory sh"
  by (auto simp: drawn_def)

lemma drawn_ok: "drawn sh sh' \<Longrightarrow> shell_ok sh \<Longrightarrow> shell_ok sh'" "drawn sh sh' \<Longrightarrow> line_ok sh l \<Longrightarrow> line_ok sh' l"
  by (auto simp: drawn_def shell_ok_def line_ok_def)

lemma write2_drawn: "off + n \<le> length buf \<Longrightarrow> \<exists>sh'. write2 buf off n sh = Inr sh' \<and> drawn sh sh'"
  by (simp add: write2_def drawnI)

lemma move_cursor_drawn: "w < 1000 \<Longrightarrow> \<exists>sh'. move_cursor J d w sh = Inr sh' \<and> drawn sh sh'"
  using term_move_cursor_ok [of "stack J 12" "int w" d] by (auto simp: move_cursor_def stack_def drawnI)

lemma redraw_drawn:
  assumes "length buf = 100" "len < 100" "cursor \<le> len"
  shows "\<exists>sh'. redraw J buf len cursor sh = Inr sh' \<and> drawn sh sh'"
proof -
  obtain w where w: "utf8_text_width buf cursor len = Inr w" "w \<le> 2 * (len - cursor)" using utf8_text_width_ok [of cursor len buf] assms by auto
  have w1: "w < 1000" using w(2) assms by linarith
  define o1 where "o1 = [13, 0x1B, 91, 50, 75, 36, 32] @ drop 7 (stack J 140)"
  define o2 where "o2 = take 7 o1 @ take len buf @ drop (7 + len) o1"
  have b: "blit (stack J 140) 0 [13, 0x1B, 91, 50, 75, 36, 32] 0 7 = Inr o1" by (simp add: o1_def stack_def)
  have l1: "length o1 = 140" by (simp add: o1_def stack_def)
  have b2: "blit o1 7 buf 0 len = Inr o2" using l1 assms by (simp add: o2_def)
  have l2: "length o2 = 140" using l1 assms by (simp add: o2_def)
  show ?thesis
  proof (cases "w > 0")
    case True
    let ?o = "o2[7 + len := 0x1B, 8 + len := 91]"
    obtain ds where d: "length ds \<le> 3" "term_append_uint (stack J 12) ?o (9 + len) (int w) = Inr (9 + len + length ds, take (9 + len) ?o @ ds @ drop (9 + len + length ds) ?o)"
      using term_append_uint_ok [of "int w" 3 "stack J 12" "9 + len" ?o] l2 assms w1 by (auto simp: stack_def)
    then show ?thesis
      using True w b b2 l2 assms write2_drawn by (simp add: redraw_def)
  next
    case False
    then show ?thesis using w b b2 l2 assms write2_drawn [of 0 "7 + len" o2 sh] by (simp add: redraw_def)
  qed
qed

lemma redraw_from_drawn:
  assumes "length buf = 100" "len < 100" "cursor \<le> len"
  shows "\<exists>sh'. redraw_from J buf len cursor sh = Inr sh' \<and> drawn sh sh'"
proof -
  obtain w where w: "utf8_text_width buf cursor len = Inr w" "w \<le> 2 * (len - cursor)" using utf8_text_width_ok [of cursor len buf] assms by auto
  obtain s1 where s1: "write2 buf cursor (len - cursor) sh = Inr s1" "drawn sh s1" using write2_drawn [of cursor "len - cursor" buf sh] assms by auto
  obtain s2 where s2: "move_cursor J 68 w (emit (Write 2 term_clear_eol) s1) = Inr s2" "drawn (emit (Write 2 term_clear_eol) s1) s2"
    using move_cursor_drawn [of w] w(2) assms by fastforce
  then show ?thesis using w(1) s1(1) drawnI(3) [OF drawnI(3) [OF s1(2) drawnI(2)] s2(2)] by (simp add: redraw_from_def)
qed

section \<open>The keys\<close>

text \<open>A key takes input and draws; the history stays.\<close>

definition fed :: "shell \<Rightarrow> shell \<Rightarrow> bool" where
  "fed sh sh' \<longleftrightarrow> set (sh_in sh') \<subseteq> set (sh_in sh) \<and> sh_history sh' = sh_history sh \<and> nhistory sh' = nhistory sh"

lemma fedI: "drawn sh sh' \<Longrightarrow> fed sh sh'" "fed sh sh" "fed sh sh' \<Longrightarrow> fed sh' sh'' \<Longrightarrow> fed sh sh''" "fed sh sh' \<Longrightarrow> drawn sh' sh'' \<Longrightarrow> fed sh sh''"
  by (auto simp: fed_def drawn_def)

lemma fed_ok: "fed sh sh' \<Longrightarrow> shell_ok sh \<Longrightarrow> shell_ok sh'" "fed sh sh' \<Longrightarrow> line_ok sh l \<longleftrightarrow> line_ok sh' l"
  by (auto simp: fed_def shell_ok_def line_ok_def)

definition key_ok :: "shell \<Rightarrow> key res \<Rightarrow> bool" where
  "key_ok sh k \<longleftrightarrow> (case k of
      Inr (Again l sh') \<Rightarrow> fed sh sh' \<and> line_ok sh' l
    | Inr (Enter l sh') \<Rightarrow> fed sh sh' \<and> length (l_buf l) = 100 \<and> 0 < l_len l \<and> l_len l < 100 \<and> l_buf l ! l_len l = 0 \<and> 0 \<notin> set (take (l_len l) (l_buf l))
    | Inr (Quit sh') \<Rightarrow> fed sh sh'
    | Inl e \<Rightarrow> False)"

lemma key_ok_again: "key_ok sh (Inr (Again l sh')) \<longleftrightarrow> fed sh sh' \<and> line_ok sh' l"
  by (simp add: key_ok_def)

lemma key_ok_fed: "fed sh sh1 \<Longrightarrow> key_ok sh1 k \<Longrightarrow> key_ok sh k"
  by (auto simp: key_ok_def fed_def split: sum.splits key.splits)

lemma read1_fed: "read1 sh = (r, sh') \<Longrightarrow> fed sh sh'"
  by (auto simp: read1_def fed_def split: list.splits)

lemma line_okI: "holds t c l \<Longrightarrow> row_ok (l_draft l) \<Longrightarrow> l_hpos l \<le> nhistory sh \<Longrightarrow> line_ok sh l"
  by (auto simp: line_ok_def)

lemma line_okE:
  assumes "line_ok sh l"
  obtains t c where "holds t c l" "row_ok (l_draft l)" "l_hpos l \<le> nhistory sh"
  using assms by (auto simp: line_ok_def)

lemma redraw_again:
  assumes "holds t c l" "row_ok (l_draft l)" "l_hpos l \<le> nhistory sh"
  shows "key_ok sh (rbind (redraw J (l_buf l) (l_len l) (l_cursor l) sh) (\<lambda>sh. Inr (Again l sh)))"
proof -
  obtain sh' where "redraw J (l_buf l) (l_len l) (l_cursor l) sh = Inr sh'" "drawn sh sh'"
    using redraw_drawn [of "l_buf l" "l_len l" "l_cursor l" J sh] holdsD [OF assms(1)] by auto
  then show ?thesis using assms line_okI drawn_ok(2) fedI(1) by (auto simp: key_ok_again)
qed

lemma redraw_from_again:
  assumes "holds t c l" "row_ok (l_draft l)" "l_hpos l \<le> nhistory sh"
  shows "key_ok sh (rbind (redraw_from J (l_buf l) (l_len l) (l_cursor l) sh) (\<lambda>sh. Inr (Again l sh)))"
proof -
  obtain sh' where "redraw_from J (l_buf l) (l_len l) (l_cursor l) sh = Inr sh'" "drawn sh sh'"
    using redraw_from_drawn [of "l_buf l" "l_len l" "l_cursor l" J sh] holdsD [OF assms(1)] by auto
  then show ?thesis using assms line_okI drawn_ok(2) fedI(1) by (auto simp: key_ok_again)
qed

lemma set_line_again:
  assumes "length (l_buf l) = 100" "row_ok h" "row_ok (l_draft l)" "l_hpos l \<le> nhistory sh"
  shows "key_ok sh (rbind (set_line l h 100) (\<lambda>l. rbind (redraw J (l_buf l) (l_len l) (l_cursor l) sh) (\<lambda>sh. Inr (Again l sh))))"
proof -
  obtain t b where t: "set_line l h 100 = Inr (l\<lparr>l_buf := b, l_len := length t, l_cursor := length t\<rparr>)"
      "holds t (length t) (l\<lparr>l_buf := b, l_len := length t, l_cursor := length t\<rparr>)"
    using set_line_holds [OF assms(1,2)] by blast
  show ?thesis unfolding t(1) rbind_simps by (rule redraw_again [OF t(2)]) (use assms in simp_all)
qed

lemma getcmd_up_ok:
  assumes "line_ok sh l" "shell_ok sh"
  shows "key_ok sh (getcmd_up J 100 l sh)"
proof (cases "l_hpos l > 0")
  case True
  obtain t c where h: "holds t c l" "row_ok (l_draft l)" "l_hpos l \<le> nhistory sh" using assms(1) by (rule line_okE)
  note H = holdsD [OF h(1)]
  obtain d where d: "(if \<not> l_saved l
         then rbind (blit (l_draft l) 0 (l_buf l) 0 (l_len l)) (\<lambda>d. rbind (wr d (l_len l) 0) (\<lambda>d. Inr (l\<lparr>l_draft := d, l_saved := True\<rparr>)))
         else Inr l) = Inr (l\<lparr>l_draft := d, l_saved := True\<rparr>)" "row_ok d"
  proof (cases "l_saved l")
    case True
    then have "l = l\<lparr>l_draft := l_draft l, l_saved := True\<rparr>" by simp
    then show ?thesis using True h(2) that by metis
  next
    case False
    let ?d = "(take (length t) (l_buf l) @ drop (length t) (l_draft l))[length t := 0]"
    have l: "length (take (length t) (l_buf l) @ drop (length t) (l_draft l)) = 100" using h(2) H(1,3) by (simp add: row_ok_def)
    then have "row_ok ?d" using H(3) by (auto simp: row_ok_def intro: set_update_memI)
    then show ?thesis using False H h(2) l that [of ?d] by (simp add: row_ok_def)
  qed
  have i: "l_hpos l - 1 < length (sh_history sh)" using True h(3) assms(2) by (auto simp: shell_ok_def)
  then have "row_ok (sh_history sh ! (l_hpos l - 1))" using assms(2) by (auto simp: shell_ok_def)
  from set_line_again [OF _ this, of "l\<lparr>l_draft := d, l_saved := True, l_hpos := l_hpos l - 1\<rparr>" sh J]
  show ?thesis using True d i H(1) h(3) by (simp add: getcmd_up_def row_def)
qed (use assms in \<open>simp add: getcmd_up_def key_ok_again fedI\<close>)

lemma getcmd_down_ok:
  assumes "line_ok sh l" "shell_ok sh"
  shows "key_ok sh (getcmd_down J 100 l sh)"
proof (cases "l_hpos l < nhistory sh")
  case True
  obtain t c where h: "holds t c l" "row_ok (l_draft l)" "l_hpos l \<le> nhistory sh" using assms(1) by (rule line_okE)
  let ?l = "l\<lparr>l_hpos := l_hpos l + 1\<rparr>"
  have r: "row_ok h \<Longrightarrow> key_ok sh (rbind (set_line ?l h 100) (\<lambda>l. rbind (redraw J (l_buf l) (l_len l) (l_cursor l) sh) (\<lambda>sh. Inr (Again l sh))))" for h
    using holdsD(1) [OF h(1)] h(2) True by (intro set_line_again) simp_all
  show ?thesis
  proof (cases "Suc (l_hpos l) = nhistory sh")
    case e: True
    then show ?thesis using True r [OF h(2)] by (simp add: getcmd_down_def Let_def)
  next
    case False
    then have i: "Suc (l_hpos l) < length (sh_history sh)" using True assms(2) by (simp add: shell_ok_def)
    then have "row_ok (sh_history sh ! Suc (l_hpos l))" using assms(2) by (auto simp: shell_ok_def)
    from r [OF this] show ?thesis using True False i by (simp add: getcmd_down_def row_def Let_def)
  qed
qed (use assms in \<open>simp add: getcmd_down_def key_ok_again fedI\<close>)

lemma moved_again:
  assumes "holds t c l" "row_ok (l_draft l)" "l_hpos l \<le> nhistory sh" "k \<le> length t" "w < 1000"
  shows "key_ok sh (rbind (move_cursor J d w sh) (\<lambda>sh. Inr (Again (l\<lparr>l_cursor := k\<rparr>) sh)))"
proof -
  obtain sh' where m: "move_cursor J d w sh = Inr sh'" "drawn sh sh'" using move_cursor_drawn [OF assms(5)] by blast
  have "holds t k (l\<lparr>l_cursor := k\<rparr>)" using assms(1,4) by (simp add: holds_def)
  then have "line_ok sh (l\<lparr>l_cursor := k\<rparr>)" using assms(2,3) by (intro line_okI) simp_all
  then show ?thesis using m drawn_ok(2) fedI(1) by (simp add: key_ok_again)
qed

lemma getcmd_right_ok:
  assumes "line_ok sh l"
  shows "key_ok sh (getcmd_right J l sh)"
proof -
  obtain t c where h: "holds t c l" "row_ok (l_draft l)" "l_hpos l \<le> nhistory sh" using assms(1) by (rule line_okE)
  note H = holdsD [OF h(1)]
  obtain q where q: "utf8_next (l_buf l) c (length t) = Inr q" "c \<le> q" "q \<le> length t"
    using utf8_next_ok [of "length t" "l_buf l" c] H(1,3,7) by (cases "c < length t") (auto simp: utf8_next_def)
  obtain w where w: "utf8_text_width (l_buf l) c q = Inr w" "w \<le> 2 * (q - c)" using utf8_text_width_ok [of c q "l_buf l"] q H(1,3) by auto
  have "w < 1000" using w(2) q(3) H(3) by linarith
  from moved_again [OF h q(3) this] show ?thesis using H q w by (simp add: getcmd_right_def)
qed

lemma getcmd_left_ok:
  assumes "line_ok sh l"
  shows "key_ok sh (getcmd_left J l sh)"
proof -
  obtain t c where h: "holds t c l" "row_ok (l_draft l)" "l_hpos l \<le> nhistory sh" using assms(1) by (rule line_okE)
  note H = holdsD [OF h(1)]
  obtain q where q: "utf8_prev (l_buf l) c = Inr q" "q \<le> c" using utf8_prev_ok [of c "l_buf l"] H(1,3,7) by auto
  obtain w where w: "utf8_text_width (l_buf l) q c = Inr w" "w \<le> 2 * (c - q)" using utf8_text_width_ok [of q c "l_buf l"] q H(1,3,7) by auto
  have "q \<le> length t" "w < 1000" using w(2) q(2) H(3,7) by linarith+
  from moved_again [OF h this] show ?thesis using H q w by (simp add: getcmd_left_def)
qed

lemma getcmd_delete_ok:
  assumes "line_ok sh l"
  shows "key_ok sh (getcmd_delete J l sh)"
proof -
  obtain r s1 where r: "read1 sh = (r, s1)" by (cases "read1 sh")
  note f = read1_fed [OF r]
  have l1: "line_ok s1 l" using assms fed_ok(2) [OF f] by simp
  obtain t c where h: "holds t c l" "row_ok (l_draft l)" "l_hpos l \<le> nhistory s1" using l1 by (rule line_okE)
  note H = holdsD [OF h(1)]
  show ?thesis
  proof (cases "r = Some 126 \<and> c < length t")
    case True
    obtain q where q: "utf8_next (l_buf l) c (length t) = Inr q" "c < q" "q \<le> length t"
      using utf8_next_ok [of "length t" "l_buf l" c] H(1,3) True by auto
    obtain b where b: "delete_range l c q = Inr (l\<lparr>l_buf := b, l_len := length t - (q - c), l_cursor := min c (length t - (q - c))\<rparr>)"
        "holds (take c t @ drop q t) (min c (length t - (q - c))) (l\<lparr>l_buf := b, l_len := length t - (q - c), l_cursor := min c (length t - (q - c))\<rparr>)"
      using delete_range_holds [OF h(1), of c q] q by auto
    from redraw_from_again [OF b(2), of s1 J] h have "key_ok s1 (rbind (delete_range l c q) (\<lambda>l.
        rbind (redraw_from J (l_buf l) (l_len l) (l_cursor l) s1) (\<lambda>sh. Inr (Again l sh))))" unfolding b(1) by simp
    then show ?thesis using r True q(1) H key_ok_fed [OF f] by (simp add: getcmd_delete_def)
  next
    case False
    then show ?thesis using r f l1 H by (auto simp: getcmd_delete_def key_ok_again split: option.splits)
  qed
qed

lemma getcmd_esc_ok:
  assumes "line_ok sh l" "shell_ok sh"
  shows "key_ok sh (getcmd_esc J 100 l sh)"
proof -
  obtain r s1 where r: "read1 sh = (r, s1)" by (cases "read1 sh")
  obtain r' s2 where r': "read1 s1 = (r', s2)" by (cases "read1 s1")
  note f1 = read1_fed [OF r] and f2 = read1_fed [OF r']
  note f = fedI(3) [OF f1 f2]
  have k: "line_ok s1 l" "line_ok s2 l" "shell_ok s2" using assms fed_ok(2) [OF f1, of l] fed_ok(2) [OF f, of l] fed_ok(1) [OF f] by simp_all
  note K = getcmd_up_ok [OF k(2,3)] getcmd_down_ok [OF k(2,3)] getcmd_right_ok [OF k(2)] getcmd_left_ok [OF k(2)] getcmd_delete_ok [OF k(2)]
  show ?thesis
    using r r' f1 f k K [THEN key_ok_fed [OF f]] by (auto simp: getcmd_esc_def key_ok_again split: option.splits)
qed

lemma getcmd_erase_ok:
  assumes "line_ok sh l"
  shows "key_ok sh (getcmd_erase J l sh)"
proof -
  obtain t c where h: "holds t c l" "row_ok (l_draft l)" "l_hpos l \<le> nhistory sh" using assms by (rule line_okE)
  note H = holdsD [OF h(1)]
  show ?thesis
  proof (cases "c > 0")
    case True
    obtain q where q: "utf8_prev (l_buf l) c = Inr q" "q < c" using utf8_prev_ok [of c "l_buf l"] H(1,3,7) True by auto
    obtain w where w: "utf8_text_width (l_buf l) q c = Inr w" "w \<le> 2 * (c - q)" using utf8_text_width_ok [of q c "l_buf l"] q H(1,3,7) by auto
    have wb: "w < 1000" using w(2) H(3,7) by linarith
    let ?n = "length t - (c - q)"
    obtain b where b: "delete_range l q c = Inr (l\<lparr>l_buf := b, l_len := ?n, l_cursor := min c ?n\<rparr>)"
        "holds (take q t @ drop c t) (min c ?n) (l\<lparr>l_buf := b, l_len := ?n, l_cursor := min c ?n\<rparr>)"
      using delete_range_holds [OF h(1), of q c] q H(7) by auto
    let ?l = "l\<lparr>l_buf := b, l_len := ?n, l_cursor := q\<rparr>"
    have hl: "holds (take q t @ drop c t) q ?l" using b(2) q(2) H(7) by (simp add: holds_def)
    obtain s1 where s1: "move_cursor J 68 w sh = Inr s1" "drawn sh s1" using move_cursor_drawn [OF wb] by blast
    have "key_ok s1 (rbind (redraw_from J b ?n q s1) (\<lambda>sh. Inr (Again ?l sh)))"
      using redraw_from_again [OF hl, of s1 J] h(2,3) drawnD [OF s1(2)] by simp
    then show ?thesis using True H q(1) w(1) b(1) s1 key_ok_fed [OF fedI(1) [OF s1(2)]] by (simp add: getcmd_erase_def Let_def)
  qed (use assms H in \<open>simp add: getcmd_erase_def key_ok_again fedI\<close>)
qed

lemma utf8_input_len_le: "1 \<le> utf8_input_len c" "utf8_input_len c \<le> 4"
  by (simp_all add: utf8_input_len_def)

lemma read_more_spec:
  "read_more n xs sh = (ys, sh') \<Longrightarrow> 0 \<notin> set (sh_in sh) \<Longrightarrow> 0 \<notin> set xs \<Longrightarrow> fed sh sh' \<and> 0 \<notin> set ys \<and> length xs \<le> length ys"
proof (induction n arbitrary: xs sh)
  case (Suc n)
  obtain r s1 where r: "read1 sh = (r, s1)" by (cases "read1 sh")
  show ?case
  proof (cases r)
    case None
    then show ?thesis using Suc.prems r read1_fed [OF r] by auto
  next
    case (Some c)
    have s: "sh_in sh = c # sh_in s1" using r Some read1_some by blast
    have "fed s1 sh' \<and> 0 \<notin> set ys \<and> length (xs @ [c]) \<le> length ys"
      by (rule Suc.IH) (use Suc.prems r Some s in auto)
    then show ?thesis using fedI(3) [OF read1_fed [OF r]] by auto
  qed
qed (simp add: fedI)

lemma getcmd_text_ok:
  assumes "line_ok sh l" "c \<noteq> 0" "0 \<notin> set (sh_in sh)"
  shows "key_ok sh (getcmd_text J 100 c l sh)"
proof -
  obtain t k where h0: "holds t k l" "row_ok (l_draft l)" "l_hpos l \<le> nhistory sh" using assms(1) by (rule line_okE)
  obtain ys s1 where r: "read_more (utf8_input_len c - 1) [c] sh = (ys, s1)" by (cases "read_more (utf8_input_len c - 1) [c] sh")
  have f: "fed sh s1" "0 \<notin> set ys" "0 < length ys" using read_more_spec [OF r assms(3)] assms(2) by auto
  have h: "holds t k l" "row_ok (l_draft l)" "l_hpos l \<le> nhistory s1" using h0 f(1) by (simp_all add: fed_def)
  note H = holdsD [OF h(1)]
  have "key_ok s1 (rbind (insert_bytes l 100 ys (length ys)) (\<lambda>(k, l').
      if k > 0 then rbind (if l_cursor l = l_len l then write2 ys 0 (length ys) s1 else redraw J (l_buf l') (l_len l') (l_cursor l') s1) (\<lambda>sh. Inr (Again l' sh))
      else Inr (Again l' s1)))"
  proof (cases "length t + length ys \<ge> 100")
    case True
    then show ?thesis using insert_bytes_holds [OF h(1), of "length ys" ys] f(2) h line_okI by (auto simp: key_ok_again fedI)
  next
    case False
    then obtain b where b: "insert_bytes l 100 ys (length ys) = Inr (length ys, l\<lparr>l_buf := b, l_len := length t + length ys, l_cursor := k + length ys\<rparr>)"
        "holds (take k t @ ys @ drop k t) (k + length ys) (l\<lparr>l_buf := b, l_len := length t + length ys, l_cursor := k + length ys\<rparr>)"
      using insert_bytes_holds [OF h(1), of "length ys" ys] f(2) by auto
    let ?l = "l\<lparr>l_buf := b, l_len := length t + length ys, l_cursor := k + length ys\<rparr>"
    obtain s2 where s2: "write2 ys 0 (length ys) s1 = Inr s2" "drawn s1 s2" using write2_drawn [of 0 "length ys" ys s1] by auto
    have ok: "line_ok s1 ?l" using b(2) h by (intro line_okI) simp_all
    show ?thesis
      using b(1) f(3) s2 drawn_ok(2) [OF s2(2) ok] redraw_again [OF b(2), of s1 J] h fedI(1) [OF s2(2)] by (auto simp: key_ok_again)
  qed
  then show ?thesis using r key_ok_fed [OF f(1)] by (simp add: getcmd_text_def Let_def)
qed

section \<open>Completion\<close>

definition entry_name :: "u8 list \<Rightarrow> u8 list" where
  "entry_name de = takeWhile (\<lambda>c. c \<noteq> 0) de"

definition visible :: "bool \<Rightarrow> u8 list \<Rightarrow> bool" where
  "visible command xs \<longleftrightarrow> xs \<noteq> [46] \<and> xs \<noteq> [99, 111, 110, 115, 111, 108, 101] \<and> (command \<longrightarrow> 46 \<notin> set xs)"

definition starts :: "nat \<Rightarrow> u8 list \<Rightarrow> u8 list \<Rightarrow> bool" where
  "starts n P xs \<longleftrightarrow> n \<le> length xs \<and> take n xs = take n P"

definition hits :: "bool \<Rightarrow> nat \<Rightarrow> u8 list \<Rightarrow> (u16 \<times> u8 list) list \<Rightarrow> (u16 \<times> u8 list) list" where
  "hits command n P ds = filter (\<lambda>(i, de). i \<noteq> 0 \<and> visible command (entry_name de) \<and> starts n P (entry_name de)) ds"

lemma direntname_loop_spec:
  "i + length cs = 14 \<Longrightarrow> length name = 15 \<Longrightarrow>
    direntname_loop i cs name = Inr (take i name @ takeWhile (\<lambda>c. c \<noteq> 0) cs @ 0 # drop (Suc (i + length (takeWhile (\<lambda>c. c \<noteq> 0) cs))) name)"
proof (induction cs arbitrary: i name)
  case Nil
  then show ?case by (simp add: upd_conv_take_nth_drop)
next
  case (Cons c cs)
  show ?case
  proof (cases "c = 0")
    case True
    then show ?thesis using Cons.prems by (simp add: upd_conv_take_nth_drop)
  next
    case False
    have "direntname_loop (Suc i) cs (name[i := c])
        = Inr (take (Suc i) (name[i := c]) @ takeWhile (\<lambda>c. c \<noteq> 0) cs @ 0 # drop (Suc (Suc i + length (takeWhile (\<lambda>c. c \<noteq> 0) cs))) (name[i := c]))"
      using Cons.prems by (intro Cons.IH) simp_all
    then show ?thesis using False Cons.prems by (simp add: take_Suc_conv_app_nth)
  qed
qed

lemma direntname_spec:
  assumes "length de = 14" "length name = 15"
  shows "\<exists>zs. direntname de name = Inr (entry_name de @ 0 # zs) \<and> length (entry_name de @ 0 # zs) = 15 \<and> 0 \<notin> set (entry_name de)"
proof -
  have "length (entry_name de) \<le> 14" using length_takeWhile_le [of "\<lambda>c. c \<noteq> 0" de] assms(1) by (simp add: entry_name_def)
  moreover have "0 \<notin> set (entry_name de)" by (auto simp: entry_name_def dest: set_takeWhileD)
  ultimately show ?thesis
    using direntname_loop_spec [of 0 de name] assms by (simp add: direntname_def entry_name_def)
qed

lemma entry_spec:
  assumes "0 \<notin> set xs"
  shows "(if command then command_entry (xs @ 0 # zs) else file_entry (xs @ 0 # zs)) = Inr (visible command xs)"
proof -
  obtain a where a: "u_strcmp (xs @ 0 # zs) dot_name = Inr a" "a = 0 \<longleftrightarrow> xs = [46]"
    using u_strcmp_eq [OF assms, of "[46]" zs "[]"] by (auto simp: dot_name_def)
  obtain b where b: "u_strcmp (xs @ 0 # zs) console_name = Inr b" "b = 0 \<longleftrightarrow> xs = [99, 111, 110, 115, 111, 108, 101]"
    using u_strcmp_eq [OF assms, of "[99, 111, 110, 115, 111, 108, 101]" zs "[]"] by (auto simp: console_name_def)
  obtain r where "u_strchr (xs @ 0 # zs) 46 = Inr r" "r = None \<longleftrightarrow> 46 \<notin> set xs" using u_strchr_eq [OF assms] by blast
  then show ?thesis using a b by (auto simp: command_entry_def file_entry_def visible_def)
qed

lemma match_from_spec:
  assumes "0 \<notin> set (take n P)" "n \<le> length P" "n < length (xs @ 0 # zs)" "k \<le> n" "k \<le> length xs" "take k xs = take k P"
  shows "match_from (xs @ 0 # zs) P [k..<n] = Inr (starts n P xs)"
  using assms(4-6)
proof (induction "n - k" arbitrary: k)
  case 0
  then show ?case by (simp add: starts_def)
next
  case (Suc d)
  have kn: "k < n" "[k..<n] = k # [Suc k..<n]" using Suc.hyps(2) by (simp_all add: upt_conv_Cons)
  show ?case
  proof (cases "k < length xs \<and> xs ! k = P ! k")
    case True
    then have "take (Suc k) xs = take (Suc k) P" using Suc.prems kn(1) assms(2) by (simp add: take_Suc_conv_app_nth)
    then have "match_from (xs @ 0 # zs) P [Suc k..<n] = Inr (starts n P xs)" using Suc kn(1) True by (intro Suc.hyps(1)) simp_all
    then show ?thesis using True kn assms(2) by (simp add: nth_append)
  next
    case False
    have "P ! k \<noteq> 0" using assms(1,2) kn(1) by (metis in_set_conv_nth length_take min.absorb2 nth_take)
    moreover have "\<not> starts n P xs"
    proof
      assume s: "starts n P xs"
      then have "k < length xs" using kn(1) by (simp add: starts_def)
      moreover have "xs ! k = P ! k" using s kn(1) by (metis nth_take starts_def)
      ultimately show False using False by simp
    qed
    ultimately show ?thesis using False kn assms(2,3) Suc.prems by (auto simp: nth_append)
  qed
qed

lemma match_prefix_spec:
  assumes "0 \<notin> set (take (nat n) P)" "nat n \<le> length P" "nat n < length (xs @ 0 # zs)"
  shows "match_prefix (xs @ 0 # zs) P n = Inr (starts (nat n) P xs)"
  using match_from_spec [OF assms, of 0] by (simp add: match_prefix_def)

lemma scan_dir_spec:
  assumes "\<forall>(i, de)\<in>set ds. length de = 14" "0 \<notin> set (take (nat n) P)" "nat n \<le> length P" "nat n < 15" "length name = 15" "length match = 15"
  shows "\<exists>match'. scan_dir command P n ds name match m = Inr (match', m + length (hits command (nat n) P ds)) \<and> length match' = 15
    \<and> (if hits command (nat n) P ds = [] then match' = match else \<exists>zs. match' = entry_name (snd (last (hits command (nat n) P ds))) @ 0 # zs)"
  using assms(1,5,6)
proof (induction ds arbitrary: name match m)
  case (Cons d ds)
  obtain i de where d: "d = (i, de)" by (cases d)
  have ds: "\<forall>(i, de)\<in>set ds. length de = 14" "length de = 14" using Cons.prems(1) d by auto
  show ?case
  proof (cases "i = 0")
    case True
    then have h: "hits command (nat n) P (d # ds) = hits command (nat n) P ds" using d by (simp add: hits_def)
    show ?thesis unfolding h using True Cons.IH [OF ds(1) Cons.prems(2,3), of m] d by simp
  next
    case False
    obtain zs where z: "direntname de name = Inr (entry_name de @ 0 # zs)" "length (entry_name de @ 0 # zs) = 15" "0 \<notin> set (entry_name de)"
      using direntname_spec [OF ds(2) Cons.prems(2)] by blast
    note e = entry_spec [OF z(3), of command zs]
    have mp: "match_prefix (entry_name de @ 0 # zs) P n = Inr (starts (nat n) P (entry_name de))"
      using assms(2-4) z(2) by (intro match_prefix_spec) simp_all
    show ?thesis
    proof (cases "visible command (entry_name de) \<and> starts (nat n) P (entry_name de)")
      case True
      have cp: "u_strcpy match (entry_name de @ 0 # zs) = Inr (entry_name de @ 0 # drop (Suc (length (entry_name de))) match)"
        using z(2,3) Cons.prems(3) by (intro u_strcpy_eq) simp_all
      let ?m = "entry_name de @ 0 # drop (Suc (length (entry_name de))) match"
      have lm: "length ?m = 15" using z(2) Cons.prems(3) by simp
      have h: "hits command (nat n) P (d # ds) = d # hits command (nat n) P ds" using True False d by (simp add: hits_def)
      obtain m' where m': "scan_dir command P n ds (entry_name de @ 0 # zs) ?m (m + 1) = Inr (m', m + 1 + length (hits command (nat n) P ds))" "length m' = 15"
          "if hits command (nat n) P ds = [] then m' = ?m else \<exists>zs. m' = entry_name (snd (last (hits command (nat n) P ds))) @ 0 # zs"
        using Cons.IH [OF ds(1) z(2) lm, of "m + 1"] by auto
      then have "\<exists>zs. m' = entry_name (snd (last (d # hits command (nat n) P ds))) @ 0 # zs" using d by (auto split: if_splits)
      then show ?thesis unfolding h using False True z(1) e mp cp m'(1,2) d by simp
    next
      case no: False
      then have h: "hits command (nat n) P (d # ds) = hits command (nat n) P ds" using d by (auto simp: hits_def)
      show ?thesis unfolding h
        using Cons.IH [OF ds(1) z(2) Cons.prems(3), of m] False no z(1) e mp d by (cases "visible command (entry_name de)") simp_all
    qed
  qed
qed (simp add: hits_def)

lemma token_start_ok: "c \<le> length buf \<Longrightarrow> \<exists>s. token_start buf c = Inr s \<and> s \<le> c"
  by (induction c) (auto simp: le_Suc_eq)

lemma first_from_ok: "\<forall>i\<in>set is. i < length buf \<Longrightarrow> \<exists>b. first_from buf is = Inr b"
  by (induction "is") auto

lemma has_slash_ok: "\<forall>i\<in>set is. i < length buf \<Longrightarrow> \<exists>b. has_slash buf is = Inr b"
  by (induction "is") auto

text \<open>A directory in which exactly one entry is visible, as a command or as a file.\<close>

definition lone :: "(u16 \<times> u8 list) list \<Rightarrow> bool" where
  "lone ds \<longleftrightarrow> (\<exists>command. length (filter (\<lambda>(i, de). i \<noteq> 0 \<and> visible command (entry_name de)) ds) = 1)"

definition dir_ok :: "dirents \<Rightarrow> bool" where
  "dir_ok dir \<longleftrightarrow> (\<forall>ds. dir = Some ds \<longrightarrow> (\<forall>(i, de)\<in>set ds. length de = 14))"

lemma hits_all: "hits command 0 P ds = filter (\<lambda>(i, de). i \<noteq> 0 \<and> visible command (entry_name de)) ds"
  by (simp add: hits_def starts_def)

definition completed :: "u8 list \<Rightarrow> nat \<Rightarrow> line \<Rightarrow> (nat \<times> line) res \<Rightarrow> bool" where
  "completed t c l res \<longleftrightarrow> (\<exists>n l' s. res = Inr (n, l') \<and> holds (take c t @ s @ drop c t) (c + n) l' \<and> length s = n
     \<and> l_draft l' = l_draft l \<and> l_hpos l' = l_hpos l)"

lemma completed_none: "holds t c l \<Longrightarrow> completed t c l (Inr (0, l))"
  by (simp add: completed_def)

text \<open>Inserting the rest of the one name that matches.\<close>

lemma insert_suffix:
  assumes h: "holds t c l" and z: "0 \<notin> set nm" "k \<le> length nm"
  shows "(let suffix = drop k (nm @ 0 # zs) in rbind (u_strlen suffix) (\<lambda>n. insert_bytes l 100 suffix n))
    = insert_bytes l 100 (drop k nm @ 0 # zs) (length nm - k)"
    "completed t c l (insert_bytes l 100 (drop k nm @ 0 # zs) (length nm - k))"
proof -
  have zd: "0 \<notin> set (drop k nm)" using z(1) by (auto dest: in_set_dropD)
  have "u_strlen (drop k nm @ 0 # zs) = Inr (length nm - k)" using u_strlen_eq [OF zd, of zs] by simp
  then show "(let suffix = drop k (nm @ 0 # zs) in rbind (u_strlen suffix) (\<lambda>n. insert_bytes l 100 suffix n))
      = insert_bytes l 100 (drop k nm @ 0 # zs) (length nm - k)" using z(2) by (simp add: Let_def)
  show "completed t c l (insert_bytes l 100 (drop k nm @ 0 # zs) (length nm - k))"
    using insert_bytes_holds [OF h, of "length nm - k" "drop k nm @ 0 # zs"] zd completed_none [OF h]
    by (auto simp: completed_def split: if_splits intro!: exI [of _ "drop k nm"])
qed

lemma scan_completed:
  assumes h: "holds t c l" and d: "\<forall>(i, de)\<in>set ds. length de = 14" and p: "p \<le> c + 1" "int c - int p < 14"
    and lone: "c < p \<Longrightarrow> \<not> lone ds"
  shows "completed t c l (rbind (scan_dir command (drop p (l_buf l)) (int c - int p) ds (stack J 15) (stack J 15) 0) (\<lambda>(match, matches).
      if matches = 1 then if int c - int p < 0 then Inl BadAccess
        else let suffix = drop (nat (int c - int p)) match in rbind (u_strlen suffix) (\<lambda>n. insert_bytes l 100 suffix n)
      else Inr (0, l)))"
proof -
  note H = holdsD [OF h]
  let ?n = "int c - int p" and ?P = "drop p (l_buf l)"
  obtain zs where b: "l_buf l = t @ 0 # zs" using H(4) by blast
  have nn: "nat ?n = c - p" by arith
  have "take (nat ?n) ?P = drop p (take c t)" unfolding nn using b H(7) by (simp add: drop_take)
  then have P: "0 \<notin> set (take (nat ?n) ?P)" using H(5) by (auto dest: in_set_dropD in_set_takeD)
  have Pl: "nat ?n \<le> length ?P" "nat ?n < 15" using H(1,3,7) p by auto
  let ?h = "hits command (nat ?n) ?P ds"
  obtain m where m: "scan_dir command ?P ?n ds (stack J 15) (stack J 15) 0 = Inr (m, length ?h)"
      "if ?h = [] then m = stack J 15 else \<exists>zs. m = entry_name (snd (last ?h)) @ 0 # zs"
    using scan_dir_spec [OF d P Pl, of "stack J 15" "stack J 15" command 0] by (auto simp: stack_def)
  show ?thesis
  proof (cases "length ?h = 1")
    case True
    then obtain e where e: "?h = [e]" by (cases ?h) auto
    then have "e \<in> set ?h" by simp
    then have s: "starts (nat ?n) ?P (entry_name (snd e))" by (auto simp: hits_def)
    obtain ys where my: "m = entry_name (snd e) @ 0 # ys" using m(2) e by auto
    have ng: "\<not> ?n < 0"
    proof
      assume "?n < 0"
      then show False using lone True hits_all [of command ?P ds] by (auto simp: lone_def)
    qed
    have z: "0 \<notin> set (entry_name (snd e))" by (auto simp: entry_name_def dest: set_takeWhileD)
    have k: "nat ?n \<le> length (entry_name (snd e))" using s by (simp add: starts_def)
    show ?thesis
      unfolding m(1) rbind_simps prod.case my using True ng insert_suffix [OF h z k, of ys] by simp
  next
    case False
    then show ?thesis unfolding m(1) using completed_none [OF h] by simp
  qed
qed

lemma complete_token_ok:
  assumes h: "holds t c l" and d: "dir_ok dir" "\<And>ds. dir = Some ds \<Longrightarrow> \<not> lone ds"
  shows "completed t c l (complete_token J dir l 100)"
proof -
  note H = holdsD [OF h] and none = completed_none [OF h]
  obtain s where s: "token_start (l_buf l) c = Inr s" "s \<le> c" using token_start_ok [of c "l_buf l"] H by auto
  have rs: "c < 100" "s < 100" using s H by auto
  obtain f where f: "first_token (l_buf l) s = Inr f" using first_from_ok [of "[0..<s]" "l_buf l"] H(1) rs by (auto simp: first_token_def)
  have sl: "\<exists>b. has_slash (l_buf l) [p..<c] = Inr b" for p using has_slash_ok [of "[p..<c]" "l_buf l"] H(1) rs by auto
  define p where "p = (if quote_char (l_buf l ! s) then s + 1 else s)"
  define other where "other = (quote_char (l_buf l ! s) \<and> c < length t \<and> l_buf l ! c \<noteq> l_buf l ! s)"
  have q: "(if quote_char (l_buf l ! s)
      then if c < length t then rbind (rd (l_buf l) c) (\<lambda>x. Inr (s + 1, x \<noteq> l_buf l ! s)) else Inr (s + 1, False)
      else Inr (s, False)) = Inr (p, other)" using H(1) rs by (auto simp: p_def other_def)
  obtain b where b: "has_slash (l_buf l) [p..<c] = Inr b" using sl by blast
  define scan where "scan ds = rbind (scan_dir f (drop p (l_buf l)) (int c - int p) ds (stack J 15) (stack J 15) 0) (\<lambda>(match, matches).
      if matches = 1 then if int c - int p < 0 then Inl BadAccess
        else rbind (u_strlen (drop (nat (int c - int p)) match)) (\<lambda>n. insert_bytes l 100 (drop (nat (int c - int p)) match) n)
      else Inr (0, l))" for ds
  have "completed t c l (scan ds)" if "dir = Some ds" "int c - int p < 14" for ds
    unfolding scan_def using d that s(2) by (intro scan_completed [OF h, unfolded Let_def]) (auto simp: dir_ok_def p_def)
  moreover have "complete_token J dir l 100 = (if c < length t \<and> \<not> blank_char (l_buf l ! c) \<and> \<not> quote_char (l_buf l ! c) \<or> other
      \<or> 14 \<le> int c - int p \<or> b then Inr (0, l) else case dir of None \<Rightarrow> Inr (0, l) | Some ds \<Rightarrow> scan ds)"
    unfolding complete_token_def Let_def H(2,6) s(1) using H(1) rs f b q by (auto simp: scan_def split: option.split)
  ultimately show ?thesis using none by (auto split: option.split)
qed

lemma getcmd_tab_ok:
  assumes "line_ok sh l" "dir_ok dir" "\<And>ds. dir = Some ds \<Longrightarrow> \<not> lone ds"
  shows "key_ok sh (getcmd_tab J dir 100 l sh)"
proof -
  obtain t c where h: "holds t c l" "row_ok (l_draft l)" "l_hpos l \<le> nhistory sh" using assms(1) by (rule line_okE)
  note H = holdsD [OF h(1)]
  obtain n l' s where c: "complete_token J dir l 100 = Inr (n, l')" "holds (take c t @ s @ drop c t) (c + n) l'" "length s = n"
      "l_draft l' = l_draft l" "l_hpos l' = l_hpos l"
    using complete_token_ok [OF h(1) assms(2,3), of J] by (auto simp: completed_def)
  note H' = holdsD [OF c(2)]
  have ok: "line_ok sh l'" using c(2,4,5) h(2,3) by (intro line_okI) simp_all
  have le: "length t + n < 100" using H'(3) c(3) H(7) by simp
  obtain s2 where s2: "write2 (l_buf l') c n sh = Inr s2" "drawn sh s2" using write2_drawn [of c n "l_buf l'" sh] H'(1) le H(7) by auto
  show ?thesis
    using c(1) H s2 drawn_ok(2) [OF s2(2) ok] redraw_again [OF c(2), of sh J] c(4,5) h(2,3) fedI(1) [OF s2(2)] ok
    by (auto simp: getcmd_tab_def Let_def key_ok_again fedI)
qed

lemma getcmd_key_ok:
  assumes l: "line_ok sh l" "shell_ok sh" and d: "dir_ok dir" "\<And>ds. dir = Some ds \<Longrightarrow> \<not> lone ds"
    and i: "c \<noteq> 0" "0 \<notin> set (sh_in sh)" and n: "l_len l + 1 < 100"
  shows "key_ok sh (getcmd_key J dir 100 c l sh)"
proof -
  obtain t k where h: "holds t k l" "row_ok (l_draft l)" "l_hpos l \<le> nhistory sh" using l(1) by (rule line_okE)
  note H = holdsD [OF h(1)]
  obtain zs where b: "l_buf l = t @ 0 # zs" "length zs = 99 - length t" using H(4) by blast
  have kill: "key_ok sh (rbind (wr (l_buf l) 0 0) (\<lambda>buf. let l = l\<lparr>l_buf := buf, l_len := 0, l_cursor := 0\<rparr> in
      rbind (redraw J buf 0 0 sh) (\<lambda>sh. Inr (Again l sh))))"
  proof -
    let ?l = "l\<lparr>l_buf := (l_buf l)[0 := 0], l_len := 0, l_cursor := 0\<rparr>"
    obtain y ys where "l_buf l = y # ys" using H(1) by (cases "l_buf l") auto
    then have "holds [] 0 ?l" using H(1) by (simp add: holds_def)
    from redraw_again [OF this, of sh J] show ?thesis using h(2,3) H(1) by (simp add: Let_def)
  qed
  have enter: "key_ok sh (rbind (wr (l_buf l) (l_len l) 10) (\<lambda>buf. rbind (wr buf (l_len l + 1) 0) (\<lambda>buf.
        Inr (Enter (l\<lparr>l_buf := buf, l_len := l_len l + 1\<rparr>) (emit (Write 2 [10]) sh)))))"
  proof -
    obtain y ys where "zs = y # ys" using b(2) n H(2) by (cases zs) auto
    then have e: "(l_buf l)[length t := 10, length t + 1 := 0] = t @ 10 # 0 # ys" using b(1) by (simp add: list_update_append)
    have "length ((l_buf l)[length t := 10, length t + 1 := 0]) = 100" using H(1) by simp
    then have lb: "length (t @ 10 # 0 # ys) = 100" unfolding e .
    have w: "wr (l_buf l) (length t) 10 = Inr ((l_buf l)[length t := 10])" "wr ((l_buf l)[length t := 10]) (length t + 1) 0 = Inr (t @ 10 # 0 # ys)"
      using H(1,3) n H(2) e by simp_all
    have f: "fed sh (emit (Write 2 [10]) sh)" by (intro fedI drawnI)
    show ?thesis unfolding H(2) w(1) rbind_simps w(2) using f lb H(5) n H(2) by (simp add: key_ok_def nth_append)
  qed
  show ?thesis
    using getcmd_esc_ok [OF l] getcmd_tab_ok [OF l(1) d] getcmd_erase_ok [OF l(1)] getcmd_text_ok [OF l(1) i] kill enter
    by (simp add: getcmd_key_def key_ok_def [of _ "Inr (Quit _)"] fedI drawnI)
qed

section \<open>History\<close>

lemma blank_from_ok: "\<forall>i\<in>set is. i < length buf \<Longrightarrow> \<exists>b. blank_from buf is = Inr b"
  by (induction "is") auto

lemma rows_shift:
  assumes "length h = HISTSIZE" "\<forall>r\<in>set h. row_ok r" "\<forall>i\<in>set is. 0 < i \<and> i < HISTSIZE"
  shows "\<exists>h'. rfold (\<lambda>i h. rbind (row h (i - 1)) (\<lambda>d. rbind (row h i) (\<lambda>s. rbind (u_strcpy d s) (\<lambda>d. Inr (h[i - 1 := d]))))) is h = Inr h'
    \<and> length h' = HISTSIZE \<and> (\<forall>r\<in>set h'. row_ok r)"
  using assms
proof (induction "is" arbitrary: h)
  case (Cons i "is")
  have i: "i < length h" "i - 1 < length h" using Cons.prems by auto
  then have r: "row_ok (h ! i)" "row_ok (h ! (i - 1))" using Cons.prems(2) by auto
  obtain xs zs where x: "h ! i = xs @ 0 # zs" "0 \<notin> set xs" "length xs < 100" using row_ok_split [OF r(1)] by blast
  let ?d = "xs @ 0 # drop (Suc (length xs)) (h ! (i - 1))"
  have d: "u_strcpy (h ! (i - 1)) (h ! i) = Inr ?d" using x r(2) u_strcpy_eq [of xs "h ! (i - 1)" zs] by (simp add: row_ok_def)
  have "row_ok ?d" using r(2) x(3) by (simp add: row_ok_def)
  then have "\<forall>r\<in>set (h[i - 1 := ?d]). row_ok r" using Cons.prems(2) set_update_subset_insert [of h "i - 1" ?d] by auto
  then show ?case using Cons.IH [of "h[i - 1 := ?d]"] Cons.prems i d by (simp add: row_def)
qed simp

lemma same_line_ok:
  assumes "row_ok h" "length buf = 100" "n < 100"
  shows "\<exists>b. same_line h buf n = Inr b"
proof -
  obtain k where "u_strlen h = Inr k" using row_ok_split [OF assms(1)] by blast
  then show ?thesis using assms by (auto simp: same_line_def row_ok_def)
qed

lemma save_history_ok:
  assumes "shell_ok sh" "length buf = 100" "len < 100"
  shows "\<exists>sh'. save_history buf len sh = Inr sh' \<and> shell_ok sh' \<and> sh_in sh' = sh_in sh"
proof -
  define n where "n = (if 0 < len \<and> buf ! (len - 1) = 10 then len - 1 else len)"
  have n: "(if len > 0 then rbind (rd buf (len - 1)) (\<lambda>c. Inr (if c = 10 then len - 1 else len)) else Inr len) = Inr n" "n < 100"
    using assms(2,3) by (auto simp: n_def)
  obtain b where b: "(if n = 0 then Inr True else blank_line buf n) = Inr b"
    using blank_from_ok [of "[0..<n]" buf] n(2) assms(2) by (cases "n = 0") (auto simp: blank_line_def)
  have S: "length (sh_history sh) = HISTSIZE" "\<forall>r\<in>set (sh_history sh). row_ok r" "nhistory sh \<le> HISTSIZE" using assms(1) by (auto simp: shell_ok_def)
  obtain m where m: "(if nhistory sh > 0 then rbind (row (sh_history sh) (nhistory sh - 1)) (\<lambda>h. same_line h buf n) else Inr False) = Inr m"
  proof (cases "nhistory sh > 0")
    case True
    then have "nhistory sh - 1 < length (sh_history sh)" using S by auto
    moreover from this have "row_ok (sh_history sh ! (nhistory sh - 1))" using S(2) by auto
    ultimately show ?thesis using True same_line_ok [OF _ assms(2) n(2)] that by (auto simp: row_def)
  qed (use that [of False] in simp)
  obtain s1 where s1: "(if nhistory sh = HISTSIZE
         then rbind (rfold (\<lambda>i h. rbind (row h (i - 1)) (\<lambda>d. rbind (row h i) (\<lambda>s. rbind (u_strcpy d s) (\<lambda>d. Inr (h[i - 1 := d])))))
                [1..<HISTSIZE] (sh_history sh)) (\<lambda>h. Inr (sh\<lparr>sh_history := h, nhistory := nhistory sh - 1\<rparr>))
         else Inr sh) = Inr s1" "shell_ok s1" "nhistory s1 < HISTSIZE" "sh_in s1 = sh_in sh"
  proof (cases "nhistory sh = HISTSIZE")
    case True
    obtain h where "rfold (\<lambda>i h. rbind (row h (i - 1)) (\<lambda>d. rbind (row h i) (\<lambda>s. rbind (u_strcpy d s) (\<lambda>d. Inr (h[i - 1 := d])))))
        [1..<HISTSIZE] (sh_history sh) = Inr h" "length h = HISTSIZE" "\<forall>r\<in>set h. row_ok r"
      using rows_shift [OF S(1,2), of "[1..<HISTSIZE]"] by auto
    then show ?thesis using True that [of "sh\<lparr>sh_history := h, nhistory := nhistory sh - 1\<rparr>"] by (simp add: shell_ok_def HISTSIZE_def)
  next
    case False
    then show ?thesis using that [of sh] assms(1) S(3) by simp
  qed
  let ?h = "sh_history s1 ! nhistory s1"
  have i: "nhistory s1 < length (sh_history s1)" using s1(2,3) by (simp add: shell_ok_def)
  then have r: "row_ok ?h" using s1(2) by (auto simp: shell_ok_def)
  let ?r = "(take n buf @ drop n ?h)[n := 0]"
  have l: "length (take n buf @ drop n ?h) = 100" using r assms(2) n(2) by (simp add: row_ok_def)
  then have "row_ok ?r" using n(2) by (simp add: row_ok_def set_update_memI)
  then have "shell_ok (s1\<lparr>sh_history := (sh_history s1)[nhistory s1 := ?r], nhistory := nhistory s1 + 1\<rparr>)"
    using s1(2,3) set_update_subset_insert [of "sh_history s1" "nhistory s1" ?r] by (auto simp: shell_ok_def)
  then show ?thesis
    using n b m s1 i r l assms by (auto simp: save_history_def row_def row_ok_def)
qed

section \<open>A whole line\<close>

definition line_read :: "shell \<Rightarrow> (int \<times> u8 list \<times> shell) res \<Rightarrow> bool" where
  "line_read sh res \<longleftrightarrow> (\<exists>r buf sh'. res = Inr (r, buf, sh') \<and> shell_ok sh' \<and> set (sh_in sh') \<subseteq> set (sh_in sh) \<and> length buf = 100
     \<and> (r = -1 \<or> r = 0 \<and> (\<exists>t zs. buf = t @ 0 # zs \<and> 0 \<notin> set t)))"

lemma getcmd_done_ok:
  assumes "shell_ok sh" "length (l_buf l) = 100" "l_len l < 100" "l_buf l ! l_len l = 0" "0 \<notin> set (take (l_len l) (l_buf l))"
  shows "line_read sh (getcmd_done l sh)"
proof -
  obtain s1 where s1: "save_history (l_buf l) (l_len l) sh = Inr s1" "shell_ok s1" "sh_in s1 = sh_in sh"
    using save_history_ok [OF assms(1-3)] by blast
  have "l_buf l = take (l_len l) (l_buf l) @ 0 # drop (Suc (l_len l)) (l_buf l)" using assms(2-4) by (metis id_take_nth_drop)
  then have "\<exists>t zs. l_buf l = t @ 0 # zs \<and> 0 \<notin> set t" using assms(5) by blast
  moreover have "shell_ok (emit (Consolemode 0) s1)" "sh_in (emit (Consolemode 0) s1) = sh_in sh"
    using s1(2,3) by (simp_all add: emit_def shell_ok_def)
  ultimately show ?thesis using s1(1) assms(2) by (simp add: getcmd_done_def line_read_def)
qed

lemma line_read_fed: "fed sh sh1 \<Longrightarrow> line_read sh1 r \<Longrightarrow> line_read sh r"
  by (auto simp: line_read_def fed_def) blast+

lemma getcmd_loop_ok:
  assumes "dir_ok dir" "\<And>ds. dir = Some ds \<Longrightarrow> \<not> lone ds"
  shows "line_ok sh l \<Longrightarrow> shell_ok sh \<Longrightarrow> 0 \<notin> set (sh_in sh) \<Longrightarrow> line_read sh (getcmd_loop J dir 100 l sh)"
proof (induction "length (sh_in sh)" arbitrary: sh l rule: less_induct)
  case less
  obtain t c where h: "holds t c l" using less.prems(1) by (rule line_okE)
  note H = holdsD [OF h]
  show ?case
  proof (cases "l_len l + 1 < 100")
    case False
    have "line_read sh (getcmd_done l sh)" using H(1-5) by (intro getcmd_done_ok [OF less.prems(2)]) auto
    then show ?thesis using False by (subst getcmd_loop.simps) simp
  next
    case True
    show ?thesis
    proof (cases "sh_in sh")
      case Nil
      then have "line_read sh (Inr (-1, l_buf l, emit (Consolemode 0) sh))"
        using less.prems(2) H(1) by (simp add: line_read_def emit_def shell_ok_def)
      then show ?thesis using True Nil by (subst getcmd_loop.simps) simp
    next
      case (Cons k ks)
      let ?s = "sh\<lparr>sh_in := ks\<rparr>"
      have f: "fed sh ?s" using Cons by (auto simp: fed_def)
      have ok: "line_ok ?s l" "shell_ok ?s" using less.prems fed_ok [OF f] by auto
      have i: "k \<noteq> 0" "0 \<notin> set (sh_in ?s)" using Cons less.prems(3) by auto
      note K = getcmd_key_ok [OF ok assms i True, of J]
      show ?thesis
      proof (cases "getcmd_key J dir 100 k l ?s")
        case (Inl e)
        then show ?thesis using K by (simp add: key_ok_def)
      next
        case (Inr key)
        show ?thesis
        proof (cases key)
          case (Again l' s')
          have s: "fed ?s s'" "line_ok s' l'" using K Inr Again by (simp_all add: key_ok_def)
          have "length (sh_in s') < length (sh_in sh)" using getcmd_key_in [of J dir 100 k l ?s l' s'] Inr Again Cons by simp
          moreover have "shell_ok s'" "0 \<notin> set (sh_in s')" using fed_ok(1) [OF s(1) ok(2)] s(1) i(2) by (auto simp: fed_def)
          ultimately have "line_read s' (getcmd_loop J dir 100 l' s')" using s(2) by (intro less.hyps) auto
          from line_read_fed [OF fedI(3) [OF f s(1)] this] show ?thesis using True Cons Inr Again by (subst getcmd_loop.simps) simp
        next
          case (Enter l' s')
          have s: "fed ?s s'" "length (l_buf l') = 100" "l_len l' < 100" "l_buf l' ! l_len l' = 0" "0 \<notin> set (take (l_len l') (l_buf l'))"
            using K Inr Enter by (simp_all add: key_ok_def)
          have "line_read s' (getcmd_done l' s')" using fed_ok(1) [OF s(1) ok(2)] s(2-5) by (rule getcmd_done_ok)
          from line_read_fed [OF fedI(3) [OF f s(1)] this] show ?thesis using True Cons Inr Enter by (subst getcmd_loop.simps) simp
        next
          case (Quit s')
          have s: "fed ?s s'" using K Inr Quit by (simp add: key_ok_def)
          then have "shell_ok s'" "set (sh_in s') \<subseteq> set (sh_in sh)" using fed_ok(1) [OF s ok(2)] fedI(3) [OF f s] by (auto simp: fed_def)
          then have "line_read sh (Inr (-1, l_buf l, s'))" using H(1) by (simp add: line_read_def)
          then show ?thesis using True Cons Inr Quit by (subst getcmd_loop.simps) simp
        qed
      qed
    qed
  qed
qed

lemma getcmd_ok:
  assumes "dir_ok dir" "\<And>ds. dir = Some ds \<Longrightarrow> \<not> lone ds" "shell_ok sh" "0 \<notin> set (sh_in sh)" "length buf = 100"
  shows "line_read sh (getcmd J dir buf sh)"
proof -
  let ?s = "emit (Write 2 [36, 32]) (emit (Consolemode 1) sh)"
  let ?l = "\<lparr>l_buf = replicate 100 0, l_len = 0, l_cursor = 0, l_hpos = nhistory ?s, l_saved = False, l_draft = replicate 100 0\<rparr>"
  have f: "fed sh ?s" by (intro fedI(1) drawnI(3) [OF drawnI(2) drawnI(2)])
  have "replicate 100 (0 :: u8) = 0 # replicate 99 0" by (simp add: numeral_eq_Suc)
  then have "holds [] 0 ?l" by (simp add: holds_def)
  then have "line_ok ?s ?l" by (rule line_okI) (simp_all add: row_ok_def)
  moreover have "shell_ok ?s" "0 \<notin> set (sh_in ?s)" using fed_ok(1) [OF f assms(3)] f assms(4) by (auto simp: fed_def)
  ultimately have "line_read ?s (getcmd_loop J dir 100 ?l ?s)" by (intro getcmd_loop_ok assms)
  from line_read_fed [OF f this] show ?thesis using assms(5) by (simp add: getcmd_def Let_def)
qed

section \<open>Properties\<close>


definition start_shell :: "u8 list \<Rightarrow> shell" where
  "start_shell inp = \<lparr>sh_in = inp, sh_out = [], sh_history = replicate HISTSIZE (replicate 100 0), nhistory = 0\<rparr>"

lemma start_shell_ok: "shell_ok (start_shell inp)" "sh_in (start_shell inp) = inp"
  by (simp_all add: shell_ok_def start_shell_def row_ok_def)


lemma complete_token_quote:
  assumes h: "holds [34] 0 l" and d: "dir_ok (Some ds)" "length (filter (\<lambda>(i, de). i \<noteq> 0 \<and> visible True (entry_name de)) ds) = 1"
  shows "complete_token J (Some ds) l 100 = Inl BadAccess"
proof -
  note H = holdsD [OF h]
  obtain zs where b: "l_buf l = 34 # 0 # zs" using H(4) by auto
  have "length (hits True 0 (0 # zs) ds) = 1" using d(2) by (simp add: hits_all)
  then obtain m where m: "scan_dir True (0 # zs) (- 1) ds (stack J 15) (stack J 15) 0 = Inr (m, 1)"
    using scan_dir_spec [of ds "-1" "0 # zs" "stack J 15" "stack J 15" True 0] d(1) by (auto simp: dir_ok_def stack_def)
  show ?thesis using H b m by (simp add: complete_token_def Let_def blank_char_def quote_char_def first_token_def)
qed

text \<open>
  C30: completion reads outside its arrays when the cursor stands on the quote that opens a word: the
  prefix then seems to begin behind the cursor and its length is -1.  In a directory with one command,
  typing a double quote, moving left and pressing the tabulator reads the byte before the matched name.\<close>

theorem quote_tab_reads_outside:
  assumes "length (filter (\<lambda>(i, de). i \<noteq> 0 \<and> visible True (entry_name de)) ds) = 1" "\<forall>(i, de)\<in>set ds. length de = 14"
    "length buf = 100" "sh_in sh = [34, 0x1B, 91, 68, 9] @ rest"
  shows "getcmd J (Some ds) buf sh = Inl BadAccess"
proof -
  let ?s = "emit (Write 2 [36, 32]) (emit (Consolemode 1) sh)"
  define l where "l = \<lparr>l_buf = replicate 100 0, l_len = 0, l_cursor = 0, l_hpos = nhistory ?s, l_saved = False, l_draft = replicate 100 (0 :: u8)\<rparr>"
  have "replicate 100 (0 :: u8) = 0 # replicate 99 0" by (simp add: numeral_eq_Suc)
  then have h0: "holds [] 0 l" by (simp add: holds_def l_def)
  obtain b where b: "insert_bytes l 100 [34] 1 = Inr (1, l\<lparr>l_buf := b, l_len := 1, l_cursor := 1\<rparr>)"
      "holds [34] 1 (l\<lparr>l_buf := b, l_len := 1, l_cursor := 1\<rparr>)"
    using insert_bytes_holds [OF h0, of 1 "[34]"] by auto
  let ?l1 = "l\<lparr>l_buf := b, l_len := 1, l_cursor := 1\<rparr>" let ?l2 = "l\<lparr>l_buf := b, l_len := 1, l_cursor := 0\<rparr>"
  let ?s1 = "emit (Write 2 [34]) (?s\<lparr>sh_in := [0x1B, 91, 68, 9] @ rest\<rparr>)"
  have k1: "getcmd_key J (Some ds) 100 34 l (?s\<lparr>sh_in := [0x1B, 91, 68, 9] @ rest\<rparr>) = Inr (Again ?l1 ?s1)"
    using b(1) by (simp add: getcmd_key_def getcmd_text_def utf8_input_len_def Let_def write2_def l_def)
  obtain zs where z: "b = 34 # 0 # zs" using holdsD(4) [OF b(2)] by auto
  have p: "utf8_prev b 1 = Inr 0" by (simp add: utf8_prev_def)
  obtain w where w: "utf8_text_width b 0 1 = Inr w" "w < 1000" using utf8_text_width_ok [of 0 1 b] z by auto
  obtain s2 where s2: "move_cursor J 68 w (?s1\<lparr>sh_in := 9 # rest\<rparr>) = Inr s2" "sh_in s2 = 9 # rest"
    using move_cursor_drawn [OF w(2), of J 68 "?s1\<lparr>sh_in := 9 # rest\<rparr>"] drawnD by fastforce
  have k2: "getcmd_key J (Some ds) 100 0x1B ?l1 (?s1\<lparr>sh_in := [91, 68, 9] @ rest\<rparr>) = Inr (Again ?l2 s2)"
    using p w(1) s2(1) by (simp add: getcmd_key_def getcmd_esc_def read1_def getcmd_left_def emit_def)
  have h2: "holds [34] 0 ?l2" using b(2) by (simp add: holds_def)
  have k3: "getcmd_key J (Some ds) 100 9 ?l2 (s2\<lparr>sh_in := rest\<rparr>) = Inl BadAccess"
    using complete_token_quote [OF h2 _ assms(1)] assms(2) by (simp add: getcmd_key_def getcmd_tab_def Let_def dir_ok_def)
  have "getcmd_loop J (Some ds) 100 ?l2 s2 = Inl BadAccess" using s2(2) k3 by (subst getcmd_loop.simps) simp
  then have "getcmd_loop J (Some ds) 100 ?l1 ?s1 = Inl BadAccess" using k2 by (subst getcmd_loop.simps) (simp add: emit_def)
  then have "getcmd_loop J (Some ds) 100 l ?s = Inl BadAccess" using k1 assms(4) by (subst getcmd_loop.simps) (simp add: emit_def l_def)
  then show ?thesis using assms(3) by (simp add: getcmd_def Let_def l_def)
qed

theorem quote_tab_reads_outside_witness:
  "getcmd (\<lambda>_. 0) (Some [(1, [46, 0, 0, 0, 0, 0, 0, 0, 0, 0, 0, 0, 0, 0]), (2, [108, 115, 0, 0, 0, 0, 0, 0, 0, 0, 0, 0, 0, 0])]) (replicate 100 0) (start_shell [34, 0x1B, 91, 68, 9]) = Inl BadAccess"
  by (rule quote_tab_reads_outside [where rest = "[]"])
    (simp_all add: start_shell_ok visible_def entry_name_def)

end
