(* ===== verification/Typing.thy ===== *)
theory Typing
  imports Editor
begin

text \<open>
  A command line typed at the prompt, from the keys to the program that is run.
\<close>

definition plain :: "u8 \<Rightarrow> bool" where
  "plain c \<longleftrightarrow> 32 \<le> c \<and> c < 127"

lemma plain_key:
  assumes h: "holds t (length t) l" and c: "plain c" and n: "length t + 1 < 100"
  shows "\<exists>b. getcmd_key J dir 100 c l sh = Inr (Again (l\<lparr>l_buf := b, l_len := length t + 1, l_cursor := length t + 1\<rparr>) (emit (Write 2 [c]) sh))
    \<and> holds (t @ [c]) (length (t @ [c])) (l\<lparr>l_buf := b, l_len := length t + 1, l_cursor := length t + 1\<rparr>)"
proof -
  note H = holdsD [OF h]
  have u: "unat c < 127" "32 \<le> unat c" using c by (simp_all add: plain_def word_less_nat_alt word_le_nat_alt)
  have ne: "c \<noteq> 0x1B" "c \<noteq> 9" "c \<noteq> 4" "c \<noteq> 21" "c \<noteq> 8" "c \<noteq> 127" "c \<noteq> 10" "c \<noteq> 13" "c \<noteq> 0" using u by auto
  have il: "utf8_input_len c = 1" using u(1) by (simp add: utf8_input_len_def word_less_nat_alt)
  obtain b where b: "insert_bytes l 100 [c] 1 = Inr (1, l\<lparr>l_buf := b, l_len := length t + 1, l_cursor := length t + 1\<rparr>)"
      "holds (t @ [c]) (length t + 1) (l\<lparr>l_buf := b, l_len := length t + 1, l_cursor := length t + 1\<rparr>)"
    using insert_bytes_holds [OF h, of 1 "[c]"] n ne(9) by auto
  then have "getcmd_key J dir 100 c l sh = Inr (Again (l\<lparr>l_buf := b, l_len := length t + 1, l_cursor := length t + 1\<rparr>) (emit (Write 2 [c]) sh))"
    using ne il H by (simp add: getcmd_key_def getcmd_text_def Let_def write2_def)
  then show ?thesis using b(2) by auto
qed

lemma typed_loop:
  "holds t (length t) l \<Longrightarrow> \<forall>c\<in>set xs. plain c \<Longrightarrow> length t + length xs < 99 \<Longrightarrow> sh_in sh = xs @ 10 # rest \<Longrightarrow> shell_ok sh
    \<Longrightarrow> \<exists>zs sh'. getcmd_loop J dir 100 l sh = Inr (0, (t @ xs @ [10]) @ 0 # zs, sh') \<and> shell_ok sh' \<and> sh_in sh' = rest \<and> length ((t @ xs @ [10]) @ 0 # zs) = 100"
proof (induction xs arbitrary: t l sh)
  case Nil
  note H = holdsD [OF Nil(1)]
  obtain zs where b: "l_buf l = t @ 0 # zs" "length zs = 99 - length t" using H(4) by blast
  obtain y ys where y: "zs = y # ys" using b(2) Nil(3) by (cases zs) auto
  let ?s = "emit (Write 2 [10]) (sh\<lparr>sh_in := rest\<rparr>)" and ?b = "t @ 10 # 0 # ys"
  have e: "(l_buf l)[length t := 10, length t + 1 := 0] = ?b" using b(1) y by (simp add: list_update_append)
  have lb: "length ?b = 100" using b(2) y Nil(3) by simp
  have w: "wr (l_buf l) (length t) 10 = Inr ((l_buf l)[length t := 10])" "wr ((l_buf l)[length t := 10]) (length t + 1) 0 = Inr ?b"
    using H(1,3) Nil(3) e by simp_all
  have "shell_ok ?s" using Nil(5) by (simp add: emit_def shell_ok_def)
  then obtain s1 where s1: "save_history ?b (length t + 1) ?s = Inr s1" "shell_ok s1" "sh_in s1 = sh_in ?s"
    using save_history_ok [OF _ lb, of ?s "length t + 1"] Nil(3) by auto
  have k: "getcmd_key J dir 100 10 l (sh\<lparr>sh_in := rest\<rparr>) = Inr (Enter (l\<lparr>l_buf := ?b, l_len := length t + 1\<rparr>) ?s)"
    unfolding getcmd_key_def H(2) w(1) rbind_simps w(2) by simp
  have "getcmd_loop J dir 100 l sh = Inr (0, ?b, emit (Consolemode 0) s1)"
    using Nil(3,4) H(2) k s1(1) by (subst getcmd_loop.simps) (simp add: getcmd_done_def)
  then show ?case using s1(2,3) lb by (intro exI [of _ ys] exI [of _ "emit (Consolemode 0) s1"]) (simp add: emit_def shell_ok_def)
next
  case (Cons x xs)
  have x: "plain x" "length t + 1 < 100" using Cons.prems(2,3) by auto
  let ?s = "sh\<lparr>sh_in := xs @ 10 # rest\<rparr>"
  obtain b where b: "getcmd_key J dir 100 x l ?s = Inr (Again (l\<lparr>l_buf := b, l_len := length t + 1, l_cursor := length t + 1\<rparr>) (emit (Write 2 [x]) ?s))"
      "holds (t @ [x]) (length (t @ [x])) (l\<lparr>l_buf := b, l_len := length t + 1, l_cursor := length t + 1\<rparr>)"
    using plain_key [OF Cons.prems(1) x, of J dir ?s] by blast
  let ?l = "l\<lparr>l_buf := b, l_len := length t + 1, l_cursor := length t + 1\<rparr>" and ?s' = "emit (Write 2 [x]) ?s"
  have "\<exists>zs sh'. getcmd_loop J dir 100 ?l ?s' = Inr (0, ((t @ [x]) @ xs @ [10]) @ 0 # zs, sh') \<and> shell_ok sh' \<and> sh_in sh' = rest
      \<and> length (((t @ [x]) @ xs @ [10]) @ 0 # zs) = 100"
    using Cons.prems b(2) by (intro Cons.IH) (simp_all add: emit_def shell_ok_def)
  then show ?case using Cons.prems(3,4) holdsD(2) [OF Cons.prems(1)] b(1) by (subst getcmd_loop.simps) simp
qed

lemma typed_line:
  assumes "\<forall>c\<in>set xs. plain c" "length xs < 99" "sh_in sh = xs @ 10 # rest" "shell_ok sh" "length buf = 100"
  shows "\<exists>zs sh'. getcmd J dir buf sh = Inr (0, (xs @ [10]) @ 0 # zs, sh') \<and> shell_ok sh' \<and> sh_in sh' = rest \<and> length ((xs @ [10]) @ 0 # zs) = 100"
proof -
  let ?s = "emit (Write 2 [36, 32]) (emit (Consolemode 1) sh)"
  let ?l = "\<lparr>l_buf = replicate 100 0, l_len = 0, l_cursor = 0, l_hpos = nhistory ?s, l_saved = False, l_draft = replicate 100 0\<rparr>"
  have "replicate 100 (0 :: u8) = 0 # replicate 99 0" by (simp add: numeral_eq_Suc)
  then have "holds [] (length []) ?l" by (simp add: holds_def)
  from typed_loop [OF this assms(1), of ?s rest J dir] show ?thesis using assms(2-5) by (simp add: getcmd_def Let_def emit_def shell_ok_def)
qed

lemma plain_not_zero: "\<forall>c\<in>set xs. plain c \<Longrightarrow> 0 \<notin> set (xs @ [10])"
  by (auto simp: plain_def)

section \<open>Property\<close>

text \<open>
  C26: a typed command runs.  For a line of printable characters shorter than the buffer, followed by
  the enter key, with at least one and at most nine words, one round of the shell's main loop reads exactly
  that line, forks, and the child runs the program with the words of the line as arguments; the
  rest of the input is left for the next round.\<close>

theorem shell_runs_line:
  assumes "\<forall>c\<in>set xs. plain c" "length xs < 99" "sh_in sh = xs @ 10 # rest" "shell_ok sh" "length buf = 100"
    and "words (xs @ [10]) \<noteq> []" "length (words (xs @ [10])) < MAXARGS" "pid \<noteq> -1"
  shows "\<exists>buf' sh' o'. main_step J dir pid buf sh = Inr (True, buf', sh') \<and> shell_ok sh' \<and> sh_in sh' = rest
    \<and> sh_out sh' = o' @ [Run (words (xs @ [10])), Wait, Write 2 [10]]"
proof -
  obtain zs s where g: "getcmd J dir buf sh = Inr (0, (xs @ [10]) @ 0 # zs, s)" "shell_ok s" "sh_in s = rest"
    using typed_line [OF assms(1-5)] by blast
  note z = plain_not_zero [OF assms(1)]
  obtain b argv where p: "parsecmd ((xs @ [10]) @ 0 # zs) = Inr (b, argv)" "map (arg_at b) argv = words (xs @ [10])"
    using args_parsed [OF z assms(7), of zs] by blast
  then have "argv \<noteq> []" using assms(6) by auto
  then show ?thesis using g p assms(8) by (simp add: main_step_def fork1_def emit_def shell_ok_def)
qed

theorem shell_runs_line_witness:
  "\<exists>buf sh o'. main_step (\<lambda>_. 0) None 5 (replicate 100 0) (start_shell [101, 99, 104, 111, 32, 104, 105, 10]) = Inr (True, buf, sh)
     \<and> sh_out sh = o' @ [Run [[101, 99, 104, 111], [104, 105]], Wait, Write 2 [10]]"
proof -
  have w: "words ([101, 99, 104, 111, 32, 104, 105] @ [10]) = [[101, 99, 104, 111], [104, 105]]"
    by (simp add: words.simps blank_char_def quote_char_def)
  show ?thesis
    using shell_runs_line [of "[101, 99, 104, 111, 32, 104, 105]" "start_shell [101, 99, 104, 111, 32, 104, 105, 10]" "[]" "replicate 100 0" 5 "\<lambda>_. 0" None]
    unfolding w by (auto simp: start_shell_ok plain_def MAXARGS_def)
qed

end
