(* ===== verification/Spec2Isabelle.thy ===== *)
theory Spec2Isabelle
  imports Vmprops Trap Paths Fork Typing
begin

text \<open>
  A verification library of the teaching operating system under \<^verbatim>\<open>src/\<close>: a kernel for 64-bit RISC-V
  (\<^verbatim>\<open>src/kernel\<close>), its user programs (\<^verbatim>\<open>src/user\<close>) and the tool that builds its disk image
  (\<^verbatim>\<open>src/tools/mkfs.c\<close>).

  \<^bold>\<open>The program and the model.\<close>  The kernel boots on every hart, builds a page allocator and a page
  table, and then runs processes that trap into it.  The model is a shallow embedding: a C function is
  an Isabelle function on an explicit state, its early returns and error codes are branches, and
  \<^verbatim>\<open>panic\<close> is the value \<open>Inl (Panic msg)\<close>.  The state is a chain of extensible records, one layer
  per component, so that an operation of a lower layer is polymorphic in everything above it:
  \<open>mm_state\<close> (memory, free list), \<open>sync_state\<close> (control registers, CPUs, locks), \<open>proc_state\<close>
  (process table), \<open>bio_state\<close> (buffer cache, disk), \<open>fs_state\<close> (inode table), \<open>file_state\<close> (file
  table), \<open>io_state\<close> (device log), \<open>cons_state\<close> (console), \<open>virtio_state\<close> (disk driver) and
  \<open>kernel_state\<close>.  Memory is a function from 64-bit addresses to bytes; pages, page tables, trap
  frames, buffer data and descriptor rings live there at their C layout.  Machine integers are words of
  their C width.  Pointers into the static tables (processes, buffers, inodes, files) are indices.

  \<^bold>\<open>Theories.\<close>
  \<^item> \<open>Prelude\<close>: machine types, the result type, shared facts on words and lists.
  \<^item> \<open>Riscv\<close>, \<open>Csr\<close>: constants of \<^verbatim>\<open>riscv.h\<close> and \<^verbatim>\<open>memlayout.h\<close>; the control registers.
  \<^item> \<open>Cstring\<close>: loads, stores and \<^verbatim>\<open>kernel/core/string.c\<close>; the loops get their closed forms.
  \<^item> \<open>Pages\<close>, \<open>Ring\<close>: separation facts for pages; circular doubly-linked lists.
  \<^item> \<open>Fdt\<close>: the boot-time device-tree scan, \<^verbatim>\<open>kernel/core/fdt.c\<close>.
  \<^item> \<open>Kalloc\<close>: the page allocator, \<^verbatim>\<open>kernel/mm/kalloc.c\<close>: the free list is well formed, no page is
    handed out twice and none is lost; the locale \<open>page_allocator\<close> is its contract.
  \<^item> \<open>Vm\<close>, \<open>Walk\<close>, \<open>Aspace\<close>, \<open>Uvm\<close>, \<open>Uvmfree\<close>, \<open>Ucopy\<close>, \<open>Vmprops\<close>: \<^verbatim>\<open>kernel/mm/vm.c\<close>; an
    address space is abstracted to a finite map from virtual pages to permissions and contents, and the
    operations refine updates of that map.
  \<^item> \<open>Sync\<close>: \<^verbatim>\<open>kernel/sync/spinlock.c\<close>; the steps of acquire and release on several harts, and mutual
    exclusion for every interleaving.
  \<^item> \<open>Proctab\<close>, \<open>Proc\<close>, \<open>Procmem\<close>, \<open>Fork\<close>: \<^verbatim>\<open>kernel/proc/proc.c\<close>, \<^verbatim>\<open>fpu.c\<close>, \<^verbatim>\<open>sleeplock.c\<close>: scheduling,
    sleeping, process life cycle; a slot is allocated with its memory or given back whole, and \<^verbatim>\<open>kfork\<close>
    makes a child with a copy of its parent's memory, registers, files and directory.
  \<^item> \<open>Bio\<close>, \<open>Cache\<close>: \<^verbatim>\<open>kernel/fs/bio.c\<close>; \<^verbatim>\<open>bread\<close> delivers the disk's block and \<^verbatim>\<open>brelse\<close> keeps the
    recently-used order a permutation of the buffers.
  \<^item> \<open>Fs\<close>, \<open>Fsread\<close>, \<open>Dirs\<close>, \<open>Itable\<close>, \<open>Paths\<close>: \<^verbatim>\<open>kernel/fs/fs.c\<close>; reading, directory search, the inode
    table and path names against specifications that are functions of the disk alone (\<open>file_byte\<close>,
    \<open>dir_find\<close>, \<open>resolve\<close>).
  \<^item> \<open>File\<close>, \<open>Exec\<close>, \<open>Sys\<close>, \<open>Refs\<close>: \<^verbatim>\<open>kernel/fs/file.c\<close>, \<^verbatim>\<open>exec.c\<close>, \<^verbatim>\<open>syscall.c\<close>, \<^verbatim>\<open>sysfile.c\<close>,
    \<^verbatim>\<open>sysproc.c\<close>; a file's reference count is the number of descriptors that name it.
  \<^item> \<open>Uart\<close>, \<open>Printf\<close>, \<open>Console\<close>, \<open>Virtio\<close>: \<^verbatim>\<open>kernel/dev\<close> and \<^verbatim>\<open>kernel/core/printf.c\<close>; a device is a
    parameter that answers register reads after a log of accesses.
  \<^item> \<open>Trap\<close>: \<^verbatim>\<open>trap.c\<close>, the system-call dispatch, \<^verbatim>\<open>start.c\<close> and \<^verbatim>\<open>main.c\<close>.
  \<^item> \<open>Ulib\<close>, \<open>Utf8\<close>: \<^verbatim>\<open>user/lib/ulib.c\<close>, \<^verbatim>\<open>ctype.c\<close>, \<^verbatim>\<open>utf8.c\<close>, \<^verbatim>\<open>term.c\<close>; the user string functions against
    the kernel's, and decoding against the encoding of RFC 3629.
  \<^item> \<open>Shell\<close>, \<open>Parse\<close>, \<open>Editor\<close>, \<open>Typing\<close>: \<^verbatim>\<open>user/bin/sh.c\<close>; the tokenizer against a specification of words and
    quotes, the line editor's invariant for every sequence of keys, and the way from a typed line to
    \<^verbatim>\<open>exec\<close>.

  \<^bold>\<open>User programs.\<close>  A user array is a list of bytes, read and written through \<open>rd\<close>, \<open>wr\<close> and \<open>blit\<close>,
  which answer \<open>BadAccess\<close> out of bounds.  Arrays that C leaves uninitialised take their bytes from a
  parameter.  System calls are events of a trace, and input is a list of the bytes \<^verbatim>\<open>read\<close> returns.

  \<^bold>\<open>Concurrency.\<close>  The spin-lock protocol itself is verified at the granularity of its atomic steps
  (\<open>Sync\<close>).  Above it, a critical section whose spin lock is acquired and released in one function is one
  atomic action and the pair is not written.  Locks held across a context switch are explicit: a process's
  own lock, the condition lock of \<^verbatim>\<open>sleep\<close>, \<^verbatim>\<open>wait_lock\<close> in \<^verbatim>\<open>kexit\<close>.  A path that would sleep ends in
  \<open>Inl Block\<close>, or, for the routines that sleep by design, in an explicit pair of halves before and after
  the switch (\<open>sched\<close> and \<open>sched_back\<close>, \<open>sleep\<close> and \<open>sleep_back\<close>).

  \<^bold>\<open>Fuel.\<close>  Loops whose end depends on data carry a bound: page loops one turn more than the number of
  pages in the range, list walks the number of nodes, digit loops 64, format loops the length of the format.
  \<open>NoFuel\<close> marks a bound that did not suffice; the lemmas show where it cannot occur.  Polling loops take
  their bound from the device (\<open>d_patience\<close>) and hold for devices that answer within it.

  \<^bold>\<open>Not modelled.\<close>  The assembly files (\<^verbatim>\<open>entry.S\<close>, \<^verbatim>\<open>swtch.S\<close>, \<^verbatim>\<open>trampoline.S\<close>, \<^verbatim>\<open>kernelvec.S\<close>, \<^verbatim>\<open>fpu.S\<close>)
  except for what their callers rely on: they move registers and would need a semantics of the processor.
  TLB and memory-ordering effects.  The language-model runner and its arithmetic (\<^verbatim>\<open>llm.c\<close>, \<^verbatim>\<open>math.c\<close>,
  \<^verbatim>\<open>next.c\<close>), which compute on floating-point numbers; the user allocator and \<^verbatim>\<open>printf\<close>; the small programs
  \<^verbatim>\<open>cat\<close>, \<^verbatim>\<open>ls\<close>, \<^verbatim>\<open>init\<close>, \<^verbatim>\<open>memwhy\<close>; the image builder \<^verbatim>\<open>tools/mkfs.c\<close>.  The build system and scripts.
\<close>

end
